(* ===== verification/Prelude.thy ===== *)
theory Prelude
  imports Main "HOL-Library.Word" "HOL-Library.Signed_Division"
begin

text \<open>
  What the component theories share: the integer types of C at their width, the outcome of
  code that may fault and how it is passed on, the kernel allocator as an explicit
  parameter, splicing bytes into a block, and six interfaces as locales. \<open>relation_inv\<close> lifts an
  invariant of a step relation to the states it reaches, \<open>explored\<close> is the case of finitely many states
  and \<open>finite_program\<close> that of programs which can always be brought to an end,
  \<open>transition_inv\<close> lifts an invariant of single operations to runs; \<open>queue\<close> is the contract of a first-in first-out queue, from which the
  ordering of everything that went through it follows once for all clients, and \<open>fifo\<close> that of
  a queue of bounded capacity.
\<close>

named_theorems c_arith \<open>wrap-around disappears for values that fit their C type\<close>
named_theorems kmem_simps \<open>how the allocator's counters move\<close>

section \<open>C integers\<close>

text \<open>
  Integers whose overflow matters are \<open>int\<close> with the conversion to the C type written out.
  The kernel and the 32-bit code here are compiled with wrapping signed arithmetic.
\<close>

type_synonym byte = "8 word"

definition u32 :: "int \<Rightarrow> int" where
  "u32 x = x mod 2 ^ 32"

definition s32 :: "int \<Rightarrow> int" where
  "s32 x = (x + 2 ^ 31) mod 2 ^ 32 - 2 ^ 31"

definition u64 :: "int \<Rightarrow> int" where
  "u64 x = x mod 2 ^ 64"

definition s64 :: "int \<Rightarrow> int" where
  "s64 x = (x + 2 ^ 63) mod 2 ^ 64 - 2 ^ 63"

lemma u32_id [c_arith]: "0 \<le> x \<Longrightarrow> x < 2 ^ 32 \<Longrightarrow> u32 x = x"
  by (simp add: u32_def)

lemma s32_id [c_arith]: "- (2 ^ 31) \<le> x \<Longrightarrow> x < 2 ^ 31 \<Longrightarrow> s32 x = x"
  by (simp add: s32_def)

lemma u64_id [c_arith]: "0 \<le> x \<Longrightarrow> x < 2 ^ 64 \<Longrightarrow> u64 x = x"
  by (simp add: u64_def)

lemma s64_id [c_arith]: "- (2 ^ 63) \<le> x \<Longrightarrow> x < 2 ^ 63 \<Longrightarrow> s64 x = x"
  by (simp add: s64_def)

lemma u32_bounds: "0 \<le> u32 x \<and> u32 x < 2 ^ 32"
  by (simp add: u32_def)

lemma s32_bounds: "- (2 ^ 31) \<le> s32 x \<and> s32 x < 2 ^ 31"
proof -
  have "0 \<le> (x + 2 ^ 31) mod 2 ^ 32" and "(x + 2 ^ 31) mod 2 ^ 32 < (2 ^ 32 :: int)"
    by simp_all
  then show ?thesis unfolding s32_def by simp
qed

lemma u64_bounds: "0 \<le> u64 x \<and> u64 x < 2 ^ 64"
  by (simp add: u64_def)

text \<open>C division rounds towards zero; on non-negative operands it is \<open>div\<close> and \<open>mod\<close>.\<close>

lemma sdiv_nonneg [c_arith]: "0 \<le> (a::int) \<Longrightarrow> 0 < b \<Longrightarrow> a sdiv b = a div b"
  by (cases "a = 0") (simp_all add: signed_divide_int_def)

lemma smod_nonneg [c_arith]: "0 \<le> (a::int) \<Longrightarrow> 0 < b \<Longrightarrow> a smod b = a mod b"
  by (cases "a = 0") (simp_all add: signed_modulo_int_def)

section \<open>Faults and error numbers\<close>

text \<open>What the hardware or the memory would do to code that misbehaves.\<close>

datatype fault = DivByZero | OutOfBounds | NullDeref | InfiniteLoop | UseAfterFree | Uninitialised

text \<open>A step of code that may fail, followed by the rest.\<close>

definition bindE :: "'e + 'a \<Rightarrow> ('a \<Rightarrow> 'e + 'b) \<Rightarrow> 'e + 'b" where
  "bindE x f = (case x of Inl e \<Rightarrow> Inl e | Inr v \<Rightarrow> f v)"

lemma bindE_simps [simp]: "bindE (Inl e) f = Inl e" "bindE (Inr v) f = f v"
  by (simp_all add: bindE_def)

lemma bindE_assoc [simp]: "bindE (bindE x f) g = bindE x (\<lambda>v. bindE (f v) g)"
  by (cases x) simp_all

lemma bindE_Inr [simp]: "bindE x Inr = x"
  by (cases x) simp_all

lemma bindE_eq_Inr: "bindE x f = Inr y \<longleftrightarrow> (\<exists>v. x = Inr v \<and> f v = Inr y)"
  by (cases x) simp_all

lemma bindE_InrE:
  assumes "bindE x f = Inr y"
  obtains v where "x = Inr v" and "f v = Inr y"
  using assms by (auto simp: bindE_eq_Inr)

abbreviation (input) EPERM :: int where "EPERM \<equiv> 1"
abbreviation (input) EAGAIN :: int where "EAGAIN \<equiv> 11"
abbreviation (input) ENOMEM :: int where "ENOMEM \<equiv> 12"
abbreviation (input) EFAULT :: int where "EFAULT \<equiv> 14"
abbreviation (input) EBUSY :: int where "EBUSY \<equiv> 16"
abbreviation (input) EINVAL :: int where "EINVAL \<equiv> 22"
abbreviation (input) ENOTTY :: int where "ENOTTY \<equiv> 25"
abbreviation (input) ERESTARTSYS :: int where "ERESTARTSYS \<equiv> 512"

section \<open>The kernel allocator\<close>

text \<open>
  \<open>kmalloc\<close> is code of the Linux kernel. Its outcome is a parameter: \<open>ok n sz\<close> says whether
  the \<open>n\<close>-th request, for \<open>sz\<close> bytes, is served. The state counts the requests made and the
  blocks handed out and not yet freed. A fresh block has indeterminate bytes, the cell \<open>None\<close>.
\<close>

type_synonym kmalloc_ok = "nat \<Rightarrow> int \<Rightarrow> bool"
type_synonym cell = "byte option"

record kmem =
  km_calls :: nat
  km_live :: int

definition kmalloc :: "kmalloc_ok \<Rightarrow> int \<Rightarrow> kmem \<Rightarrow> bool \<times> kmem" where
  "kmalloc ok sz km =
     (if ok (km_calls km) sz
      then (True, km\<lparr>km_calls := Suc (km_calls km), km_live := km_live km + 1\<rparr>)
      else (False, km\<lparr>km_calls := Suc (km_calls km)\<rparr>))"

definition kfree :: "'a option \<Rightarrow> kmem \<Rightarrow> kmem" where
  "kfree p km = (case p of None \<Rightarrow> km | Some _ \<Rightarrow> km\<lparr>km_live := km_live km - 1\<rparr>)"

lemma kfree_simps [simp]:
  "kfree None km = km"
  "kfree (Some x) km = km\<lparr>km_live := km_live km - 1\<rparr>"
  by (simp_all add: kfree_def)

lemma kmalloc_True [kmem_simps]:
  "kmalloc ok sz km = (True, km') \<Longrightarrow> km_live km' = km_live km + 1"
  by (auto simp: kmalloc_def split: if_splits)

lemma kmalloc_False [kmem_simps]:
  "kmalloc ok sz km = (False, km') \<Longrightarrow> km_live km' = km_live km"
  by (auto simp: kmalloc_def split: if_splits)

section \<open>Splicing bytes into a block\<close>

definition splice_at :: "nat \<Rightarrow> 'a list \<Rightarrow> 'a list \<Rightarrow> 'a list" where
  "splice_at off xs blk = take off blk @ xs @ drop (off + length xs) blk"

lemma length_splice_at [simp]:
  "off + length xs \<le> length blk \<Longrightarrow> length (splice_at off xs blk) = length blk"
  by (simp add: splice_at_def)

lemma nth_splice_at:
  "off + length xs \<le> length blk \<Longrightarrow> i < length blk \<Longrightarrow>
   splice_at off xs blk ! i =
     (if off \<le> i \<and> i < off + length xs then xs ! (i - off) else blk ! i)"
  by (auto simp: splice_at_def nth_append min_def)

lemma splice_at_Nil [simp]: "splice_at off [] blk = blk"
  by (simp add: splice_at_def)

lemma take_drop_splice_at:
  "off + length xs \<le> length blk \<Longrightarrow> take (length xs) (drop off (splice_at off xs blk)) = xs"
  by (simp add: splice_at_def)

section \<open>Circular buffers\<close>

lemma mod_add_inj:
  assumes "i < n" and "n < (m::nat)"
  shows "(t + n) mod m \<noteq> (t + i) mod m"
proof
  assume "(t + n) mod m = (t + i) mod m"
  then have "m dvd (t + n) - (t + i)" using assms by (simp add: mod_eq_dvd_iff_nat)
  then have "m dvd n - i" by simp
  then show False using assms by (auto dest: dvd_imp_le)
qed

section \<open>Sums over lists\<close>

lemma sum_list_update_int: "i < length xs \<Longrightarrow> sum_list (xs[i := x]) = sum_list xs + x - (xs ! i :: int)"
proof (induction xs arbitrary: i)
  case (Cons a xs)
  then show ?case by (cases i) simp_all
qed simp

section \<open>Runs of operations\<close>

fun run_ops :: "('op \<Rightarrow> 's \<Rightarrow> 's) \<Rightarrow> 'op list \<Rightarrow> 's \<Rightarrow> 's" where
  "run_ops step [] s = s"
| "run_ops step (x # xs) s = run_ops step xs (step x s)"

fun out_ops :: "('op \<Rightarrow> 's \<Rightarrow> 's) \<Rightarrow> ('op \<Rightarrow> 's \<Rightarrow> 'a list) \<Rightarrow> 'op list \<Rightarrow> 's \<Rightarrow> 'a list" where
  "out_ops step out [] s = []"
| "out_ops step out (x # xs) s = out x s @ out_ops step out xs (step x s)"

text \<open>An invariant that every step of a relation keeps holds in every state the relation reaches.\<close>

locale relation_inv =
  fixes rel :: "'s \<Rightarrow> 's \<Rightarrow> bool"
    and inv :: "'s \<Rightarrow> bool"
  assumes inv_rel: "rel s s' \<Longrightarrow> inv s \<Longrightarrow> inv s'"
begin

lemma inv_reached: "rel\<^sup>*\<^sup>* s s' \<Longrightarrow> inv s \<Longrightarrow> inv s'"
  by (induction rule: rtranclp_induct) (auto intro: inv_rel)

end

text \<open>
  For small systems the invariant is a list of states that no step leaves. \<open>explore\<close> finds it, with
  \<open>n\<close> states looked at; that the list is closed is checked afterwards.
\<close>

fun explore :: "nat \<Rightarrow> ('s \<Rightarrow> 's list) \<Rightarrow> 's list \<Rightarrow> 's list \<Rightarrow> 's list" where
  "explore 0 succs todo seen = seen"
| "explore (Suc n) succs [] seen = seen"
| "explore (Suc n) succs (s # todo) seen =
     (if s \<in> set seen then explore n succs todo seen else explore n succs (succs s @ todo) (s # seen))"

lemma explore_reached:
  "t \<in> set (explore n succs todo seen) \<Longrightarrow> t \<in> set seen \<or> (\<exists>s \<in> set todo. (\<lambda>s t. t \<in> set (succs s))\<^sup>*\<^sup>* s t)"
proof (induction n succs todo seen rule: explore.induct)
  case (3 n succs s todo seen)
  then show ?case by (auto split: if_splits) (meson converse_rtranclp_into_rtranclp)
qed auto

locale explored =
  fixes succs :: "'s \<Rightarrow> 's list"
    and states :: "'s list"
  assumes closed: "list_all (\<lambda>s. list_all (\<lambda>t. t \<in> set states) (succs s)) states"

sublocale explored \<subseteq> relation_inv "\<lambda>s t. t \<in> set (succs s)" "\<lambda>s. s \<in> set states"
  using closed by unfold_locales (auto simp: list_all_iff)

text \<open>Programs that can be brought to an end from every state they get into.\<close>

locale finite_program = explored succs states
  for succs :: "'s \<Rightarrow> 's list" and states :: "'s list" +
  fixes start :: 's
    and ended :: "'s \<Rightarrow> bool"
    and n :: nat
  assumes start_in: "start \<in> set states"
    and ends: "list_all (\<lambda>s. list_ex ended (explore n succs [s] [])) states"
begin

lemma reached_in: "(\<lambda>s t. t \<in> set (succs s))\<^sup>*\<^sup>* start s \<Longrightarrow> s \<in> set states"
  using inv_reached start_in by blast

lemma can_end:
  assumes "(\<lambda>s t. t \<in> set (succs s))\<^sup>*\<^sup>* start s"
  shows "\<exists>t. (\<lambda>s t. t \<in> set (succs s))\<^sup>*\<^sup>* s t \<and> ended t"
proof -
  obtain t where "t \<in> set (explore n succs [s] [])" "ended t"
    using ends reached_in [OF assms] by (auto simp: list_all_iff list_ex_iff)
  then show ?thesis using explore_reached [of t n succs "[s]" "[]"] by auto
qed

end

text \<open>An invariant that every operation keeps holds along every run.\<close>

locale transition_inv =
  fixes step :: "'op \<Rightarrow> 's \<Rightarrow> 's"
    and inv :: "'s \<Rightarrow> bool"
  assumes inv_step: "inv s \<Longrightarrow> inv (step x s)"
begin

lemma inv_run: "inv s \<Longrightarrow> inv (run_ops step xs s)"
  by (induction xs arbitrary: s) (simp_all add: inv_step)

end

text \<open>
  A queue whose operations move elements: \<open>pushed x s\<close> is what the operation \<open>x\<close> puts in at
  state \<open>s\<close>, \<open>popped x s\<close> what it takes out. The law says that elements leave at the front and
  enter at the back, and that nothing else happens to the contents.
\<close>

locale queue = transition_inv step inv
  for step :: "'op \<Rightarrow> 's \<Rightarrow> 's" and inv :: "'s \<Rightarrow> bool" +
  fixes contents :: "'s \<Rightarrow> 'a list"
    and pushed :: "'op \<Rightarrow> 's \<Rightarrow> 'a list"
    and popped :: "'op \<Rightarrow> 's \<Rightarrow> 'a list"
  assumes contents_step: "inv s \<Longrightarrow> popped x s @ contents (step x s) = contents s @ pushed x s"
begin

lemma run_order:
  "inv s \<Longrightarrow> out_ops step popped xs s @ contents (run_ops step xs s)
           = contents s @ out_ops step pushed xs s"
proof (induction xs arbitrary: s)
  case Nil
  then show ?case by simp
next
  case (Cons x xs)
  have "out_ops step popped (x # xs) s @ contents (run_ops step (x # xs) s)
      = popped x s @ (contents (step x s) @ out_ops step pushed xs (step x s))"
    using Cons by (simp add: inv_step)
  also have "\<dots> = (contents s @ pushed x s) @ out_ops step pushed xs (step x s)"
    using contents_step [OF Cons.prems, of x] by (metis append_assoc)
  finally show ?case by simp
qed

end

text \<open>A queue with a capacity that it never exceeds.\<close>

locale fifo = queue step inv contents pushed popped
  for step :: "'op \<Rightarrow> 's \<Rightarrow> 's" and inv :: "'s \<Rightarrow> bool" and contents :: "'s \<Rightarrow> 'a list"
    and pushed :: "'op \<Rightarrow> 's \<Rightarrow> 'a list" and popped :: "'op \<Rightarrow> 's \<Rightarrow> 'a list" +
  fixes capacity :: "'s \<Rightarrow> nat"
  assumes contents_bound: "inv s \<Longrightarrow> length (contents s) \<le> capacity s"
    and capacity_step: "inv s \<Longrightarrow> capacity (step x s) = capacity s"
begin

lemma run_capacity: "inv s \<Longrightarrow> capacity (run_ops step xs s) = capacity s"
  by (induction xs arbitrary: s) (simp_all add: inv_step capacity_step)

lemma run_bound: "inv s \<Longrightarrow> length (contents (run_ops step xs s)) \<le> capacity s"
  using contents_bound [OF inv_run] run_capacity by metis

end

end
