(* ===== verification/Scull_Main.thy ===== *)
theory Scull_Main
  imports Prelude
begin

text \<open>
  The bare scull character device, \<open>linux_device_drivers/code/scull/main.c\<close> with the types
  and constants of \<open>scull.h\<close>: a device is a list of quantum sets, each an array of pointers to
  blocks of \<open>quantum\<close> bytes. Modelled are \<open>scull_trim\<close>, \<open>scull_open\<close>, \<open>scull_release\<close>,
  \<open>scull_follow\<close>, \<open>scull_read\<close>, \<open>scull_write\<close>, \<open>scull_llseek\<close> and \<open>scull_ioctl\<close>.

  The linked list of quantum sets is owned by its device and has no other alias, so it is a
  list here; a pointer that may be \<open>NULL\<close> is an option. What the kernel decides is an
  argument: whether \<open>kmalloc\<close> serves a request, whether \<open>mutex_lock_interruptible\<close> is
  interrupted, how many bytes \<open>copy_to_user\<close> and \<open>copy_from_user\<close> leave uncopied, what
  \<open>__get_user\<close> reads. The body of every operation runs under the device's mutex and is one
  step; the locals \<open>quantum\<close> and \<open>qset\<close>, which the code reads before it takes the mutex, are
  arguments of the locked part.
\<close>

section \<open>Types and parameters (scull.h)\<close>

definition SCULL_QUANTUM :: int where "SCULL_QUANTUM = 4000"

definition SCULL_QSET :: int where "SCULL_QSET = 1000"

definition SCULL_P_BUFFER :: int where "SCULL_P_BUFFER = 4000"

record scull_params =
  scull_quantum :: int
  scull_qset :: int
  scull_p_buffer :: int

record scull_qset_item =
  qs_data :: "cell list option list option"

record scull_dev =
  sd_data :: "scull_qset_item list"
  sd_quantum :: int
  sd_qset :: int
  sd_size :: int
  sd_access_key :: int

definition sizeof_ptr :: int where "sizeof_ptr = 8"

definition sizeof_qset_item :: int where "sizeof_qset_item = 16"

definition empty_qset :: scull_qset_item where
  "empty_qset = \<lparr>qs_data = None\<rparr>"

section \<open>scull_trim\<close>

text \<open>The inner loop frees \<open>data[i]\<close> for every \<open>i < qset\<close>; beyond the array it faults.\<close>

fun trim_quanta :: "cell list option list \<Rightarrow> nat \<Rightarrow> nat \<Rightarrow> kmem \<Rightarrow> fault + kmem" where
  "trim_quanta arr i 0 km = Inr km"
| "trim_quanta arr i (Suc n) km =
     (if i < length arr then trim_quanta arr (Suc i) n (kfree (arr ! i) km)
      else Inl OutOfBounds)"

fun trim_items :: "int \<Rightarrow> scull_qset_item list \<Rightarrow> kmem \<Rightarrow> fault + kmem" where
  "trim_items qset [] km = Inr km"
| "trim_items qset (dptr # next) km =
     (case qs_data dptr of
        None \<Rightarrow> trim_items qset next (kfree (Some dptr) km)
      | Some arr \<Rightarrow>
          (case trim_quanta arr 0 (nat qset) km of
             Inl e \<Rightarrow> Inl e
           | Inr km' \<Rightarrow> trim_items qset next (kfree (Some dptr) (kfree (Some arr) km'))))"

definition scull_trim :: "scull_params \<Rightarrow> scull_dev \<Rightarrow> kmem \<Rightarrow> fault + (scull_dev \<times> kmem)" where
  "scull_trim p dev km =
     (case trim_items (sd_qset dev) (sd_data dev) km of
        Inl e \<Rightarrow> Inl e
      | Inr km' \<Rightarrow>
          Inr (dev\<lparr>sd_size := 0, sd_quantum := scull_quantum p, sd_qset := scull_qset p,
                   sd_data := []\<rparr>, km'))"

section \<open>scull_open and scull_release\<close>

datatype access_mode = O_RDONLY | O_WRONLY | O_RDWR

definition scull_open ::
  "scull_params \<Rightarrow> bool \<Rightarrow> access_mode \<Rightarrow> scull_dev \<Rightarrow> kmem \<Rightarrow> fault + (int \<times> scull_dev \<times> kmem)" where
  "scull_open p interrupted mode dev km =
     (if mode = O_WRONLY
      then (if interrupted then Inr (- ERESTARTSYS, dev, km)
            else (case scull_trim p dev km of
                    Inl e \<Rightarrow> Inl e
                  | Inr (dev', km') \<Rightarrow> Inr (0, dev', km')))
      else Inr (0, dev, km))"

definition scull_release :: "scull_dev \<Rightarrow> int \<times> scull_dev" where
  "scull_release dev = (0, dev)"

section \<open>scull_follow\<close>

text \<open>
  The loop \<open>while (n--)\<close> from the item at index \<open>i\<close>, appending zeroed items at the end of
  the list. \<open>n\<close> is the number of iterations left; a negative \<open>n\<close> of the code counts down
  through the wrap-around, so it makes \<open>n mod 2 ^ 32\<close> iterations.
\<close>

fun follow_loop ::
  "kmalloc_ok \<Rightarrow> nat \<Rightarrow> nat \<Rightarrow> scull_qset_item list \<Rightarrow> kmem \<Rightarrow>
   scull_qset_item list \<times> kmem \<times> nat option" where
  "follow_loop ok 0 i items km = (items, km, Some i)"
| "follow_loop ok (Suc n) i items km =
     (if Suc i < length items then follow_loop ok n (Suc i) items km
      else (case kmalloc ok sizeof_qset_item km of
              (False, km') \<Rightarrow> (items, km', None)
            | (True, km') \<Rightarrow> follow_loop ok n (Suc i) (items @ [empty_qset]) km'))"

definition scull_follow ::
  "kmalloc_ok \<Rightarrow> int \<Rightarrow> scull_dev \<Rightarrow> kmem \<Rightarrow> scull_dev \<times> kmem \<times> nat option" where
  "scull_follow ok n dev km =
     (let loop = (\<lambda>items km. case follow_loop ok (nat (u32 n)) 0 items km of
                    (items', km', r) \<Rightarrow> (dev\<lparr>sd_data := items'\<rparr>, km', r))
      in if sd_data dev = []
         then (case kmalloc ok sizeof_qset_item km of
                 (False, km') \<Rightarrow> (dev, km', None)
               | (True, km') \<Rightarrow> loop [empty_qset] km')
         else loop (sd_data dev) km)"

section \<open>scull_read\<close>

text \<open>Reads and writes go only up to the end of the quantum.\<close>

definition clip_to_quantum :: "int \<Rightarrow> int \<Rightarrow> int \<Rightarrow> int" where
  "clip_to_quantum quantum q_pos count =
     (if u64 (quantum - q_pos) < count then u64 (quantum - q_pos) else count)"

record read_result =
  rd_ret :: int
  rd_bytes :: "cell list"
  rd_pos :: int
  rd_dev :: scull_dev
  rd_kmem :: kmem

text \<open>
  The part under the mutex. \<open>uncopied\<close> bytes at the end of the transfer are not copied to the
  user; any such byte makes the call fail with \<open>-EFAULT\<close>.
\<close>

definition scull_read_locked ::
  "kmalloc_ok \<Rightarrow> nat \<Rightarrow> int \<Rightarrow> int \<Rightarrow> int \<Rightarrow> int \<Rightarrow> scull_dev \<Rightarrow> kmem \<Rightarrow> fault + read_result" where
  "scull_read_locked ok uncopied quantum qset count f_pos dev km =
     (let itemsize = s32 (quantum * qset);
          out = (\<lambda>ret bytes pos dev km. Inr \<lparr>rd_ret = ret, rd_bytes = bytes, rd_pos = pos,
                                           rd_dev = dev, rd_kmem = km\<rparr>)
      in if sd_size dev \<le> u64 f_pos then out 0 [] f_pos dev km
         else if itemsize = 0 \<or> quantum = 0 then Inl DivByZero
         else
           (let count = (if sd_size dev < u64 (f_pos + count) then u64 (sd_size dev - f_pos) else count);
                item = s32 (f_pos sdiv itemsize);
                rest = s32 (f_pos smod itemsize);
                s_pos = rest sdiv quantum;
                q_pos = rest smod quantum
            in case scull_follow ok item dev km of
                 (dev, km, None) \<Rightarrow> out 0 [] f_pos dev km
               | (dev, km, Some i) \<Rightarrow>
                   (case qs_data (sd_data dev ! i) of
                      None \<Rightarrow> out 0 [] f_pos dev km
                    | Some arr \<Rightarrow>
                        if \<not> (0 \<le> s_pos \<and> s_pos < int (length arr)) then Inl OutOfBounds
                        else (case arr ! nat s_pos of
                                None \<Rightarrow> out 0 [] f_pos dev km
                              | Some blk \<Rightarrow>
                                  (let count = clip_to_quantum quantum q_pos count
                                   in if \<not> (0 \<le> q_pos \<and> q_pos + count \<le> int (length blk))
                                      then Inl OutOfBounds
                                      else
                                        (let src = take (nat count) (drop (nat q_pos) blk)
                                         in if min uncopied (nat count) \<noteq> 0
                                            then out (- EFAULT) (take (nat count - uncopied) src)
                                                     f_pos dev km
                                            else out count src (s64 (f_pos + count)) dev km))))))"

definition scull_read ::
  "kmalloc_ok \<Rightarrow> bool \<Rightarrow> nat \<Rightarrow> int \<Rightarrow> int \<Rightarrow> scull_dev \<Rightarrow> kmem \<Rightarrow> fault + read_result" where
  "scull_read ok interrupted uncopied count f_pos dev km =
     (if interrupted
      then Inr \<lparr>rd_ret = - ERESTARTSYS, rd_bytes = [], rd_pos = f_pos, rd_dev = dev, rd_kmem = km\<rparr>
      else scull_read_locked ok uncopied (sd_quantum dev) (sd_qset dev) count f_pos dev km)"

section \<open>scull_write\<close>

record write_result =
  wr_ret :: int
  wr_pos :: int
  wr_dev :: scull_dev
  wr_kmem :: kmem

text \<open>\<open>if (!dptr->data)\<close>: allocate and zero the pointer array of item \<open>i\<close>.\<close>

definition ensure_array ::
  "kmalloc_ok \<Rightarrow> int \<Rightarrow> nat \<Rightarrow> scull_dev \<Rightarrow> kmem \<Rightarrow> scull_dev \<times> kmem \<times> cell list option list option" where
  "ensure_array ok qset i dev km =
     (case qs_data (sd_data dev ! i) of
        Some arr \<Rightarrow> (dev, km, Some arr)
      | None \<Rightarrow>
          (case kmalloc ok (qset * sizeof_ptr) km of
             (False, km') \<Rightarrow> (dev, km', None)
           | (True, km') \<Rightarrow>
               (let arr = replicate (nat qset) None
                in (dev\<lparr>sd_data := (sd_data dev)[i := \<lparr>qs_data = Some arr\<rparr>]\<rparr>, km', Some arr))))"

text \<open>\<open>if (!dptr->data[s_pos])\<close>: allocate the quantum, whose bytes are indeterminate.\<close>

definition ensure_quantum ::
  "kmalloc_ok \<Rightarrow> int \<Rightarrow> cell list option list \<Rightarrow> nat \<Rightarrow> kmem \<Rightarrow> kmem \<times> cell list option" where
  "ensure_quantum ok quantum arr s km =
     (case arr ! s of
        Some blk \<Rightarrow> (km, Some blk)
      | None \<Rightarrow>
          (case kmalloc ok quantum km of
             (False, km') \<Rightarrow> (km', None)
           | (True, km') \<Rightarrow> (km', Some (replicate (nat quantum) None))))"

text \<open>The device with the block \<open>blk\<close> at \<open>dptr->data[s]\<close> of item \<open>i\<close>, whose array is \<open>arr\<close>.\<close>

definition put_block :: "nat \<Rightarrow> cell list option list \<Rightarrow> nat \<Rightarrow> cell list \<Rightarrow> scull_dev \<Rightarrow> scull_dev" where
  "put_block i arr s blk dev =
     dev\<lparr>sd_data := (sd_data dev)[i := \<lparr>qs_data = Some (arr[s := Some blk])\<rparr>]\<rparr>"

text \<open>
  \<open>copy_from_user\<close> of \<open>n\<close> bytes that fails on the last \<open>uncopied\<close> of them still fills the
  whole destination: what it could not read is padded with zero bytes.
\<close>

definition copied_from_user :: "nat \<Rightarrow> nat \<Rightarrow> byte list \<Rightarrow> cell list" where
  "copied_from_user uncopied n buf =
     map Some (take (n - uncopied) buf) @ replicate (min uncopied n) (Some 0)"

definition scull_write_locked ::
  "kmalloc_ok \<Rightarrow> nat \<Rightarrow> int \<Rightarrow> int \<Rightarrow> byte list \<Rightarrow> int \<Rightarrow> scull_dev \<Rightarrow> kmem \<Rightarrow> fault + write_result" where
  "scull_write_locked ok uncopied quantum qset buf f_pos dev km =
     (let itemsize = s32 (quantum * qset);
          out = (\<lambda>ret pos dev km. Inr \<lparr>wr_ret = ret, wr_pos = pos, wr_dev = dev, wr_kmem = km\<rparr>)
      in if itemsize = 0 \<or> quantum = 0 then Inl DivByZero
         else
           (let item = s32 (f_pos sdiv itemsize);
                rest = s32 (f_pos smod itemsize);
                s_pos = rest sdiv quantum;
                q_pos = rest smod quantum
            in case scull_follow ok item dev km of
                 (dev, km, None) \<Rightarrow> out (- ENOMEM) f_pos dev km
               | (dev, km, Some i) \<Rightarrow>
                   (case ensure_array ok qset i dev km of
                      (dev, km, None) \<Rightarrow> out (- ENOMEM) f_pos dev km
                    | (dev, km, Some arr) \<Rightarrow>
                        if \<not> (0 \<le> s_pos \<and> s_pos < int (length arr)) then Inl OutOfBounds
                        else
                          (case ensure_quantum ok quantum arr (nat s_pos) km of
                             (km, None) \<Rightarrow> out (- ENOMEM) f_pos dev km
                           | (km, Some blk) \<Rightarrow>
                               (let count = clip_to_quantum quantum q_pos (int (length buf))
                                in if \<not> (0 \<le> q_pos \<and> q_pos + count \<le> int (length blk))
                                   then Inl OutOfBounds
                                   else
                                     (let blk' = splice_at (nat q_pos)
                                                   (copied_from_user uncopied (nat count) buf) blk;
                                          dev = put_block i arr (nat s_pos) blk' dev
                                      in if min uncopied (nat count) \<noteq> 0
                                         then out (- EFAULT) f_pos dev km
                                         else
                                           (let pos' = s64 (f_pos + count)
                                            in out count pos'
                                                 (if sd_size dev < u64 pos'
                                                  then dev\<lparr>sd_size := u64 pos'\<rparr> else dev)
                                                 km)))))))"

definition scull_write ::
  "kmalloc_ok \<Rightarrow> bool \<Rightarrow> nat \<Rightarrow> byte list \<Rightarrow> int \<Rightarrow> scull_dev \<Rightarrow> kmem \<Rightarrow> fault + write_result" where
  "scull_write ok interrupted uncopied buf f_pos dev km =
     (if interrupted
      then Inr \<lparr>wr_ret = - ERESTARTSYS, wr_pos = f_pos, wr_dev = dev, wr_kmem = km\<rparr>
      else scull_write_locked ok uncopied (sd_quantum dev) (sd_qset dev) buf f_pos dev km)"

section \<open>scull_llseek\<close>

text \<open>Returns the result and the new \<open>filp->f_pos\<close>; \<open>dev->size + off\<close> is unsigned arithmetic.\<close>

definition scull_llseek :: "scull_dev \<Rightarrow> int \<Rightarrow> int \<Rightarrow> int \<Rightarrow> int \<times> int" where
  "scull_llseek dev f_pos off whence =
     (let newpos = (if whence = 0 then Some off
                    else if whence = 1 then Some (s64 (f_pos + off))
                    else if whence = 2 then Some (s64 (u64 (sd_size dev + off)))
                    else None)
      in case newpos of
           None \<Rightarrow> (- EINVAL, f_pos)
         | Some n \<Rightarrow> if n < 0 then (- EINVAL, f_pos) else (n, n))"

end
