(* ===== verification/Scull_Content.thy ===== *)
theory Scull_Content
  imports Scull_Main
begin

text \<open>
  What a scull device promises: a byte-addressed store. \<open>scull_content\<close> abstracts the lists,
  arrays and quanta of a device to a map from positions to the bytes written there;
  \<open>dev_inv\<close> is the well-formedness of the representation, and \<open>dev_blocks\<close> counts the
  allocator blocks a device owns. The lemmas show how each helper of \<open>main.c\<close> acts on them.
\<close>

section \<open>Well-formed devices\<close>

definition params_ok :: "int \<Rightarrow> int \<Rightarrow> bool" where
  "params_ok quantum qset \<longleftrightarrow> 0 < quantum \<and> 0 < qset \<and> quantum * qset < 2 ^ 31"

definition array_ok :: "int \<Rightarrow> int \<Rightarrow> cell list option list \<Rightarrow> bool" where
  "array_ok quantum qset arr \<longleftrightarrow>
     length arr = nat qset \<and> (\<forall>blk. Some blk \<in> set arr \<longrightarrow> length blk = nat quantum)"

definition item_ok :: "int \<Rightarrow> int \<Rightarrow> scull_qset_item \<Rightarrow> bool" where
  "item_ok quantum qset it \<longleftrightarrow>
     (case qs_data it of None \<Rightarrow> True | Some arr \<Rightarrow> array_ok quantum qset arr)"

definition dev_inv :: "scull_dev \<Rightarrow> bool" where
  "dev_inv dev \<longleftrightarrow>
     params_ok (sd_quantum dev) (sd_qset dev)
     \<and> (\<forall>it \<in> set (sd_data dev). item_ok (sd_quantum dev) (sd_qset dev) it)
     \<and> 0 \<le> sd_size dev \<and> sd_size dev < 2 ^ 63"

text \<open>A position whose list item is numbered within the range of \<open>int\<close>.\<close>

definition pos_ok :: "scull_dev \<Rightarrow> nat \<Rightarrow> bool" where
  "pos_ok dev p \<longleftrightarrow> int p < 2 ^ 63 \<and> int p div (sd_quantum dev * sd_qset dev) < 2 ^ 31"

lemma params_okD:
  "params_ok q s \<Longrightarrow> 0 < q" "params_ok q s \<Longrightarrow> 0 < s" "params_ok q s \<Longrightarrow> q * s < 2 ^ 31"
  by (simp_all add: params_ok_def)

lemma params_ok_itemsize: "params_ok q s \<Longrightarrow> s32 (q * s) = q * s"
  by (intro s32_id) (auto simp: params_ok_def intro: order.trans [of _ 0])

lemma dev_invD:
  assumes "dev_inv dev"
  shows "params_ok (sd_quantum dev) (sd_qset dev)"
    and "it \<in> set (sd_data dev) \<Longrightarrow> item_ok (sd_quantum dev) (sd_qset dev) it"
    and "0 \<le> sd_size dev" and "sd_size dev < 2 ^ 63"
  using assms by (auto simp: dev_inv_def)

section \<open>Contents and owned blocks\<close>

text \<open>
  The cell at position \<open>p\<close>: block number \<open>p div quantum\<close>, counted \<open>qset\<close> to an item. \<open>None\<close> is
  a hole, for which no quantum exists; \<open>Some None\<close> a byte of a quantum that was never written.
\<close>

definition dev_cell :: "scull_dev \<Rightarrow> nat \<Rightarrow> cell option" where
  "dev_cell dev p =
     (let q = nat (sd_quantum dev); b = p div q; i = b div nat (sd_qset dev)
      in if i < length (sd_data dev)
         then (case qs_data (sd_data dev ! i) of
                 None \<Rightarrow> None
               | Some arr \<Rightarrow> map_option (\<lambda>blk. blk ! (p mod q)) (arr ! (b mod nat (sd_qset dev))))
         else None)"

definition scull_content :: "scull_dev \<Rightarrow> nat \<Rightarrow> byte option" where
  "scull_content dev p = (case dev_cell dev p of None \<Rightarrow> None | Some c \<Rightarrow> c)"

definition array_blocks :: "cell list option list \<Rightarrow> nat" where
  "array_blocks arr = length (filter (\<lambda>b. b \<noteq> None) arr)"

definition item_blocks :: "scull_qset_item \<Rightarrow> nat" where
  "item_blocks it = (case qs_data it of None \<Rightarrow> 1 | Some arr \<Rightarrow> 2 + array_blocks arr)"

definition dev_blocks :: "scull_dev \<Rightarrow> nat" where
  "dev_blocks dev = sum_list (map item_blocks (sd_data dev))"

lemma item_blocks_simps [simp]:
  "item_blocks \<lparr>qs_data = None\<rparr> = 1"
  "item_blocks \<lparr>qs_data = Some arr\<rparr> = 2 + array_blocks arr"
  "item_blocks empty_qset = 1"
  by (simp_all add: item_blocks_def empty_qset_def)

lemma item_ok_simps [simp]:
  "item_ok q s \<lparr>qs_data = None\<rparr>"
  "item_ok q s \<lparr>qs_data = Some arr\<rparr> = array_ok q s arr"
  "item_ok q s empty_qset"
  by (simp_all add: item_ok_def empty_qset_def)

lemma array_blocks_replicate_None [simp]: "array_blocks (replicate n None) = 0"
  by (simp add: array_blocks_def)

lemma array_ok_replicate_None [simp]: "array_ok q s (replicate (nat s) None)"
  by (auto simp: array_ok_def)

lemma array_blocks_update:
  "s < length arr \<Longrightarrow>
   array_blocks (arr[s := Some blk]) = array_blocks arr + (if arr ! s = None then 1 else 0)"
proof (induction arr arbitrary: s)
  case Nil
  then show ?case by simp
next
  case (Cons a arr)
  then show ?case by (cases s) (auto simp: array_blocks_def)
qed

lemma sum_list_map_update:
  "i < length xs \<Longrightarrow>
   int (sum_list (map f (xs[i := x]))) = int (sum_list (map f xs)) + int (f x) - int (f (xs ! i))"
proof (induction xs arbitrary: i)
  case Nil
  then show ?case by simp
next
  case (Cons a xs)
  then show ?case by (cases i) simp_all
qed

section \<open>Growth that leaves the contents alone\<close>

text \<open>
  \<open>scull_follow\<close> and the allocation of the pointer array change the representation but not
  what is stored, and every block they take from the allocator is owned by the device.
\<close>

definition grown :: "scull_dev \<Rightarrow> kmem \<Rightarrow> scull_dev \<Rightarrow> kmem \<Rightarrow> bool" where
  "grown d km d' km' \<longleftrightarrow>
     sd_quantum d' = sd_quantum d \<and> sd_qset d' = sd_qset d \<and> sd_size d' = sd_size d
     \<and> dev_inv d' \<and> (\<forall>x. dev_cell d' x = dev_cell d x)
     \<and> km_live km' - km_live km = int (dev_blocks d') - int (dev_blocks d)"

lemma grown_refl: "dev_inv d \<Longrightarrow> grown d km d km"
  by (simp add: grown_def)

lemma grown_trans: "grown d km d1 km1 \<Longrightarrow> grown d1 km1 d2 km2 \<Longrightarrow> grown d km d2 km2"
  by (simp add: grown_def)

lemma grown_dev_inv: "grown d km d' km' \<Longrightarrow> dev_inv d'"
  by (simp add: grown_def)

lemma grown_content: "grown d km d' km' \<Longrightarrow> scull_content d' = scull_content d"
  by (simp add: grown_def scull_content_def fun_eq_iff)

lemma grown_fields:
  "grown d km d' km' \<Longrightarrow>
   sd_quantum d' = sd_quantum d \<and> sd_qset d' = sd_qset d \<and> sd_size d' = sd_size d"
  by (simp add: grown_def)

lemma follow_loop_spec:
  "follow_loop ok n i items km = (items', km', r) \<Longrightarrow> i < length items \<Longrightarrow>
   \<exists>k. items' = items @ replicate k empty_qset \<and> km_live km' = km_live km + int k
     \<and> (\<forall>j. r = Some j \<longrightarrow> j = i + n \<and> j < length items')"
proof (induction ok n i items km rule: follow_loop.induct)
  case (1 ok i items km)
  then show ?case by (intro exI [of _ 0]) auto
next
  case (2 ok n i items km)
  show ?case
  proof (cases "Suc i < length items")
    case True
    with 2 show ?thesis by simp
  next
    case False
    obtain b km1 where a: "kmalloc ok sizeof_qset_item km = (b, km1)" by force
    show ?thesis
    proof (cases b)
      case True
      with False a "2.prems" obtain k where
        "items' = (items @ [empty_qset]) @ replicate k empty_qset"
        "km_live km' = km_live km1 + int k"
        "\<forall>j. r = Some j \<longrightarrow> j = Suc i + n \<and> j < length items'"
        using "2.IH"(2) [OF False, of True km1] by auto
      with a True show ?thesis
        by (intro exI [of _ "Suc k"]) (auto dest: kmalloc_True)
    next
      case False
      with a \<open>\<not> Suc i < length items\<close> "2.prems" show ?thesis
        by (intro exI [of _ 0]) (auto dest: kmalloc_False)
    qed
  qed
qed

lemma scull_follow_spec:
  assumes "scull_follow ok n d km = (d', km', r)"
  shows "\<exists>k. d' = d\<lparr>sd_data := sd_data d @ replicate k empty_qset\<rparr>
           \<and> km_live km' = km_live km + int k
           \<and> (\<forall>j. r = Some j \<longrightarrow> j = nat (u32 n) \<and> j < length (sd_data d'))"
proof (cases "sd_data d = []")
  case True
  obtain b km1 where a: "kmalloc ok sizeof_qset_item km = (b, km1)" by force
  show ?thesis
  proof (cases b)
    case False
    with True a assms show ?thesis
      by (intro exI [of _ 0]) (auto simp: scull_follow_def dest: kmalloc_False)
  next
    case bt: True
    obtain items' km2 r2 where l: "follow_loop ok (nat (u32 n)) 0 [empty_qset] km1 = (items', km2, r2)"
      by (metis prod_cases3)
    from follow_loop_spec [OF l] obtain k where
      "items' = [empty_qset] @ replicate k empty_qset" "km_live km2 = km_live km1 + int k"
      "\<forall>j. r2 = Some j \<longrightarrow> j = nat (u32 n) \<and> j < length items'" by auto
    with True a bt l assms show ?thesis
      by (intro exI [of _ "Suc k"]) (auto simp: scull_follow_def Let_def dest: kmalloc_True)
  qed
next
  case False
  obtain items' km2 r2 where l: "follow_loop ok (nat (u32 n)) 0 (sd_data d) km = (items', km2, r2)"
    by (metis prod_cases3)
  from follow_loop_spec [OF l] False show ?thesis
    using l assms by (auto simp: scull_follow_def Let_def)
qed

lemma dev_cell_extend:
  "dev_cell (d\<lparr>sd_data := sd_data d @ replicate k empty_qset\<rparr>) x = dev_cell d x"
  by (auto simp: dev_cell_def Let_def nth_append empty_qset_def split: option.split)

lemma dev_inv_extend:
  "dev_inv d \<Longrightarrow> dev_inv (d\<lparr>sd_data := sd_data d @ replicate k empty_qset\<rparr>)"
  by (auto simp: dev_inv_def)

lemma sum_list_replicate_nat: "sum_list (replicate k (c::nat)) = k * c"
  by (induction k) simp_all

lemma scull_follow_grown:
  assumes "scull_follow ok n d km = (d', km', r)" and "dev_inv d"
  shows "grown d km d' km'"
  using scull_follow_spec [OF assms(1)] assms(2)
  by (auto simp: grown_def dev_cell_extend dev_inv_extend dev_blocks_def sum_list_replicate_nat)

lemma set_update_ok:
  "\<forall>it \<in> set xs. P it \<Longrightarrow> P x \<Longrightarrow> \<forall>it \<in> set (xs[i := x]). P it"
  by (auto dest!: subsetD [OF set_update_subset_insert])

lemma dev_inv_item:
  "dev_inv d \<Longrightarrow> i < length (sd_data d) \<Longrightarrow> qs_data (sd_data d ! i) = Some arr \<Longrightarrow>
   array_ok (sd_quantum d) (sd_qset d) arr"
  by (metis dev_invD(2) item_ok_def nth_mem option.simps(5))

lemma dev_inv_qset_pos: "dev_inv d \<Longrightarrow> 0 < nat (sd_qset d) \<and> 0 < nat (sd_quantum d)"
  by (simp add: dev_inv_def params_ok_def)

lemma ensure_array_grown:
  assumes e: "ensure_array ok (sd_qset d) i d km = (d', km', r)"
    and inv: "dev_inv d" and i: "i < length (sd_data d)"
  shows "grown d km d' km' \<and> i < length (sd_data d')
       \<and> (\<forall>arr. r = Some arr \<longrightarrow> qs_data (sd_data d' ! i) = Some arr)"
proof (cases "qs_data (sd_data d ! i)")
  case (Some arr)
  with e inv i show ?thesis by (auto simp: ensure_array_def grown_refl)
next
  case None
  obtain b km1 where a: "kmalloc ok (sd_qset d * sizeof_ptr) km = (b, km1)" by force
  show ?thesis
  proof (cases b)
    case False
    with None a e inv i show ?thesis
      by (auto simp: ensure_array_def grown_def dest: kmalloc_False)
  next
    case True
    define arr :: "cell list option list" where "arr = replicate (nat (sd_qset d)) None"
    have d': "d' = d\<lparr>sd_data := (sd_data d)[i := \<lparr>qs_data = Some arr\<rparr>]\<rparr>"
      and km': "km' = km1" and r: "r = Some arr"
      using None a True e by (auto simp: ensure_array_def arr_def Let_def)
    have "dev_inv d'"
      using inv set_update_ok [of "sd_data d" "item_ok (sd_quantum d) (sd_qset d)" "\<lparr>qs_data = Some arr\<rparr>" i]
      by (simp add: dev_inv_def d' arr_def)
    moreover have "dev_cell d' x = dev_cell d x" for x
      using None dev_inv_qset_pos [OF inv] i
      by (auto simp: dev_cell_def d' arr_def Let_def nth_list_update split: option.split)
    moreover have "km_live km1 - km_live km = int (dev_blocks d') - int (dev_blocks d)"
      using sum_list_map_update [OF i, of item_blocks "\<lparr>qs_data = Some arr\<rparr>"] None
        kmalloc_True [of ok "sd_qset d * sizeof_ptr" km km1] a True
      by (simp add: dev_blocks_def d' arr_def item_blocks_def)
    ultimately show ?thesis
      using i by (auto simp: grown_def d' km' r)
  qed
qed

section \<open>Storing a block\<close>

lemma put_block_cell:
  assumes "i < length (sd_data d)" "qs_data (sd_data d ! i) = Some arr" "s < length arr"
  shows "dev_cell (put_block i arr s blk d) x =
     (let q = nat (sd_quantum d); n = nat (sd_qset d)
      in if x div q div n = i \<and> x div q mod n = s then Some (blk ! (x mod q)) else dev_cell d x)"
  using assms by (auto simp: dev_cell_def put_block_def Let_def nth_list_update split: option.split)

lemma put_block_inv:
  assumes "dev_inv d" "i < length (sd_data d)" "qs_data (sd_data d ! i) = Some arr"
    "s < length arr" "length blk = nat (sd_quantum d)"
  shows "dev_inv (put_block i arr s blk d)"
proof -
  have a: "array_ok (sd_quantum d) (sd_qset d) arr"
    using assms(1-3) by (rule dev_inv_item)
  have "array_ok (sd_quantum d) (sd_qset d) (arr[s := Some blk])"
    unfolding array_ok_def
  proof (intro conjI allI impI)
    show "length (arr[s := Some blk]) = nat (sd_qset d)"
      using a by (simp add: array_ok_def)
  next
    fix c assume "Some c \<in> set (arr[s := Some blk])"
    then have "Some c = Some blk \<or> Some c \<in> set arr"
      by (meson insertE set_update_subset_insert subsetD)
    then show "length c = nat (sd_quantum d)"
      using a assms(5) by (auto simp: array_ok_def)
  qed
  with assms(1) set_update_ok [of "sd_data d" "item_ok (sd_quantum d) (sd_qset d)"
      "\<lparr>qs_data = Some (arr[s := Some blk])\<rparr>" i]
  show ?thesis by (simp add: dev_inv_def put_block_def)
qed

lemma put_block_blocks:
  assumes "i < length (sd_data d)" "qs_data (sd_data d ! i) = Some arr" "s < length arr"
  shows "int (dev_blocks (put_block i arr s blk d))
       = int (dev_blocks d) + (if arr ! s = None then 1 else 0)"
  using sum_list_map_update [OF assms(1), of item_blocks "\<lparr>qs_data = Some (arr[s := Some blk])\<rparr>"] assms
  by (simp add: dev_blocks_def put_block_def array_blocks_update item_blocks_def)

lemma put_block_fields [simp]:
  "sd_quantum (put_block i arr s blk d) = sd_quantum d"
  "sd_qset (put_block i arr s blk d) = sd_qset d"
  "sd_size (put_block i arr s blk d) = sd_size d"
  by (simp_all add: put_block_def)

lemma ensure_quantum_spec:
  assumes "ensure_quantum ok q arr s km = (km', Some blk)" "array_ok q n arr" "s < length arr"
  shows "length blk = nat q
       \<and> km_live km' - km_live km = (if arr ! s = None then 1 else 0)
       \<and> (arr ! s = Some blk \<or> (arr ! s = None \<and> blk = replicate (nat q) None))"
proof (cases "arr ! s")
  case None
  with assms(1) show ?thesis
    by (auto simp: ensure_quantum_def dest: kmalloc_True split: prod.splits bool.splits)
next
  case (Some b)
  with assms nth_mem [OF assms(3)] show ?thesis
    by (auto simp: ensure_quantum_def array_ok_def)
qed

lemma ensure_quantum_None:
  "ensure_quantum ok q arr s km = (km', None) \<Longrightarrow> km_live km' = km_live km"
  by (auto simp: ensure_quantum_def dest: kmalloc_False split: option.splits prod.splits bool.splits)

section \<open>Where a position lives\<close>

text \<open>The item number, array index and offset the code computes are those of \<open>dev_cell\<close>.\<close>

lemma position_parts:
  assumes "params_ok q n" "int p div (q * n) < 2 ^ 31"
  shows "s32 (int p sdiv s32 (q * n)) = int (p div nat q div nat n)"
    and "s32 (int p smod s32 (q * n)) sdiv q = int (p div nat q mod nat n)"
    and "s32 (int p smod s32 (q * n)) smod q = int (p mod nat q)"
proof -
  obtain Q N where Q: "q = int Q" and N: "n = int N" and pos: "0 < Q" "0 < N"
    using assms(1) by (metis params_okD(1,2) of_nat_0_less_iff pos_int_cases)
  have it: "s32 (q * n) = q * n" using assms(1) by (rule params_ok_itemsize)
  have itp: "0 < q * n" using pos by (simp add: Q N)
  have "int p sdiv (q * n) = int (p div Q div N)"
    using itp by (simp add: sdiv_nonneg Q N flip: of_nat_mult zdiv_int div_mult2_eq)
  with assms(2) show "s32 (int p sdiv s32 (q * n)) = int (p div nat q div nat n)"
    unfolding it by (simp add: Q N s32_id flip: of_nat_mult zdiv_int div_mult2_eq)
  have m: "int p smod (q * n) = int (p mod (Q * N))"
    using itp by (simp add: smod_nonneg Q N flip: of_nat_mult zmod_int)
  have "int (p mod (Q * N)) < q * n" using pos by (simp add: Q N flip: of_nat_mult)
  then have "int (p mod (Q * N)) < 2 ^ 31" using assms(1) by (simp add: params_ok_def)
  then have r: "s32 (int p smod s32 (q * n)) = int (p mod (Q * N))"
    by (simp add: it m s32_id)
  show "s32 (int p smod s32 (q * n)) sdiv q = int (p div nat q mod nat n)"
    using pos unfolding r by (simp add: Q N sdiv_nonneg mod_mult2_eq flip: zdiv_int)
  show "s32 (int p smod s32 (q * n)) smod q = int (p mod nat q)"
    using pos unfolding r by (simp add: Q N smod_nonneg mod_mult2_eq flip: zmod_int)
qed

lemma u32_item: "int m < 2 ^ 31 \<Longrightarrow> nat (u32 (int m)) = m"
  by (simp add: u32_id)

lemma div_mod_unique:
  "a < (q::nat) \<Longrightarrow> x = k * q + a \<Longrightarrow> x div q = k \<and> x mod q = a"
  by simp

lemma in_block_range:
  assumes "0 < (q::nat)" "p mod q + n \<le> q"
  shows "(p \<le> x \<and> x < p + n) \<longleftrightarrow> (x div q = p div q \<and> p mod q \<le> x mod q \<and> x mod q < p mod q + n)"
proof
  assume "p \<le> x \<and> x < p + n"
  then obtain j where x: "x = p + j" and j: "j < n" using le_Suc_ex by auto
  have "p mod q + j < q" using assms j by linarith
  moreover have "x = (p div q) * q + (p mod q + j)" using x by simp
  ultimately have "x div q = p div q" "x mod q = p mod q + j"
    using div_mod_unique by blast+
  then show "x div q = p div q \<and> p mod q \<le> x mod q \<and> x mod q < p mod q + n" using j by simp
next
  assume a: "x div q = p div q \<and> p mod q \<le> x mod q \<and> x mod q < p mod q + n"
  have "x = (p div q) * q + x mod q" "p = (p div q) * q + p mod q"
    using a by (metis div_mult_mod_eq)+
  with a show "p \<le> x \<and> x < p + n" by linarith
qed

section \<open>Copying from the user\<close>

lemma length_copied_from_user [simp]: "n \<le> length buf \<Longrightarrow> length (copied_from_user u n buf) = n"
  by (auto simp: copied_from_user_def)

lemma copied_from_user_all: "min u n = 0 \<Longrightarrow> copied_from_user u n buf = map Some (take n buf)"
  by (auto simp: copied_from_user_def min_def split: if_splits)

end
