(* ===== verification/Scull_Spec.thy ===== *)
theory Scull_Spec
  imports Scull_Content
begin

text \<open>
  The bare device against its contract: on a well-formed device no operation of \<open>main.c\<close>
  faults, a write replaces exactly the bytes it reports, a read returns the bytes stored, what
  was written is read back, \<open>scull_trim\<close> gives every block back to the allocator, and a
  mutex taken too late makes the array index of \<open>scull_write\<close> leave its array.
\<close>

section \<open>What a write does\<close>

lemma clip_count:
  assumes "0 < q" "int l < 2 ^ 63" "q < 2 ^ 31"
  shows "clip_to_quantum q (int (p mod nat q)) (int l) = int (min l (nat q - p mod nat q))"
proof -
  have b: "p mod nat q < nat q" using assms(1) by simp
  have "(2::int) ^ 31 < 2 ^ 64" by simp
  with b have "u64 (q - int (p mod nat q)) = q - int (p mod nat q)"
    using assms by (intro u64_id) linarith+
  then show ?thesis using b by (auto simp: clip_to_quantum_def min_def)
qed

lemma quantum_small: "params_ok q n \<Longrightarrow> q < 2 ^ 31"
proof -
  assume a: "params_ok q n"
  then have "q \<le> q * n" by (simp add: params_ok_def)
  with a show "q < 2 ^ 31" unfolding params_ok_def by linarith
qed

text \<open>
  The numbers both transfers compute from a position, for a well-formed device: none of the
  divisions faults, and item, array index and offset are those of the abstraction.
\<close>

lemma locate:
  assumes "dev_inv d" "pos_ok d p"
  shows "s32 (sd_quantum d * sd_qset d) \<noteq> 0" "sd_quantum d \<noteq> 0" "sd_quantum d < 2 ^ 31"
    "0 < sd_quantum d" "0 < nat (sd_quantum d)" "0 < nat (sd_qset d)"
    and "s32 (int p sdiv s32 (sd_quantum d * sd_qset d)) = int (p div nat (sd_quantum d) div nat (sd_qset d))"
    and "s32 (int p smod s32 (sd_quantum d * sd_qset d)) sdiv sd_quantum d
       = int (p div nat (sd_quantum d) mod nat (sd_qset d))"
    and "s32 (int p smod s32 (sd_quantum d * sd_qset d)) smod sd_quantum d = int (p mod nat (sd_quantum d))"
    and "int (p div nat (sd_quantum d) div nat (sd_qset d)) < 2 ^ 31"
proof -
  have par: "params_ok (sd_quantum d) (sd_qset d)" using assms by (simp add: dev_inv_def)
  have pos: "int p div (sd_quantum d * sd_qset d) < 2 ^ 31" using assms by (simp add: pos_ok_def)
  show "s32 (sd_quantum d * sd_qset d) \<noteq> 0" "sd_quantum d \<noteq> 0" "0 < sd_quantum d"
    "0 < nat (sd_quantum d)" "0 < nat (sd_qset d)"
    using params_ok_itemsize [OF par] params_okD [OF par] by simp_all
  show "sd_quantum d < 2 ^ 31" using par by (rule quantum_small)
  show "int (p div nat (sd_quantum d) div nat (sd_qset d)) < 2 ^ 31"
    using pos params_okD [OF par] by (simp add: zdiv_int flip: div_mult2_eq nat_mult_distrib)
qed (use assms in \<open>intro position_parts; simp add: dev_inv_def pos_ok_def\<close>)+

text \<open>The device after the block of position \<open>p\<close> was stored with \<open>xs\<close> spliced in.\<close>

definition stored :: "scull_dev \<Rightarrow> kmem \<Rightarrow> nat \<Rightarrow> cell list \<Rightarrow> scull_dev \<Rightarrow> kmem \<Rightarrow> bool" where
  "stored d km p xs d' km' \<longleftrightarrow>
     dev_inv d' \<and> sd_quantum d' = sd_quantum d \<and> sd_qset d' = sd_qset d \<and> sd_size d' = sd_size d
     \<and> (\<forall>x. scull_content d' x =
             (if p \<le> x \<and> x < p + length xs then xs ! (x - p) else scull_content d x))
     \<and> (\<forall>x. p \<le> x \<and> x < p + length xs \<longrightarrow> dev_cell d' x = Some (xs ! (x - p)))
     \<and> km_live km' - km_live km = int (dev_blocks d') - int (dev_blocks d)"

lemma same_block_iff:
  "x div Q div N = p div Q div N \<and> x div Q mod N = p div Q mod N \<longleftrightarrow> x div Q = p div (Q::nat)"
  by (metis div_mult_mod_eq)

lemma same_block_diff:
  assumes "x div Q = p div (Q::nat)" "p \<le> x"
  shows "x mod Q - p mod Q = x - p"
proof -
  have "x = Q * (p div Q) + x mod Q" "p = Q * (p div Q) + p mod Q"
    using assms(1) by (metis mult_div_mod_eq)+
  then show ?thesis by linarith
qed

text \<open>Splicing \<open>xs\<close> into the block of \<open>p\<close>, cell by cell.\<close>

lemma put_block_cells:
  assumes g: "grown d km d1 km1"
    and i: "i = p div Q div N" "i < length (sd_data d1)"
    and arr: "qs_data (sd_data d1 ! i) = Some arr"
    and s: "s = p div Q mod N" "s < length arr"
    and Q: "Q = nat (sd_quantum d)" "N = nat (sd_qset d)" "0 < Q"
    and blk: "length blk = Q" and l: "p mod Q + length xs \<le> Q"
  shows "dev_cell (put_block i arr s (splice_at (p mod Q) xs blk) d1) x =
     (if p \<le> x \<and> x < p + length xs then Some (xs ! (x - p))
      else if x div Q = p div Q then Some (blk ! (x mod Q)) else dev_cell d x)"
proof -
  have f: "sd_quantum d1 = sd_quantum d" "sd_qset d1 = sd_qset d"
    and same: "dev_cell d1 x = dev_cell d x"
    using g by (simp_all add: grown_def)
  have "dev_cell (put_block i arr s (splice_at (p mod Q) xs blk) d1) x =
      (if x div Q = p div Q then Some (splice_at (p mod Q) xs blk ! (x mod Q)) else dev_cell d x)"
    using put_block_cell [OF i(2) arr s(2), of "splice_at (p mod Q) xs blk" x] same_block_iff [of x Q N p]
    by (simp add: f i(1) s(1) same Let_def Q(1,2))
  moreover have "splice_at (p mod Q) xs blk ! (x mod Q) =
      (if p mod Q \<le> x mod Q \<and> x mod Q < p mod Q + length xs
       then xs ! (x mod Q - p mod Q) else blk ! (x mod Q))"
    using blk l Q(3) by (intro nth_splice_at) simp_all
  ultimately show ?thesis
    using in_block_range [OF Q(3) l, of x] same_block_diff [of x Q p]
    by (cases "p \<le> x \<and> x < p + length xs") (simp_all, meson)
qed

lemma stored_put_block:
  assumes g: "grown d km d1 km1"
    and i: "i = p div Q div N" "i < length (sd_data d1)"
    and arr: "qs_data (sd_data d1 ! i) = Some arr"
    and s: "s = p div Q mod N"
    and Q: "Q = nat (sd_quantum d)" "N = nat (sd_qset d)"
    and e: "ensure_quantum ok (sd_quantum d) arr s km1 = (km2, Some blk)"
    and l: "p mod Q + length xs \<le> Q"
  shows "stored d km p xs (put_block i arr s (splice_at (p mod Q) xs blk) d1) km2"
proof -
  have inv1: "dev_inv d1"
    and f: "sd_quantum d1 = sd_quantum d" "sd_qset d1 = sd_qset d" "sd_size d1 = sd_size d"
    using g by (simp_all add: grown_def)
  have QN: "0 < Q" "0 < N" using dev_inv_qset_pos [OF inv1] by (simp_all add: f Q)
  have aok: "array_ok (sd_quantum d) (sd_qset d) arr" using dev_inv_item [OF inv1 i(2) arr] by (simp add: f)
  have sl: "s < length arr" using aok QN by (simp add: s array_ok_def Q)
  note eq = ensure_quantum_spec [OF e aok sl]
  have bl: "length blk = Q" using eq by (simp add: Q)
  define d2 where "d2 = put_block i arr s (splice_at (p mod Q) xs blk) d1"
  have cells: "dev_cell d2 x = (if p \<le> x \<and> x < p + length xs then Some (xs ! (x - p))
      else if x div Q = p div Q then Some (blk ! (x mod Q)) else dev_cell d x)" for x
    unfolding d2_def by (rule put_block_cells [OF g i arr s sl Q QN(1) bl l])
  have old: "dev_cell d x = map_option (\<lambda>b. b ! (x mod Q)) (arr ! s)" if "x div Q = p div Q" for x
  proof -
    have "dev_cell d x = dev_cell d1 x" using g by (simp add: grown_def)
    then show ?thesis using i arr that by (simp add: dev_cell_def f s Let_def Q)
  qed
  have un: "blk ! (x mod Q) = None" if "arr ! s = None" for x
    using eq that QN by (auto simp: Q)
  have "scull_content d2 x = scull_content d x" if "\<not> (p \<le> x \<and> x < p + length xs)" for x
    using that old [of x] un [of x] eq by (auto simp: cells scull_content_def)
  moreover have "dev_inv d2"
    unfolding d2_def using inv1 i(2) arr sl bl l by (intro put_block_inv) (simp_all add: f Q)
  moreover have "km_live km2 - km_live km = int (dev_blocks d2) - int (dev_blocks d)"
    using put_block_blocks [OF i(2) arr sl] eq g by (simp add: d2_def grown_def)
  ultimately have "stored d km p xs d2 km2"
    unfolding stored_def by (auto simp: cells scull_content_def) (simp_all add: d2_def f)
  then show ?thesis by (simp add: d2_def)
qed

text \<open>A helper that gives up was refused an allocation.\<close>

lemma follow_loop_None: "follow_loop ok n i items km = (items', km', None) \<Longrightarrow> \<exists>k sz. \<not> ok k sz"
  by (induction ok n i items km rule: follow_loop.induct)
     (auto simp: kmalloc_def split: if_splits prod.splits bool.splits)

lemma helper_None:
  "scull_follow ok n d km = (d', km', None) \<Longrightarrow> \<exists>k sz. \<not> ok k sz"
  "ensure_array ok q i d km = (d', km', None) \<Longrightarrow> \<exists>k sz. \<not> ok k sz"
  "ensure_quantum ok q arr s km = (km', None) \<Longrightarrow> \<exists>k sz. \<not> ok k sz"
  by (auto simp: scull_follow_def ensure_array_def ensure_quantum_def kmalloc_def Let_def
      dest: follow_loop_None split: if_splits prod.splits bool.splits option.splits)

text \<open>The new size, when the position does not overflow.\<close>

lemma new_size:
  assumes "int p + int n < 2 ^ 63" and "sd_size d' = sd_size d"
  shows "s64 (int p + int n) = int (p + n)"
    and "(if sd_size d' < u64 (s64 (int p + int n)) then d'\<lparr>sd_size := u64 (s64 (int p + int n))\<rparr> else d')
      = d'\<lparr>sd_size := max (sd_size d) (int (p + n))\<rparr>"
proof -
  have "s64 (int p + int n) = int (p + n)" "u64 (int (p + n)) = int (p + n)"
    using assms(1) by (auto intro!: s64_id u64_id)
  then show "s64 (int p + int n) = int (p + n)"
    and "(if sd_size d' < u64 (s64 (int p + int n)) then d'\<lparr>sd_size := u64 (s64 (int p + int n))\<rparr> else d')
      = d'\<lparr>sd_size := max (sd_size d) (int (p + n))\<rparr>"
    using assms(2) by (simp_all add: max_def)
qed

text \<open>
  A write that has found or made its block: it stores what the user's memory gave, and either fails
  or moves position and size. \<open>n\<close> is the number of bytes that fit into the quantum of the position.
\<close>

lemma scull_write_stores:
  assumes inv: "dev_inv d" and pos: "pos_ok d p" and len: "int p + int (length buf) < 2 ^ 63"
  defines "Q \<equiv> nat (sd_quantum d)" and "N \<equiv> nat (sd_qset d)"
  defines "i \<equiv> p div Q div N" and "s \<equiv> p div Q mod N" and "n \<equiv> min (length buf) (Q - p mod Q)"
  assumes fo: "scull_follow ok (int i) d km = (d1, km1, Some i)"
    and ea: "ensure_array ok (sd_qset d) i d1 km1 = (d2, km2, Some arr)"
    and eq: "ensure_quantum ok (sd_quantum d) arr s km2 = (km3, Some blk)"
    and g: "grown d km d2 km2" and i2: "i < length (sd_data d2)" and ar: "qs_data (sd_data d2 ! i) = Some arr"
  obtains d3 where "stored d km p (copied_from_user u n buf) d3 km3"
    and "scull_write ok False u buf (int p) d km =
       Inr (if min u n \<noteq> 0 then \<lparr>wr_ret = - EFAULT, wr_pos = int p, wr_dev = d3, wr_kmem = km3\<rparr>
            else \<lparr>wr_ret = int n, wr_pos = int (p + n), wr_dev = d3\<lparr>sd_size := max (sd_size d) (int (p + n))\<rparr>,
                  wr_kmem = km3\<rparr>)"
proof -
  note lc = locate [OF inv pos, folded Q_def N_def, folded i_def s_def]
  have clip: "clip_to_quantum (sd_quantum d) (int (p mod Q)) (int (length buf)) = int n"
    unfolding n_def Q_def using len lc by (intro clip_count) simp_all
  have aok: "array_ok (sd_quantum d) (sd_qset d) arr"
    using dev_inv_item [OF grown_dev_inv [OF g] i2 ar] g by (simp add: grown_def)
  have sl: "s < length arr" using aok lc(5,6) by (simp add: s_def array_ok_def N_def)
  have bl: "length blk = Q" using ensure_quantum_spec [OF eq aok sl] by (simp add: Q_def)
  have "p mod Q < Q" using lc(5,6) by simp
  then have nQ: "p mod Q + n \<le> Q" by (simp add: n_def)
  define d3 where "d3 = put_block i arr s (splice_at (p mod Q) (copied_from_user u n buf) blk) d2"
  have "length (copied_from_user u n buf) = n" by (simp add: n_def)
  then have st: "stored d km p (copied_from_user u n buf) d3 km3" unfolding d3_def using nQ
    by (intro stored_put_block [OF g i_def [THEN meta_eq_to_obj_eq] i2 ar s_def [THEN meta_eq_to_obj_eq]
          Q_def [THEN meta_eq_to_obj_eq] N_def [THEN meta_eq_to_obj_eq] eq]) simp
  have "int (p mod Q) + int n \<le> int (length blk)" using nQ bl by simp
  then have w: "scull_write ok False u buf (int p) d km =
       Inr (if min u n \<noteq> 0 then \<lparr>wr_ret = - EFAULT, wr_pos = int p, wr_dev = d3, wr_kmem = km3\<rparr>
            else \<lparr>wr_ret = int n, wr_pos = s64 (int p + int n),
                  wr_dev = (if sd_size d3 < u64 (s64 (int p + int n))
                            then d3\<lparr>sd_size := u64 (s64 (int p + int n))\<rparr> else d3), wr_kmem = km3\<rparr>)"
    using ea sl eq by (simp add: scull_write_def scull_write_locked_def Let_def lc(1,2,7-9) fo clip d3_def)
  have "int p + int n < 2 ^ 63" "sd_size d3 = sd_size d" using len st by (auto simp: n_def stored_def)
  from st w [unfolded new_size(2) [OF this], unfolded new_size(1) [OF this]] show ?thesis by (rule that)
qed

text \<open>
  A write either runs out of memory on the way to its quantum, or gets the item, the array and
  the quantum of the position.
\<close>

lemma scull_write_allocates:
  assumes inv: "dev_inv d" and pos: "pos_ok d p" and len: "int p + int (length buf) < 2 ^ 63"
  defines "Q \<equiv> nat (sd_quantum d)" and "N \<equiv> nat (sd_qset d)"
  defines "i \<equiv> p div Q div N" and "s \<equiv> p div Q mod N"
  obtains (nomem) r where "scull_write ok False u buf (int p) d km = Inr r"
      "wr_ret r = - ENOMEM" "wr_pos r = int p" "grown d km (wr_dev r) (wr_kmem r)"
      "\<exists>k sz. \<not> ok k sz"
  | (ready) d1 km1 d2 km2 arr km3 blk where "scull_follow ok (int i) d km = (d1, km1, Some i)"
      "ensure_array ok (sd_qset d) i d1 km1 = (d2, km2, Some arr)"
      "ensure_quantum ok (sd_quantum d) arr s km2 = (km3, Some blk)"
      "grown d km d2 km2" "i < length (sd_data d2)" "qs_data (sd_data d2 ! i) = Some arr"
proof -
  note lc = locate [OF inv pos, folded Q_def N_def, folded i_def s_def]
  obtain d1 km1 r1 where fo: "scull_follow ok (int i) d km = (d1, km1, r1)" by (metis prod_cases3)
  have g1: "grown d km d1 km1" using fo inv by (rule scull_follow_grown)
  note start = scull_write_def scull_write_locked_def Let_def lc(1,2,7-9) fo
  show thesis
  proof (cases r1)
    case None
    then show thesis
      by (intro nomem [of "\<lparr>wr_ret = - ENOMEM, wr_pos = int p, wr_dev = d1, wr_kmem = km1\<rparr>"]) (use g1 helper_None(1) [OF fo [unfolded None]] in \<open>simp_all add: start\<close>)
  next
    case (Some j)
    with scull_follow_spec [OF fo] lc(10) have j: "r1 = Some i" and ji: "i < length (sd_data d1)"
      by (auto simp: u32_item)
    obtain d2 km2 r2 where ea: "ensure_array ok (sd_qset d) i d1 km1 = (d2, km2, r2)"
      by (metis prod_cases3)
    have f1: "sd_qset d1 = sd_qset d" using g1 by (simp add: grown_def)
    note ga = ensure_array_grown [OF ea [folded f1] grown_dev_inv [OF g1] ji]
    have g2: "grown d km d2 km2" using g1 ga grown_trans by blast
    show thesis
    proof (cases r2)
      case None
      then show thesis
        by (intro nomem [of "\<lparr>wr_ret = - ENOMEM, wr_pos = int p, wr_dev = d2, wr_kmem = km2\<rparr>"])
          (use j ea g2 helper_None(2) [OF ea [unfolded None]] in \<open>simp_all add: start\<close>)
    next
      case r2: (Some arr)
      have ar: "qs_data (sd_data d2 ! i) = Some arr" and i2: "i < length (sd_data d2)"
        using ga r2 by auto
      have "s < length arr"
        using dev_inv_item [OF grown_dev_inv [OF g2] i2 ar] g2 lc(5,6) by (simp add: grown_def s_def array_ok_def N_def)
      obtain km3 r3 where eq: "ensure_quantum ok (sd_quantum d) arr s km2 = (km3, r3)" by force
      show thesis
      proof (cases r3)
        case None
        with g2 eq have "grown d km d2 km3" by (auto simp: grown_def dest: ensure_quantum_None)
        then show thesis
          by (intro nomem [of "\<lparr>wr_ret = - ENOMEM, wr_pos = int p, wr_dev = d2, wr_kmem = km3\<rparr>"])
            (use j ea r2 eq None \<open>s < length arr\<close> helper_None(3) [OF eq [unfolded None]] in \<open>simp_all add: start\<close>)
      next
        case (Some blk)
        then show thesis using ready fo ea eq j r2 g2 i2 ar by blast
      qed
    qed
  qed
qed

text \<open>
  Every way a write on a well-formed device can end. \<open>n\<close> is the number of bytes that fit
  into the quantum of the position.
\<close>

lemma scull_write_cases:
  assumes inv: "dev_inv d" and pos: "pos_ok d p" and len: "int p + int (length buf) < 2 ^ 63"
  defines "Q \<equiv> nat (sd_quantum d)"
  defines "n \<equiv> min (length buf) (Q - p mod Q)"
  obtains (nomem) r where "scull_write ok False u buf (int p) d km = Inr r"
      "wr_ret r = - ENOMEM" "wr_pos r = int p" "grown d km (wr_dev r) (wr_kmem r)"
      "\<exists>k sz. \<not> ok k sz"
  | (efault) r where "scull_write ok False u buf (int p) d km = Inr r" "min u n \<noteq> 0"
      "wr_ret r = - EFAULT" "wr_pos r = int p"
      "stored d km p (copied_from_user u n buf) (wr_dev r) (wr_kmem r)"
  | (written) r d' where "scull_write ok False u buf (int p) d km = Inr r" "min u n = 0"
      "wr_ret r = int n" "wr_pos r = int (p + n)" "stored d km p (map Some (take n buf)) d' (wr_kmem r)"
      "wr_dev r = d'\<lparr>sd_size := max (sd_size d) (int (p + n))\<rparr>"
proof (cases rule: scull_write_allocates [OF inv pos len, of ok u km])
  case (1 r)
  then show thesis by (rule nomem)
next
  case (2 d1 km1 d2 km2 arr km3 blk)
  from scull_write_stores [OF inv pos len 2, of u, folded Q_def, folded n_def] obtain d3
    where st: "stored d km p (copied_from_user u n buf) d3 km3"
      and w: "scull_write ok False u buf (int p) d km =
         Inr (if min u n \<noteq> 0 then \<lparr>wr_ret = - EFAULT, wr_pos = int p, wr_dev = d3, wr_kmem = km3\<rparr>
              else \<lparr>wr_ret = int n, wr_pos = int (p + n), wr_dev = d3\<lparr>sd_size := max (sd_size d) (int (p + n))\<rparr>,
                    wr_kmem = km3\<rparr>)" .
  show thesis
  proof (cases "min u n = 0")
    case False
    with w have "scull_write ok False u buf (int p) d km =
        Inr \<lparr>wr_ret = - EFAULT, wr_pos = int p, wr_dev = d3, wr_kmem = km3\<rparr>" by simp
    then show thesis by (rule efault [OF _ False]) (simp_all add: st)
  next
    case True
    then have c: "copied_from_user u n buf = map Some (take n buf)" by (rule copied_from_user_all)
    from w True have "scull_write ok False u buf (int p) d km =
        Inr \<lparr>wr_ret = int n, wr_pos = int (p + n),
             wr_dev = d3\<lparr>sd_size := max (sd_size d) (int (p + n))\<rparr>, wr_kmem = km3\<rparr>" by simp
    then show thesis by (rule written [OF _ True, of _ d3]) (use st in \<open>simp_all add: c\<close>)
  qed
qed

section \<open>What a read does\<close>

lemma follow_loop_within:
  "i + n < length items \<Longrightarrow> follow_loop ok n i items km = (items, km, Some (i + n))"
  by (induction n arbitrary: i) simp_all

lemma scull_follow_within:
  "int i < 2 ^ 31 \<Longrightarrow> i < length (sd_data d) \<Longrightarrow> scull_follow ok (int i) d km = (d, km, Some i)"
  by (auto simp: scull_follow_def u32_item follow_loop_within)

text \<open>The bytes of the block of \<open>p\<close> from \<open>p\<close> on are the cells of the device from \<open>p\<close> on.\<close>

lemma block_cells:
  assumes i: "i = p div Q div N" "i < length (sd_data d)"
    and arr: "qs_data (sd_data d ! i) = Some arr" "arr ! (p div Q mod N) = Some blk"
    and Q: "Q = nat (sd_quantum d)" "N = nat (sd_qset d)" "0 < Q"
    and l: "length blk = Q" "p mod Q + n \<le> Q"
  shows "take n (drop (p mod Q) blk) = map (\<lambda>x. the (dev_cell d x)) [p..<p + n]"
proof (rule nth_equalityI)
  show "length (take n (drop (p mod Q) blk)) = length (map (\<lambda>x. the (dev_cell d x)) [p..<p + n])"
    using l by simp
next
  fix j assume "j < length (take n (drop (p mod Q) blk))"
  then have j: "j < n" by simp
  have b: "(p + j) div Q = p div Q" "(p + j) mod Q = p mod Q + j"
    using in_block_range [OF Q(3) l(2), of "p + j"] same_block_diff [of "p + j" Q p] j by auto
  have "dev_cell d (p + j) = Some (blk ! (p mod Q + j))"
    unfolding dev_cell_def Let_def Q(1) [symmetric] Q(2) [symmetric] b using i arr by simp
  then show "take n (drop (p mod Q) blk) ! j = map (\<lambda>x. the (dev_cell d x)) [p..<p + n] ! j"
    using j l by simp
qed

lemma cell_block:
  assumes inv: "dev_inv d" and cell: "dev_cell d p \<noteq> None"
  defines "Q \<equiv> nat (sd_quantum d)" and "N \<equiv> nat (sd_qset d)"
  obtains arr blk where "p div Q div N < length (sd_data d)"
    "qs_data (sd_data d ! (p div Q div N)) = Some arr" "arr ! (p div Q mod N) = Some blk"
    "p div Q mod N < length arr" "length blk = Q"
proof -
  obtain arr blk where il: "p div Q div N < length (sd_data d)"
    and arr: "qs_data (sd_data d ! (p div Q div N)) = Some arr"
    and blk: "arr ! (p div Q mod N) = Some blk"
    using cell by (auto simp: dev_cell_def Let_def Q_def N_def split: if_splits option.splits)
  have aok: "array_ok (sd_quantum d) (sd_qset d) arr" using inv il arr by (rule dev_inv_item)
  have sl: "p div Q mod N < length arr"
    using aok dev_inv_qset_pos [OF inv] by (simp add: array_ok_def N_def)
  have "length blk = Q" using aok blk sl by (metis Q_def array_ok_def nth_mem)
  with il arr blk sl show thesis by (rule that)
qed

text \<open>How many bytes a read of \<open>c\<close> bytes at \<open>p\<close> transfers: up to the size, up to the quantum.\<close>

definition read_count :: "scull_dev \<Rightarrow> nat \<Rightarrow> nat \<Rightarrow> nat" where
  "read_count d p c = (let Q = nat (sd_quantum d) in min (min c (nat (sd_size d) - p)) (Q - p mod Q))"

lemma scull_read_present:
  assumes inv: "dev_inv d" and pos: "pos_ok d p" and len: "int p + int c < 2 ^ 63"
    and size: "int p < sd_size d" and cell: "dev_cell d p \<noteq> None"
  defines "n \<equiv> read_count d p c"
  shows "scull_read ok False u (int c) (int p) d km =
    Inr (if min u n \<noteq> 0
         then \<lparr>rd_ret = - EFAULT, rd_bytes = map (\<lambda>x. the (dev_cell d x)) [p..<p + (n - u)],
               rd_pos = int p, rd_dev = d, rd_kmem = km\<rparr>
         else \<lparr>rd_ret = int n, rd_bytes = map (\<lambda>x. the (dev_cell d x)) [p..<p + n],
               rd_pos = int (p + n), rd_dev = d, rd_kmem = km\<rparr>)"
proof -
  define Q N where "Q = nat (sd_quantum d)" and "N = nat (sd_qset d)"
  define i s where "i = p div Q div N" and "s = p div Q mod N"
  define c' where "c' = min c (nat (sd_size d) - p)"
  note lc = locate [OF inv pos, folded Q_def N_def, folded i_def s_def]
  obtain arr blk where il: "i < length (sd_data d)" and arr: "qs_data (sd_data d ! i) = Some arr"
    and blk: "arr ! s = Some blk" and sl: "s < length arr" and bl: "length blk = Q"
    using cell_block [OF inv cell] unfolding i_def s_def Q_def N_def by blast
  have sz: "sd_size d < 2 ^ 63" using inv by (simp add: dev_inv_def)
  have u: "u64 (int p) = int p" "u64 (int p + int c) = int p + int c"
      "u64 (sd_size d - int p) = sd_size d - int p"
    using len size sz by (auto intro!: u64_id)
  have cc: "(if sd_size d < u64 (int p + int c) then u64 (sd_size d - int p) else int c) = int c'"
    unfolding u using size by (auto simp: c'_def min_def)
  have clip: "clip_to_quantum (sd_quantum d) (int (p mod Q)) (int c') = int n"
    using clip_count [of "sd_quantum d" c' p] len lc
    by (simp add: n_def read_count_def Let_def Q_def c'_def)
  have nQ: "p mod Q + n \<le> Q"
    using mod_less_divisor [OF lc(5), of p] unfolding n_def read_count_def Let_def Q_def by linarith
  have pn: "s64 (int p + int n) = int p + int n"
    using len by (intro s64_id) (auto simp: n_def read_count_def Let_def)
  have cells: "take m (drop (p mod Q) blk) = map (\<lambda>x. the (dev_cell d x)) [p..<p + m]"
    if "m \<le> n" for m
    using that nQ by (intro block_cells [OF i_def il arr blk [unfolded s_def] Q_def N_def lc(5) bl]) simp
  have fo: "scull_follow ok (int i) d km = (d, km, Some i)" using lc(10) il by (rule scull_follow_within)
  have "\<not> sd_size d \<le> u64 (int p)" using size u by simp
  moreover have "int (p mod Q) + int n \<le> int (length blk)" using nQ bl by simp
  ultimately show ?thesis
    using sl by (simp add: scull_read_def scull_read_locked_def Let_def lc(1,2,7-9) cc
        fo arr blk clip cells pn take_map take_upt)
qed

lemma scull_read_absent:
  assumes inv: "dev_inv d" and pos: "pos_ok d p"
    and none: "sd_size d \<le> int p \<or> dev_cell d p = None"
  obtains r where "scull_read ok False u (int c) (int p) d km = Inr r"
    "rd_ret r = 0" "rd_bytes r = []" "rd_pos r = int p" "grown d km (rd_dev r) (rd_kmem r)"
proof (cases "sd_size d \<le> int p")
  case True
  moreover have "u64 (int p) = int p" using pos by (intro u64_id) (auto simp: pos_ok_def)
  ultimately have "scull_read ok False u (int c) (int p) d km =
      Inr \<lparr>rd_ret = 0, rd_bytes = [], rd_pos = int p, rd_dev = d, rd_kmem = km\<rparr>"
    by (simp add: scull_read_def scull_read_locked_def Let_def)
  then show thesis by (rule that) (simp_all add: grown_refl inv)
next
  case False
  define i s where "i = p div nat (sd_quantum d) div nat (sd_qset d)"
    and "s = p div nat (sd_quantum d) mod nat (sd_qset d)"
  note lc = locate [OF inv pos, folded i_def s_def]
  obtain d1 km1 r1 where fo: "scull_follow ok (int i) d km = (d1, km1, r1)" by (metis prod_cases3)
  have g: "grown d km d1 km1" using fo inv by (rule scull_follow_grown)
  have f: "sd_quantum d1 = sd_quantum d" "sd_qset d1 = sd_qset d" "dev_cell d1 p = dev_cell d p"
    using g by (simp_all add: grown_def)
  have "u64 (int p) = int p" using pos by (intro u64_id) (auto simp: pos_ok_def)
  with False have start: "\<not> sd_size d \<le> u64 (int p)" by simp
  note defs = scull_read_def scull_read_locked_def Let_def lc(1,2,7-9) fo start
  have "scull_read ok False u (int c) (int p) d km =
      Inr \<lparr>rd_ret = 0, rd_bytes = [], rd_pos = int p, rd_dev = d1, rd_kmem = km1\<rparr>"
  proof (cases r1)
    case None
    then show ?thesis by (simp add: defs)
  next
    case (Some j)
    with scull_follow_spec [OF fo] lc(10) have j: "j = i" and ji: "i < length (sd_data d1)"
      by (auto simp: u32_item)
    show ?thesis
    proof (cases "qs_data (sd_data d1 ! i)")
      case None
      then show ?thesis using Some j by (simp add: defs)
    next
      case arr: (Some arr)
      have "array_ok (sd_quantum d) (sd_qset d) arr"
        using dev_inv_item [OF grown_dev_inv [OF g] ji arr] by (simp add: f)
      then have "s < length arr" using lc(6) by (simp add: s_def array_ok_def)
      moreover have "dev_cell d1 p = None" using none False f(3) by simp
      then have "arr ! s = None" using ji arr by (simp add: dev_cell_def f(1,2) Let_def i_def s_def)
      ultimately show ?thesis using Some j arr by (simp add: defs)
    qed
  qed
  then show thesis by (rule that) (simp_all add: g)
qed

end
