(* ===== verification/Scull_Theorems.thy ===== *)
theory Scull_Theorems
  imports Scull_Spec
begin

text \<open>
  The properties of the bare device, stated on the operations of \<open>main.c\<close>. Positions are
  those the kernel's file layer lets through (\<open>pos + count\<close> fits \<open>loff_t\<close>) and whose list item
  is numbered within \<open>int\<close> (\<open>pos_ok\<close>). \<open>tiny_dev\<close> is a device of two quanta of four bytes per
  item, on which the witnesses run.
\<close>

definition tiny_dev :: scull_dev where
  "tiny_dev = \<lparr>sd_data = [], sd_quantum = 4, sd_qset = 2, sd_size = 0, sd_access_key = 0\<rparr>"

definition fresh_kmem :: kmem where
  "fresh_kmem = \<lparr>km_calls = 0, km_live = 0\<rparr>"

lemma tiny_dev_ok: "dev_inv tiny_dev" "p < 100 \<Longrightarrow> pos_ok tiny_dev p"
  by (simp_all add: tiny_dev_def dev_inv_def params_ok_def pos_ok_def)

lemma trim_quanta_all:
  "i + n \<le> length arr \<Longrightarrow>
   trim_quanta arr i n km =
     Inr (km\<lparr>km_live := km_live km - int (array_blocks (take n (drop i arr)))\<rparr>)"
proof (induction n arbitrary: i km)
  case 0
  then show ?case by (simp add: array_blocks_def)
next
  case (Suc n)
  then have "i < length arr" by simp
  then have "take (Suc n) (drop i arr) = arr ! i # take n (drop (Suc i) arr)"
    by (metis Cons_nth_drop_Suc take_Suc_Cons)
  with Suc show ?case by (cases "arr ! i") (simp_all add: array_blocks_def)
qed

lemma trim_items_all:
  "\<forall>it \<in> set items. item_ok q n it \<Longrightarrow>
   trim_items n items km =
     Inr (km\<lparr>km_live := km_live km - int (sum_list (map item_blocks items))\<rparr>)"
proof (induction items arbitrary: km)
  case Nil
  then show ?case by simp
next
  case (Cons it items)
  then show ?case
    by (auto simp: item_ok_def item_blocks_def array_ok_def trim_quanta_all split: option.split)
qed

text \<open>What \<open>scull_trim\<close> needs: arrays and quanta of the device's own sizes.\<close>

definition items_ok :: "scull_dev \<Rightarrow> bool" where
  "items_ok d \<longleftrightarrow> (\<forall>it \<in> set (sd_data d). item_ok (sd_quantum d) (sd_qset d) it)"

lemma dev_inv_items_ok: "dev_inv d \<Longrightarrow> items_ok d"
  by (simp add: dev_inv_def items_ok_def)

lemma scull_trim_items:
  "items_ok d \<Longrightarrow> scull_trim p d km =
     Inr (d\<lparr>sd_size := 0, sd_quantum := scull_quantum p, sd_qset := scull_qset p, sd_data := []\<rparr>,
          km\<lparr>km_live := km_live km - int (dev_blocks d)\<rparr>)"
  using trim_items_all [of "sd_data d" "sd_quantum d" "sd_qset d" km]
  by (simp add: scull_trim_def items_ok_def dev_blocks_def)

lemmas scull_trim_spec = scull_trim_items [OF dev_inv_items_ok]

lemma dev_cell_resize [simp]: "dev_cell (d\<lparr>sd_size := n\<rparr>) x = dev_cell d x"
  by (simp add: dev_cell_def Let_def split: option.split)

lemma resize [simp]:
  "scull_content (d\<lparr>sd_size := n\<rparr>) = scull_content d"
  "dev_blocks (d\<lparr>sd_size := n\<rparr>) = dev_blocks d"
  by (simp_all add: scull_content_def dev_blocks_def fun_eq_iff)

lemma dev_inv_resize: "dev_inv d \<Longrightarrow> 0 \<le> n \<Longrightarrow> n < 2 ^ 63 \<Longrightarrow> dev_inv (d\<lparr>sd_size := n\<rparr>)"
  by (simp add: dev_inv_def)

lemma storedD:
  assumes "stored d km p xs d' km'"
  shows "dev_inv d'" and "sd_size d' = sd_size d"
    and "km_live km' - km_live km = int (dev_blocks d') - int (dev_blocks d)"
    and "x < p \<or> p + length xs \<le> x \<Longrightarrow> scull_content d' x = scull_content d x"
    and "p \<le> x \<Longrightarrow> x < p + length xs \<Longrightarrow> scull_content d' x = xs ! (x - p)"
    and "p \<le> x \<Longrightarrow> x < p + length xs \<Longrightarrow> dev_cell d' x = Some (xs ! (x - p))"
    and "sd_quantum d' = sd_quantum d" and "sd_qset d' = sd_qset d"
  using assms by (simp_all add: stored_def) auto

text \<open>
  C1: A write on a well-formed device, at positions whose list items are numbered within the range of
  \<open>int\<close>, never faults and leaves the device well formed, whatever the allocator refuses and wherever copying from the user stops; every block it takes from the
  allocator is owned by the device, bytes outside the reported range keep their contents, and a
  failing write moves neither the position nor the size.
\<close>

theorem scull_write_safe:
  assumes "dev_inv d" "pos_ok d p" "int p + int (length buf) < 2 ^ 63"
  shows "\<exists>r. scull_write ok intr u buf (int p) d km = Inr r \<and> dev_inv (wr_dev r)
     \<and> km_live (wr_kmem r) - km_live km = int (dev_blocks (wr_dev r)) - int (dev_blocks d)
     \<and> (\<forall>x. x < p \<or> p + length buf \<le> x \<longrightarrow> scull_content (wr_dev r) x = scull_content d x)
     \<and> (wr_ret r < 0 \<longrightarrow> wr_pos r = int p \<and> sd_size (wr_dev r) = sd_size d)"
proof (cases intr)
  case True
  then show ?thesis using assms by (simp add: scull_write_def)
next
  case False
  from assms show ?thesis
  proof (cases rule: scull_write_cases [of d p buf ok u km])
    case (nomem r)
    with False show ?thesis
      using grown_dev_inv [OF nomem(4)] grown_content [OF nomem(4)] by (auto simp: grown_def)
  next
    case (efault r)
    have "length (copied_from_user u (min (length buf) m) buf) \<le> length buf" for m
      by simp
    then have "scull_content (wr_dev r) x = scull_content d x" if "x < p \<or> p + length buf \<le> x" for x
      using that by (intro storedD(4) [OF efault(5)]) (meson add_left_mono le_trans)
    then show ?thesis using False efault(1,3,4) storedD(1-3) [OF efault(5)]
      by (intro exI [of _ r] conjI allI impI) simp_all
  next
    case (written r d')
    have "scull_content d' x = scull_content d x" if "x < p \<or> p + length buf \<le> x" for x
      using that by (intro storedD(4) [OF written(5)]) auto
    moreover have "dev_inv (wr_dev r)"
      unfolding written(6) using assms storedD(1) [OF written(5)]
      by (intro dev_inv_resize) (auto simp: dev_inv_def)
    ultimately show ?thesis using False written(1,3,6) storedD(3) [OF written(5)]
      by (intro exI [of _ r] conjI allI impI) simp_all
  qed
qed

theorem scull_write_safe_witness:
  "\<exists>r. scull_write (\<lambda>n sz. n < 2) False 1 [7, 8] (int 3) tiny_dev fresh_kmem = Inr r
     \<and> dev_inv (wr_dev r)
     \<and> km_live (wr_kmem r) - km_live fresh_kmem = int (dev_blocks (wr_dev r)) - int (dev_blocks tiny_dev)
     \<and> (\<forall>x. x < 3 \<or> 3 + length [7, 8 :: byte] \<le> x \<longrightarrow>
            scull_content (wr_dev r) x = scull_content tiny_dev x)
     \<and> (wr_ret r < 0 \<longrightarrow> wr_pos r = int 3 \<and> sd_size (wr_dev r) = sd_size tiny_dev)"
  by (rule scull_write_safe) (simp_all add: tiny_dev_ok)

text \<open>
  C16: A write that nothing disturbs (the mutex is taken, every allocation is served, the user's
  buffer is readable) stores exactly the bytes that fit into the quantum of the position, reports
  their number, advances the position by it, and makes the device at least that long.
\<close>

theorem scull_write_exact:
  assumes "dev_inv d" "pos_ok d p" "int p + int (length buf) < 2 ^ 63" "\<forall>k sz. ok k sz"
  defines "n \<equiv> min (length buf) (nat (sd_quantum d) - p mod nat (sd_quantum d))"
  shows "\<exists>r. scull_write ok False 0 buf (int p) d km = Inr r
     \<and> wr_ret r = int n \<and> wr_pos r = int (p + n)
     \<and> sd_size (wr_dev r) = max (sd_size d) (int (p + n))
     \<and> scull_content (wr_dev r) = (\<lambda>x. if p \<le> x \<and> x < p + n then Some (buf ! (x - p))
                                        else scull_content d x)"
  using assms(1-3)
proof (cases rule: scull_write_cases [of d p buf ok 0 km])
  case (written r d')
  have l: "length (map Some (take n buf)) = n" by (simp add: n_def)
  note st = written(5) [folded n_def]
  have "scull_content d' x = (if p \<le> x \<and> x < p + n then Some (buf ! (x - p)) else scull_content d x)" for x
    using storedD(4,5) [OF st, of x] l by auto
  then have "scull_content (wr_dev r) = (\<lambda>x. if p \<le> x \<and> x < p + n then Some (buf ! (x - p))
      else scull_content d x)" by (simp add: written(6) fun_eq_iff)
  then show ?thesis
    using written(1,3,4,6) unfolding n_def [symmetric] by (intro exI [of _ r] conjI) simp_all
qed (use assms(4) in auto)

theorem scull_write_exact_witness:
  "\<exists>r. scull_write (\<lambda>_ _. True) False 0 [7, 8, 9] (int 2) tiny_dev fresh_kmem = Inr r
     \<and> wr_ret r = 2 \<and> sd_size (wr_dev r) = 4 \<and> scull_content (wr_dev r) 3 = Some 8"
  using scull_write_exact [of tiny_dev 2 "[7, 8, 9]" "\<lambda>_ _. True" fresh_kmem] tiny_dev_ok
  by (auto simp: tiny_dev_def fun_eq_iff)

text \<open>
  C17: A read of a stored position returns the bytes stored from there to the end of the request,
  of the device or of the quantum, whichever comes first, and advances the position by their
  number; a read past the end or in a hole returns 0. A read changes neither the contents nor
  the size, and what it allocates belongs to the device.
\<close>

theorem scull_read_exact:
  assumes "dev_inv d" "pos_ok d p" "int p + int c < 2 ^ 63"
  shows "\<exists>r. scull_read ok False 0 (int c) (int p) d km = Inr r
     \<and> grown d km (rd_dev r) (rd_kmem r)
     \<and> (if int p < sd_size d \<and> dev_cell d p \<noteq> None
        then rd_ret r = int (read_count d p c) \<and> rd_pos r = int (p + read_count d p c)
             \<and> rd_bytes r = map (\<lambda>x. the (dev_cell d x)) [p..<p + read_count d p c]
        else rd_ret r = 0 \<and> rd_bytes r = [] \<and> rd_pos r = int p)"
proof (cases "int p < sd_size d \<and> dev_cell d p \<noteq> None")
  case True
  then show ?thesis using scull_read_present [OF assms] by (simp add: grown_refl assms(1))
next
  case False
  then have "sd_size d \<le> int p \<or> dev_cell d p = None" by auto
  from scull_read_absent [OF assms(1,2) this] False show ?thesis by (smt (verit, best))
qed

theorem scull_read_exact_witness:
  "\<exists>r. scull_read (\<lambda>_ _. True) False 0 (int 5) (int 3) tiny_dev fresh_kmem = Inr r
     \<and> grown tiny_dev fresh_kmem (rd_dev r) (rd_kmem r) \<and> rd_ret r = 0 \<and> rd_pos r = 3"
  using scull_read_exact [of tiny_dev 3 5 "\<lambda>_ _. True" fresh_kmem] tiny_dev_ok
  by (auto simp: tiny_dev_def)

text \<open>
  C10: What a write reports as written is what a read of the same position and length returns,
  byte for byte, with both calls ending at the same file position.
\<close>

theorem scull_write_read_roundtrip:
  assumes "dev_inv d" "pos_ok d p" "int p + int (length buf) < 2 ^ 63"
    and w: "scull_write ok intr u buf (int p) d km = Inr r" "0 < wr_ret r"
  shows "scull_read ok' False 0 (wr_ret r) (int p) (wr_dev r) km'
    = Inr \<lparr>rd_ret = wr_ret r, rd_bytes = map Some (take (nat (wr_ret r)) buf),
           rd_pos = wr_pos r, rd_dev = wr_dev r, rd_kmem = km'\<rparr>"
proof -
  have i: "\<not> intr" using w by (auto simp: scull_write_def)
  obtain d' n where wr: "n \<le> length buf" "wr_ret r = int n" "wr_pos r = int (p + n)"
      "n \<le> nat (sd_quantum d) - p mod nat (sd_quantum d)"
      "stored d km p (map Some (take n buf)) d' (wr_kmem r)"
      "wr_dev r = d'\<lparr>sd_size := max (sd_size d) (int (p + n))\<rparr>"
    using assms(1-3)
  proof (cases rule: scull_write_cases [of d p buf ok u km])
    case (written r1 d1)
    from written(1) w i have e: "r1 = r" by simp
    show thesis
      by (rule that [OF min.cobounded1 written(3,4) [unfolded e] min.cobounded2 written(5,6) [unfolded e]])
  qed (use w i in auto)
  have n: "0 < n" using w wr by simp
  have cell: "dev_cell (wr_dev r) x = Some (Some (buf ! (x - p)))" if "p \<le> x" "x < p + n" for x
    using storedD(6) [OF wr(5), of x] that wr(1,6) by simp
  have "dev_inv (wr_dev r)"
    unfolding wr(6) using assms wr(1) storedD(1) [OF wr(5)]
    by (intro dev_inv_resize) (auto simp: dev_inv_def)
  moreover have "pos_ok (wr_dev r) p"
    using assms(2) storedD(7,8) [OF wr(5)] by (simp add: pos_ok_def wr(6))
  moreover have "read_count (wr_dev r) p n = n"
    using wr(4) storedD(7) [OF wr(5)] by (simp add: read_count_def wr(6) min_def)
  moreover have "map (\<lambda>x. the (dev_cell (wr_dev r) x)) [p..<p + n] = map Some (take n buf)"
    using cell wr(1) by (intro nth_equalityI) simp_all
  ultimately show ?thesis
    using scull_read_present [of "wr_dev r" p n ok' 0 km'] assms(3) wr(1-3,6) n cell [of p] by simp
qed

theorem scull_write_read_roundtrip_witness:
  "\<exists>r. scull_write (\<lambda>_ _. True) False 0 [7, 8, 9] (int 2) tiny_dev fresh_kmem = Inr r
     \<and> scull_read (\<lambda>_ _. True) False 0 (wr_ret r) (int 2) (wr_dev r) (wr_kmem r)
       = Inr \<lparr>rd_ret = wr_ret r, rd_bytes = map Some (take (nat (wr_ret r)) [7, 8, 9]),
              rd_pos = wr_pos r, rd_dev = wr_dev r, rd_kmem = wr_kmem r\<rparr>"
proof -
  obtain r where r: "scull_write (\<lambda>_ _. True) False 0 [7, 8, 9] (int 2) tiny_dev fresh_kmem = Inr r"
    "wr_ret r = 2" by (rule that) code_simp+
  show ?thesis
    by (intro exI [of _ r] conjI r(1) scull_write_read_roundtrip [OF tiny_dev_ok(1) tiny_dev_ok(2) _ r(1)])
       (simp_all add: r(2))
qed

text \<open>
  Opening a well-formed device for writing only empties it: every block the device owned goes
  back to the allocator, none of its contents survive, and the device takes over the quantum and
  quantum-set parameters of the moment. It stays well formed when these are.
\<close>

theorem scull_open_trims:
  assumes "dev_inv d" "params_ok (scull_quantum p) (scull_qset p)"
  shows "\<exists>d' km'. scull_open p False O_WRONLY d km = Inr (0, d', km')
     \<and> dev_inv d' \<and> sd_size d' = 0 \<and> scull_content d' = (\<lambda>x. None) \<and> dev_blocks d' = 0
     \<and> sd_quantum d' = scull_quantum p \<and> sd_qset d' = scull_qset p
     \<and> km_live km' = km_live km - int (dev_blocks d)"
  using assms by (auto simp: scull_open_def scull_trim_spec dev_inv_def dev_blocks_def
      scull_content_def dev_cell_def Let_def)

theorem scull_open_trims_witness:
  "\<exists>d' km'. scull_open \<lparr>scull_quantum = 16, scull_qset = 8, scull_p_buffer = 0\<rparr> False O_WRONLY
       tiny_dev fresh_kmem = Inr (0, d', km')
     \<and> dev_inv d' \<and> sd_size d' = 0 \<and> scull_content d' = (\<lambda>x. None) \<and> dev_blocks d' = 0
     \<and> sd_quantum d' = 16 \<and> sd_qset d' = 8 \<and> km_live km' = 0"
  using scull_open_trims [OF tiny_dev_ok(1),
      of "\<lparr>scull_quantum = 16, scull_qset = 8, scull_p_buffer = 0\<rparr>" fresh_kmem]
  by (simp add: params_ok_def tiny_dev_def fresh_kmem_def dev_blocks_def)

text \<open>
  \<open>scull_write\<close> copies \<open>dev->qset\<close> into a local before it takes the mutex. When another
  process trims the device in between and the parameters have shrunk, the array index computed
  from the old value lies beyond the new array: on every device whose first array is shorter
  than the index of the position under the old parameters, the write leaves the array.
\<close>

theorem scull_write_stale_qset:
  assumes new: "dev_inv d" "qs_data (sd_data d ! 0) = Some arr" "sd_data d \<noteq> []"
    and stale: "params_ok q n" "int p < q * n" "sd_qset d \<le> int p div q"
  shows "scull_write_locked ok u q n buf (int p) d km = Inl OutOfBounds"
proof -
  note q = params_okD [OF stale(1)]
  have p: "int p div (q * n) = 0" using stale(2) by simp
  then have pz: "p div nat q div nat n = 0"
    using q by (metis div_mult2_eq nat_int nat_0 nat_mult_distrib nat_div_distrib of_nat_0_le_iff less_le)
  have b: "p div nat q < nat n" using pz q by (metis div_eq_0_iff zero_less_nat_eq less_numeral_extra(3))
  have s: "int (p div nat q mod nat n) = int p div q" using b q by (simp add: zdiv_int)
  have l: "int (length arr) = sd_qset d"
    using dev_inv_item [OF new(1) _ new(2)] new(3) dev_inv_qset_pos [OF new(1)] by (simp add: array_ok_def)
  have "s32 (q * n) \<noteq> 0" using params_ok_itemsize [OF stale(1)] q by simp
  moreover have "scull_follow ok 0 d km = (d, km, Some 0)"
    using scull_follow_within [of 0 d] new(3) by simp
  moreover have "\<not> int (p div nat q mod nat n) < int (length arr)" using s l stale(3) by simp
  ultimately show ?thesis
    using position_parts [OF stale(1), of p] p pz q(1) new(2)
    by (simp add: scull_write_locked_def ensure_array_def)
qed

definition shrunk_dev :: scull_dev where
  "shrunk_dev = \<lparr>sd_data = [\<lparr>qs_data = Some [None]\<rparr>], sd_quantum = 4, sd_qset = 1, sd_size = 0,
                 sd_access_key = 0\<rparr>"

theorem scull_write_stale_qset_witness:
  "scull_write_locked (\<lambda>_ _. True) 0 4 2 [7] (int 5) shrunk_dev fresh_kmem = Inl OutOfBounds"
  by (rule scull_write_stale_qset [where arr = "[None]"])
     (simp_all add: shrunk_dev_def dev_inv_def params_ok_def array_ok_def)

text \<open>The first write to an empty device, of one byte within the first quantum.\<close>

definition one_byte_dev :: "int \<Rightarrow> int \<Rightarrow> nat \<Rightarrow> byte \<Rightarrow> scull_dev" where
  "one_byte_dev q n k b =
     \<lparr>sd_data = [\<lparr>qs_data = Some ((replicate (nat n) None)
                   [0 := Some (splice_at k [Some b] (replicate (nat q) None))])\<rparr>],
      sd_quantum = q, sd_qset = n, sd_size = int k + 1, sd_access_key = 0\<rparr>"

lemma one_byte_dev_cell:
  assumes "k < nat q" "x < nat q" "0 < n"
  shows "dev_cell (one_byte_dev q n k b) x = Some (if x = k then Some b else None)"
  using assms by (auto simp: dev_cell_def one_byte_dev_def Let_def nth_splice_at)

lemma one_byte_dev_inv: "params_ok q n \<Longrightarrow> k < nat q \<Longrightarrow> dev_inv (one_byte_dev q n k b)"
  using quantum_small [of q n]
  by (auto simp: dev_inv_def one_byte_dev_def array_ok_def in_set_conv_nth nth_list_update
      split: if_splits)

lemma first_block_pos_ok:
  assumes "params_ok (sd_quantum d) (sd_qset d)" "p < nat (sd_quantum d)"
  shows "pos_ok d p" "int p div (sd_quantum d * sd_qset d) = 0"
proof -
  have "sd_quantum d \<le> sd_quantum d * sd_qset d" using assms(1) by (simp add: params_ok_def)
  then have "int p < sd_quantum d * sd_qset d" using assms(2) by linarith
  then show "int p div (sd_quantum d * sd_qset d) = 0" by simp
  then show "pos_ok d p" using assms quantum_small [OF assms(1)] by (simp add: pos_ok_def)
qed

lemma scull_write_one_byte:
  assumes par: "params_ok q n" and k: "k < nat q"
  shows "\<exists>km'. scull_write (\<lambda>_ _. True) False 0 [b] (int k)
       \<lparr>sd_data = [], sd_quantum = q, sd_qset = n, sd_size = 0, sd_access_key = 0\<rparr> km
     = Inr \<lparr>wr_ret = 1, wr_pos = int k + 1, wr_dev = one_byte_dev q n k b, wr_kmem = km'\<rparr>"
proof -
  define d where "d = \<lparr>sd_data = [], sd_quantum = q, sd_qset = n, sd_size = 0, sd_access_key = 0\<rparr>"
  have d: "sd_data d = []" "sd_quantum d = q" "sd_qset d = n" "sd_size d = 0" by (simp_all add: d_def)
  have inv: "dev_inv d" using par by (simp add: d_def dev_inv_def)
  have pos: "pos_ok d k" using first_block_pos_ok [of d k] par k by (simp add: d)
  note lc = locate [OF inv pos, unfolded d]
  have kq: "int k < q" "q < 2 ^ 31" "0 < q" "0 < n" using k lc params_okD [OF par] by auto
  have z: "k div nat q = 0" "k mod nat q = k" using k by simp_all
  have c: "clip_to_quantum q (int k) 1 = 1" using clip_count [of q 1 k] kq z by (simp add: min_def)
  have i: "s64 (int k + 1) = int k + 1" "u64 (int k + 1) = int k + 1"
    using kq by (auto intro!: s64_id u64_id)
  have n: "0 < nat n" using kq by simp
  have "\<exists>km'. scull_write (\<lambda>_ _. True) False 0 [b] (int k) d km
     = Inr \<lparr>wr_ret = 1, wr_pos = int k + 1, wr_dev = one_byte_dev q n k b, wr_kmem = km'\<rparr>"
    using kq n by (simp add: scull_write_def scull_write_locked_def Let_def d lc(1,2,7-9) z c i
        scull_follow_def kmalloc_def ensure_array_def ensure_quantum_def empty_qset_def
        put_block_def copied_from_user_def one_byte_dev_def u32_def)
       (simp add: d_def)
  then show ?thesis by (simp add: d_def)
qed

text \<open>
  \<open>kmalloc\<close> does not clear a quantum. Writing one byte at offset \<open>k\<close> of a new quantum and
  reading the quantum from its start hands the user \<open>k\<close> bytes that were never written, the
  old contents of kernel memory, with a successful return value.
\<close>

theorem scull_read_leaks_uninitialised:
  assumes par: "params_ok q n" and k: "0 < k" "k < nat q"
  shows "\<exists>w r. scull_write (\<lambda>_ _. True) False 0 [b] (int k)
       \<lparr>sd_data = [], sd_quantum = q, sd_qset = n, sd_size = 0, sd_access_key = 0\<rparr> km = Inr w
     \<and> scull_read (\<lambda>_ _. True) False 0 (int k) (int 0) (wr_dev w) (wr_kmem w) = Inr r
     \<and> rd_ret r = int k \<and> rd_bytes r = replicate k None"
proof -
  let ?d = "one_byte_dev q n k b"
  have n: "0 < n" "q < 2 ^ 31" using params_okD [OF par] quantum_small [OF par] by auto
  have pos: "pos_ok ?d 0" using first_block_pos_ok [of ?d 0] par k by (simp add: one_byte_dev_def)
  have "read_count ?d 0 k = k" using k by (simp add: read_count_def one_byte_dev_def Let_def)
  moreover have "map (\<lambda>x. the (dev_cell ?d x)) [0..<0 + k] = replicate k None"
    using k n by (intro nth_equalityI) (simp_all add: one_byte_dev_cell)
  moreover have "int 0 + int k < 2 ^ 63" "int 0 < sd_size ?d" "dev_cell ?d 0 \<noteq> None"
    using k n by (simp_all add: one_byte_dev_cell) (simp_all add: one_byte_dev_def)
  ultimately have "\<exists>r. scull_read (\<lambda>_ _. True) False 0 (int k) (int 0) ?d km' = Inr r
      \<and> rd_ret r = int k \<and> rd_bytes r = replicate k None" for km'
    using scull_read_present [OF one_byte_dev_inv [OF par k(2)] pos, of k "\<lambda>_ _. True" 0 km'] by simp
  with scull_write_one_byte [OF par k(2)] show ?thesis by fastforce
qed

theorem scull_read_leaks_uninitialised_witness:
  "\<exists>w r. scull_write (\<lambda>_ _. True) False 0 [7] (int 3) tiny_dev fresh_kmem = Inr w
     \<and> scull_read (\<lambda>_ _. True) False 0 (int 3) (int 0) (wr_dev w) (wr_kmem w) = Inr r
     \<and> rd_ret r = int 3 \<and> rd_bytes r = replicate 3 None"
  unfolding tiny_dev_def by (rule scull_read_leaks_uninitialised) (simp_all add: params_ok_def)

text \<open>
  A seek to a position that exists goes there, and one whose result is negative or whose
  \<open>whence\<close> is none of the three fails with \<open>-EINVAL\<close> and leaves the position alone; the end of
  the device is its size.
\<close>

theorem scull_llseek_spec:
  fixes whence :: int
  assumes "dev_inv d" "0 \<le> pos" "pos < 2 ^ 62" "\<bar>off\<bar> < 2 ^ 62" "sd_size d < 2 ^ 62"
  defines "target \<equiv> (if whence = 0 then off else if whence = 1 then pos + off else sd_size d + off)"
  shows "scull_llseek d pos off whence =
     (if whence \<in> {0, 1, 2} \<and> 0 \<le> target then (target, target) else (- EINVAL, pos))"
proof -
  have "0 \<le> sd_size d" using assms(1) by (simp add: dev_inv_def)
  then have "s64 (u64 (sd_size d + off)) = sd_size d + off"
    using assms(4,5) by (simp add: s64_def u64_def mod_add_left_eq)
  moreover have "s64 (pos + off) = pos + off" using assms(2-4) by (intro s64_id) simp_all
  ultimately show ?thesis by (simp add: scull_llseek_def target_def)
qed

theorem scull_llseek_spec_witness:
  "scull_llseek tiny_dev 5 (-2) 1 = (3, 3) \<and> scull_llseek tiny_dev 5 (-6) 1 = (- EINVAL, 5)"
  using scull_llseek_spec [OF tiny_dev_ok(1), of 5 "-2" 1] scull_llseek_spec [OF tiny_dev_ok(1), of 5 "-6" 1]
  by (simp add: tiny_dev_def)

end
