(* ===== verification/Scull_Ioctl.thy ===== *)
theory Scull_Ioctl
  imports Scull_Theorems
begin

text \<open>
  \<open>scull_ioctl\<close> of \<open>main.c\<close>, which reads and sets the module-wide parameters and serves the
  pipe devices too. A command is the fields the kernel's \<open>_IOC\<close> macros pack and unpack
  (direction, magic number, number, size). What the kernel decides is an argument: whether
  \<open>access_ok\<close> accepts the user's pointer, whether the caller has \<open>CAP_SYS_ADMIN\<close>, the value
  \<open>__get_user\<close> reads (\<open>None\<close>: it fails, and then it stores 0) and whether \<open>__put_user\<close>
  succeeds.
\<close>

section \<open>Commands\<close>

record ioc_cmd =
  ioc_read :: bool
  ioc_write :: bool
  ioc_type :: nat
  ioc_nr :: nat
  ioc_size :: nat

definition SCULL_IOC_MAGIC :: nat where "SCULL_IOC_MAGIC = 107"

definition SCULL_IOC_MAXNR :: nat where "SCULL_IOC_MAXNR = 14"

definition IO_cmd :: "nat \<Rightarrow> nat \<Rightarrow> ioc_cmd" where
  "IO_cmd t nr = \<lparr>ioc_read = False, ioc_write = False, ioc_type = t, ioc_nr = nr, ioc_size = 0\<rparr>"

definition IOW_int :: "nat \<Rightarrow> nat \<Rightarrow> ioc_cmd" where
  "IOW_int t nr = \<lparr>ioc_read = False, ioc_write = True, ioc_type = t, ioc_nr = nr, ioc_size = 4\<rparr>"

definition IOR_int :: "nat \<Rightarrow> nat \<Rightarrow> ioc_cmd" where
  "IOR_int t nr = \<lparr>ioc_read = True, ioc_write = False, ioc_type = t, ioc_nr = nr, ioc_size = 4\<rparr>"

definition IOWR_int :: "nat \<Rightarrow> nat \<Rightarrow> ioc_cmd" where
  "IOWR_int t nr = \<lparr>ioc_read = True, ioc_write = True, ioc_type = t, ioc_nr = nr, ioc_size = 4\<rparr>"

definition SCULL_IOCRESET :: ioc_cmd where "SCULL_IOCRESET = IO_cmd SCULL_IOC_MAGIC 0"
definition SCULL_IOCSQUANTUM :: ioc_cmd where "SCULL_IOCSQUANTUM = IOW_int SCULL_IOC_MAGIC 1"
definition SCULL_IOCSQSET :: ioc_cmd where "SCULL_IOCSQSET = IOW_int SCULL_IOC_MAGIC 2"
definition SCULL_IOCTQUANTUM :: ioc_cmd where "SCULL_IOCTQUANTUM = IO_cmd SCULL_IOC_MAGIC 3"
definition SCULL_IOCTQSET :: ioc_cmd where "SCULL_IOCTQSET = IO_cmd SCULL_IOC_MAGIC 4"
definition SCULL_IOCGQUANTUM :: ioc_cmd where "SCULL_IOCGQUANTUM = IOR_int SCULL_IOC_MAGIC 5"
definition SCULL_IOCGQSET :: ioc_cmd where "SCULL_IOCGQSET = IOR_int SCULL_IOC_MAGIC 6"
definition SCULL_IOCQQUANTUM :: ioc_cmd where "SCULL_IOCQQUANTUM = IO_cmd SCULL_IOC_MAGIC 7"
definition SCULL_IOCQQSET :: ioc_cmd where "SCULL_IOCQQSET = IO_cmd SCULL_IOC_MAGIC 8"
definition SCULL_IOCXQUANTUM :: ioc_cmd where "SCULL_IOCXQUANTUM = IOWR_int SCULL_IOC_MAGIC 9"
definition SCULL_IOCXQSET :: ioc_cmd where "SCULL_IOCXQSET = IOWR_int SCULL_IOC_MAGIC 10"
definition SCULL_IOCHQUANTUM :: ioc_cmd where "SCULL_IOCHQUANTUM = IO_cmd SCULL_IOC_MAGIC 11"
definition SCULL_IOCHQSET :: ioc_cmd where "SCULL_IOCHQSET = IO_cmd SCULL_IOC_MAGIC 12"
definition SCULL_P_IOCTSIZE :: ioc_cmd where "SCULL_P_IOCTSIZE = IO_cmd SCULL_IOC_MAGIC 13"
definition SCULL_P_IOCQSIZE :: ioc_cmd where "SCULL_P_IOCQSIZE = IO_cmd SCULL_IOC_MAGIC 14"

lemmas ioc_defs = SCULL_IOCRESET_def SCULL_IOCSQUANTUM_def SCULL_IOCSQSET_def SCULL_IOCTQUANTUM_def
  SCULL_IOCTQSET_def SCULL_IOCGQUANTUM_def SCULL_IOCGQSET_def SCULL_IOCQQUANTUM_def SCULL_IOCQQSET_def
  SCULL_IOCXQUANTUM_def SCULL_IOCXQSET_def SCULL_IOCHQUANTUM_def SCULL_IOCHQSET_def
  SCULL_P_IOCTSIZE_def SCULL_P_IOCQSIZE_def IO_cmd_def IOW_int_def IOR_int_def IOWR_int_def
  SCULL_IOC_MAGIC_def SCULL_IOC_MAXNR_def

section \<open>scull_ioctl\<close>

record ioctl_env =
  access_ok :: bool
  capable_admin :: bool
  user_value :: "int option"
  put_user_ok :: bool

record ioctl_result =
  io_ret :: int
  io_params :: scull_params
  io_user :: "int option"

text \<open>\<open>__get_user(x, ptr)\<close>: the return value and what \<open>x\<close> holds afterwards.\<close>

definition get_user :: "ioctl_env \<Rightarrow> int \<times> int" where
  "get_user env = (case user_value env of None \<Rightarrow> (- EFAULT, 0) | Some v \<Rightarrow> (0, s32 v))"

text \<open>\<open>__put_user(v, ptr)\<close>: the return value and what the user's cell receives.\<close>

definition put_user :: "ioctl_env \<Rightarrow> int \<Rightarrow> int \<times> int option" where
  "put_user env v = (if put_user_ok env then (0, Some v) else (- EFAULT, None))"

definition ioctl_switch :: "ioctl_env \<Rightarrow> ioc_cmd \<Rightarrow> int \<Rightarrow> scull_params \<Rightarrow> ioctl_result" where
  "ioctl_switch env cmd arg p =
     (let out = (\<lambda>ret p. \<lparr>io_ret = ret, io_params = p, io_user = None\<rparr>);
          privileged = (\<lambda>r. if \<not> capable_admin env then out (- EPERM) p else r)
      in if cmd = SCULL_IOCRESET then
           out 0 (p\<lparr>scull_quantum := SCULL_QUANTUM, scull_qset := SCULL_QSET\<rparr>)
         else if cmd = SCULL_IOCSQUANTUM then
           privileged (case get_user env of (ret, v) \<Rightarrow> out ret (p\<lparr>scull_quantum := v\<rparr>))
         else if cmd = SCULL_IOCTQUANTUM then
           privileged (out 0 (p\<lparr>scull_quantum := s32 arg\<rparr>))
         else if cmd = SCULL_IOCGQUANTUM then
           (case put_user env (scull_quantum p) of
              (ret, u) \<Rightarrow> \<lparr>io_ret = ret, io_params = p, io_user = u\<rparr>)
         else if cmd = SCULL_IOCQQUANTUM then out (scull_quantum p) p
         else if cmd = SCULL_IOCXQUANTUM then
           privileged
             (case get_user env of (ret, v) \<Rightarrow>
                if ret = 0
                then (case put_user env (scull_quantum p) of
                        (ret, u) \<Rightarrow> \<lparr>io_ret = ret, io_params = p\<lparr>scull_quantum := v\<rparr>, io_user = u\<rparr>)
                else out ret (p\<lparr>scull_quantum := v\<rparr>))
         else if cmd = SCULL_IOCHQUANTUM then
           privileged (out (scull_quantum p) (p\<lparr>scull_quantum := s32 arg\<rparr>))
         else if cmd = SCULL_IOCSQSET then
           privileged (case get_user env of (ret, v) \<Rightarrow> out ret (p\<lparr>scull_qset := v\<rparr>))
         else if cmd = SCULL_IOCTQSET then
           privileged (out 0 (p\<lparr>scull_qset := s32 arg\<rparr>))
         else if cmd = SCULL_IOCGQSET then
           (case put_user env (scull_qset p) of
              (ret, u) \<Rightarrow> \<lparr>io_ret = ret, io_params = p, io_user = u\<rparr>)
         else if cmd = SCULL_IOCQQSET then out (scull_qset p) p
         else if cmd = SCULL_IOCXQSET then
           privileged
             (case get_user env of (ret, v) \<Rightarrow>
                if ret = 0
                then (case put_user env (scull_qset p) of
                        (ret, u) \<Rightarrow> \<lparr>io_ret = ret, io_params = p\<lparr>scull_qset := v\<rparr>, io_user = u\<rparr>)
                else out ret (p\<lparr>scull_qset := v\<rparr>))
         else if cmd = SCULL_IOCHQSET then
           privileged (out (scull_qset p) (p\<lparr>scull_qset := s32 arg\<rparr>))
         else if cmd = SCULL_P_IOCTSIZE then out 0 (p\<lparr>scull_p_buffer := s32 arg\<rparr>)
         else if cmd = SCULL_P_IOCQSIZE then out (scull_p_buffer p) p
         else out (- ENOTTY) p)"

definition scull_ioctl :: "ioctl_env \<Rightarrow> ioc_cmd \<Rightarrow> int \<Rightarrow> scull_params \<Rightarrow> ioctl_result" where
  "scull_ioctl env cmd arg p =
     (let out = (\<lambda>ret. \<lparr>io_ret = ret, io_params = p, io_user = None\<rparr>)
      in if ioc_type cmd \<noteq> SCULL_IOC_MAGIC then out (- ENOTTY)
         else if SCULL_IOC_MAXNR < ioc_nr cmd then out (- ENOTTY)
         else if (ioc_read cmd \<or> ioc_write cmd) \<and> \<not> access_ok env then out (- EFAULT)
         else ioctl_switch env cmd arg p)"

section \<open>Properties\<close>

lemma s32_u64 [simp]: "s32 (u64 v) = s32 v"
proof -
  have "(v mod 2 ^ 64 + 2 ^ 31) mod 2 ^ 32 = (v mod 2 ^ 64 mod 2 ^ 32 + 2 ^ 31) mod (2 ^ 32 :: int)"
    by (simp only: mod_add_left_eq)
  also have "v mod 2 ^ 64 mod 2 ^ 32 = v mod (2 ^ 32 :: int)" by (rule mod_mod_cancel) simp
  finally show ?thesis unfolding s32_def u64_def by (simp only: mod_add_left_eq)
qed


lemma ioctl_switch_unprivileged:
  assumes "\<not> capable_admin env"
  shows "io_params (ioctl_switch env cmd arg p) =
    (if cmd = SCULL_IOCRESET then p\<lparr>scull_quantum := SCULL_QUANTUM, scull_qset := SCULL_QSET\<rparr>
     else if cmd = SCULL_P_IOCTSIZE then p\<lparr>scull_p_buffer := s32 arg\<rparr> else p)"
  using assms unfolding ioctl_switch_def Let_def put_user_def
  by (simp add: if_distrib [of io_params] ioc_defs cong: if_cong)

text \<open>
  Without \<open>CAP_SYS_ADMIN\<close> no command gives the quantum or the quantum-set size a value of
  the caller's choice: they keep their values, or the reset command puts back the compiled-in
  defaults.
\<close>

theorem ioctl_needs_privilege:
  assumes "\<not> capable_admin env"
  shows "let p' = io_params (scull_ioctl env cmd arg p)
    in (scull_quantum p' = scull_quantum p \<and> scull_qset p' = scull_qset p)
       \<or> (cmd = SCULL_IOCRESET \<and> scull_quantum p' = SCULL_QUANTUM \<and> scull_qset p' = SCULL_QSET)"
  using ioctl_switch_unprivileged [OF assms, of cmd arg p]
  by (simp add: scull_ioctl_def Let_def ioc_defs)

theorem ioctl_needs_privilege_witness:
  "let p' = io_params (scull_ioctl \<lparr>access_ok = True, capable_admin = False, user_value = Some 5,
       put_user_ok = True\<rparr> SCULL_IOCSQUANTUM 0 \<lparr>scull_quantum = 1, scull_qset = 2, scull_p_buffer = 3\<rparr>)
   in (scull_quantum p' = 1 \<and> scull_qset p' = 2)
      \<or> (SCULL_IOCSQUANTUM = SCULL_IOCRESET \<and> scull_quantum p' = SCULL_QUANTUM \<and> scull_qset p' = SCULL_QSET)"
  using ioctl_needs_privilege [of "\<lparr>access_ok = True, capable_admin = False, user_value = Some 5,
       put_user_ok = True\<rparr>" SCULL_IOCSQUANTUM 0 "\<lparr>scull_quantum = 1, scull_qset = 2, scull_p_buffer = 3\<rparr>"]
  by simp

text \<open>
  For a privileged caller the four ways of setting a parameter agree: after Tell, Shift, Set
  or eXchange of the same \<open>int\<close> value, Query returns that value; Shift returns and eXchange
  hands back the value that was there before.
\<close>

theorem ioctl_set_query:
  assumes "capable_admin env" "access_ok env" "put_user_ok env" "user_value env = Some v"
    "- (2 ^ 31) \<le> v" "v < 2 ^ 31"
  shows "(\<forall>cmd \<in> {SCULL_IOCTQUANTUM, SCULL_IOCHQUANTUM, SCULL_IOCSQUANTUM, SCULL_IOCXQUANTUM}.
       io_ret (scull_ioctl env' SCULL_IOCQQUANTUM a (io_params (scull_ioctl env cmd (u64 v) p))) = v)
     \<and> (\<forall>cmd \<in> {SCULL_IOCTQSET, SCULL_IOCHQSET, SCULL_IOCSQSET, SCULL_IOCXQSET}.
       io_ret (scull_ioctl env' SCULL_IOCQQSET a (io_params (scull_ioctl env cmd (u64 v) p))) = v)
     \<and> io_ret (scull_ioctl env SCULL_IOCHQUANTUM (u64 v) p) = scull_quantum p
     \<and> io_ret (scull_ioctl env SCULL_IOCHQSET (u64 v) p) = scull_qset p
     \<and> io_user (scull_ioctl env SCULL_IOCXQUANTUM (u64 v) p) = Some (scull_quantum p)
     \<and> io_user (scull_ioctl env SCULL_IOCXQSET (u64 v) p) = Some (scull_qset p)"
  using assms(1-4) s32_id [OF assms(5,6)]
  by (simp add: scull_ioctl_def ioctl_switch_def get_user_def put_user_def ioc_defs Let_def)

definition admin_env :: "int option \<Rightarrow> ioctl_env" where
  "admin_env v = \<lparr>access_ok = True, capable_admin = True, user_value = v, put_user_ok = True\<rparr>"

theorem ioctl_set_query_witness:
  "io_ret (scull_ioctl (admin_env None) SCULL_IOCQQUANTUM 0
     (io_params (scull_ioctl (admin_env (Some 512)) SCULL_IOCTQUANTUM (u64 512)
        \<lparr>scull_quantum = 1, scull_qset = 2, scull_p_buffer = 3\<rparr>))) = 512"
  using ioctl_set_query [of "admin_env (Some 512)" 512 "admin_env None" 0
      "\<lparr>scull_quantum = 1, scull_qset = 2, scull_p_buffer = 3\<rparr>"]
  by (simp add: admin_env_def)

text \<open>
  The Set commands write the module parameter before they know whether the user's pointer
  was readable. When it is not, the call fails with \<open>-EFAULT\<close> and the quantum is 0 nevertheless;
  the next process that opens a device for writing and writes to it divides by zero in the kernel.
\<close>

theorem ioctl_failed_set_divides_by_zero:
  assumes "dev_inv d" "capable_admin env" "access_ok env" "user_value env = None"
  shows "let r = scull_ioctl env SCULL_IOCSQUANTUM arg p
     in io_ret r = - EFAULT
        \<and> (\<exists>d' km'. scull_open (io_params r) False O_WRONLY d km = Inr (0, d', km')
             \<and> scull_write ok False u buf pos d' km' = Inl DivByZero)"
  using assms
  by (simp add: scull_ioctl_def ioctl_switch_def get_user_def ioc_defs Let_def scull_open_def
      scull_trim_spec scull_write_def scull_write_locked_def s32_def)

theorem ioctl_failed_set_divides_by_zero_witness:
  "let r = scull_ioctl (admin_env None) SCULL_IOCSQUANTUM 0 \<lparr>scull_quantum = 1, scull_qset = 2, scull_p_buffer = 3\<rparr>
     in io_ret r = - EFAULT
        \<and> (\<exists>d' km'. scull_open (io_params r) False O_WRONLY tiny_dev fresh_kmem = Inr (0, d', km')
             \<and> scull_write (\<lambda>_ _. True) False 0 [7] 0 d' km' = Inl DivByZero)"
  by (rule ioctl_failed_set_divides_by_zero) (simp_all add: tiny_dev_ok admin_env_def)

end
