(* ===== verification/Scull_Pipe.thy ===== *)
theory Scull_Pipe
  imports Scull_Ioctl
begin

text \<open>
  The pipe devices, \<open>linux_device_drivers/code/scull/pipe.c\<close>: a circular buffer with blocking
  readers and writers. The pointers \<open>end\<close>, \<open>rp\<close> and \<open>wp\<close> into the buffer are offsets from
  \<open>buffer\<close>. A call that sleeps releases the mutex; \<open>wakeup\<close> records what it finds when it runs
  again (a pending signal, an interrupted attempt to take the mutex, the device as the others
  left it), so a blocking call is a function of the list of its wake-ups and is asleep when the
  list ends. \<open>fasync_helper\<close> is kernel code and an argument.
\<close>

section \<open>State\<close>

datatype wait_queue = InQ | OutQ

record scull_pipe =
  sp_buffer :: "cell list option"
  sp_end :: int
  sp_buffersize :: int
  sp_rp :: int
  sp_wp :: int
  sp_nreaders :: int
  sp_nwriters :: int
  sp_async_queue :: "nat list"

record filp =
  f_id :: nat
  f_read :: bool
  f_write :: bool
  f_nonblock :: bool

record wakeup =
  wk_signal :: bool
  wk_interrupted :: bool
  wk_dev :: scull_pipe

record pipe_result =
  pr_ret :: int
  pr_bytes :: "cell list"
  pr_dev :: scull_pipe
  pr_wakes :: "wait_queue list"
  pr_sigio :: "nat list"

definition pipe_error :: "int \<Rightarrow> scull_pipe \<Rightarrow> pipe_result" where
  "pipe_error e dev = \<lparr>pr_ret = - e, pr_bytes = [], pr_dev = dev, pr_wakes = [], pr_sigio = []\<rparr>"

section \<open>Open and close\<close>

definition scull_p_open ::
  "kmalloc_ok \<Rightarrow> scull_params \<Rightarrow> bool \<Rightarrow> filp \<Rightarrow> scull_pipe \<Rightarrow> kmem \<Rightarrow> int \<times> scull_pipe \<times> kmem" where
  "scull_p_open ok p interrupted f dev km =
     (if interrupted then (- ERESTARTSYS, dev, km)
      else
        (let (buf, km) =
               (case sp_buffer dev of
                  Some b \<Rightarrow> (Some b, km)
                | None \<Rightarrow>
                    (case kmalloc ok (u64 (scull_p_buffer p)) km of
                       (False, km') \<Rightarrow> (None, km')
                     | (True, km') \<Rightarrow> (Some (replicate (nat (u64 (scull_p_buffer p))) None), km')))
         in case buf of
              None \<Rightarrow> (- ENOMEM, dev, km)
            | Some b \<Rightarrow>
                (0, dev\<lparr>sp_buffer := Some b, sp_buffersize := scull_p_buffer p,
                        sp_end := scull_p_buffer p, sp_rp := 0, sp_wp := 0,
                        sp_nreaders := (if f_read f then sp_nreaders dev + 1 else sp_nreaders dev),
                        sp_nwriters := (if f_write f then sp_nwriters dev + 1 else sp_nwriters dev)\<rparr>,
                 km)))"

definition scull_p_fasync ::
  "(nat \<Rightarrow> bool \<Rightarrow> nat list \<Rightarrow> int \<times> nat list) \<Rightarrow> bool \<Rightarrow> filp \<Rightarrow> scull_pipe \<Rightarrow> int \<times> scull_pipe" where
  "scull_p_fasync fasync_helper mode f dev =
     (case fasync_helper (f_id f) mode (sp_async_queue dev) of
        (ret, q) \<Rightarrow> (ret, dev\<lparr>sp_async_queue := q\<rparr>))"

definition scull_p_release ::
  "(nat \<Rightarrow> bool \<Rightarrow> nat list \<Rightarrow> int \<times> nat list) \<Rightarrow> filp \<Rightarrow> scull_pipe \<Rightarrow> kmem \<Rightarrow> int \<times> scull_pipe \<times> kmem" where
  "scull_p_release fasync_helper f dev km =
     (let dev = snd (scull_p_fasync fasync_helper False f dev);
          dev = (if f_read f then dev\<lparr>sp_nreaders := sp_nreaders dev - 1\<rparr> else dev);
          dev = (if f_write f then dev\<lparr>sp_nwriters := sp_nwriters dev - 1\<rparr> else dev)
      in if sp_nreaders dev + sp_nwriters dev = 0
         then (0, dev\<lparr>sp_buffer := None\<rparr>, kfree (sp_buffer dev) km)
         else (0, dev, km))"

section \<open>Reading\<close>

text \<open>From the point where there is data and the mutex is held.\<close>

definition pipe_take :: "nat \<Rightarrow> int \<Rightarrow> scull_pipe \<Rightarrow> fault + pipe_result" where
  "pipe_take uncopied count dev =
     (let count = (if sp_rp dev < sp_wp dev then min count (u64 (sp_wp dev - sp_rp dev))
                   else min count (u64 (sp_end dev - sp_rp dev)))
      in case sp_buffer dev of
           None \<Rightarrow> Inl NullDeref
         | Some buf \<Rightarrow>
             if \<not> (0 \<le> sp_rp dev \<and> sp_rp dev + count \<le> int (length buf)) then Inl OutOfBounds
             else if min uncopied (nat count) \<noteq> 0 then Inr (pipe_error EFAULT dev)
             else
               (let rp = sp_rp dev + count
                in Inr \<lparr>pr_ret = count, pr_bytes = take (nat count) (drop (nat (sp_rp dev)) buf),
                        pr_dev = dev\<lparr>sp_rp := (if rp = sp_end dev then 0 else rp)\<rparr>,
                        pr_wakes = [OutQ], pr_sigio = []\<rparr>))"

fun pipe_read_loop ::
  "bool \<Rightarrow> nat \<Rightarrow> int \<Rightarrow> wakeup list \<Rightarrow> scull_pipe \<Rightarrow> fault + pipe_result option" where
  "pipe_read_loop nonblock uncopied count wks dev =
     (if sp_rp dev \<noteq> sp_wp dev then map_sum id Some (pipe_take uncopied count dev)
      else if nonblock then Inr (Some (pipe_error EAGAIN dev))
      else (case wks of
              [] \<Rightarrow> Inr None
            | w # wks \<Rightarrow>
                if wk_signal w \<or> wk_interrupted w then Inr (Some (pipe_error ERESTARTSYS (wk_dev w)))
                else pipe_read_loop nonblock uncopied count wks (wk_dev w)))"

definition scull_p_read ::
  "bool \<Rightarrow> filp \<Rightarrow> nat \<Rightarrow> int \<Rightarrow> wakeup list \<Rightarrow> scull_pipe \<Rightarrow> fault + pipe_result option" where
  "scull_p_read interrupted f uncopied count wks dev =
     (if interrupted then Inr (Some (pipe_error ERESTARTSYS dev))
      else pipe_read_loop (f_nonblock f) uncopied count wks dev)"

section \<open>Writing\<close>

definition spacefree :: "scull_pipe \<Rightarrow> fault + int" where
  "spacefree dev =
     (if sp_rp dev = sp_wp dev then Inr (s32 (sp_buffersize dev - 1))
      else if sp_buffersize dev = 0 then Inl DivByZero
      else Inr (s32 ((sp_rp dev + sp_buffersize dev - sp_wp dev) smod sp_buffersize dev - 1)))"

text \<open>
  \<open>Inr (Inr dev)\<close>: there is space and the mutex is held; \<open>Inr (Inl (Some r))\<close>: the wait failed;
  \<open>Inr (Inl None)\<close>: still asleep.
\<close>

fun scull_getwritespace ::
  "bool \<Rightarrow> wakeup list \<Rightarrow> scull_pipe \<Rightarrow> fault + (pipe_result option + scull_pipe)" where
  "scull_getwritespace nonblock wks dev =
     (case spacefree dev of
        Inl e \<Rightarrow> Inl e
      | Inr n \<Rightarrow>
          if n \<noteq> 0 then Inr (Inr dev)
          else if nonblock then Inr (Inl (Some (pipe_error EAGAIN dev)))
          else (case wks of
                  [] \<Rightarrow> Inr (Inl None)
                | w # wks \<Rightarrow>
                    if wk_signal w \<or> wk_interrupted w
                    then Inr (Inl (Some (pipe_error ERESTARTSYS (wk_dev w))))
                    else scull_getwritespace nonblock wks (wk_dev w)))"

definition pipe_put :: "nat \<Rightarrow> byte list \<Rightarrow> scull_pipe \<Rightarrow> fault + pipe_result" where
  "pipe_put uncopied bytes dev =
     (case spacefree dev of
        Inl e \<Rightarrow> Inl e
      | Inr space \<Rightarrow>
          (let count = min (int (length bytes)) (u64 space);
               count = (if sp_rp dev \<le> sp_wp dev then min count (u64 (sp_end dev - sp_wp dev))
                        else min count (u64 (sp_rp dev - sp_wp dev - 1)))
           in case sp_buffer dev of
                None \<Rightarrow> Inl NullDeref
              | Some buf \<Rightarrow>
                  if \<not> (0 \<le> sp_wp dev \<and> sp_wp dev + count \<le> int (length buf)) then Inl OutOfBounds
                  else
                    (let dev = dev\<lparr>sp_buffer := Some (splice_at (nat (sp_wp dev))
                                     (copied_from_user uncopied (nat count) bytes) buf)\<rparr>
                     in if min uncopied (nat count) \<noteq> 0 then Inr (pipe_error EFAULT dev)
                        else
                          (let wp = sp_wp dev + count
                           in Inr \<lparr>pr_ret = count, pr_bytes = [],
                                   pr_dev = dev\<lparr>sp_wp := (if wp = sp_end dev then 0 else wp)\<rparr>,
                                   pr_wakes = [InQ], pr_sigio = sp_async_queue dev\<rparr>))))"

definition scull_p_write ::
  "bool \<Rightarrow> filp \<Rightarrow> nat \<Rightarrow> byte list \<Rightarrow> wakeup list \<Rightarrow> scull_pipe \<Rightarrow> fault + pipe_result option" where
  "scull_p_write interrupted f uncopied bytes wks dev =
     (if interrupted then Inr (Some (pipe_error ERESTARTSYS dev))
      else (case scull_getwritespace (f_nonblock f) wks dev of
              Inl e \<Rightarrow> Inl e
            | Inr (Inl r) \<Rightarrow> Inr r
            | Inr (Inr dev) \<Rightarrow> map_sum id Some (pipe_put uncopied bytes dev)))"

section \<open>Poll\<close>

datatype poll_flag = POLLIN | POLLRDNORM | POLLOUT | POLLWRNORM

definition scull_p_poll :: "scull_pipe \<Rightarrow> fault + poll_flag list" where
  "scull_p_poll dev =
     (case spacefree dev of
        Inl e \<Rightarrow> Inl e
      | Inr n \<Rightarrow> Inr ((if sp_rp dev \<noteq> sp_wp dev then [POLLIN, POLLRDNORM] else [])
                      @ (if n \<noteq> 0 then [POLLOUT, POLLWRNORM] else [])))"

section \<open>The buffer as a queue\<close>

definition pipe_inv :: "scull_pipe \<Rightarrow> bool" where
  "pipe_inv dev \<longleftrightarrow>
     (case sp_buffer dev of
        None \<Rightarrow> False
      | Some buf \<Rightarrow> int (length buf) = sp_buffersize dev) \<and> sp_end dev = sp_buffersize dev
     \<and> 0 < sp_buffersize dev \<and> sp_buffersize dev < 2 ^ 31
     \<and> 0 \<le> sp_rp dev \<and> sp_rp dev < sp_end dev \<and> 0 \<le> sp_wp dev \<and> sp_wp dev < sp_end dev"

text \<open>What lies between a read and a write offset in a circular buffer.\<close>

definition ring :: "nat \<Rightarrow> nat \<Rightarrow> 'a list \<Rightarrow> 'a list" where
  "ring R W buf = (if R \<le> W then drop R (take W buf) else drop R buf @ take W buf)"

definition pipe_contents :: "scull_pipe \<Rightarrow> cell list" where
  "pipe_contents dev = ring (nat (sp_rp dev)) (nat (sp_wp dev)) (the (sp_buffer dev))"

lemma length_ring:
  "R < length buf \<Longrightarrow> W < length buf \<Longrightarrow>
   length (ring R W buf) = (if R \<le> W then W - R else length buf - R + W)"
  by (simp add: ring_def)

lemma ring_take:
  assumes "R \<noteq> W" "n \<le> (if R < W then W - R else length buf - R)"
    "R < length buf" "W < length buf"
  shows "take n (drop R buf) @ ring (if R + n = length buf then 0 else R + n) W buf = ring R W buf"
proof (cases "R < W")
  case True
  with assms(2) have n: "R + n \<le> W" "n \<le> W - R" by simp_all
  show ?thesis
  proof (cases "R + n = length buf")
    case True
    with n assms(4) show ?thesis by simp
  next
    case False
    have "take n (drop R (take W buf)) @ drop n (drop R (take W buf)) = drop R (take W buf)"
      by (rule append_take_drop_id)
    with False True n show ?thesis by (simp add: ring_def drop_take min_def add.commute)
  qed
next
  case False
  with assms have "take n (drop R buf) @ drop (R + n) buf = drop R buf"
    by (metis append_take_drop_id drop_drop add.commute)
  with False assms show ?thesis by (auto simp: ring_def)
qed

lemma take_splice_at:
  "k \<le> length xs \<Longrightarrow> W \<le> length buf \<Longrightarrow> take (W + k) (splice_at W xs buf) = take W buf @ take k xs"
  by (simp add: splice_at_def)

lemma drop_splice_at:
  "W + length xs \<le> R \<Longrightarrow> W + length xs \<le> length buf \<Longrightarrow> drop R (splice_at W xs buf) = drop R buf"
  by (simp add: splice_at_def add.commute) 

lemma ring_put:
  assumes "R < length buf" "W < length buf" "W + length xs \<le> length buf" "k \<le> length xs"
    and room: "if R \<le> W then W + length xs < length buf + R else W + length xs < R"
  shows "ring R (if W + k = length buf then 0 else W + k) (splice_at W xs buf) = ring R W buf @ take k xs"
proof (cases "R \<le> W")
  case True
  have t: "drop R (take (W + k) (splice_at W xs buf)) = drop R (take W buf) @ take k xs"
    using True assms by (simp add: take_splice_at)
  show ?thesis
  proof (cases "W + k = length buf")
    case True
    moreover have "R \<noteq> 0" using room \<open>R \<le> W\<close> True assms(4) by auto
    ultimately show ?thesis using t assms \<open>R \<le> W\<close> by (simp add: ring_def)
  next
    case False
    then show ?thesis using t True by (simp add: ring_def)
  qed
next
  case False
  then show ?thesis using assms by (auto simp: ring_def take_splice_at drop_splice_at)
qed

declare pipe_read_loop.simps [simp del] scull_getwritespace.simps [simp del]

lemma pipe_invE:
  assumes "pipe_inv dev"
  obtains buf R W where "sp_buffer dev = Some buf" "sp_buffersize dev = int (length buf)"
    "sp_end dev = int (length buf)" "sp_rp dev = int R" "sp_wp dev = int W"
    "R < length buf" "W < length buf" "int (length buf) < 2 ^ 31"
proof -
  obtain buf where b: "sp_buffer dev = Some buf" "int (length buf) = sp_buffersize dev"
    using assms by (auto simp: pipe_inv_def split: option.splits)
  show thesis
    by (rule that [of buf "nat (sp_rp dev)" "nat (sp_wp dev)"])
       (use assms b in \<open>auto simp: pipe_inv_def\<close>)
qed

lemma pipe_contents_simp:
  "sp_buffer dev = Some buf \<Longrightarrow> sp_rp dev = int R \<Longrightarrow> sp_wp dev = int W \<Longrightarrow>
   pipe_contents dev = ring R W buf"
  by (simp add: pipe_contents_def)

lemma pipe_inv_intro:
  assumes "sp_buffer dev = Some buf" "sp_buffersize dev = int (length buf)" "sp_end dev = int (length buf)"
    "sp_rp dev = int R" "sp_wp dev = int W" "R < length buf" "W < length buf" "int (length buf) < 2 ^ 31"
  shows "pipe_inv dev"
  using assms by (auto simp: pipe_inv_def)

lemma spacefree_spec:
  assumes "pipe_inv dev"
  shows "spacefree dev = Inr (sp_buffersize dev - 1 - int (length (pipe_contents dev)))"
proof -
  obtain buf R W where p: "sp_buffer dev = Some buf" "sp_buffersize dev = int (length buf)"
    "sp_rp dev = int R" "sp_wp dev = int W"
    and b: "R < length buf" "W < length buf" "int (length buf) < 2 ^ 31"
    using assms by (rule pipe_invE)
  have m: "(int R + int (length buf) - int W) smod int (length buf)
      = (if W \<le> R then int R - int W else int R + int (length buf) - int W)"
  proof -
    have "(int R + int (length buf) - int W) smod int (length buf)
        = (int R + int (length buf) - int W) mod int (length buf)"
      using b by (intro smod_nonneg) auto
    also have "\<dots> = (if W \<le> R then int R - int W else int R + int (length buf) - int W)"
    proof (cases "W \<le> R")
      case True
      have "(int R + int (length buf) - int W) mod int (length buf) = (int R - int W) mod int (length buf)"
        by (metis add_diff_eq add.commute mod_add_self2 diff_add_eq)
      with True b show ?thesis by simp
    qed (use b in simp)
    finally show ?thesis .
  qed
  show ?thesis
    unfolding spacefree_def p m pipe_contents_simp [OF p(1,3,4)] length_ring [OF b(1,2)]
    using b by (auto simp: s32_id)
qed

lemma pipe_take_spec:
  assumes inv: "pipe_inv dev" and ne: "sp_rp dev \<noteq> sp_wp dev"
  obtains (efault) "pipe_take u (int c) dev = Inr (pipe_error EFAULT dev)" "u \<noteq> 0"
  | (taken) r where "pipe_take u (int c) dev = Inr r" "pr_ret r = int (length (pr_bytes r))"
      "pr_bytes r @ pipe_contents (pr_dev r) = pipe_contents dev"
      "length (pr_bytes r) \<le> c" "0 < c \<Longrightarrow> pr_bytes r \<noteq> []" "pipe_inv (pr_dev r)"
      "sp_buffersize (pr_dev r) = sp_buffersize dev"
proof -
  obtain buf R W where p: "sp_buffer dev = Some buf" "sp_buffersize dev = int (length buf)"
    "sp_end dev = int (length buf)" "sp_rp dev = int R" "sp_wp dev = int W"
    and b: "R < length buf" "W < length buf" "int (length buf) < 2 ^ 31"
    using inv by (rule pipe_invE)
  define n where "n = min c (if R < W then W - R else length buf - R)"
  have RW: "R \<noteq> W" using ne p by simp
  have u: "u64 (int W - int R) = int W - int R" if "R < W" using that b by (intro u64_id) auto
  have u': "u64 (int (length buf) - int R) = int (length buf) - int R" using b by (intro u64_id) auto
  have cnt: "(if int R < int W then min (int c) (u64 (int W - int R))
       else min (int c) (u64 (int (length buf) - int R))) = int n"
    using b u u' by (auto simp: n_def min_def)
  have fits: "R + n \<le> length buf" using b by (auto simp: n_def)
  show thesis
  proof (cases "min u n = 0")
    case False
    then have "pipe_take u (int c) dev = Inr (pipe_error EFAULT dev)"
      unfolding pipe_take_def Let_def p cnt using fits by simp
    then show thesis using False by (intro efault) auto
  next
    case True
    define R' where "R' = (if R + n = length buf then 0 else R + n)"
    define d' where "d' = dev\<lparr>sp_rp := int R'\<rparr>"
    have t: "pipe_take u (int c) dev = Inr \<lparr>pr_ret = int n, pr_bytes = take n (drop R buf),
        pr_dev = d', pr_wakes = [OutQ], pr_sigio = []\<rparr>"
      unfolding pipe_take_def Let_def p cnt d'_def R'_def using fits True by simp
    have "take n (drop R buf) @ pipe_contents d' = pipe_contents dev"
      using ring_take [OF RW _ b(1,2), of n] pipe_contents_simp [of d' buf R' W] pipe_contents_simp [OF p(1,4,5)]
      by (simp add: d'_def p R'_def n_def)
    moreover have "pipe_inv d'"
      by (rule pipe_inv_intro [of _ buf R' W]) (use b fits p in \<open>auto simp: d'_def R'_def\<close>)
    moreover have "take n (drop R buf) \<noteq> []" if "0 < c" using that b RW by (auto simp: n_def)
    ultimately show thesis using fits by (intro taken [OF t]) (simp_all add: d'_def n_def)
  qed
qed

text \<open>
  What \<open>pipe_put\<close> works on: the count fits between the write pointer and the end of the buffer,
  leaves one cell free, and any prefix of the copied bytes would extend the contents.
\<close>

lemma pipe_put_ready:
  assumes inv: "pipe_inv dev"
  obtains buf R W n where "sp_buffer dev = Some buf" "sp_buffersize dev = int (length buf)"
    "sp_end dev = int (length buf)" "sp_rp dev = int R" "sp_wp dev = int W"
    "R < length buf" "W < length buf" "int (length buf) < 2 ^ 31" "W + n \<le> length buf"
    "n \<le> length bytes" "bytes \<noteq> [] \<Longrightarrow> spacefree dev \<noteq> Inr 0 \<Longrightarrow> 0 < n"
    "\<And>xs k. length xs = n \<Longrightarrow> k \<le> n \<Longrightarrow>
       ring R (if W + k = length buf then 0 else W + k) (splice_at W xs buf) = pipe_contents dev @ take k xs"
    "\<And>u. pipe_put u bytes dev =
       (let dev' = dev\<lparr>sp_buffer := Some (splice_at W (copied_from_user u n bytes) buf)\<rparr>
        in Inr (if min u n \<noteq> 0 then pipe_error EFAULT dev'
                else \<lparr>pr_ret = int n, pr_bytes = [],
                      pr_dev = dev'\<lparr>sp_wp := int (if W + n = length buf then 0 else W + n)\<rparr>,
                      pr_wakes = [InQ], pr_sigio = sp_async_queue dev\<rparr>))"
proof -
  obtain buf R W where p: "sp_buffer dev = Some buf" "sp_buffersize dev = int (length buf)"
    "sp_end dev = int (length buf)" "sp_rp dev = int R" "sp_wp dev = int W"
    and b: "R < length buf" "W < length buf" "int (length buf) < 2 ^ 31"
    using inv by (rule pipe_invE)
  note c0 = pipe_contents_simp [OF p(1,4,5)]
  define free where "free = length buf - 1 - length (pipe_contents dev)"
  note lc = length_ring [OF b(1,2), folded c0]
  have sf: "spacefree dev = Inr (int free)"
    using spacefree_spec [OF inv] lc b by (auto simp: p free_def of_nat_diff)
  define n where "n = min (min (length bytes) free) (if R \<le> W then length buf - W else R - W - 1)"
  have u: "u64 (int free) = int free" using b by (intro u64_id) (auto simp: free_def)
  have u1: "u64 (int (length buf) - int W) = int (length buf) - int W" using b by (intro u64_id) auto
  have u2: "u64 (int R - int W - 1) = int R - int W - 1" if "\<not> R \<le> W" using that b by (intro u64_id) auto
  have cnt: "(if int R \<le> int W then min (min (int (length bytes)) (u64 (int free))) (u64 (int (length buf) - int W))
       else min (min (int (length bytes)) (u64 (int free))) (u64 (int R - int W - 1))) = int n"
    unfolding u u1 using b u2 by (auto simp: n_def min_def of_nat_diff)
  have fits: "W + n \<le> length buf" using b by (auto simp: n_def)
  have room: "if R \<le> W then W + n < length buf + R else W + n < R"
    using b lc by (auto simp: n_def free_def)
  show thesis
  proof (rule that [OF p b fits])
    show "n \<le> length bytes" by (simp add: n_def)
    show "0 < n" if "bytes \<noteq> []" "spacefree dev \<noteq> Inr 0"
      using that sf b lc by (auto simp: n_def free_def split: if_splits)
    show "ring R (if W + k = length buf then 0 else W + k) (splice_at W xs buf) = pipe_contents dev @ take k xs"
      if "length xs = n" "k \<le> n" for xs k
      unfolding c0 using fits room that by (intro ring_put b) simp_all
    have "int W + int n \<le> int (length buf)" using fits by simp
    then show "pipe_put u bytes dev =
       (let dev' = dev\<lparr>sp_buffer := Some (splice_at W (copied_from_user u n bytes) buf)\<rparr>
        in Inr (if min u n \<noteq> 0 then pipe_error EFAULT dev'
                else \<lparr>pr_ret = int n, pr_bytes = [],
                      pr_dev = dev'\<lparr>sp_wp := int (if W + n = length buf then 0 else W + n)\<rparr>,
                      pr_wakes = [InQ], pr_sigio = sp_async_queue dev\<rparr>))" for u
      unfolding pipe_put_def Let_def p sf sum.case cnt by (simp add: p)
  qed
qed

lemma pipe_put_spec:
  assumes inv: "pipe_inv dev"
  obtains (efault) d' where "pipe_put u bytes dev = Inr (pipe_error EFAULT d')" "u \<noteq> 0"
      "pipe_inv d'" "pipe_contents d' = pipe_contents dev" "sp_buffersize d' = sp_buffersize dev"
  | (put) r n where "pipe_put u bytes dev = Inr r" "pr_ret r = int n"
      "pipe_contents (pr_dev r) = pipe_contents dev @ map Some (take n bytes)"
      "n \<le> length bytes" "bytes \<noteq> [] \<Longrightarrow> spacefree dev \<noteq> Inr 0 \<Longrightarrow> 0 < n" "pipe_inv (pr_dev r)"
      "sp_buffersize (pr_dev r) = sp_buffersize dev"
proof (rule pipe_put_ready [OF inv, of bytes])
  fix buf R W n
  assume p: "sp_buffer dev = Some buf" "sp_buffersize dev = int (length buf)"
      "sp_end dev = int (length buf)" "sp_rp dev = int R" "sp_wp dev = int W"
    and b: "R < length buf" "W < length buf" "int (length buf) < 2 ^ 31" and fits: "W + n \<le> length buf"
    and n: "n \<le> length bytes" "bytes \<noteq> [] \<Longrightarrow> spacefree dev \<noteq> Inr 0 \<Longrightarrow> 0 < n"
    and ring: "\<And>xs k. length xs = n \<Longrightarrow> k \<le> n \<Longrightarrow>
       ring R (if W + k = length buf then 0 else W + k) (splice_at W xs buf) = pipe_contents dev @ take k xs"
    and r: "\<And>u. pipe_put u bytes dev =
       (let dev' = dev\<lparr>sp_buffer := Some (splice_at W (copied_from_user u n bytes) buf)\<rparr>
        in Inr (if min u n \<noteq> 0 then pipe_error EFAULT dev'
                else \<lparr>pr_ret = int n, pr_bytes = [],
                      pr_dev = dev'\<lparr>sp_wp := int (if W + n = length buf then 0 else W + n)\<rparr>,
                      pr_wakes = [InQ], pr_sigio = sp_async_queue dev\<rparr>))"
  define xs buf' where "xs = copied_from_user u n bytes" and "buf' = splice_at W xs buf"
  have lx: "length xs = n" using n(1) by (simp add: xs_def)
  have lb: "length buf' = length buf" using fits lx by (simp add: buf'_def)
  show thesis
  proof (cases "min u n = 0")
    case False
    let ?d = "dev\<lparr>sp_buffer := Some buf'\<rparr>"
    have "pipe_inv ?d" by (rule pipe_inv_intro [of _ buf' R W]) (use b lb p in auto)
    moreover have "pipe_contents ?d = pipe_contents dev"
      using ring [OF lx, of 0] pipe_contents_simp [of ?d buf' R W] b by (simp add: p buf'_def)
    ultimately show thesis
      using False by (intro efault [of ?d]) (auto simp: r Let_def buf'_def xs_def)
  next
    case True
    define W' where "W' = (if W + n = length buf then 0 else W + n)"
    let ?d = "dev\<lparr>sp_buffer := Some buf', sp_wp := int W'\<rparr>"
    have "pipe_inv ?d" by (rule pipe_inv_intro [of _ buf' R W']) (use b lb p fits in \<open>auto simp: W'_def\<close>)
    moreover have "pipe_contents ?d = pipe_contents dev @ map Some (take n bytes)"
      using ring [OF lx, of n] pipe_contents_simp [of ?d buf' R W'] lx
      by (simp add: p W'_def buf'_def xs_def copied_from_user_all [OF True])
    ultimately show thesis using True n
      by (intro put [of "\<lparr>pr_ret = int n, pr_bytes = [], pr_dev = ?d, pr_wakes = [InQ], pr_sigio = sp_async_queue dev\<rparr>" n])
        (simp_all add: r Let_def buf'_def xs_def W'_def)
  qed
qed

section \<open>Attempts as queue operations\<close>

text \<open>
  One attempt of a call: it transfers, fails, or goes to sleep with the device unchanged. Every
  interleaving of blocking readers and writers is a sequence of such attempts, since a sleeper
  that wakes makes another attempt.
\<close>

datatype pipe_op = PipeRead filp nat nat | PipeWrite filp nat "byte list"

fun pipe_attempt :: "pipe_op \<Rightarrow> scull_pipe \<Rightarrow> fault + pipe_result option" where
  "pipe_attempt (PipeRead f u c) dev = scull_p_read False f u (int c) [] dev"
| "pipe_attempt (PipeWrite f u bytes) dev = scull_p_write False f u bytes [] dev"

definition pipe_step :: "pipe_op \<Rightarrow> scull_pipe \<Rightarrow> scull_pipe" where
  "pipe_step x dev = (case pipe_attempt x dev of Inr (Some r) \<Rightarrow> pr_dev r | _ \<Rightarrow> dev)"

definition pipe_popped :: "pipe_op \<Rightarrow> scull_pipe \<Rightarrow> cell list" where
  "pipe_popped x dev = (case pipe_attempt x dev of Inr (Some r) \<Rightarrow> pr_bytes r | _ \<Rightarrow> [])"

fun pipe_pushed :: "pipe_op \<Rightarrow> scull_pipe \<Rightarrow> cell list" where
  "pipe_pushed (PipeRead f u c) dev = []"
| "pipe_pushed (PipeWrite f u bytes) dev =
     (case pipe_attempt (PipeWrite f u bytes) dev of
        Inr (Some r) \<Rightarrow> map Some (take (nat (pr_ret r)) bytes)
      | _ \<Rightarrow> [])"

lemma pipe_error_simps [simp]:
  "pr_ret (pipe_error e dev) = - e" "pr_bytes (pipe_error e dev) = []"
  "pr_dev (pipe_error e dev) = dev" "pr_wakes (pipe_error e dev) = []" "pr_sigio (pipe_error e dev) = []"
  by (simp_all add: pipe_error_def)

lemma pipe_empty_iff:
  assumes "pipe_inv dev"
  shows "pipe_contents dev = [] \<longleftrightarrow> sp_rp dev = sp_wp dev"
proof -
  obtain buf R W where "sp_buffer dev = Some buf" "sp_rp dev = int R" "sp_wp dev = int W"
    "R < length buf" "W < length buf" using assms by (rule pipe_invE)
  then show ?thesis by (auto simp: pipe_contents_simp ring_def)
qed

lemma pipe_read_attempt:
  assumes "pipe_inv dev"
  shows "pipe_contents dev = [] \<Longrightarrow> scull_p_read False f u c [] dev =
      Inr (if f_nonblock f then Some (pipe_error EAGAIN dev) else None)"
    and "pipe_contents dev \<noteq> [] \<Longrightarrow> scull_p_read False f u c wks dev = map_sum id Some (pipe_take u c dev)"
  using pipe_empty_iff [OF assms] by (simp_all add: scull_p_read_def pipe_read_loop.simps)

lemma pipe_write_attempt:
  shows "spacefree dev = Inr 0 \<Longrightarrow> scull_p_write False f u bytes [] dev =
      Inr (if f_nonblock f then Some (pipe_error EAGAIN dev) else None)"
    and "spacefree dev = Inr n \<Longrightarrow> n \<noteq> 0 \<Longrightarrow>
      scull_p_write False f u bytes wks dev = map_sum id Some (pipe_put u bytes dev)"
  by (simp_all add: scull_p_write_def scull_getwritespace.simps)

lemma pipe_step_spec:
  assumes inv: "pipe_inv dev"
  shows "pipe_inv (pipe_step x dev) \<and> sp_buffersize (pipe_step x dev) = sp_buffersize dev
    \<and> pipe_popped x dev @ pipe_contents (pipe_step x dev) = pipe_contents dev @ pipe_pushed x dev"
proof (cases x)
  case (PipeRead f u c)
  show ?thesis
  proof (cases "pipe_contents dev = []")
    case True
    then show ?thesis using inv pipe_read_attempt(1) [OF inv, of f u "int c"]
      by (simp add: PipeRead pipe_step_def pipe_popped_def)
  next
    case False
    note att = pipe_read_attempt(2) [OF inv False, of f u "int c" "[]"]
    have "sp_rp dev \<noteq> sp_wp dev" using False pipe_empty_iff [OF inv] by simp
    from inv this show ?thesis
      by (rule pipe_take_spec [of dev u c]) (use inv att in \<open>auto simp: PipeRead pipe_step_def pipe_popped_def\<close>)
  qed
next
  case (PipeWrite f u bytes)
  show ?thesis
  proof (cases "spacefree dev = Inr 0")
    case True
    then show ?thesis using inv pipe_write_attempt(1) [of dev f u bytes]
      by (simp add: PipeWrite pipe_step_def pipe_popped_def)
  next
    case False
    then have att: "scull_p_write False f u bytes [] dev = map_sum id Some (pipe_put u bytes dev)"
      using spacefree_spec [OF inv] pipe_write_attempt(2) by fastforce
    have "pr_bytes r = []" if "pipe_put u bytes dev = Inr r" for r
      using that by (auto simp: pipe_put_def Let_def split: sum.splits option.splits if_splits)
    with inv show ?thesis
      by (elim pipe_put_spec [of dev u bytes]) (use att in \<open>auto simp: PipeWrite pipe_step_def pipe_popped_def\<close>)
  qed
qed

lemma pipe_contents_bound:
  "pipe_inv dev \<Longrightarrow> length (pipe_contents dev) \<le> nat (sp_buffersize dev - 1)"
  by (erule pipe_invE) (auto simp: pipe_contents_simp length_ring)

interpretation pipe: fifo pipe_step pipe_inv pipe_contents pipe_pushed pipe_popped
  "\<lambda>dev. nat (sp_buffersize dev - 1)"
  by unfold_locales (simp_all add: pipe_step_spec pipe_contents_bound)

section \<open>Properties\<close>

definition tiny_pipe :: scull_pipe where
  "tiny_pipe = \<lparr>sp_buffer = Some [None, None, None], sp_end = 3, sp_buffersize = 3, sp_rp = 2, sp_wp = 2,
     sp_nreaders = 1, sp_nwriters = 1, sp_async_queue = []\<rparr>"

definition rw_file :: filp where
  "rw_file = \<lparr>f_id = 1, f_read = True, f_write = True, f_nonblock = False\<rparr>"

lemma tiny_pipe_inv: "pipe_inv tiny_pipe"
  by (simp add: tiny_pipe_def pipe_inv_def)

text \<open>
  C2: The pipe is a first-in first-out queue. Whatever readers and writers do, in whatever order
  their calls and wake-ups are served, wherever copying fails, the bytes handed to readers
  followed by the bytes still buffered are the bytes buffered at first followed by the bytes
  accepted from writers; and at most \<open>buffersize - 1\<close> bytes are ever buffered.
\<close>

theorem pipe_fifo:
  assumes "pipe_inv dev"
  shows "out_ops pipe_step pipe_popped xs dev @ pipe_contents (run_ops pipe_step xs dev)
       = pipe_contents dev @ out_ops pipe_step pipe_pushed xs dev
     \<and> pipe_inv (run_ops pipe_step xs dev)
     \<and> length (pipe_contents (run_ops pipe_step xs dev)) \<le> nat (sp_buffersize dev - 1)"
  using pipe.run_order [OF assms] pipe.inv_run [OF assms] pipe.run_bound [OF assms] by simp

theorem pipe_fifo_witness:
  "out_ops pipe_step pipe_popped [PipeWrite rw_file 0 [1, 2, 3], PipeWrite rw_file 0 [2, 3], PipeRead rw_file 0 9]
     tiny_pipe
   @ pipe_contents (run_ops pipe_step
       [PipeWrite rw_file 0 [1, 2, 3], PipeWrite rw_file 0 [2, 3], PipeRead rw_file 0 9] tiny_pipe)
   = pipe_contents tiny_pipe
     @ out_ops pipe_step pipe_pushed
         [PipeWrite rw_file 0 [1, 2, 3], PipeWrite rw_file 0 [2, 3], PipeRead rw_file 0 9] tiny_pipe"
  using pipe_fifo [OF tiny_pipe_inv] by blast

text \<open>
  A blocking reader is not forgotten: as soon as one of its wake-ups finds data, and no
  signal came before, the call returns, with at least one byte, the oldest of those that are
  there. Up to then it never touches the device and never faults.
\<close>

theorem scull_p_read_wakes:
  assumes "pipe_inv dev" "\<forall>w \<in> set wks. pipe_inv (wk_dev w) \<and> \<not> wk_signal w \<and> \<not> wk_interrupted w"
    and "\<exists>d \<in> set (dev # map wk_dev wks). pipe_contents d \<noteq> []" and "0 < c" and "\<not> f_nonblock f"
  shows "\<exists>r d. scull_p_read False f 0 (int c) wks dev = Inr (Some r) \<and> d \<in> set (dev # map wk_dev wks)
     \<and> pr_bytes r \<noteq> [] \<and> length (pr_bytes r) \<le> c \<and> pr_ret r = int (length (pr_bytes r))
     \<and> pr_bytes r @ pipe_contents (pr_dev r) = pipe_contents d \<and> pipe_inv (pr_dev r)"
  using assms
proof (induction wks arbitrary: dev)
  case Nil
  then have "sp_rp dev \<noteq> sp_wp dev" using pipe_empty_iff by simp
  with Nil.prems(1) show ?case
    by (rule pipe_take_spec [of dev 0 c]) (use Nil in \<open>auto simp: pipe_read_attempt\<close>)
next
  case (Cons w wks)
  show ?case
  proof (cases "pipe_contents dev = []")
    case True
    then have e: "scull_p_read False f 0 (int c) (w # wks) dev = scull_p_read False f 0 (int c) wks (wk_dev w)"
      using Cons.prems pipe_empty_iff [of dev] by (simp add: scull_p_read_def pipe_read_loop.simps [of _ _ _ "w # wks"])
    have "\<exists>d \<in> set (wk_dev w # map wk_dev wks). pipe_contents d \<noteq> []"
      using True Cons.prems(3) by auto
    then have "\<exists>r d. scull_p_read False f 0 (int c) wks (wk_dev w) = Inr (Some r)
        \<and> d \<in> set (wk_dev w # map wk_dev wks)
        \<and> pr_bytes r \<noteq> [] \<and> length (pr_bytes r) \<le> c \<and> pr_ret r = int (length (pr_bytes r))
        \<and> pr_bytes r @ pipe_contents (pr_dev r) = pipe_contents d \<and> pipe_inv (pr_dev r)"
      using Cons.prems by (intro Cons.IH) simp_all
    then show ?thesis unfolding e set_simps list.map by blast
  next
    case False
    then have "sp_rp dev \<noteq> sp_wp dev" using Cons.prems(1) pipe_empty_iff by simp
    with Cons.prems(1) show ?thesis
      by (rule pipe_take_spec [of dev 0 c]) (use Cons.prems False in \<open>auto simp: pipe_read_attempt\<close>)
  qed
qed

theorem scull_p_read_wakes_witness:
  "\<exists>r d. scull_p_read False rw_file 0 (int 4)
       [\<lparr>wk_signal = False, wk_interrupted = False, wk_dev = tiny_pipe\<lparr>sp_rp := 1\<rparr>\<rparr>] tiny_pipe = Inr (Some r)
     \<and> d \<in> set (tiny_pipe # map wk_dev [\<lparr>wk_signal = False, wk_interrupted = False, wk_dev = tiny_pipe\<lparr>sp_rp := 1\<rparr>\<rparr>])
     \<and> pr_bytes r \<noteq> [] \<and> length (pr_bytes r) \<le> 4 \<and> pr_ret r = int (length (pr_bytes r))
     \<and> pr_bytes r @ pipe_contents (pr_dev r) = pipe_contents d \<and> pipe_inv (pr_dev r)"
  by (rule scull_p_read_wakes)
     (simp_all add: tiny_pipe_inv, simp_all add: tiny_pipe_def pipe_inv_def pipe_contents_def ring_def rw_file_def)

text \<open>
  C30: \<open>poll\<close> tells the truth to non-blocking callers: it reports readable exactly when a read
  would return data and writable exactly when a write would accept some.
\<close>

theorem scull_p_poll_correct:
  assumes inv: "pipe_inv dev" and "f_nonblock f" "0 < c" "bytes \<noteq> []"
  shows "\<exists>fl. scull_p_poll dev = Inr fl
     \<and> (POLLIN \<in> set fl \<longleftrightarrow> (\<exists>r. scull_p_read False f 0 (int c) [] dev = Inr (Some r) \<and> 0 < pr_ret r))
     \<and> (POLLOUT \<in> set fl \<longleftrightarrow> (\<exists>r. scull_p_write False f 0 bytes [] dev = Inr (Some r) \<and> 0 < pr_ret r))"
proof -
  let ?n = "sp_buffersize dev - 1 - int (length (pipe_contents dev))"
  have rd: "sp_rp dev \<noteq> sp_wp dev \<longleftrightarrow> (\<exists>r. scull_p_read False f 0 (int c) [] dev = Inr (Some r) \<and> 0 < pr_ret r)"
  proof (cases "sp_rp dev = sp_wp dev")
    case True
    then show ?thesis using assms pipe_empty_iff [OF inv] by (simp add: pipe_read_attempt)
  next
    case False
    with inv show ?thesis
      by (rule pipe_take_spec [of dev 0 c])
         (use assms False pipe_empty_iff [OF inv] in \<open>auto simp: pipe_read_attempt\<close>)
  qed
  have wr: "?n \<noteq> 0 \<longleftrightarrow> (\<exists>r. scull_p_write False f 0 bytes [] dev = Inr (Some r) \<and> 0 < pr_ret r)"
  proof (cases "?n = 0")
    case True
    then show ?thesis using assms spacefree_spec [OF inv] by (simp add: pipe_write_attempt(1))
  next
    case False
    note att = pipe_write_attempt(2) [OF spacefree_spec [OF inv] False, of f 0 bytes "[]"]
    from inv show ?thesis
      by (rule pipe_put_spec [of dev 0 bytes]) (use assms False spacefree_spec [OF inv] att in auto)
  qed
  show ?thesis
    unfolding scull_p_poll_def spacefree_spec [OF inv] sum.case using rd wr by (auto split: if_splits)
qed

theorem scull_p_poll_correct_witness:
  "\<exists>fl. scull_p_poll tiny_pipe = Inr fl
     \<and> (POLLIN \<in> set fl \<longleftrightarrow> (\<exists>r. scull_p_read False (rw_file\<lparr>f_nonblock := True\<rparr>) 0 (int 1) [] tiny_pipe
                              = Inr (Some r) \<and> 0 < pr_ret r))
     \<and> (POLLOUT \<in> set fl \<longleftrightarrow> (\<exists>r. scull_p_write False (rw_file\<lparr>f_nonblock := True\<rparr>) 0 [7] [] tiny_pipe
                              = Inr (Some r) \<and> 0 < pr_ret r))"
  by (rule scull_p_poll_correct) (simp_all add: tiny_pipe_inv rw_file_def)

text \<open>
  Opening an open pipe discards what its readers have not read, and after the buffer size was
  raised with \<open>SCULL_P_IOCTSIZE\<close>, which needs no privilege, it also moves the end of the buffer past the
  memory that was allocated: a writer with enough bytes then writes beyond the allocation.
\<close>

theorem scull_p_open_overflows:
  fixes env :: ioctl_env and p :: scull_params
  assumes inv: "pipe_inv dev" and big: "sp_buffersize dev < sz - 1" "sz < 2 ^ 31"
    and bytes: "sp_buffersize dev < int (length bytes)"
  defines "p' \<equiv> io_params (scull_ioctl env SCULL_P_IOCTSIZE sz p)"
  shows "\<exists>dev'. scull_p_open ok p' False f dev km = (0, dev', km)
     \<and> pipe_contents dev' = [] \<and> scull_p_write False g u bytes [] dev' = Inl OutOfBounds"
proof -
  obtain buf where b: "sp_buffer dev = Some buf" "sp_buffersize dev = int (length buf)"
    using inv by (rule pipe_invE)
  have p: "scull_p_buffer p' = sz"
    using big b by (simp add: p'_def scull_ioctl_def ioctl_switch_def ioc_defs Let_def s32_id)
  define dev' where "dev' = dev\<lparr>sp_buffersize := sz, sp_end := sz, sp_rp := 0, sp_wp := 0,
      sp_nreaders := (if f_read f then sp_nreaders dev + 1 else sp_nreaders dev),
      sp_nwriters := (if f_write f then sp_nwriters dev + 1 else sp_nwriters dev)\<rparr>"
  have sp: "s32 (sz - 1) = sz - 1" "u64 (sz - 1) = sz - 1" "u64 sz = sz"
    using big b by (auto intro!: s32_id u64_id)
  have sf: "spacefree dev' = Inr (sz - 1)" using sp by (simp add: spacefree_def dev'_def)
  have "pipe_put u bytes dev' = Inl OutOfBounds"
    unfolding pipe_put_def sf sum.case Let_def using big b bytes sp by (auto simp: dev'_def min_def)
  moreover have "sz - 1 \<noteq> 0" using big b by linarith
  ultimately have "scull_p_write False g u bytes [] dev' = Inl OutOfBounds"
    using pipe_write_attempt(2) [OF sf] by simp
  moreover have "scull_p_open ok p' False f dev km = (0, dev', km)"
    using b by (simp add: scull_p_open_def p dev'_def)
  ultimately show ?thesis by (simp add: dev'_def pipe_contents_def ring_def)
qed

theorem scull_p_open_overflows_witness:
  "\<exists>dev'. scull_p_open (\<lambda>_ _. True)
       (io_params (scull_ioctl \<lparr>access_ok = False, capable_admin = False, user_value = None, put_user_ok = False\<rparr>
          SCULL_P_IOCTSIZE 100 \<lparr>scull_quantum = 1, scull_qset = 2, scull_p_buffer = 3\<rparr>))
       False rw_file tiny_pipe fresh_kmem = (0, dev', fresh_kmem)
     \<and> pipe_contents dev' = [] \<and> scull_p_write False rw_file 0 [1, 2, 3, 4] [] dev' = Inl OutOfBounds"
  by (rule scull_p_open_overflows) (simp_all add: tiny_pipe_inv, simp_all add: tiny_pipe_def)

section \<open>Sessions\<close>

text \<open>
  Files are opened and closed; \<open>ps_files\<close> are the open ones. The step relation follows the calls
  the kernel makes: \<open>release\<close> only for an open file.
\<close>

record pipe_system =
  ps_files :: "filp list"
  ps_dev :: scull_pipe
  ps_kmem :: kmem

inductive pipe_system_step :: "(nat \<Rightarrow> bool \<Rightarrow> nat list \<Rightarrow> int \<times> nat list) \<Rightarrow> pipe_system \<Rightarrow> pipe_system \<Rightarrow> bool"
  for fasync_helper where
  open_ok: "scull_p_open ok p intr f (ps_dev s) (ps_kmem s) = (0, dev', km') \<Longrightarrow> f_read f \<or> f_write f \<Longrightarrow>
     pipe_system_step fasync_helper s \<lparr>ps_files = f # ps_files s, ps_dev = dev', ps_kmem = km'\<rparr>"
| open_failed: "scull_p_open ok p intr f (ps_dev s) (ps_kmem s) = (ret, dev', km') \<Longrightarrow> ret \<noteq> 0 \<Longrightarrow>
     pipe_system_step fasync_helper s (s\<lparr>ps_dev := dev', ps_kmem := km'\<rparr>)"
| release: "f \<in> set (ps_files s) \<Longrightarrow> scull_p_release fasync_helper f (ps_dev s) (ps_kmem s) = (ret, dev', km') \<Longrightarrow>
     pipe_system_step fasync_helper s \<lparr>ps_files = remove1 f (ps_files s), ps_dev = dev', ps_kmem = km'\<rparr>"
| fasync: "pipe_system_step fasync_helper s
     (s\<lparr>ps_dev := snd (scull_p_fasync fasync_helper mode f (ps_dev s))\<rparr>)"

definition pipe_system_inv :: "int \<Rightarrow> pipe_system \<Rightarrow> bool" where
  "pipe_system_inv base s \<longleftrightarrow>
     sp_nreaders (ps_dev s) = int (length (filter f_read (ps_files s)))
     \<and> sp_nwriters (ps_dev s) = int (length (filter f_write (ps_files s)))
     \<and> (\<forall>f \<in> set (ps_files s). f_read f \<or> f_write f)
     \<and> (sp_buffer (ps_dev s) = None \<longleftrightarrow> ps_files s = [])
     \<and> km_live (ps_kmem s) = base + (if ps_files s = [] then 0 else 1)"

lemma length_filter_remove1:
  "x \<in> set xs \<Longrightarrow> int (length (filter P (remove1 x xs))) = int (length (filter P xs)) - (if P x then 1 else 0)"
  by (induction xs) (auto simp: of_nat_diff Suc_le_eq length_pos_if_in_set)

lemma pipe_open_ok:
  assumes "scull_p_open ok p intr f dev km = (0, dev', km')"
  shows "sp_nreaders dev' = sp_nreaders dev + (if f_read f then 1 else 0)
    \<and> sp_nwriters dev' = sp_nwriters dev + (if f_write f then 1 else 0) \<and> sp_buffer dev' \<noteq> None
    \<and> km_live km' = km_live km + (if sp_buffer dev = None then 1 else 0)"
  using assms by (auto simp: scull_p_open_def kmalloc_def Let_def split: if_splits option.splits prod.splits bool.splits)

lemma pipe_open_failed:
  assumes "scull_p_open ok p intr f dev km = (ret, dev', km')" "ret \<noteq> 0"
  shows "dev' = dev \<and> km_live km' = km_live km"
  using assms by (auto simp: scull_p_open_def kmalloc_def Let_def split: if_splits option.splits prod.splits bool.splits)

lemma fasync_fields:
  "sp_nreaders (snd (scull_p_fasync h m f dev)) = sp_nreaders dev"
  "sp_nwriters (snd (scull_p_fasync h m f dev)) = sp_nwriters dev"
  "sp_buffer (snd (scull_p_fasync h m f dev)) = sp_buffer dev"
  by (simp_all add: scull_p_fasync_def split: prod.split)

lemma pipe_release_spec:
  assumes "scull_p_release h f dev km = (ret, dev', km')"
  defines "nr \<equiv> sp_nreaders dev - (if f_read f then 1 else 0)"
    and "nw \<equiv> sp_nwriters dev - (if f_write f then 1 else 0)"
  shows "ret = 0 \<and> sp_nreaders dev' = nr \<and> sp_nwriters dev' = nw
    \<and> sp_buffer dev' = (if nr + nw = 0 then None else sp_buffer dev)
    \<and> km_live km' = km_live km - (if nr + nw = 0 \<and> sp_buffer dev \<noteq> None then 1 else 0)"
proof (cases "nr + nw = 0")
  case True
  then show ?thesis using assms(1) fasync_fields [of h False f dev]
    by (auto simp: scull_p_release_def Let_def nr_def nw_def kfree_def split: if_splits option.splits)
next
  case False
  then show ?thesis using assms(1) fasync_fields [of h False f dev]
    by (auto simp: scull_p_release_def Let_def nr_def nw_def split: if_splits)
qed

lemma open_files_zero:
  assumes "\<forall>f \<in> set fs. f_read f \<or> f_write f"
  shows "int (length (filter f_read fs)) + int (length (filter f_write fs)) = 0 \<longleftrightarrow> fs = []"
  using assms by (cases fs) (auto simp: filter_empty_conv)

lemma pipe_system_inv_release:
  assumes inv: "pipe_system_inv base s" and f: "f \<in> set (ps_files s)"
    and rel: "scull_p_release h f (ps_dev s) (ps_kmem s) = (ret, dev', km')"
  shows "pipe_system_inv base \<lparr>ps_files = remove1 f (ps_files s), ps_dev = dev', ps_kmem = km'\<rparr>"
proof -
  let ?fs = "remove1 f (ps_files s)"
  have ne: "ps_files s \<noteq> []" using f by auto
  have rw: "\<forall>g \<in> set ?fs. f_read g \<or> f_write g"
    using inv notin_set_remove1 by (fastforce simp: pipe_system_inv_def)
  have cnt: "sp_nreaders (ps_dev s) - (if f_read f then 1 else 0) = int (length (filter f_read ?fs))"
    "sp_nwriters (ps_dev s) - (if f_write f then 1 else 0) = int (length (filter f_write ?fs))"
    using inv by (simp_all add: pipe_system_inv_def length_filter_remove1 [OF f])
  show ?thesis
    using inv ne rw pipe_release_spec [OF rel, unfolded cnt open_files_zero [OF rw]]
    by (auto simp: pipe_system_inv_def)
qed

lemma pipe_system_inv_step:
  assumes "pipe_system_step h s s'" and inv: "pipe_system_inv base s"
  shows "pipe_system_inv base s'"
  using assms(1)
proof cases
  case (open_ok ok p intr f dev' km')
  then show ?thesis using inv pipe_open_ok [OF open_ok(2)] by (auto simp: pipe_system_inv_def)
next
  case (open_failed ok p intr f ret dev' km')
  then show ?thesis using inv pipe_open_failed [OF open_failed(2,3)] by (simp add: pipe_system_inv_def)
next
  case (release f ret dev' km')
  then show ?thesis using pipe_system_inv_release [OF inv release(2,3)] by simp
next
  case (fasync mode f)
  then show ?thesis using inv by (simp add: pipe_system_inv_def fasync_fields)
qed

interpretation sessions: relation_inv "pipe_system_step h" "pipe_system_inv base" for h base
  by unfold_locales (rule pipe_system_inv_step)

text \<open>
  C31: Along every sequence of opens, closes and requests for asynchronous notification, the two
  counters are the numbers of open files for reading and for writing, and the buffer exists, as
  exactly one block of the allocator, exactly while some file is open: the last close frees it
  and nothing is freed twice or leaked.
\<close>

theorem pipe_system_invariant:
  assumes "pipe_system_inv base s" "(pipe_system_step h)\<^sup>*\<^sup>* s s'"
  shows "pipe_system_inv base s'"
  by (rule sessions.inv_reached [OF assms(2,1)])

definition closed_pipe :: scull_pipe where
  "closed_pipe = \<lparr>sp_buffer = None, sp_end = 0, sp_buffersize = 0, sp_rp = 0, sp_wp = 0,
     sp_nreaders = 0, sp_nwriters = 0, sp_async_queue = []\<rparr>"

theorem pipe_system_invariant_witness:
  "pipe_system_inv 0 \<lparr>ps_files = [rw_file],
     ps_dev = closed_pipe\<lparr>sp_buffer := Some [None, None], sp_buffersize := 2, sp_end := 2, sp_rp := 0, sp_wp := 0,
                          sp_nreaders := 1, sp_nwriters := 1\<rparr>,
     ps_kmem = \<lparr>km_calls = 1, km_live = 1\<rparr>\<rparr>"
proof (rule pipe_system_invariant)
  show "pipe_system_inv 0 \<lparr>ps_files = [], ps_dev = closed_pipe, ps_kmem = fresh_kmem\<rparr>"
    by (simp add: pipe_system_inv_def closed_pipe_def fresh_kmem_def)
  have "scull_p_open (\<lambda>_ _. True) \<lparr>scull_quantum = 1, scull_qset = 1, scull_p_buffer = 2\<rparr> False rw_file
      closed_pipe fresh_kmem =
    (0, closed_pipe\<lparr>sp_buffer := Some [None, None], sp_buffersize := 2, sp_end := 2, sp_rp := 0, sp_wp := 0,
                    sp_nreaders := 1, sp_nwriters := 1\<rparr>, \<lparr>km_calls = 1, km_live = 1\<rparr>)"
    by code_simp
  then show "(pipe_system_step (\<lambda>f m q. (0, q)))\<^sup>*\<^sup>*
      \<lparr>ps_files = [], ps_dev = closed_pipe, ps_kmem = fresh_kmem\<rparr>
      \<lparr>ps_files = [rw_file],
       ps_dev = closed_pipe\<lparr>sp_buffer := Some [None, None], sp_buffersize := 2, sp_end := 2, sp_rp := 0, sp_wp := 0,
                            sp_nreaders := 1, sp_nwriters := 1\<rparr>,
       ps_kmem = \<lparr>km_calls = 1, km_live = 1\<rparr>\<rparr>"
    using pipe_system_step.open_ok [of _ _ _ _ "\<lparr>ps_files = [], ps_dev = closed_pipe, ps_kmem = fresh_kmem\<rparr>"]
    by (intro r_into_rtranclp) (auto simp: rw_file_def)
qed

end
