(* ===== verification/Scull_Access.thy ===== *)
theory Scull_Access
  imports Scull_Pipe
begin

text \<open>
  The devices with access control on open, \<open>linux_device_drivers/code/scull/access.c\<close>: single
  open, one user at a time, one user at a time with waiting, and one private device for each
  controlling terminal. They share the other operations with the bare device. The part of an
  open that a spinlock or an atomic operation guards is one step; \<open>scull_s_step\<close> breaks the
  single-open device down to its atomic operations.
\<close>

section \<open>Single open\<close>

record scull_s =
  s_available :: int
  s_device :: scull_dev

definition atomic_dec_and_test :: "int \<Rightarrow> bool \<times> int" where
  "atomic_dec_and_test v = (v - 1 = 0, v - 1)"

definition scull_s_open ::
  "scull_params \<Rightarrow> access_mode \<Rightarrow> scull_s \<Rightarrow> kmem \<Rightarrow> fault + (int \<times> scull_s \<times> kmem)" where
  "scull_s_open p mode s km =
     (let (zero, v) = atomic_dec_and_test (s_available s); s = s\<lparr>s_available := v\<rparr>
      in if \<not> zero
         then Inr (- EBUSY, s\<lparr>s_available := s_available s + 1\<rparr>, km)
         else if mode = O_WRONLY
         then (case scull_trim p (s_device s) km of
                 Inl e \<Rightarrow> Inl e
               | Inr (dev, km) \<Rightarrow> Inr (0, s\<lparr>s_device := dev\<rparr>, km))
         else Inr (0, s, km))"

definition scull_s_release :: "scull_s \<Rightarrow> int \<times> scull_s" where
  "scull_s_release s = (0, s\<lparr>s_available := s_available s + 1\<rparr>)"

section \<open>One user at a time\<close>

record cred =
  cr_uid :: nat
  cr_euid :: nat
  cr_dac_override :: bool

record scull_u =
  u_count :: int
  u_owner :: nat
  u_device :: scull_dev

definition scull_u_open ::
  "scull_params \<Rightarrow> cred \<Rightarrow> access_mode \<Rightarrow> scull_u \<Rightarrow> kmem \<Rightarrow> fault + (int \<times> scull_u \<times> kmem)" where
  "scull_u_open p c mode s km =
     (if u_count s \<noteq> 0 \<and> u_owner s \<noteq> cr_uid c \<and> u_owner s \<noteq> cr_euid c \<and> \<not> cr_dac_override c
      then Inr (- EBUSY, s, km)
      else
        (let s = (if u_count s = 0 then s\<lparr>u_owner := cr_uid c\<rparr> else s);
             s = s\<lparr>u_count := u_count s + 1\<rparr>
         in if mode = O_WRONLY
            then (case scull_trim p (u_device s) km of
                    Inl e \<Rightarrow> Inl e
                  | Inr (dev, km) \<Rightarrow> Inr (0, s\<lparr>u_device := dev\<rparr>, km))
            else Inr (0, s, km)))"

definition scull_u_release :: "scull_u \<Rightarrow> int \<times> scull_u" where
  "scull_u_release s = (0, s\<lparr>u_count := u_count s - 1\<rparr>)"

section \<open>One user at a time, waiting\<close>

record scull_w =
  w_count :: int
  w_owner :: nat
  w_device :: scull_dev

definition scull_w_available :: "cred \<Rightarrow> scull_w \<Rightarrow> bool" where
  "scull_w_available c s \<longleftrightarrow>
     w_count s = 0 \<or> w_owner s = cr_uid c \<or> w_owner s = cr_euid c \<or> cr_dac_override c"

text \<open>
  A sleeping open finds, at each wake-up, either a signal (\<open>None\<close>) or the state the others left.
  The value \<open>None\<close> of the function: still asleep.
\<close>

fun scull_w_wait :: "cred \<Rightarrow> bool \<Rightarrow> scull_w option list \<Rightarrow> scull_w \<Rightarrow> (int \<times> scull_w) option" where
  "scull_w_wait c nonblock wks s =
     (if scull_w_available c s then Some (0, s)
      else if nonblock then Some (- EAGAIN, s)
      else (case wks of
              [] \<Rightarrow> None
            | None # wks \<Rightarrow> Some (- ERESTARTSYS, s)
            | Some s' # wks \<Rightarrow> scull_w_wait c nonblock wks s'))"

definition scull_w_open ::
  "scull_params \<Rightarrow> cred \<Rightarrow> access_mode \<Rightarrow> bool \<Rightarrow> scull_w option list \<Rightarrow> scull_w \<Rightarrow> kmem \<Rightarrow>
   fault + (int \<times> scull_w \<times> kmem) option" where
  "scull_w_open p c mode nonblock wks s km =
     (case scull_w_wait c nonblock wks s of
        None \<Rightarrow> Inr None
      | Some (ret, s) \<Rightarrow>
          if ret \<noteq> 0 then Inr (Some (ret, s, km))
          else
            (let s = (if w_count s = 0 then s\<lparr>w_owner := cr_uid c\<rparr> else s);
                 s = s\<lparr>w_count := w_count s + 1\<rparr>
             in if mode = O_WRONLY
                then (case scull_trim p (w_device s) km of
                        Inl e \<Rightarrow> Inl e
                      | Inr (dev, km) \<Rightarrow> Inr (Some (0, s\<lparr>w_device := dev\<rparr>, km)))
                else Inr (Some (0, s, km))))"

text \<open>The second component says whether the waiters are woken.\<close>

definition scull_w_release :: "scull_w \<Rightarrow> int \<times> bool \<times> scull_w" where
  "scull_w_release s =
     (let s = s\<lparr>w_count := w_count s - 1\<rparr> in (0, w_count s = 0, s))"

section \<open>A private device for each terminal\<close>

record scull_listitem =
  li_device :: scull_dev
  li_key :: int

definition zero_dev :: scull_dev where
  "zero_dev = \<lparr>sd_data = [], sd_quantum = 0, sd_qset = 0, sd_size = 0, sd_access_key = 0\<rparr>"

text \<open>
  The result is the index of the item in the list, \<open>None\<close> for the null pointer;
  \<open>sz\<close> is \<open>sizeof(struct scull_listitem)\<close>, which depends on the kernel configuration.
\<close>

fun list_index :: "int \<Rightarrow> scull_listitem list \<Rightarrow> nat option" where
  "list_index key [] = None"
| "list_index key (it # its) =
     (if li_key it = key then Some 0 else map_option Suc (list_index key its))"

definition scull_c_lookfor_device ::
  "kmalloc_ok \<Rightarrow> int \<Rightarrow> scull_params \<Rightarrow> int \<Rightarrow> scull_listitem list \<Rightarrow> kmem \<Rightarrow>
   fault + (nat option \<times> scull_listitem list \<times> kmem)" where
  "scull_c_lookfor_device ok sz p key lst km =
     (case list_index key lst of
        Some i \<Rightarrow> Inr (Some i, lst, km)
      | None \<Rightarrow>
          (case kmalloc ok sz km of
             (False, km) \<Rightarrow> Inr (None, lst, km)
           | (True, km) \<Rightarrow>
               (case scull_trim p zero_dev km of
                  Inl e \<Rightarrow> Inl e
                | Inr (dev, km) \<Rightarrow> Inr (Some 0, \<lparr>li_device = dev, li_key = key\<rparr> # lst, km))))"

text \<open>\<open>tty\<close> is the device number of the controlling terminal, if there is one.\<close>

definition scull_c_open ::
  "kmalloc_ok \<Rightarrow> int \<Rightarrow> scull_params \<Rightarrow> int option \<Rightarrow> access_mode \<Rightarrow> scull_listitem list \<Rightarrow> kmem \<Rightarrow>
   fault + (int \<times> nat option \<times> scull_listitem list \<times> kmem)" where
  "scull_c_open ok sz p tty mode lst km =
     (case tty of
        None \<Rightarrow> Inr (- EINVAL, None, lst, km)
      | Some key \<Rightarrow>
          (case scull_c_lookfor_device ok sz p key lst km of
             Inl e \<Rightarrow> Inl e
           | Inr (None, lst, km) \<Rightarrow> Inr (- ENOMEM, None, lst, km)
           | Inr (Some i, lst, km) \<Rightarrow>
               if mode = O_WRONLY
               then (case scull_trim p (li_device (lst ! i)) km of
                       Inl e \<Rightarrow> Inl e
                     | Inr (dev, km) \<Rightarrow> Inr (0, Some i, lst[i := (lst ! i)\<lparr>li_device := dev\<rparr>], km))
               else Inr (0, Some i, lst, km)))"

definition scull_c_release :: "scull_listitem list \<Rightarrow> int \<times> scull_listitem list" where
  "scull_c_release lst = (0, lst)"

section \<open>Set-up and clean-up\<close>

record scull_access =
  acc_s :: scull_s
  acc_u :: scull_u
  acc_w :: scull_w
  acc_c_device :: scull_dev
  acc_c_list :: "scull_listitem list"

definition scull_access_setup :: "scull_params \<Rightarrow> scull_dev \<Rightarrow> scull_dev" where
  "scull_access_setup p dev = dev\<lparr>sd_quantum := scull_quantum p, sd_qset := scull_qset p\<rparr>"

definition SCULL_N_ADEVS :: int where "SCULL_N_ADEVS = 4"

text \<open>\<open>registered\<close> says whether \<open>register_chrdev_region\<close> succeeded. The result counts the devices.\<close>

definition scull_access_init :: "scull_params \<Rightarrow> bool \<Rightarrow> scull_access \<Rightarrow> int \<times> scull_access" where
  "scull_access_init p registered a =
     (if \<not> registered then (0, a)
      else (SCULL_N_ADEVS,
            a\<lparr>acc_s := (acc_s a)\<lparr>s_device := scull_access_setup p (s_device (acc_s a))\<rparr>,
              acc_u := (acc_u a)\<lparr>u_device := scull_access_setup p (u_device (acc_u a))\<rparr>,
              acc_w := (acc_w a)\<lparr>w_device := scull_access_setup p (w_device (acc_w a))\<rparr>,
              acc_c_device := scull_access_setup p (acc_c_device a)\<rparr>))"

fun trim_cloned :: "scull_params \<Rightarrow> scull_listitem list \<Rightarrow> kmem \<Rightarrow> fault + kmem" where
  "trim_cloned p [] km = Inr km"
| "trim_cloned p (it # its) km =
     (case scull_trim p (li_device it) km of
        Inl e \<Rightarrow> Inl e
      | Inr (_, km) \<Rightarrow> trim_cloned p its (kfree (Some it) km))"

definition scull_access_cleanup :: "scull_params \<Rightarrow> scull_access \<Rightarrow> kmem \<Rightarrow> fault + (scull_access \<times> kmem)" where
  "scull_access_cleanup p a km =
     (case scull_trim p (s_device (acc_s a)) km of
        Inl e \<Rightarrow> Inl e
      | Inr (s, km) \<Rightarrow>
          (case scull_trim p (u_device (acc_u a)) km of
             Inl e \<Rightarrow> Inl e
           | Inr (u, km) \<Rightarrow>
               (case scull_trim p (w_device (acc_w a)) km of
                  Inl e \<Rightarrow> Inl e
                | Inr (w, km) \<Rightarrow>
                    (case scull_trim p (acc_c_device a) km of
                       Inl e \<Rightarrow> Inl e
                     | Inr (c, km) \<Rightarrow>
                         (case trim_cloned p (acc_c_list a) km of
                            Inl e \<Rightarrow> Inl e
                          | Inr km \<Rightarrow>
                              Inr (a\<lparr>acc_s := (acc_s a)\<lparr>s_device := s\<rparr>, acc_u := (acc_u a)\<lparr>u_device := u\<rparr>,
                                     acc_w := (acc_w a)\<lparr>w_device := w\<rparr>, acc_c_device := c,
                                     acc_c_list := []\<rparr>, km))))))"

declare scull_w_wait.simps [simp del]

section \<open>The single-open device, one atomic operation at a time\<close>

text \<open>
  Where each process is in its calls: outside, between a failed decrement and the increment that
  takes it back, or with the device open.
\<close>

datatype s_phase = Outside | Refused | Holding

inductive scull_s_step :: "int \<times> (nat \<Rightarrow> s_phase) \<Rightarrow> int \<times> (nat \<Rightarrow> s_phase) \<Rightarrow> bool" where
  open_got: "ph i = Outside \<Longrightarrow> atomic_dec_and_test v = (True, v') \<Longrightarrow>
     scull_s_step (v, ph) (v', ph(i := Holding))"
| open_busy: "ph i = Outside \<Longrightarrow> atomic_dec_and_test v = (False, v') \<Longrightarrow>
     scull_s_step (v, ph) (v', ph(i := Refused))"
| open_undo: "ph i = Refused \<Longrightarrow> scull_s_step (v, ph) (v + 1, ph(i := Outside))"
| release: "ph i = Holding \<Longrightarrow> scull_s_step (v, ph) (v + 1, ph(i := Outside))"

definition s_step_inv :: "int \<times> (nat \<Rightarrow> s_phase) \<Rightarrow> bool" where
  "s_step_inv s \<longleftrightarrow> finite {i. snd s i \<noteq> Outside}
     \<and> fst s = 1 - int (card {i. snd s i \<noteq> Outside})
     \<and> (\<forall>i j. snd s i = Holding \<longrightarrow> snd s j = Holding \<longrightarrow> i = j)"

lemma active_enter:
  "ph i = Outside \<Longrightarrow> x \<noteq> Outside \<Longrightarrow> {j. (ph(i := x)) j \<noteq> Outside} = insert i {j. ph j \<noteq> Outside}"
  by auto

lemma active_leave:
  assumes "finite {j. ph j \<noteq> Outside}" "ph i \<noteq> Outside"
  shows "finite {j. (ph(i := Outside)) j \<noteq> Outside}
    \<and> int (card {j. (ph(i := Outside)) j \<noteq> Outside}) = int (card {j. ph j \<noteq> Outside}) - 1"
proof -
  have "{j. (ph(i := Outside)) j \<noteq> Outside} = {j. ph j \<noteq> Outside} - {i}" by auto
  moreover have "i \<in> {j. ph j \<noteq> Outside}" using assms(2) by simp
  ultimately show ?thesis using assms(1) card_Suc_Diff1 [of "{j. ph j \<noteq> Outside}" i] by simp
qed

lemma s_step_inv_leave:
  assumes "s_step_inv (v, ph)" "ph i \<noteq> Outside"
  shows "s_step_inv (v + 1, ph(i := Outside))"
  using assms active_leave [of ph i] by (auto simp: s_step_inv_def simp del: fun_upd_apply) (auto split: if_splits)

lemma s_step_inv_step:
  assumes "scull_s_step s s'" "s_step_inv s"
  shows "s_step_inv s'"
  using assms
proof cases
  case (open_got ph i v v')
  then have "card {j. ph j \<noteq> Outside} = 0" "finite {j. ph j \<noteq> Outside}"
    using assms(2) by (auto simp: s_step_inv_def atomic_dec_and_test_def)
  then have all: "ph j = Outside" for j by auto
  then have "{j. (ph(i := Holding)) j \<noteq> Outside} = {i}" by auto
  with all open_got show ?thesis by (auto simp: s_step_inv_def atomic_dec_and_test_def simp del: fun_upd_apply)
     (metis fun_upd_other s_phase.distinct(3))+
next
  case (open_busy ph i v v')
  then show ?thesis using assms(2) active_enter [of ph i Refused]
    by (auto simp: s_step_inv_def atomic_dec_and_test_def)
next
  case (open_undo ph i v)
  then show ?thesis using assms(2) s_step_inv_leave [of v ph i] by simp
next
  case (release ph i v)
  then show ?thesis using assms(2) s_step_inv_leave [of v ph i] by simp
qed

interpretation single_open: relation_inv scull_s_step s_step_inv
  by unfold_locales (rule s_step_inv_step)

text \<open>
  C18: At most one process has the single-open device open, however the atomic operations of
  concurrent opens and releases interleave; and the counter is never lost: once every process is
  outside again it is 1, so the next open succeeds.
\<close>

theorem scull_s_exclusive:
  assumes "scull_s_step\<^sup>*\<^sup>* (1, \<lambda>_. Outside) (v, ph)"
  shows "(\<forall>i j. ph i = Holding \<longrightarrow> ph j = Holding \<longrightarrow> i = j) \<and> ((\<forall>i. ph i = Outside) \<longrightarrow> v = 1)"
proof -
  have "s_step_inv (1, \<lambda>_. Outside)" by (simp add: s_step_inv_def)
  with assms have "s_step_inv (v, ph)" by (rule single_open.inv_reached)
  then show ?thesis by (auto simp: s_step_inv_def)
qed

theorem scull_s_exclusive_witness:
  "scull_s_step\<^sup>*\<^sup>* (1, \<lambda>_. Outside) (-1, (\<lambda>_. Outside)(3 := Holding, 5 := Refused))
   \<and> ((\<lambda>_. Outside)(3 := Holding, 5 := Refused)) (3 :: nat) = Holding
   \<and> ((\<lambda>_. Outside)(3 := Holding, 5 := Refused)) (5 :: nat) \<noteq> Holding"
proof -
  have "scull_s_step (1, \<lambda>_. Outside) (0, (\<lambda>_. Outside)(3 := Holding))"
    by (rule scull_s_step.open_got) (simp_all add: atomic_dec_and_test_def)
  moreover have "scull_s_step (0, (\<lambda>_. Outside)(3 := Holding)) (-1, (\<lambda>_. Outside)(3 := Holding, 5 := Refused))"
    by (rule scull_s_step.open_busy) (simp_all add: atomic_dec_and_test_def)
  ultimately have r: "scull_s_step\<^sup>*\<^sup>* (1, \<lambda>_. Outside) (-1, (\<lambda>_. Outside)(3 := Holding, 5 := Refused))"
    by (meson converse_rtranclp_into_rtranclp r_into_rtranclp)
  have three: "((\<lambda>_. Outside)(3 := Holding, 5 := Refused)) (3 :: nat) = Holding" by simp
  have "(5 :: nat) \<noteq> 3" by simp
  then have "((\<lambda>_. Outside)(3 := Holding, 5 := Refused)) (5 :: nat) \<noteq> Holding"
    using conjunct1 [OF scull_s_exclusive [OF r]] three by metis
  with r three show ?thesis by blast
qed

section \<open>Users\<close>

datatype u_op = UOpen scull_params cred access_mode | URelease cred

text \<open>The credentials of the open files, the device and the allocator.\<close>

fun u_step :: "u_op \<Rightarrow> cred list \<times> scull_u \<times> kmem \<Rightarrow> cred list \<times> scull_u \<times> kmem" where
  "u_step (UOpen p c mode) (files, s, km) =
     (case scull_u_open p c mode s km of
        Inl e \<Rightarrow> (files, s, km)
      | Inr (ret, s', km') \<Rightarrow> (if ret = 0 then c # files else files, s', km'))"
| "u_step (URelease c) (files, s, km) =
     (if c \<in> set files then (remove1 c files, snd (scull_u_release s), km) else (files, s, km))"

definition admitted :: "nat \<Rightarrow> cred \<Rightarrow> bool" where
  "admitted owner c \<longleftrightarrow> owner = cr_uid c \<or> owner = cr_euid c \<or> cr_dac_override c"

fun u_inv :: "cred list \<times> scull_u \<times> kmem \<Rightarrow> bool" where
  "u_inv (files, s, km) \<longleftrightarrow> u_count s = int (length files) \<and> (\<forall>c \<in> set files. admitted (u_owner s) c)"

lemma length_remove1_in: "c \<in> set files \<Longrightarrow> int (length (remove1 c files)) = int (length files) - 1"
  using length_pos_if_in_set [of c files] by (simp add: length_remove1 of_nat_diff Suc_leI)

lemma u_inv_step: "u_inv s \<Longrightarrow> u_inv (u_step x s)"
proof (induction x s rule: u_step.induct)
  case (1 p c mode files s km)
  then show ?case
    by (auto simp: scull_u_open_def admitted_def Let_def split: sum.splits prod.splits if_splits)
next
  case (2 c files s km)
  then show ?case using notin_set_remove1 [of _ files c]
    by (auto simp: scull_u_release_def length_remove1_in)
qed

interpretation uid_device: transition_inv u_step u_inv
  by unfold_locales (rule u_inv_step)

text \<open>
  On the one-user device, whatever sequence of opens and releases ran, every file that is open
  was opened by the owner, under the owner's effective identity, or with \<open>CAP_DAC_OVERRIDE\<close>; the
  count is the number of open files, so the device is free again after the last release.
\<close>

theorem scull_u_one_user:
  "u_inv s \<Longrightarrow> (\<lambda>(files, d, km). u_count d = int (length files)
      \<and> (\<forall>c \<in> set files. u_owner d = cr_uid c \<or> u_owner d = cr_euid c \<or> cr_dac_override c))
     (run_ops u_step xs s)"
  using uid_device.inv_run [of s xs] by (cases "run_ops u_step xs s") (simp add: admitted_def)

definition user :: "nat \<Rightarrow> cred" where
  "user n = \<lparr>cr_uid = n, cr_euid = n, cr_dac_override = False\<rparr>"

theorem scull_u_one_user_witness:
  "(\<lambda>(files, d, km). u_count d = int (length files)
      \<and> (\<forall>c \<in> set files. u_owner d = cr_uid c \<or> u_owner d = cr_euid c \<or> cr_dac_override c))
     (run_ops u_step [UOpen \<lparr>scull_quantum = 4, scull_qset = 2, scull_p_buffer = 3\<rparr> (user 1) O_RDWR,
                      UOpen \<lparr>scull_quantum = 4, scull_qset = 2, scull_p_buffer = 3\<rparr> (user 2) O_RDWR]
        ([], \<lparr>u_count = 0, u_owner = 0, u_device = tiny_dev\<rparr>, fresh_kmem))"
  by (rule scull_u_one_user) simp

text \<open>A sleeping open goes on at the first wake-up that finds the device available.\<close>

lemma scull_w_wait_first:
  assumes "\<not> scull_w_available c s" and "Some s' \<in> set wks" and "None \<notin> set wks" and "scull_w_available c s'"
  shows "\<exists>before d later. wks = before @ Some d # later \<and> (\<forall>b. Some b \<in> set before \<longrightarrow> \<not> scull_w_available c b)
    \<and> scull_w_available c d \<and> scull_w_wait c False wks s = Some (0, d)"
  using assms
proof (induction wks arbitrary: s)
  case (Cons w wks)
  then obtain d where w: "w = Some d" by (cases w) auto
  show ?case
  proof (cases "scull_w_available c d")
    case True
    then have "scull_w_wait c False (w # wks) s = Some (0, d)" using Cons.prems w by (simp add: scull_w_wait.simps)
    then show ?thesis using True w by (intro exI [of _ "[]"] exI [of _ d] exI [of _ wks]) simp
  next
    case False
    with Cons.prems w have "\<exists>before e later. wks = before @ Some e # later \<and> (\<forall>b. Some b \<in> set before \<longrightarrow> \<not> scull_w_available c b)
        \<and> scull_w_available c e \<and> scull_w_wait c False wks d = Some (0, e)"
      by (intro Cons.IH) auto
    then obtain before e later where "wks = before @ Some e # later" "\<forall>b. Some b \<in> set before \<longrightarrow> \<not> scull_w_available c b"
      "scull_w_available c e" "scull_w_wait c False wks d = Some (0, e)" by blast
    moreover have "scull_w_wait c False (w # wks) s = scull_w_wait c False wks d"
      using Cons.prems w by (simp add: scull_w_wait.simps [of _ _ "Some d # wks"])
    ultimately show ?thesis using False w by (intro exI [of _ "w # before"] exI [of _ e] exI [of _ later]) auto
  qed
qed simp

text \<open>
  C40: The waiting variant wakes sleepers exactly when it can help: a process that could not open
  the device before a release and can afterwards is woken by it; and a sleeping open, in whatever mode,
  returns 0 at the first of its wake-ups that finds the device available, with the caller counted in
  and, on a free device, made the owner. Opened for writing only the device is emptied, its blocks
  freed and the parameters of the moment taken over; in the other modes it is left as it is.
\<close>

theorem scull_w_no_lost_wakeup:
  "(\<not> scull_w_available c s \<and> scull_w_available c (snd (snd (scull_w_release s)))
      \<longrightarrow> fst (snd (scull_w_release s)))
   \<and> (\<not> scull_w_available c s \<and> Some s' \<in> set wks \<and> None \<notin> set wks \<and> scull_w_available c s'
        \<and> (\<forall>d. Some d \<in> set wks \<longrightarrow> items_ok (w_device d))
      \<longrightarrow> (\<exists>before d later. wks = before @ Some d # later \<and> (\<forall>b. Some b \<in> set before \<longrightarrow> \<not> scull_w_available c b)
            \<and> scull_w_available c d
            \<and> scull_w_open p c mode False wks s km =
              Inr (Some (0, d\<lparr>w_owner := if w_count d = 0 then cr_uid c else w_owner d,
                              w_count := w_count d + 1,
                              w_device := if mode = O_WRONLY
                                then (w_device d)\<lparr>sd_size := 0, sd_quantum := scull_quantum p, sd_qset := scull_qset p, sd_data := []\<rparr>
                                else w_device d\<rparr>,
                         if mode = O_WRONLY then km\<lparr>km_live := km_live km - int (dev_blocks (w_device d))\<rparr> else km))))"
proof (intro conjI impI)
  assume "\<not> scull_w_available c s \<and> scull_w_available c (snd (snd (scull_w_release s)))"
  then show "fst (snd (scull_w_release s))"
    by (auto simp: scull_w_available_def scull_w_release_def Let_def)
next
  assume a: "\<not> scull_w_available c s \<and> Some s' \<in> set wks \<and> None \<notin> set wks \<and> scull_w_available c s'
    \<and> (\<forall>d. Some d \<in> set wks \<longrightarrow> items_ok (w_device d))"
  then obtain before d later where d: "wks = before @ Some d # later" "\<forall>b. Some b \<in> set before \<longrightarrow> \<not> scull_w_available c b"
    "scull_w_available c d" "scull_w_wait c False wks s = Some (0, d)" using scull_w_wait_first by blast
  then have "items_ok (w_device d)" using a by simp
  then show "\<exists>before d later. wks = before @ Some d # later \<and> (\<forall>b. Some b \<in> set before \<longrightarrow> \<not> scull_w_available c b)
      \<and> scull_w_available c d
      \<and> scull_w_open p c mode False wks s km =
        Inr (Some (0, d\<lparr>w_owner := if w_count d = 0 then cr_uid c else w_owner d,
                        w_count := w_count d + 1,
                        w_device := if mode = O_WRONLY
                          then (w_device d)\<lparr>sd_size := 0, sd_quantum := scull_quantum p, sd_qset := scull_qset p, sd_data := []\<rparr>
                          else w_device d\<rparr>,
                   if mode = O_WRONLY then km\<lparr>km_live := km_live km - int (dev_blocks (w_device d))\<rparr> else km))"
    using d by (intro exI [of _ before] exI [of _ d] exI [of _ later]) (simp add: scull_w_open_def Let_def scull_trim_items)
qed

definition busy_w :: scull_w where
  "busy_w = \<lparr>w_count = 1, w_owner = 1, w_device = tiny_dev\<rparr>"

theorem scull_w_no_lost_wakeup_witness:
  "fst (snd (scull_w_release busy_w))
   \<and> (\<exists>w km. scull_w_open \<lparr>scull_quantum = 16, scull_qset = 8, scull_p_buffer = 3\<rparr> (user 2) O_WRONLY False
            [Some (snd (snd (scull_w_release busy_w)))] busy_w fresh_kmem = Inr (Some (0, w, km))
          \<and> w_owner w = 2 \<and> w_count w = 1 \<and> sd_data (w_device w) = [] \<and> sd_quantum (w_device w) = 16)"
proof -
  let ?free = "snd (snd (scull_w_release busy_w))" and ?p = "\<lparr>scull_quantum = 16, scull_qset = 8, scull_p_buffer = 3\<rparr>"
  have a: "\<not> scull_w_available (user 2) busy_w" "scull_w_available (user 2) ?free"
    by (simp_all add: scull_w_available_def busy_w_def user_def scull_w_release_def Let_def)
  have f: "w_count ?free = 0" "items_ok (w_device ?free)"
    using dev_inv_items_ok [OF tiny_dev_ok(1)] by (simp_all add: busy_w_def scull_w_release_def Let_def)
  have "fst (snd (scull_w_release busy_w))"
    using scull_w_no_lost_wakeup [of "user 2" busy_w ?free "[Some ?free]" ?p O_WRONLY fresh_kmem] a by blast
  moreover have "\<exists>w km. scull_w_open ?p (user 2) O_WRONLY False [Some ?free] busy_w fresh_kmem = Inr (Some (0, w, km))
      \<and> w_owner w = 2 \<and> w_count w = 1 \<and> sd_data (w_device w) = [] \<and> sd_quantum (w_device w) = 16"
    using scull_w_no_lost_wakeup [of "user 2" busy_w ?free "[Some ?free]" ?p O_WRONLY fresh_kmem] a f
    by (auto simp: Cons_eq_append_conv user_def)
  ultimately show ?thesis by blast
qed

section \<open>Private devices\<close>

definition c_inv :: "scull_listitem list \<Rightarrow> bool" where
  "c_inv lst \<longleftrightarrow> distinct (map li_key lst) \<and> (\<forall>it \<in> set lst. items_ok (li_device it))"

definition device_of :: "scull_listitem list \<Rightarrow> int \<Rightarrow> scull_dev option" where
  "device_of lst = map_of (map (\<lambda>it. (li_key it, li_device it)) lst)"

lemma list_index_Some:
  "list_index key lst = Some i \<Longrightarrow> i < length lst \<and> li_key (lst ! i) = key \<and> device_of lst key = Some (li_device (lst ! i))"
proof (induction lst arbitrary: i)
  case Nil
  then show ?case by simp
next
  case (Cons it lst)
  then show ?case by (auto simp: device_of_def split: if_splits)
qed

lemma list_index_None: "list_index key lst = None \<longleftrightarrow> key \<notin> li_key ` set lst"
  by (induction lst) auto

lemma device_of_update:
  assumes "distinct (map li_key lst)" "i < length lst"
  shows "device_of (lst[i := (lst ! i)\<lparr>li_device := d\<rparr>]) = (device_of lst)(li_key (lst ! i) \<mapsto> d)"
  using assms
proof (induction lst arbitrary: i)
  case Nil
  then show ?case by simp
next
  case (Cons it lst)
  show ?case
  proof (cases i)
    case 0
    then show ?thesis by (simp add: device_of_def fun_eq_iff)
  next
    case (Suc j)
    with Cons.prems have "li_key it \<noteq> li_key (lst ! j)" by auto
    then show ?thesis using Cons Suc by (auto simp: device_of_def fun_upd_twist)
  qed
qed

definition cloned_blocks :: "scull_listitem list \<Rightarrow> nat" where
  "cloned_blocks lst = sum_list (map (\<lambda>it. 1 + dev_blocks (li_device it)) lst)"

lemma dev_blocks_empty [simp]: "sd_data d = [] \<Longrightarrow> dev_blocks d = 0"
  by (simp add: dev_blocks_def)

lemma items_ok_empty [simp]: "sd_data d = [] \<Longrightarrow> items_ok d"
  by (simp add: items_ok_def)

lemma scull_c_lookfor_spec:
  assumes inv: "c_inv lst" and e: "scull_c_lookfor_device ok sz p key lst km = Inr (Some i, lst', km')"
  shows "c_inv lst' \<and> i < length lst' \<and> li_key (lst' ! i) = key
    \<and> (\<forall>k. k \<noteq> key \<longrightarrow> device_of lst' k = device_of lst k)
    \<and> device_of lst' key = Some (li_device (lst' ! i))
    \<and> (key \<in> dom (device_of lst) \<longrightarrow> lst' = lst \<and> km' = km)"
proof (cases "list_index key lst")
  case None
  then have k: "key \<notin> li_key ` set lst" by (simp add: list_index_None)
  have "map_of (map (\<lambda>it. (li_key it, li_device it)) lst) key = None"
    using k by (force simp: map_of_eq_None_iff)
  with e None k inv show ?thesis
    by (auto simp: scull_c_lookfor_device_def scull_trim_items zero_dev_def c_inv_def device_of_def
        split: prod.splits bool.splits)
next
  case (Some j)
  with e inv list_index_Some [OF Some] show ?thesis by (auto simp: scull_c_lookfor_device_def)
qed

text \<open>
  Each terminal has one private device of its own: after a successful open by a process on
  terminal \<open>key\<close> the file works on the device of \<open>key\<close>, the devices of all other terminals are
  untouched, no terminal has two devices, and an open for reading by a terminal that has a
  device already changes nothing and allocates nothing.
\<close>

theorem scull_c_private:
  assumes "c_inv lst" "scull_c_open ok sz p (Some key) mode lst km = Inr (0, f, lst', km')"
  shows "\<exists>i. f = Some i \<and> i < length lst' \<and> li_key (lst' ! i) = key \<and> c_inv lst'
     \<and> device_of lst' key = Some (li_device (lst' ! i))
     \<and> (\<forall>k. k \<noteq> key \<longrightarrow> device_of lst' k = device_of lst k)
     \<and> (mode \<noteq> O_WRONLY \<and> key \<in> dom (device_of lst) \<longrightarrow> lst' = lst \<and> km' = km)"
proof -
  obtain i lst1 km1 where l: "scull_c_lookfor_device ok sz p key lst km = Inr (Some i, lst1, km1)"
    using assms(2) by (auto simp: scull_c_open_def split: sum.splits prod.splits option.splits)
  note sp = scull_c_lookfor_spec [OF assms(1) l]
  show ?thesis
  proof (cases "mode = O_WRONLY")
    case False
    then have "f = Some i" "lst' = lst1" "km' = km1" using assms(2) l by (auto simp: scull_c_open_def)
    then show ?thesis using sp False by auto
  next
    case True
    have ok: "items_ok (li_device (lst1 ! i))" using sp by (simp add: c_inv_def)
    define d where "d = (li_device (lst1 ! i))\<lparr>sd_size := 0, sd_quantum := scull_quantum p,
        sd_qset := scull_qset p, sd_data := []\<rparr>"
    have d: "sd_data d = []" "lst' = lst1[i := (lst1 ! i)\<lparr>li_device := d\<rparr>]" "f = Some i"
      using assms(2) l True scull_trim_items [OF ok] by (auto simp: scull_c_open_def d_def)
    have dist: "distinct (map li_key lst1)" using sp by (simp add: c_inv_def)
    have keys: "map li_key lst' = map li_key lst1"
      using d sp by (simp add: map_update) (metis list_update_id length_map nth_map)
    have "\<forall>it \<in> set lst'. items_ok (li_device it)"
      using sp d set_update_subset_insert [of lst1 i "(lst1 ! i)\<lparr>li_device := d\<rparr>"] by (auto simp: c_inv_def)
    then have "c_inv lst'" using keys dist by (simp add: c_inv_def)
    moreover have "device_of lst' = (device_of lst1)(key \<mapsto> d)"
      using device_of_update [OF dist, of i d] sp d by simp
    ultimately show ?thesis using sp d True by (intro exI [of _ i]) auto
  qed
qed

theorem scull_c_private_witness:
  "\<exists>i. Some 0 = Some i \<and> i < length [\<lparr>li_device = tiny_dev, li_key = 5\<rparr>]
     \<and> li_key ([\<lparr>li_device = tiny_dev, li_key = 5\<rparr>] ! i) = 5 \<and> c_inv [\<lparr>li_device = tiny_dev, li_key = 5\<rparr>]
     \<and> device_of [\<lparr>li_device = tiny_dev, li_key = 5\<rparr>] 5 = Some (li_device ([\<lparr>li_device = tiny_dev, li_key = 5\<rparr>] ! i))
     \<and> (\<forall>k. k \<noteq> 5 \<longrightarrow> device_of [\<lparr>li_device = tiny_dev, li_key = 5\<rparr>] k = device_of [] k)
     \<and> (O_RDWR \<noteq> O_WRONLY \<and> 5 \<in> dom (device_of []) \<longrightarrow>
          [\<lparr>li_device = tiny_dev, li_key = 5\<rparr>] = [] \<and> \<lparr>km_calls = 1, km_live = 1\<rparr> = fresh_kmem)"
  by (rule scull_c_private [where ok = "\<lambda>_ _. True" and sz = 64
        and p = "\<lparr>scull_quantum = 4, scull_qset = 2, scull_p_buffer = 3\<rparr>"])
     (simp add: c_inv_def, code_simp)

lemma trim_cloned_spec:
  "\<forall>it \<in> set lst. items_ok (li_device it) \<Longrightarrow>
   trim_cloned p lst km = Inr (km\<lparr>km_live := km_live km - int (cloned_blocks lst)\<rparr>)"
  by (induction lst arbitrary: km) (simp_all add: cloned_blocks_def scull_trim_items)

definition access_blocks :: "scull_access \<Rightarrow> nat" where
  "access_blocks a = dev_blocks (s_device (acc_s a)) + dev_blocks (u_device (acc_u a))
     + dev_blocks (w_device (acc_w a)) + dev_blocks (acc_c_device a) + cloned_blocks (acc_c_list a)"

definition access_ok_inv :: "scull_access \<Rightarrow> bool" where
  "access_ok_inv a \<longleftrightarrow> items_ok (s_device (acc_s a)) \<and> items_ok (u_device (acc_u a))
     \<and> items_ok (w_device (acc_w a)) \<and> items_ok (acc_c_device a) \<and> c_inv (acc_c_list a)"

lemma access_cleanup_spec:
  assumes "access_ok_inv a"
  shows "\<exists>a'. scull_access_cleanup p a km = Inr (a', km\<lparr>km_live := km_live km - int (access_blocks a)\<rparr>)
     \<and> access_ok_inv a' \<and> access_blocks a' = 0 \<and> acc_c_list a' = []"
  using assms trim_cloned_spec [of "acc_c_list a" p]
  by (simp add: access_ok_inv_def scull_access_cleanup_def scull_trim_items c_inv_def access_blocks_def
      cloned_blocks_def algebra_simps)

end
