(* ===== verification/Scull_Module.thy ===== *)
theory Scull_Module
  imports Scull_Access
begin

text \<open>
  Loading and unloading the scull module: \<open>scull_init_module\<close> and \<open>scull_cleanup_module\<close> of
  \<open>main.c\<close>, with \<open>scull_p_init\<close> and \<open>scull_p_cleanup\<close> of \<open>pipe.c\<close> and the set-up of the
  access-controlled devices. The answers of the kernel's registration calls, the combination
  \<open>MKDEV\<close> and the sizes of the structures are arguments. \<open>sm_regions\<close> are the ranges of device
  numbers (first number, count) that the module has registered, \<open>sm_cdevs\<close> what the kernel knows
  of its character devices.
\<close>

section \<open>Character devices\<close>

text \<open>
  The structures \<open>cdev\<close> inside the devices, by the device they belong to. \<open>ct_ops\<close> has the
  operations of those that are initialised and so hold a reference, \<open>ct_map\<close> the device that
  answers each live number. A reference that is dropped without being held is recorded in \<open>ct_bad\<close>.
\<close>

datatype fops = scull_fops | scull_pipe_fops | scull_sngl_fops | scull_user_fops | scull_wusr_fops | scull_priv_fops

datatype cdev = BareDev nat | PipeDev nat | AccessDev nat

record cdev_table =
  ct_ops :: "cdev \<Rightarrow> fops option"
  ct_map :: "int \<Rightarrow> cdev option"
  ct_bad :: "cdev list"

definition cdev_init :: "cdev \<Rightarrow> fops \<Rightarrow> cdev_table \<Rightarrow> cdev_table" where
  "cdev_init c f t = t\<lparr>ct_ops := (ct_ops t)(c := Some f)\<rparr>"

definition cdev_add :: "bool \<Rightarrow> int \<Rightarrow> cdev \<Rightarrow> cdev_table \<Rightarrow> cdev_table" where
  "cdev_add err devno c t = (if err then t else t\<lparr>ct_map := (ct_map t)(devno := Some c)\<rparr>)"

definition kobject_put :: "cdev \<Rightarrow> cdev_table \<Rightarrow> cdev_table" where
  "kobject_put c t =
     (if ct_ops t c = None then t\<lparr>ct_bad := c # ct_bad t\<rparr> else t\<lparr>ct_ops := (ct_ops t)(c := None)\<rparr>)"

definition cdev_del :: "cdev \<Rightarrow> cdev_table \<Rightarrow> cdev_table" where
  "cdev_del c t = kobject_put c (t\<lparr>ct_map := \<lambda>n. if ct_map t n = Some c then None else ct_map t n\<rparr>)"

definition no_cdevs :: cdev_table where
  "no_cdevs = \<lparr>ct_ops = \<lambda>_. None, ct_map = \<lambda>_. None, ct_bad = []\<rparr>"

record scull_module =
  sm_params :: scull_params
  sm_major :: int
  sm_minor :: int
  sm_nr_devs :: nat
  sm_devices :: "scull_dev list option"
  sm_p_nr_devs :: nat
  sm_p_devno :: int
  sm_p_devices :: "scull_pipe list option"
  sm_a_firstdev :: int
  sm_access :: scull_access
  sm_regions :: "(int \<times> int) list"
  sm_cdevs :: cdev_table
  sm_kmem :: kmem

record load_env =
  le_ok :: kmalloc_ok
  le_mkdev :: "int \<Rightarrow> int \<Rightarrow> int"
  le_register_main :: int
  le_dynamic_major :: int
  le_register_pipe :: int
  le_register_access :: int
  le_cdev_err :: "int \<Rightarrow> bool"
  le_sizeof_dev :: int
  le_sizeof_pipe :: int

definition register_chrdev_region :: "int \<Rightarrow> int \<Rightarrow> int \<Rightarrow> scull_module \<Rightarrow> scull_module" where
  "register_chrdev_region result from count m =
     (if result < 0 then m else m\<lparr>sm_regions := (from, count) # sm_regions m\<rparr>)"

definition unregister_chrdev_region :: "int \<Rightarrow> int \<Rightarrow> scull_module \<Rightarrow> scull_module" where
  "unregister_chrdev_region from count m = m\<lparr>sm_regions := removeAll (from, count) (sm_regions m)\<rparr>"

section \<open>Pipes\<close>

definition zero_pipe :: scull_pipe where
  "zero_pipe = \<lparr>sp_buffer = None, sp_end = 0, sp_buffersize = 0, sp_rp = 0, sp_wp = 0,
     sp_nreaders = 0, sp_nwriters = 0, sp_async_queue = []\<rparr>"

definition scull_p_setup_cdev :: "load_env \<Rightarrow> int \<Rightarrow> nat \<Rightarrow> cdev_table \<Rightarrow> cdev_table" where
  "scull_p_setup_cdev env scull_p_devno index t =
     (let devno = scull_p_devno + int index
      in cdev_add (le_cdev_err env devno) devno (PipeDev index) (cdev_init (PipeDev index) scull_pipe_fops t))"

definition scull_p_init :: "load_env \<Rightarrow> int \<Rightarrow> scull_module \<Rightarrow> int \<times> scull_module" where
  "scull_p_init env firstdev m =
     (let n = int (sm_p_nr_devs m);
          m = register_chrdev_region (le_register_pipe env) firstdev n m
      in if le_register_pipe env < 0 then (0, m)
         else
           (let m = m\<lparr>sm_p_devno := firstdev\<rparr>
            in case kmalloc (le_ok env) (n * le_sizeof_pipe env) (sm_kmem m) of
                 (False, km) \<Rightarrow>
                   (0, unregister_chrdev_region firstdev n (m\<lparr>sm_p_devices := None, sm_kmem := km\<rparr>))
               | (True, km) \<Rightarrow>
                   (n, m\<lparr>sm_p_devices := Some (replicate (sm_p_nr_devs m) zero_pipe), sm_kmem := km,
                         sm_cdevs := fold (scull_p_setup_cdev env firstdev) [0..<sm_p_nr_devs m] (sm_cdevs m)\<rparr>)))"

fun free_buffers :: "scull_pipe list \<Rightarrow> kmem \<Rightarrow> kmem" where
  "free_buffers [] km = km"
| "free_buffers (d # ds) km = free_buffers ds (kfree (sp_buffer d) km)"

definition scull_p_cleanup :: "scull_module \<Rightarrow> scull_module" where
  "scull_p_cleanup m =
     (case sm_p_devices m of
        None \<Rightarrow> m
      | Some ds \<Rightarrow>
          (unregister_chrdev_region (sm_p_devno m) (int (sm_p_nr_devs m))
             (m\<lparr>sm_kmem := kfree (Some ds) (free_buffers ds (sm_kmem m)),
                sm_cdevs := fold (\<lambda>i. cdev_del (PipeDev i)) [0..<sm_p_nr_devs m] (sm_cdevs m)\<rparr>))\<lparr>sm_p_devices := None\<rparr>)"

section \<open>The module\<close>

fun trim_devices :: "scull_params \<Rightarrow> scull_dev list \<Rightarrow> kmem \<Rightarrow> fault + kmem" where
  "trim_devices p [] km = Inr km"
| "trim_devices p (d # ds) km =
     (case scull_trim p d km of Inl e \<Rightarrow> Inl e | Inr (_, km) \<Rightarrow> trim_devices p ds km)"

text \<open>
  As in the code, \<open>scull_devices\<close> keeps its value after \<open>kfree\<close>: the module is gone, or its
  loading failed, after the call.
\<close>

definition scull_cleanup_module :: "load_env \<Rightarrow> scull_module \<Rightarrow> fault + scull_module" where
  "scull_cleanup_module env m =
     (let devno = le_mkdev env (sm_major m) (sm_minor m);
          freed = (case sm_devices m of
                     None \<Rightarrow> Inr m
                   | Some ds \<Rightarrow>
                       (case trim_devices (sm_params m) ds (sm_kmem m) of
                          Inl e \<Rightarrow> Inl e
                        | Inr km \<Rightarrow>
                            Inr (m\<lparr>sm_kmem := kfree (Some ds) km,
                                   sm_cdevs := fold (\<lambda>i. cdev_del (BareDev i)) [0..<sm_nr_devs m] (sm_cdevs m)\<rparr>)))
      in case freed of
           Inl e \<Rightarrow> Inl e
         | Inr m \<Rightarrow>
             (let m = scull_p_cleanup (unregister_chrdev_region devno (int (sm_nr_devs m)) m)
              in case scull_access_cleanup (sm_params m) (sm_access m) (sm_kmem m) of
                   Inl e \<Rightarrow> Inl e
                 | Inr (a, km) \<Rightarrow>
                     Inr (unregister_chrdev_region (sm_a_firstdev m) SCULL_N_ADEVS
                            (m\<lparr>sm_access := a, sm_kmem := km,
                               sm_cdevs := fold (\<lambda>i. cdev_del (AccessDev i)) [0..<nat SCULL_N_ADEVS] (sm_cdevs m)\<rparr>))))"

definition scull_setup_cdev :: "load_env \<Rightarrow> int \<Rightarrow> int \<Rightarrow> nat \<Rightarrow> cdev_table \<Rightarrow> cdev_table" where
  "scull_setup_cdev env scull_major scull_minor index t =
     (let devno = le_mkdev env scull_major (scull_minor + int index)
      in cdev_add (le_cdev_err env devno) devno (BareDev index) (cdev_init (BareDev index) scull_fops t))"

text \<open>The second half of \<open>scull_access_setup\<close>, for the entry \<open>i\<close> of \<open>scull_access_devs\<close>.\<close>

definition access_fops :: "fops list" where
  "access_fops = [scull_sngl_fops, scull_user_fops, scull_wusr_fops, scull_priv_fops]"

definition access_setup_cdev :: "load_env \<Rightarrow> int \<Rightarrow> nat \<Rightarrow> cdev_table \<Rightarrow> cdev_table" where
  "access_setup_cdev env firstdev i t =
     (let devno = firstdev + int i;
          t = cdev_add (le_cdev_err env devno) devno (AccessDev i) (cdev_init (AccessDev i) (access_fops ! i) t)
      in if le_cdev_err env devno then kobject_put (AccessDev i) t else t)"

text \<open>From the allocation of the devices on, the numbers being registered.\<close>

definition init_registered :: "load_env \<Rightarrow> scull_module \<Rightarrow> fault + (int \<times> scull_module)" where
  "init_registered env m =
     (let n = int (sm_nr_devs m)
      in case kmalloc (le_ok env) (n * le_sizeof_dev env) (sm_kmem m) of
           (False, km) \<Rightarrow>
             (case scull_cleanup_module env (m\<lparr>sm_devices := None, sm_kmem := km\<rparr>) of
                Inl e \<Rightarrow> Inl e
              | Inr m \<Rightarrow> Inr (- ENOMEM, m))
         | (True, km) \<Rightarrow>
             (let p = sm_params m;
                  d = zero_dev\<lparr>sd_quantum := scull_quantum p, sd_qset := scull_qset p\<rparr>;
                  t = fold (scull_setup_cdev env (sm_major m) (sm_minor m)) [0..<sm_nr_devs m] (sm_cdevs m);
                  m = m\<lparr>sm_devices := Some (replicate (sm_nr_devs m) d), sm_cdevs := t, sm_kmem := km\<rparr>;
                  dev = le_mkdev env (sm_major m) (sm_minor m + n);
                  (np, m) = scull_p_init env dev m;
                  dev = dev + np;
                  m = register_chrdev_region (le_register_access env) dev SCULL_N_ADEVS m;
                  (na, a) = scull_access_init p (\<not> le_register_access env < 0) (sm_access m);
                  m = m\<lparr>sm_access := a\<rparr>;
                  t = fold (access_setup_cdev env dev) [0..<nat SCULL_N_ADEVS] (sm_cdevs m);
                  m = (if le_register_access env < 0 then m else m\<lparr>sm_a_firstdev := dev, sm_cdevs := t\<rparr>)
              in Inr (0, m)))"

definition scull_init_module :: "load_env \<Rightarrow> scull_module \<Rightarrow> fault + (int \<times> scull_module)" where
  "scull_init_module env m =
     (let result = le_register_main env;
          m = (if sm_major m \<noteq> 0 then m else m\<lparr>sm_major := le_dynamic_major env\<rparr>);
          m = register_chrdev_region result (le_mkdev env (sm_major m) (sm_minor m)) (int (sm_nr_devs m)) m
      in if result < 0 then Inr (result, m) else init_registered env m)"

section \<open>Loading and unloading\<close>

text \<open>The state of the module's static variables before it is loaded.\<close>

definition unloaded :: "scull_module \<Rightarrow> bool" where
  "unloaded m \<longleftrightarrow> sm_devices m = None \<and> sm_p_devices m = None \<and> sm_regions m = [] \<and> sm_cdevs m = no_cdevs
     \<and> s_device (acc_s (sm_access m)) = zero_dev \<and> u_device (acc_u (sm_access m)) = zero_dev
     \<and> w_device (acc_w (sm_access m)) = zero_dev \<and> acc_c_device (sm_access m) = zero_dev
     \<and> acc_c_list (sm_access m) = []"

definition module_blocks :: "scull_module \<Rightarrow> nat" where
  "module_blocks m =
     (case sm_devices m of None \<Rightarrow> 0 | Some ds \<Rightarrow> 1 + sum_list (map dev_blocks ds))
     + (case sm_p_devices m of None \<Rightarrow> 0 | Some ds \<Rightarrow> 1 + length (filter (\<lambda>d. sp_buffer d \<noteq> None) ds))
     + access_blocks (sm_access m)"

definition module_inv :: "load_env \<Rightarrow> scull_module \<Rightarrow> bool" where
  "module_inv env m \<longleftrightarrow>
     (\<forall>ds d. sm_devices m = Some ds \<longrightarrow> d \<in> set ds \<longrightarrow> items_ok d) \<and> access_ok_inv (sm_access m)
     \<and> set (sm_regions m) \<subseteq> {(le_mkdev env (sm_major m) (sm_minor m), int (sm_nr_devs m)),
                             (sm_a_firstdev m, SCULL_N_ADEVS)}
         \<union> (if sm_p_devices m = None then {} else {(sm_p_devno m, int (sm_p_nr_devs m))})"

lemma trim_devices_spec:
  "\<forall>d \<in> set ds. items_ok d \<Longrightarrow>
   trim_devices p ds km = Inr (km\<lparr>km_live := km_live km - int (sum_list (map dev_blocks ds))\<rparr>)"
  by (induction ds arbitrary: km) (simp_all add: scull_trim_items)

lemma free_buffers_spec:
  "free_buffers ds km =
     km\<lparr>km_live := km_live km - int (length (filter (\<lambda>d. sp_buffer d \<noteq> None) ds))\<rparr>"
  by (induction ds arbitrary: km) (auto simp: kfree_def split: option.split)

lemma p_cleanup_spec:
  "km_live (sm_kmem (scull_p_cleanup m)) = km_live (sm_kmem m)
     - int (case sm_p_devices m of None \<Rightarrow> 0 | Some ds \<Rightarrow> 1 + length (filter (\<lambda>d. sp_buffer d \<noteq> None) ds))"
  "sm_regions (scull_p_cleanup m) = (case sm_p_devices m of None \<Rightarrow> sm_regions m
     | Some ds \<Rightarrow> removeAll (sm_p_devno m, int (sm_p_nr_devs m)) (sm_regions m))"
  "sm_access (scull_p_cleanup m) = sm_access m" "sm_params (scull_p_cleanup m) = sm_params m"
  "sm_a_firstdev (scull_p_cleanup m) = sm_a_firstdev m"
  by (simp_all add: scull_p_cleanup_def unregister_chrdev_region_def free_buffers_spec split: option.split)

lemma cleanup_spec:
  assumes inv: "module_inv env m"
  shows "\<exists>m'. scull_cleanup_module env m = Inr m' \<and> sm_regions m' = []
     \<and> km_live (sm_kmem m') = km_live (sm_kmem m) - int (module_blocks m)"
proof -
  let ?b = "case sm_devices m of None \<Rightarrow> 0 | Some ds \<Rightarrow> 1 + sum_list (map dev_blocks ds)"
  let ?t = "case sm_devices m of None \<Rightarrow> sm_cdevs m | Some _ \<Rightarrow> fold (\<lambda>i. cdev_del (BareDev i)) [0..<sm_nr_devs m] (sm_cdevs m)"
  define m1 where "m1 = m\<lparr>sm_kmem := (sm_kmem m)\<lparr>km_live := km_live (sm_kmem m) - int ?b\<rparr>, sm_cdevs := ?t\<rparr>"
  have freed: "(case sm_devices m of None \<Rightarrow> Inr m
      | Some ds \<Rightarrow> (case trim_devices (sm_params m) ds (sm_kmem m) of
           Inl e \<Rightarrow> Inl e
         | Inr km \<Rightarrow> Inr (m\<lparr>sm_kmem := kfree (Some ds) km,
                             sm_cdevs := fold (\<lambda>i. cdev_del (BareDev i)) [0..<sm_nr_devs m] (sm_cdevs m)\<rparr>))) = Inr m1"
    using inv by (auto simp: m1_def module_inv_def trim_devices_spec split: option.split)
  define m2 where "m2 = scull_p_cleanup (unregister_chrdev_region
      (le_mkdev env (sm_major m) (sm_minor m)) (int (sm_nr_devs m)) m1)"
  have f2: "sm_access m2 = sm_access m" "sm_params m2 = sm_params m" "sm_a_firstdev m2 = sm_a_firstdev m"
    by (simp_all add: m2_def p_cleanup_spec unregister_chrdev_region_def m1_def)
  obtain a where a: "scull_access_cleanup (sm_params m) (sm_access m) (sm_kmem m2)
      = Inr (a, (sm_kmem m2)\<lparr>km_live := km_live (sm_kmem m2) - int (access_blocks (sm_access m))\<rparr>)"
    using access_cleanup_spec [of "sm_access m"] inv by (fastforce simp: module_inv_def)
  have nr: "sm_nr_devs m1 = sm_nr_devs m" by (simp add: m1_def)
  have "scull_cleanup_module env m = Inr (unregister_chrdev_region (sm_a_firstdev m) SCULL_N_ADEVS
      (m2\<lparr>sm_access := a, sm_kmem := (sm_kmem m2)\<lparr>km_live := km_live (sm_kmem m2)
         - int (access_blocks (sm_access m))\<rparr>,
         sm_cdevs := fold (\<lambda>i. cdev_del (AccessDev i)) [0..<nat SCULL_N_ADEVS] (sm_cdevs m2)\<rparr>))"
    unfolding scull_cleanup_module_def Let_def freed sum.case nr m2_def [symmetric] f2 a prod.case ..
  moreover have "set (sm_regions m2) \<subseteq> {(sm_a_firstdev m, SCULL_N_ADEVS)}"
    using inv by (auto simp: m2_def p_cleanup_spec unregister_chrdev_region_def m1_def module_inv_def
        split: option.splits)
  then have "removeAll (sm_a_firstdev m, SCULL_N_ADEVS) (sm_regions m2) = []"
    by (metis Diff_eq_empty_iff empty_set set_removeAll set_empty)
  moreover have "km_live (sm_kmem m2) = km_live (sm_kmem m) - int (module_blocks m) + int (access_blocks (sm_access m))"
    by (simp add: m2_def p_cleanup_spec unregister_chrdev_region_def m1_def module_blocks_def)
  ultimately show ?thesis by (simp add: unregister_chrdev_region_def)
qed

lemma zero_dev_simps [simp]: "sd_data zero_dev = []" "dev_blocks zero_dev = 0"
  by (simp_all add: zero_dev_def)

lemma access_init_spec:
  assumes "unloaded m" "scull_access_init p reg (sm_access m) = (n, a)"
  shows "access_ok_inv a \<and> access_blocks a = 0"
  using assms by (auto simp: scull_access_init_def unloaded_def access_ok_inv_def access_blocks_def
      scull_access_setup_def c_inv_def cloned_blocks_def split: if_splits)

lemma p_init_spec:
  assumes "scull_p_init env first m = (n, m')" "sm_p_devices m = None"
    "(first, int (sm_p_nr_devs m)) \<notin> set (sm_regions m)"
  shows "km_live (sm_kmem m') = km_live (sm_kmem m)
       + int (case sm_p_devices m' of None \<Rightarrow> 0 | Some ds \<Rightarrow> 1 + length (filter (\<lambda>d. sp_buffer d \<noteq> None) ds))
     \<and> sm_regions m' = (if sm_p_devices m' = None then sm_regions m
                         else (first, int (sm_p_nr_devs m)) # sm_regions m)
     \<and> (sm_p_devices m' \<noteq> None \<longrightarrow> sm_p_devno m' = first)
     \<and> sm_devices m' = sm_devices m \<and> sm_access m' = sm_access m \<and> sm_major m' = sm_major m
     \<and> sm_minor m' = sm_minor m \<and> sm_nr_devs m' = sm_nr_devs m \<and> sm_p_nr_devs m' = sm_p_nr_devs m"
  using assms
  by (auto simp: scull_p_init_def Let_def register_chrdev_region_def unregister_chrdev_region_def
      kmalloc_def zero_pipe_def split: if_splits)

lemma unloaded_access:
  "unloaded m \<Longrightarrow> access_ok_inv (sm_access m) \<and> access_blocks (sm_access m) = 0"
  by (simp add: unloaded_def access_ok_inv_def access_blocks_def c_inv_def cloned_blocks_def)

text \<open>The rest of a successful load.\<close>

lemma init_devices_spec:
  assumes un: "unloaded (m\<lparr>sm_regions := []\<rparr>)"
    and reg: "sm_regions m = [(le_mkdev env (sm_major m) (sm_minor m), int (sm_nr_devs m))]"
    and inj: "\<forall>a b c. le_mkdev env a b = le_mkdev env a c \<longrightarrow> b = c" and pos: "0 < sm_nr_devs m"
    and dev: "dev = le_mkdev env (sm_major m) (sm_minor m + int (sm_nr_devs m))"
    and p: "scull_p_init env dev (m\<lparr>sm_devices := Some (replicate (sm_nr_devs m) d), sm_cdevs := t, sm_kmem := km\<rparr>) = (np, m1)"
    and a: "scull_access_init (sm_params m) (\<not> le_register_access env < 0) (sm_access m1) = (na, a)"
    and d: "sd_data d = []"
    and m3: "m3 = (let m2 = (register_chrdev_region (le_register_access env) (dev + np) SCULL_N_ADEVS m1)\<lparr>sm_access := a\<rparr>
                   in if le_register_access env < 0 then m2 else m2\<lparr>sm_a_firstdev := dev + np, sm_cdevs := t'\<rparr>)"
  shows "module_inv env m3 \<and> int (module_blocks m3) = km_live (sm_kmem m3) - km_live km + 1
    \<and> sm_devices m3 = Some (replicate (sm_nr_devs m) d)"
proof -
  have "le_mkdev env (sm_major m) (sm_minor m) \<noteq> dev"
    using inj pos unfolding dev by (metis add_cancel_right_right of_nat_0_eq_iff less_not_refl)
  then have ps: "km_live (sm_kmem m1) = km_live km
       + int (case sm_p_devices m1 of None \<Rightarrow> 0 | Some ds \<Rightarrow> 1 + length (filter (\<lambda>d. sp_buffer d \<noteq> None) ds))"
    "sm_regions m1 = (if sm_p_devices m1 = None then sm_regions m else (dev, int (sm_p_nr_devs m)) # sm_regions m)"
    "sm_p_devices m1 \<noteq> None \<longrightarrow> sm_p_devno m1 = dev" "sm_devices m1 = Some (replicate (sm_nr_devs m) d)"
    "sm_access m1 = sm_access m" "sm_major m1 = sm_major m" "sm_minor m1 = sm_minor m"
    "sm_nr_devs m1 = sm_nr_devs m" "sm_p_nr_devs m1 = sm_p_nr_devs m"
    using p_init_spec [OF p] un reg by (auto simp: unloaded_def)
  have acc: "access_ok_inv a \<and> access_blocks a = 0"
    using access_init_spec [of "m\<lparr>sm_regions := []\<rparr>"] un a ps(5) by simp
  have blocks: "sum_list (map dev_blocks (replicate (sm_nr_devs m) d)) = 0"
    using d by (simp add: sum_list_replicate_nat)
  have "module_inv env m3"
    using acc ps reg d unfolding m3 module_inv_def register_chrdev_region_def Let_def by auto
  moreover have "int (module_blocks m3) = km_live (sm_kmem m3) - km_live km + 1"
    using acc ps blocks unfolding m3 module_blocks_def register_chrdev_region_def Let_def by simp
  moreover have "sm_devices m3 = Some (replicate (sm_nr_devs m) d)"
    using ps unfolding m3 register_chrdev_region_def Let_def by simp
  ultimately show ?thesis by simp
qed

definition load_ok :: "load_env \<Rightarrow> kmem \<Rightarrow> scull_module \<Rightarrow> int \<times> scull_module \<Rightarrow> bool" where
  "load_ok env km m res \<longleftrightarrow> (case res of (r, m') \<Rightarrow>
     (r < 0 \<longrightarrow> km_live (sm_kmem m') = km_live km \<and> sm_regions m' = []) \<and> r \<le> 0
     \<and> (r = 0 \<longrightarrow> (\<exists>ds m''. sm_devices m' = Some ds \<and> length ds = sm_nr_devs m
          \<and> (params_ok (scull_quantum (sm_params m)) (scull_qset (sm_params m)) \<longrightarrow>
               (\<forall>d \<in> set ds. dev_inv d \<and> sd_size d = 0))
          \<and> scull_cleanup_module env m' = Inr m''
          \<and> km_live (sm_kmem m'') = km_live km \<and> sm_regions m'' = [])))"

lemma init_registered_ok:
  assumes un: "unloaded (m\<lparr>sm_regions := []\<rparr>)" and pos: "0 < sm_nr_devs m"
    and inj: "\<forall>a b c. le_mkdev env a b = le_mkdev env a c \<longrightarrow> b = c"
    and reg: "sm_regions m = [(le_mkdev env (sm_major m) (sm_minor m), int (sm_nr_devs m))]"
  shows "\<exists>res. init_registered env m = Inr res \<and> load_ok env (sm_kmem m) m res"
proof -
  obtain b km where k: "kmalloc (le_ok env) (int (sm_nr_devs m) * le_sizeof_dev env) (sm_kmem m) = (b, km)"
    by force
  show ?thesis
  proof (cases b)
    case False
    define m1 where "m1 = m\<lparr>sm_devices := None, sm_kmem := km\<rparr>"
    have "module_inv env m1"
      using un reg unloaded_access [OF un] by (auto simp: module_inv_def m1_def unloaded_def)
    then obtain m' where c: "scull_cleanup_module env m1 = Inr m'" "sm_regions m' = []"
        "km_live (sm_kmem m') = km_live (sm_kmem m1) - int (module_blocks m1)"
      using cleanup_spec by blast
    have "module_blocks m1 = 0"
      using un unloaded_access [OF un] by (simp add: module_blocks_def m1_def unloaded_def)
    then have "load_ok env (sm_kmem m) m (- ENOMEM, m')"
      using c kmalloc_False [of "le_ok env" _ _ km] k False by (simp add: load_ok_def m1_def)
    moreover have "init_registered env m = Inr (- ENOMEM, m')"
      using k False c(1) by (simp add: init_registered_def Let_def m1_def)
    ultimately show ?thesis by blast
  next
    case True
    define p d where "p = sm_params m" and "d = zero_dev\<lparr>sd_quantum := scull_quantum p, sd_qset := scull_qset p\<rparr>"
    define dev where "dev = le_mkdev env (sm_major m) (sm_minor m + int (sm_nr_devs m))"
    define t where "t = fold (scull_setup_cdev env (sm_major m) (sm_minor m)) [0..<sm_nr_devs m] (sm_cdevs m)"
    obtain np m1 where pi: "scull_p_init env dev
        (m\<lparr>sm_devices := Some (replicate (sm_nr_devs m) d), sm_cdevs := t, sm_kmem := km\<rparr>) = (np, m1)" by force
    obtain na a where ai: "scull_access_init (sm_params m) (\<not> le_register_access env < 0) (sm_access m1) = (na, a)"
      by force
    define t' where "t' = fold (access_setup_cdev env (dev + np)) [0..<nat SCULL_N_ADEVS] (sm_cdevs m1)"
    define m3 where "m3 = (let m2 = (register_chrdev_region (le_register_access env) (dev + np) SCULL_N_ADEVS m1)
        \<lparr>sm_access := a\<rparr> in if le_register_access env < 0 then m2 else m2\<lparr>sm_a_firstdev := dev + np, sm_cdevs := t'\<rparr>)"
    have d0: "sd_data d = []" by (simp add: d_def)
    note sp = init_devices_spec [OF un reg inj pos dev_def pi ai d0 m3_def]
    then obtain m'' where c: "scull_cleanup_module env m3 = Inr m''" "sm_regions m'' = []"
        "km_live (sm_kmem m'') = km_live (sm_kmem m3) - int (module_blocks m3)"
      using cleanup_spec by blast
    have "dev_inv d" if "params_ok (scull_quantum p) (scull_qset p)"
      using that by (simp add: dev_inv_def d_def zero_dev_def)
    then have "load_ok env (sm_kmem m) m (0, m3)"
      using sp c kmalloc_True [of "le_ok env" _ "sm_kmem m" km] k True
      by (simp add: load_ok_def p_def d_def zero_dev_def)
    moreover have "init_registered env m = Inr (0, m3)"
      using k True pi ai by (cases "le_register_access env < 0")
        (simp_all add: init_registered_def Let_def dev_def p_def d_def t_def t'_def m3_def register_chrdev_region_def)
    ultimately show ?thesis by blast
  qed
qed

lemma scull_load_ok:
  assumes un: "unloaded m" and pos: "0 < sm_nr_devs m"
    and inj: "\<forall>a b c. le_mkdev env a b = le_mkdev env a c \<longrightarrow> b = c"
  shows "\<exists>res. scull_init_module env m = Inr res \<and> load_ok env (sm_kmem m) m res"
proof (cases "le_register_main env < 0")
  case True
  then show ?thesis using un
    by (auto simp: scull_init_module_def Let_def register_chrdev_region_def unloaded_def load_ok_def)
next
  case False
  define m1 where "m1 = (if sm_major m \<noteq> 0 then m else m\<lparr>sm_major := le_dynamic_major env\<rparr>)"
  define m0 where "m0 = m1\<lparr>sm_regions := [(le_mkdev env (sm_major m1) (sm_minor m1), int (sm_nr_devs m1))]\<rparr>"
  have "scull_init_module env m = init_registered env m0"
    using False un unfolding scull_init_module_def Let_def m1_def [symmetric]
    by (simp add: m0_def register_chrdev_region_def m1_def unloaded_def)
  moreover have "\<exists>res. init_registered env m0 = Inr res \<and> load_ok env (sm_kmem m0) m0 res"
    using un pos inj by (intro init_registered_ok) (auto simp: m0_def m1_def unloaded_def)
  moreover have "sm_kmem m0 = sm_kmem m" "sm_nr_devs m0 = sm_nr_devs m" "sm_params m0 = sm_params m"
    by (simp_all add: m0_def m1_def)
  ultimately show ?thesis by (auto simp: load_ok_def)
qed

text \<open>
  Loading the module ends in one of two ways. It succeeds with \<open>scull_nr_devs\<close> empty devices,
  well formed when the parameters are, whatever the pipe and access-controlled devices met, and
  unloading it then gives back every block and every range of device numbers; or it fails
  with a negative result and nothing is left allocated or registered.
\<close>

theorem scull_load_unload:
  assumes un: "unloaded m" and pos: "0 < sm_nr_devs m"
    and inj: "\<forall>a b c. le_mkdev env a b = le_mkdev env a c \<longrightarrow> b = c"
  shows "\<exists>r m'. scull_init_module env m = Inr (r, m')
     \<and> (r < 0 \<longrightarrow> km_live (sm_kmem m') = km_live (sm_kmem m) \<and> sm_regions m' = []) \<and> r \<le> 0
     \<and> (r = 0 \<longrightarrow> (\<exists>ds m''. sm_devices m' = Some ds \<and> length ds = sm_nr_devs m
          \<and> (params_ok (scull_quantum (sm_params m)) (scull_qset (sm_params m)) \<longrightarrow>
               (\<forall>d \<in> set ds. dev_inv d \<and> sd_size d = 0))
          \<and> scull_cleanup_module env m' = Inr m''
          \<and> km_live (sm_kmem m'') = km_live (sm_kmem m) \<and> sm_regions m'' = []))"
  using scull_load_ok [OF assms] by (auto simp: load_ok_def)

definition sample_module :: scull_module where
  "sample_module = \<lparr>sm_params = \<lparr>scull_quantum = 4000, scull_qset = 1000, scull_p_buffer = 4000\<rparr>,
     sm_major = 0, sm_minor = 0, sm_nr_devs = 4, sm_devices = None, sm_p_nr_devs = 4, sm_p_devno = 0,
     sm_p_devices = None, sm_a_firstdev = 0,
     sm_access = \<lparr>acc_s = \<lparr>s_available = 1, s_device = zero_dev\<rparr>,
                  acc_u = \<lparr>u_count = 0, u_owner = 0, u_device = zero_dev\<rparr>,
                  acc_w = \<lparr>w_count = 0, w_owner = 0, w_device = zero_dev\<rparr>,
                  acc_c_device = zero_dev, acc_c_list = []\<rparr>,
     sm_regions = [], sm_cdevs = no_cdevs, sm_kmem = fresh_kmem\<rparr>"

definition sample_env :: load_env where
  "sample_env = \<lparr>le_ok = \<lambda>n sz. n < 1, le_mkdev = \<lambda>a b. a * 1048576 + b, le_register_main = 0,
     le_dynamic_major = 240, le_register_pipe = 0, le_register_access = 0, le_cdev_err = \<lambda>_. False,
     le_sizeof_dev = 200, le_sizeof_pipe = 300\<rparr>"

theorem scull_load_unload_witness:
  "\<exists>r m'. scull_init_module sample_env sample_module = Inr (r, m')
     \<and> (r < 0 \<longrightarrow> km_live (sm_kmem m') = km_live (sm_kmem sample_module) \<and> sm_regions m' = []) \<and> r \<le> 0
     \<and> (r = 0 \<longrightarrow> (\<exists>ds m''. sm_devices m' = Some ds \<and> length ds = sm_nr_devs sample_module
          \<and> (params_ok (scull_quantum (sm_params sample_module)) (scull_qset (sm_params sample_module)) \<longrightarrow>
               (\<forall>d \<in> set ds. dev_inv d \<and> sd_size d = 0))
          \<and> scull_cleanup_module sample_env m' = Inr m''
          \<and> km_live (sm_kmem m'') = km_live (sm_kmem sample_module) \<and> sm_regions m'' = []))"
  by (rule scull_load_unload) (simp_all add: sample_module_def sample_env_def unloaded_def)

section \<open>Which device answers a number\<close>

text \<open>The devices \<open>C 0\<close>, ..., \<open>C (n - 1)\<close> have the numbers from \<open>base\<close> on, each with its operations.\<close>

definition answers :: "(nat \<Rightarrow> cdev) \<Rightarrow> (nat \<Rightarrow> fops) \<Rightarrow> int \<Rightarrow> nat \<Rightarrow> cdev_table \<Rightarrow> bool" where
  "answers C f base n t \<longleftrightarrow> (\<forall>i < n. ct_map t (base + int i) = Some (C i) \<and> ct_ops t (C i) = Some (f i))"

definition setup_all :: "(nat \<Rightarrow> cdev) \<Rightarrow> (nat \<Rightarrow> fops) \<Rightarrow> int \<Rightarrow> nat \<Rightarrow> cdev_table \<Rightarrow> cdev_table" where
  "setup_all C f base n t =
     fold (\<lambda>i t. cdev_add False (base + int i) (C i) (cdev_init (C i) (f i) t)) [0..<n] t"

lemma setup_all_spec:
  assumes "inj C"
  shows "ct_map (setup_all C f base n t) x =
           (if base \<le> x \<and> x < base + int n then Some (C (nat (x - base))) else ct_map t x)"
    and "ct_ops (setup_all C f base n t) c = (if c \<in> C ` {..<n} then Some (f (inv C c)) else ct_ops t c)"
    and "ct_bad (setup_all C f base n t) = ct_bad t"
proof (induction n)
  case 0
  case 1 show ?case by (auto simp: setup_all_def)
  case 2 show ?case by (simp add: setup_all_def)
  case 3 show ?case by (simp add: setup_all_def)
next
  case (Suc n)
  have step: "setup_all C f base (Suc n) t =
      cdev_add False (base + int n) (C n) (cdev_init (C n) (f n) (setup_all C f base n t))"
    by (simp add: setup_all_def)
  case 1 show ?case using Suc by (auto simp: step cdev_add_def cdev_init_def)
  case 2 show ?case using Suc assms by (auto simp: step cdev_add_def cdev_init_def lessThan_Suc)
  case 3 show ?case using Suc by (simp add: step cdev_add_def cdev_init_def)
qed

lemma setup_all_answers: "inj C \<Longrightarrow> answers C f base n (setup_all C f base n t)"
  by (auto simp: answers_def setup_all_spec)

lemma setup_all_keeps:
  assumes "answers C f base n t" and "inj D" and "\<And>i j. C i \<noteq> D j" and "base + int n \<le> base'"
  shows "answers C f base n (setup_all D g base' k t)"
  using assms by (auto simp: answers_def setup_all_spec)

definition del_all :: "(nat \<Rightarrow> cdev) \<Rightarrow> nat \<Rightarrow> cdev_table \<Rightarrow> cdev_table" where
  "del_all C n t = fold (\<lambda>i. cdev_del (C i)) [0..<n] t"

lemma cdev_del_simps:
  "ct_map (cdev_del c t) x = (if ct_map t x = Some c then None else ct_map t x)"
  "ct_ops (cdev_del c t) c' = (if c' = c then None else ct_ops t c')"
  "ct_bad (cdev_del c t) = (if ct_ops t c = None then c # ct_bad t else ct_bad t)"
  by (auto simp: cdev_del_def kobject_put_def)

lemma del_all_Suc: "del_all C (Suc n) t = cdev_del (C n) (del_all C n t)"
  by (simp add: del_all_def)

lemma del_all_ops: "ct_ops (del_all C n t) c = (if c \<in> C ` {..<n} then None else ct_ops t c)"
  by (induction n) (auto simp: del_all_Suc cdev_del_simps lessThan_Suc, simp_all add: del_all_def)

lemma del_all_map:
  "ct_map (del_all C n t) x = (case ct_map t x of None \<Rightarrow> None | Some c \<Rightarrow> if c \<in> C ` {..<n} then None else Some c)"
  by (induction n) (auto simp: del_all_Suc cdev_del_simps lessThan_Suc split: option.splits, simp_all add: del_all_def)

lemma del_all_bad:
  assumes "inj C"
  shows "ct_bad (del_all C n t) = rev (map C (filter (\<lambda>i. ct_ops t (C i) = None) [0..<n])) @ ct_bad t"
proof (induction n)
  case (Suc n)
  have "C n \<notin> C ` {..<n}" using assms by (auto dest: injD)
  then show ?case using Suc by (simp add: del_all_Suc cdev_del_simps del_all_ops)
qed (simp add: del_all_def)

text \<open>The loops of the module in these terms, when \<open>cdev_add\<close> succeeds.\<close>

lemma setup_loops:
  assumes "\<And>n. \<not> le_cdev_err env n"
  shows "fold (scull_p_setup_cdev env first) [0..<n] t = setup_all PipeDev (\<lambda>_. scull_pipe_fops) first n t"
    and "(\<And>b. le_mkdev env a b = le_mkdev env a 0 + b) \<Longrightarrow>
      fold (scull_setup_cdev env a b) [0..<n] t = setup_all BareDev (\<lambda>_. scull_fops) (le_mkdev env a b) n t"
    and "fold (access_setup_cdev env first) [0..<n] t = setup_all AccessDev ((!) access_fops) first n t"
proof -
  show "fold (scull_p_setup_cdev env first) [0..<n] t = setup_all PipeDev (\<lambda>_. scull_pipe_fops) first n t"
    unfolding setup_all_def by (rule fold_cong) (simp_all add: fun_eq_iff scull_p_setup_cdev_def assms)
  show "fold (access_setup_cdev env first) [0..<n] t = setup_all AccessDev ((!) access_fops) first n t"
    unfolding setup_all_def by (rule fold_cong) (simp_all add: fun_eq_iff access_setup_cdev_def assms)
  assume mk: "\<And>b. le_mkdev env a b = le_mkdev env a 0 + b"
  have "le_mkdev env a (b + int i) = le_mkdev env a b + int i" for i
    using mk [of "b + int i"] mk [of b] by simp
  then show "fold (scull_setup_cdev env a b) [0..<n] t = setup_all BareDev (\<lambda>_. scull_fops) (le_mkdev env a b) n t"
    unfolding setup_all_def by (intro fold_cong) (simp_all add: fun_eq_iff scull_setup_cdev_def assms)
qed

text \<open>What loading makes of the table of character devices.\<close>

definition loaded_cdevs :: "int \<Rightarrow> nat \<Rightarrow> nat \<Rightarrow> bool \<Rightarrow> cdev_table" where
  "loaded_cdevs base n np acc =
     (let t = setup_all PipeDev (\<lambda>_. scull_pipe_fops) (base + int n) np (setup_all BareDev (\<lambda>_. scull_fops) base n no_cdevs)
      in if acc then setup_all AccessDev ((!) access_fops) (base + int n + int np) 4 t else t)"

lemma p_init_cdevs:
  assumes "\<And>n. \<not> le_cdev_err env n" and "scull_p_init env first m = (r, m')" and "sm_p_devices m = None"
  obtains np where "np = (if sm_p_devices m' = None then 0 else sm_p_nr_devs m)" and "r = int np"
    and "sm_cdevs m' = setup_all PipeDev (\<lambda>_. scull_pipe_fops) first np (sm_cdevs m)"
    and "sm_p_nr_devs m' = sm_p_nr_devs m" "sm_nr_devs m' = sm_nr_devs m" "sm_devices m' = sm_devices m"
    "sm_major m' = sm_major m" "sm_minor m' = sm_minor m"
  using assms(2,3) by (auto simp: scull_p_init_def Let_def register_chrdev_region_def unregister_chrdev_region_def
      setup_loops(1) [OF assms(1)] kmalloc_def setup_all_def split: if_splits)

lemma init_registered_cdevs:
  assumes un: "sm_p_devices m = None" "sm_cdevs m = no_cdevs" and err: "\<And>n. \<not> le_cdev_err env n"
    and mk: "\<And>a b. le_mkdev env a b = le_mkdev env a 0 + b"
    and load: "init_registered env m = Inr (0, m')"
  shows "sm_cdevs m' = loaded_cdevs (le_mkdev env (sm_major m') (sm_minor m')) (sm_nr_devs m')
       (if sm_p_devices m' = None then 0 else sm_p_nr_devs m') (0 \<le> le_register_access env)
    \<and> sm_devices m' \<noteq> None"
proof -
  obtain b km where k: "kmalloc (le_ok env) (int (sm_nr_devs m) * le_sizeof_dev env) (sm_kmem m) = (b, km)"
    by force
  have b: "b" using load k by (cases b) (auto simp: init_registered_def Let_def split: sum.splits)
  define base where "base = le_mkdev env (sm_major m) (sm_minor m)"
  have dev: "le_mkdev env (sm_major m) (sm_minor m + int (sm_nr_devs m)) = base + int (sm_nr_devs m)"
    using mk [of "sm_major m" "sm_minor m"] mk [of "sm_major m" "sm_minor m + int (sm_nr_devs m)"] by (simp add: base_def)
  define t where "t = setup_all BareDev (\<lambda>_. scull_fops) base (sm_nr_devs m) no_cdevs"
  define d where "d = zero_dev\<lparr>sd_quantum := scull_quantum (sm_params m), sd_qset := scull_qset (sm_params m)\<rparr>"
  define m0 where "m0 = m\<lparr>sm_devices := Some (replicate (sm_nr_devs m) d), sm_cdevs := t, sm_kmem := km\<rparr>"
  obtain r m1 where pi: "scull_p_init env (base + int (sm_nr_devs m)) m0 = (r, m1)" by force
  have "sm_p_devices m0 = None" using un by (simp add: m0_def)
  from p_init_cdevs [OF err pi this] obtain np where np: "np = (if sm_p_devices m1 = None then 0 else sm_p_nr_devs m0)"
    "r = int np" "sm_cdevs m1 = setup_all PipeDev (\<lambda>_. scull_pipe_fops) (base + int (sm_nr_devs m)) np (sm_cdevs m0)"
    "sm_p_nr_devs m1 = sm_p_nr_devs m0" "sm_nr_devs m1 = sm_nr_devs m0" "sm_devices m1 = sm_devices m0"
    "sm_major m1 = sm_major m0" "sm_minor m1 = sm_minor m0" .
  show ?thesis
    using load k b pi np un(2)
    by (cases "le_register_access env < 0")
       (auto simp: init_registered_def Let_def dev setup_loops(2) [OF err mk] setup_loops(3) [OF err] t_def [symmetric]
         base_def [symmetric] d_def [symmetric] m0_def register_chrdev_region_def loaded_cdevs_def SCULL_N_ADEVS_def
         split: prod.splits)
qed

lemma load_cdevs:
  assumes "unloaded m" and err: "\<And>n. \<not> le_cdev_err env n"
    and mk: "\<And>a b. le_mkdev env a b = le_mkdev env a 0 + b"
    and load: "scull_init_module env m = Inr (0, m')"
  shows "sm_cdevs m' = loaded_cdevs (le_mkdev env (sm_major m') (sm_minor m')) (sm_nr_devs m')
       (if sm_p_devices m' = None then 0 else sm_p_nr_devs m') (0 \<le> le_register_access env)
    \<and> sm_devices m' \<noteq> None"
proof -
  define m1 where "m1 = (if sm_major m \<noteq> 0 then m else m\<lparr>sm_major := le_dynamic_major env\<rparr>)"
  define m0 where "m0 = register_chrdev_region (le_register_main env) (le_mkdev env (sm_major m1) (sm_minor m1))
      (int (sm_nr_devs m1)) m1"
  have "init_registered env m0 = Inr (0, m')"
    using load unfolding scull_init_module_def Let_def m1_def [symmetric] m0_def by (auto split: if_splits)
  moreover have "sm_p_devices m0 = None" "sm_cdevs m0 = no_cdevs"
    using assms(1) by (simp_all add: m0_def m1_def register_chrdev_region_def unloaded_def)
  ultimately show ?thesis using init_registered_cdevs err mk by blast
qed

text \<open>Unloading in these terms.\<close>

lemma cleanup_cdevs:
  assumes "scull_cleanup_module env m = Inr m'" and "sm_devices m \<noteq> None"
  shows "sm_cdevs m' = del_all AccessDev 4 (del_all PipeDev (if sm_p_devices m = None then 0 else sm_p_nr_devs m)
      (del_all BareDev (sm_nr_devs m) (sm_cdevs m)))"
  using assms by (auto simp: scull_cleanup_module_def Let_def scull_p_cleanup_def unregister_chrdev_region_def
      del_all_def SCULL_N_ADEVS_def split: option.splits sum.splits prod.splits)

text \<open>
  When the module is loaded, every number it registered is answered by its device with the
  operations meant for it: first the bare devices, then the pipes, then the four access-controlled
  ones, and no other number is. Unloading takes every number away again. It drops each reference
  once, except that it drops those of the access-controlled devices even when they were never set
  up because their numbers could not be registered.
\<close>

theorem scull_numbers:
  assumes "unloaded m" and "0 < sm_nr_devs m" and "\<forall>n. \<not> le_cdev_err env n"
    and "\<forall>a b. le_mkdev env a b = le_mkdev env a 0 + b" and "scull_init_module env m = Inr (0, m')"
  defines "base \<equiv> le_mkdev env (sm_major m') (sm_minor m')" and "n \<equiv> sm_nr_devs m'"
    and "np \<equiv> (if sm_p_devices m' = None then 0 else sm_p_nr_devs m')"
  shows "answers BareDev (\<lambda>_. scull_fops) base n (sm_cdevs m')
    \<and> answers PipeDev (\<lambda>_. scull_pipe_fops) (base + int n) np (sm_cdevs m')
    \<and> (0 \<le> le_register_access env \<longrightarrow> answers AccessDev ((!) access_fops) (base + int n + int np) 4 (sm_cdevs m'))
    \<and> (\<forall>x. x < base \<or> base + int n + int np + 4 \<le> x \<longrightarrow> ct_map (sm_cdevs m') x = None)
    \<and> (\<exists>m''. scull_cleanup_module env m' = Inr m'' \<and> (\<forall>x. ct_map (sm_cdevs m'') x = None)
         \<and> ct_bad (sm_cdevs m'') = (if 0 \<le> le_register_access env then [] else rev (map AccessDev [0..<4])))"
proof -
  have inj: "inj BareDev" "inj PipeDev" "inj AccessDev" by (simp_all add: inj_def)
  have t: "sm_cdevs m' = loaded_cdevs base n np (0 \<le> le_register_access env)" "sm_devices m' \<noteq> None"
    using load_cdevs [OF assms(1) assms(3,4) [rule_format] assms(5)] by (simp_all add: base_def n_def np_def)
  have mk: "\<forall>a b c. le_mkdev env a b = le_mkdev env a c \<longrightarrow> b = c" using assms(4) by (metis add_left_cancel)
  have "load_ok env (sm_kmem m) m (0, m')"
    using scull_load_ok [OF assms(1,2) mk] unfolding assms(5) by simp
  then obtain m'' where m'': "scull_cleanup_module env m' = Inr m''" by (auto simp: load_ok_def)
  note c = cleanup_cdevs [OF this t(2), folded np_def n_def]
  have cdev_of: "ct_map (sm_cdevs m') x = Some d \<Longrightarrow> d \<in> BareDev ` {..<n} \<union> PipeDev ` {..<np} \<union> AccessDev ` {..<4}" for x d
    by (simp add: t loaded_cdevs_def Let_def setup_all_spec inj no_cdevs_def split: if_splits) force+
  have "answers BareDev (\<lambda>_. scull_fops) base n (sm_cdevs m')"
    by (auto simp: t loaded_cdevs_def Let_def intro!: setup_all_keeps setup_all_answers inj)
  moreover have "answers PipeDev (\<lambda>_. scull_pipe_fops) (base + int n) np (sm_cdevs m')"
    by (auto simp: t loaded_cdevs_def Let_def intro!: setup_all_keeps setup_all_answers inj)
  moreover have "answers AccessDev ((!) access_fops) (base + int n + int np) 4 (sm_cdevs m')" if "0 \<le> le_register_access env"
    using that by (auto simp: t loaded_cdevs_def Let_def intro!: setup_all_answers inj)
  moreover have "ct_map (sm_cdevs m') x = None" if "x < base \<or> base + int n + int np + 4 \<le> x" for x
    using that by (auto simp: t loaded_cdevs_def Let_def setup_all_spec inj no_cdevs_def)
  moreover have "ct_map (sm_cdevs m'') x = None" for x
    by (cases "ct_map (sm_cdevs m') x")
      (use cdev_of [of x] in \<open>auto simp: c del_all_map split: option.splits\<close>)
  moreover have "ct_bad (sm_cdevs m'') = (if 0 \<le> le_register_access env then [] else rev (map AccessDev [0..<4]))"
  proof -
    have ops: "ct_ops (sm_cdevs m') (BareDev i) = None \<longleftrightarrow> \<not> i < n" "ct_ops (sm_cdevs m') (PipeDev i) = None \<longleftrightarrow> \<not> i < np"
      "ct_ops (sm_cdevs m') (AccessDev i) = None \<longleftrightarrow> \<not> (0 \<le> le_register_access env \<and> i < 4)" for i
      by (simp_all add: t loaded_cdevs_def Let_def setup_all_spec inj no_cdevs_def image_iff)
    have bad: "ct_bad (sm_cdevs m') = []" by (simp add: t loaded_cdevs_def Let_def setup_all_spec inj no_cdevs_def)
    show ?thesis by (simp add: c del_all_bad del_all_ops inj ops bad image_iff)
  qed
  ultimately show ?thesis using m'' by blast
qed

lemma sample_load:
  "\<exists>m'. scull_init_module sample_env sample_module = Inr (0, m') \<and> sm_major m' = 240 \<and> sm_minor m' = 0
     \<and> sm_nr_devs m' = 4 \<and> sm_p_devices m' = None"
  by (simp add: scull_init_module_def init_registered_def scull_p_init_def register_chrdev_region_def
      unregister_chrdev_region_def scull_access_init_def sample_env_def sample_module_def kmalloc_def fresh_kmem_def Let_def)

theorem scull_numbers_witness:
  "\<exists>m' m''. scull_init_module sample_env sample_module = Inr (0, m')
     \<and> ct_map (sm_cdevs m') (240 * 1048576 + 3) = Some (BareDev 3)
     \<and> ct_ops (sm_cdevs m') (AccessDev 2) = Some scull_wusr_fops
     \<and> scull_cleanup_module sample_env m' = Inr m'' \<and> ct_map (sm_cdevs m'') (240 * 1048576 + 3) = None"
proof -
  obtain m' where m': "scull_init_module sample_env sample_module = Inr (0, m')" "sm_major m' = 240" "sm_minor m' = 0"
    "sm_nr_devs m' = 4" "sm_p_devices m' = None"
    using sample_load by blast
  have "unloaded sample_module" "0 < sm_nr_devs sample_module" "\<forall>n. \<not> le_cdev_err sample_env n"
    "\<forall>a b. le_mkdev sample_env a b = le_mkdev sample_env a 0 + b" "0 \<le> le_register_access sample_env"
    "le_mkdev sample_env 240 0 = 251658240"
    by (simp_all add: sample_module_def sample_env_def unloaded_def)
  note w = scull_numbers [OF this(1-4) m'(1), unfolded m'(2-5) this(6)]
  have "ct_map (sm_cdevs m') (251658240 + int 3) = Some (BareDev 3)"
    using conjunct1 [OF w] unfolding answers_def by (meson numeral_less_iff semiring_norm(78) semiring_norm(81) semiring_norm(76))
  moreover have "ct_ops (sm_cdevs m') (AccessDev 2) = Some (access_fops ! 2)"
    using w \<open>0 \<le> le_register_access sample_env\<close> by (simp add: answers_def)
  ultimately show ?thesis using w m'(1) by (auto simp: access_fops_def)
qed

end
