(* ===== verification/Scull_Proc.thy ===== *)
theory Scull_Proc
  imports Scull_Theorems Scull_Pipe
begin

text \<open>
  The files under \<open>/proc\<close> of a debugging build: \<open>scull_read_procmem\<close> and the sequence operations
  of \<open>main.c\<close>, \<open>scull_read_p_mem\<close> of \<open>pipe.c\<close>. The text a sequence file collects is the list of
  lines printed to it, each with the values of its conversions; a pointer that is printed stands
  for the object it points to. How many bytes the lines take, \<open>s->count\<close>, is a function \<open>count\<close> of
  the lines, an argument like the size of the buffer: it is the kernel's \<open>seq_printf\<close> that counts.
\<close>

datatype kptr = NULL | QsetAt nat nat | ArrayAt nat nat | QuantumAt nat nat nat | PipeAt nat | BufferAt nat int

datatype seq_line =
    DeviceLine int int int int
  | ItemLine kptr kptr
  | QuantumLine nat kptr
  | DefaultLine int
  | PipeLine nat kptr
  | BufferLine kptr kptr int
  | PointersLine kptr kptr
  | UsersLine int int

type_synonym seq_file = "seq_line list"

definition seq_printf :: "seq_line \<Rightarrow> seq_file \<Rightarrow> seq_file" where
  "seq_printf line s = s @ [line]"

section \<open>The bare devices\<close>

text \<open>The loop over the quanta of the last item; \<open>n\<close> iterations are left.\<close>

fun dump_quanta :: "nat \<Rightarrow> nat \<Rightarrow> cell list option list \<Rightarrow> nat \<Rightarrow> nat \<Rightarrow> seq_file \<Rightarrow> fault + seq_file" where
  "dump_quanta i k arr j 0 s = Inr s"
| "dump_quanta i k arr j (Suc n) s =
     (if length arr \<le> j then Inl OutOfBounds
      else dump_quanta i k arr (Suc j) n
             (if arr ! j = None then s else seq_printf (QuantumLine j (QuantumAt i k j)) s))"

definition show_item :: "nat \<Rightarrow> nat \<Rightarrow> int \<Rightarrow> scull_qset_item \<Rightarrow> bool \<Rightarrow> seq_file \<Rightarrow> fault + seq_file" where
  "show_item i k qset it final s =
     (case qs_data it of
        None \<Rightarrow> Inr (seq_printf (ItemLine (QsetAt i k) NULL) s)
      | Some arr \<Rightarrow>
          (let s = seq_printf (ItemLine (QsetAt i k) (ArrayAt i k)) s
           in if final then dump_quanta i k arr 0 (nat qset) s else Inr s))"

fun show_items :: "nat \<Rightarrow> nat \<Rightarrow> int \<Rightarrow> scull_qset_item list \<Rightarrow> seq_file \<Rightarrow> fault + seq_file" where
  "show_items i k qset [] s = Inr s"
| "show_items i k qset (d # next) s =
     bindE (show_item i k qset d (next = []) s) (show_items i (Suc k) qset next)"

text \<open>
  \<open>scull_seq_show\<close> is called with a pointer into \<open>scull_devices\<close>, here its index. The result is the
  return value and the file.
\<close>

definition scull_seq_show :: "bool \<Rightarrow> scull_dev list \<Rightarrow> nat \<Rightarrow> seq_file \<Rightarrow> fault + (int \<times> seq_file)" where
  "scull_seq_show interrupted devs v s =
     (if length devs \<le> v then Inl OutOfBounds
      else if interrupted then Inr (- ERESTARTSYS, s)
      else
        (let dev = devs ! v;
             s = seq_printf (DeviceLine (int v) (sd_qset dev) (sd_quantum dev) (sd_size dev)) s
         in bindE (show_items v 0 (sd_qset dev) (sd_data dev) s) (\<lambda>s. Inr (0, s))))"

definition scull_seq_start :: "nat \<Rightarrow> int \<Rightarrow> int option" where
  "scull_seq_start scull_nr_devs pos = (if int scull_nr_devs \<le> pos then None else Some pos)"

definition scull_seq_next :: "nat \<Rightarrow> int \<Rightarrow> int option \<times> int" where
  "scull_seq_next scull_nr_devs pos =
     (let pos = s64 (pos + 1) in (if int scull_nr_devs \<le> pos then None else Some pos, pos))"

text \<open>
  How the kernel uses the operations to read the whole file: start, show, next and show again
  until there is no next object or \<open>show\<close> fails. \<open>n\<close> bounds the number of objects visited.
\<close>

fun seq_walk :: "nat \<Rightarrow> (nat \<Rightarrow> bool) \<Rightarrow> scull_dev list \<Rightarrow> int option \<Rightarrow> int \<Rightarrow> seq_file \<Rightarrow> (fault + (int \<times> seq_file)) option" where
  "seq_walk n intr devs None pos s = Some (Inr (0, s))"
| "seq_walk 0 intr devs (Some v) pos s = None"
| "seq_walk (Suc n) intr devs (Some v) pos s =
     (case scull_seq_show (intr (nat v)) devs (nat v) s of
        Inl e \<Rightarrow> Some (Inl e)
      | Inr (r, s) \<Rightarrow>
          if r < 0 then Some (Inr (r, s))
          else (case scull_seq_next (length devs) pos of (p, pos) \<Rightarrow> seq_walk n intr devs p pos s))"

text \<open>
  \<open>scull_read_procmem\<close> reads the head of the list before it has the lock. What other processes do
  to the device until the lock is taken is an argument: nothing, calls that leave the items there
  are in place and may add more, or a call that empties the device. After the last one a head that
  was read before points to freed memory.
\<close>

datatype meanwhile = Nothing_done | Extended scull_dev | Trimmed scull_dev

fun device_now :: "meanwhile \<Rightarrow> scull_dev \<Rightarrow> scull_dev" where
  "device_now Nothing_done d = d"
| "device_now (Extended d') d = d'"
| "device_now (Trimmed d') d = d'"

definition items_from :: "meanwhile \<Rightarrow> scull_dev \<Rightarrow> fault + scull_qset_item list" where
  "items_from w d =
     (if sd_data d = [] then Inr []
      else case w of Nothing_done \<Rightarrow> Inr (sd_data d) | Extended d' \<Rightarrow> Inr (sd_data d') | Trimmed d' \<Rightarrow> Inl UseAfterFree)"

fun mem_items :: "(seq_file \<Rightarrow> int) \<Rightarrow> int \<Rightarrow> nat \<Rightarrow> nat \<Rightarrow> int \<Rightarrow> scull_qset_item list \<Rightarrow> seq_file \<Rightarrow> fault + seq_file" where
  "mem_items count limit i k qset [] s = Inr s"
| "mem_items count limit i k qset (qs # next) s =
     (if count s \<le> limit
      then bindE (show_item i k qset qs (next = []) s) (mem_items count limit i (Suc k) qset next)
      else Inr s)"

text \<open>Whether the loop over the items is entered at all, and so whether the stale head is used.\<close>

definition mem_device :: "(seq_file \<Rightarrow> int) \<Rightarrow> int \<Rightarrow> meanwhile \<Rightarrow> nat \<Rightarrow> scull_dev \<Rightarrow> seq_file \<Rightarrow> fault + seq_file" where
  "mem_device count limit w i d s =
     (let d' = device_now w d;
          s = seq_printf (DeviceLine (int i) (sd_qset d') (sd_quantum d') (sd_size d')) s
      in if limit < count s then Inr s
         else bindE (items_from w d) (\<lambda>qs. mem_items count limit i 0 (sd_qset d') qs s))"

fun procmem_loop ::
  "(seq_file \<Rightarrow> int) \<Rightarrow> int \<Rightarrow> (nat \<Rightarrow> bool) \<Rightarrow> (nat \<Rightarrow> meanwhile) \<Rightarrow> nat \<Rightarrow> scull_dev list \<Rightarrow> seq_file \<Rightarrow> fault + (int \<times> seq_file)" where
  "procmem_loop count limit intr w i [] s = Inr (0, s)"
| "procmem_loop count limit intr w i (d # ds) s =
     (if limit < count s then Inr (0, s)
      else if intr i then Inr (- ERESTARTSYS, s)
      else bindE (mem_device count limit (w i) i d s) (procmem_loop count limit intr w (Suc i) ds))"

definition scull_read_procmem ::
  "(seq_file \<Rightarrow> int) \<Rightarrow> int \<Rightarrow> (nat \<Rightarrow> bool) \<Rightarrow> (nat \<Rightarrow> meanwhile) \<Rightarrow> scull_dev list \<Rightarrow> seq_file \<Rightarrow> fault + (int \<times> seq_file)" where
  "scull_read_procmem count sz intr w devs s = procmem_loop count (u64 (s32 (sz - 80))) intr w 0 devs s"

section \<open>The pipes\<close>

text \<open>
  The pointers into a buffer are offsets from its start; those of a closed pipe are left over from
  the buffer it had last.
\<close>

definition PAGE_SIZE :: int where "PAGE_SIZE = 4096"

definition LIMIT :: int where "LIMIT = PAGE_SIZE - 200"

definition pipe_report :: "nat \<Rightarrow> scull_pipe \<Rightarrow> seq_line list" where
  "pipe_report i p =
     [PipeLine i (PipeAt i),
      BufferLine (if sp_buffer p = None then NULL else BufferAt i 0) (BufferAt i (sp_end p)) (sp_buffersize p),
      PointersLine (BufferAt i (sp_rp p)) (BufferAt i (sp_wp p)),
      UsersLine (sp_nreaders p) (sp_nwriters p)]"

fun p_mem_loop ::
  "(seq_file \<Rightarrow> int) \<Rightarrow> (nat \<Rightarrow> bool) \<Rightarrow> nat \<Rightarrow> scull_pipe list \<Rightarrow> seq_file \<Rightarrow> int \<times> seq_file" where
  "p_mem_loop count intr i [] s = (0, s)"
| "p_mem_loop count intr i (p # ps) s =
     (if LIMIT < count s then (0, s)
      else if intr i then (- ERESTARTSYS, s)
      else p_mem_loop count intr (Suc i) ps (fold seq_printf (pipe_report i p) s))"

definition scull_read_p_mem ::
  "(seq_file \<Rightarrow> int) \<Rightarrow> scull_params \<Rightarrow> (nat \<Rightarrow> bool) \<Rightarrow> scull_pipe list \<Rightarrow> seq_file \<Rightarrow> int \<times> seq_file" where
  "scull_read_p_mem count params intr ps s =
     p_mem_loop count intr 0 ps (seq_printf (DefaultLine (scull_p_buffer params)) s)"

section \<open>What the files show\<close>

text \<open>The report on a device: its parameters, a line per item, and the quanta of the last item.\<close>

definition quanta_report :: "nat \<Rightarrow> nat \<Rightarrow> cell list option list \<Rightarrow> seq_line list" where
  "quanta_report i k arr = map (\<lambda>j. QuantumLine j (QuantumAt i k j)) (filter (\<lambda>j. arr ! j \<noteq> None) [0..<length arr])"

definition item_report :: "nat \<Rightarrow> nat \<Rightarrow> scull_qset_item \<Rightarrow> bool \<Rightarrow> seq_line list" where
  "item_report i k it final =
     (case qs_data it of
        None \<Rightarrow> [ItemLine (QsetAt i k) NULL]
      | Some arr \<Rightarrow> ItemLine (QsetAt i k) (ArrayAt i k) # (if final then quanta_report i k arr else []))"

fun items_report :: "nat \<Rightarrow> nat \<Rightarrow> scull_qset_item list \<Rightarrow> seq_line list" where
  "items_report i k [] = []"
| "items_report i k (it # its) = item_report i k it (its = []) @ items_report i (Suc k) its"

definition dev_report :: "nat \<Rightarrow> scull_dev \<Rightarrow> seq_line list" where
  "dev_report i d =
     DeviceLine (int i) (sd_qset d) (sd_quantum d) (sd_size d) # items_report i 0 (sd_data d)"

fun devs_report :: "nat \<Rightarrow> scull_dev list \<Rightarrow> seq_line list" where
  "devs_report i [] = []"
| "devs_report i (d # ds) = dev_report i d @ devs_report (Suc i) ds"

lemma dump_quanta_spec:
  "j + n \<le> length arr \<Longrightarrow> dump_quanta i k arr j n s =
     Inr (s @ map (\<lambda>j. QuantumLine j (QuantumAt i k j)) (filter (\<lambda>j. arr ! j \<noteq> None) [j..<j + n]))"
proof (induction n arbitrary: j s)
  case (Suc n)
  then show ?case by (simp add: upt_conv_Cons seq_printf_def del: upt_Suc)
qed simp

lemma show_item_spec:
  "item_ok q n it \<Longrightarrow> show_item i k n it final s = Inr (s @ item_report i k it final)"
  by (cases "qs_data it") (simp_all add: show_item_def item_report_def item_ok_def array_ok_def
      quanta_report_def seq_printf_def Let_def dump_quanta_spec)

lemma show_items_spec:
  "\<forall>it \<in> set its. item_ok q n it \<Longrightarrow> show_items i k n its s = Inr (s @ items_report i k its)"
  by (induction its arbitrary: k s) (simp_all add: show_item_spec [of q n])

lemma dev_inv_items: "dev_inv d \<Longrightarrow> \<forall>it \<in> set (sd_data d). item_ok (sd_quantum d) (sd_qset d) it"
  by (simp add: dev_inv_def)

lemma seq_show_spec:
  assumes "v < length devs" and "dev_inv (devs ! v)"
  shows "scull_seq_show False devs v s = Inr (0, s @ dev_report v (devs ! v))"
  using assms show_items_spec [OF dev_inv_items [OF assms(2)]]
  by (simp add: scull_seq_show_def dev_report_def seq_printf_def Let_def)

lemma seq_walk_spec:
  assumes "length devs < 2 ^ 63" and "\<forall>d \<in> set devs. dev_inv d" and "v \<le> length devs" and "length devs \<le> v + n"
  shows "seq_walk n (\<lambda>_. False) devs (if v = length devs then None else Some (int v)) (int v) s
    = Some (Inr (0, s @ devs_report v (drop v devs)))"
  using assms(3,4)
proof (induction n arbitrary: v s)
  case 0
  then show ?case by simp
next
  case (Suc n)
  show ?case
  proof (cases "v = length devs")
    case False
    then have v: "v < length devs" using Suc.prems by simp
    have "s64 (int v + 1) = int (Suc v)" using v assms(1) by (subst s64_id) simp_all
    then have "scull_seq_next (length devs) (int v) = (if Suc v = length devs then None else Some (int (Suc v)), int (Suc v))"
      using v by (auto simp: scull_seq_next_def Let_def)
    then show ?thesis
      using Suc.IH [of "Suc v"] Suc.prems v assms(2) by (simp add: seq_show_spec Cons_nth_drop_Suc [symmetric])
  qed simp
qed

text \<open>
  Reading \<open>/proc/scullseq\<close> ends after one object per device and shows every device once and in
  order: its parameters, each of its quantum sets, and of the last one exactly the quanta that are
  allocated.
\<close>

theorem scullseq_shows_all:
  assumes "\<forall>d \<in> set devs. dev_inv d" and "length devs < 2 ^ 63"
  shows "seq_walk (length devs) (\<lambda>_. False) devs (scull_seq_start (length devs) 0) 0 s
    = Some (Inr (0, s @ devs_report 0 devs))"
  using seq_walk_spec [OF assms(2,1), of 0 "length devs" s] by (cases devs) (simp_all add: scull_seq_start_def)

theorem scullseq_shows_all_witness:
  "seq_walk 1 (\<lambda>_. False) [tiny_dev\<lparr>sd_data := [\<lparr>qs_data = Some [None, Some [None, None, None, None]]\<rparr>]\<rparr>] (Some 0) 0 []
   = Some (Inr (0, [DeviceLine 0 2 4 0, ItemLine (QsetAt 0 0) (ArrayAt 0 0), QuantumLine 1 (QuantumAt 0 0 1)]))"
  using scullseq_shows_all [of "[tiny_dev\<lparr>sd_data := [\<lparr>qs_data = Some [None, Some [None, None, None, None]]\<rparr>]\<rparr>]" "[]"]
  by (simp add: dev_inv_def params_ok_def item_ok_def array_ok_def tiny_dev_def scull_seq_start_def
      dev_report_def item_report_def quanta_report_def)

section \<open>The limit of \<open>scullmem\<close>\<close>

text \<open>A cut-off listing: a prefix, and if it is not all of it the limit was exceeded.\<close>

definition cut_at :: "(seq_file \<Rightarrow> int) \<Rightarrow> int \<Rightarrow> seq_file \<Rightarrow> seq_line list \<Rightarrow> seq_line list \<Rightarrow> bool" where
  "cut_at count limit s full out \<longleftrightarrow> (\<exists>rest. full = out @ rest \<and> (rest \<noteq> [] \<longrightarrow> limit < count (s @ out)))"

lemma cut_at_all: "cut_at count limit s out out"
  by (simp add: cut_at_def)

lemma cut_at_none: "limit < count s \<Longrightarrow> cut_at count limit s full []"
  by (simp add: cut_at_def)

lemma cut_at_append: "cut_at count limit (s @ xs) full out \<Longrightarrow> cut_at count limit s (xs @ full) (xs @ out)"
  by (simp add: cut_at_def)

lemma cut_at_stop: "cut_at count limit s xs out \<Longrightarrow> limit < count (s @ out) \<Longrightarrow> cut_at count limit s (xs @ ys) out"
  by (auto simp: cut_at_def)

lemma mem_items_cut:
  "\<forall>it \<in> set its. item_ok q n it \<Longrightarrow>
   \<exists>out. mem_items count limit i k n its s = Inr (s @ out) \<and> cut_at count limit s (items_report i k its) out"
proof (induction its arbitrary: k s)
  case Nil
  then show ?case using cut_at_all by fastforce
next
  case (Cons it its)
  show ?case
  proof (cases "count s \<le> limit")
    case True
    obtain out where "mem_items count limit i (Suc k) n its (s @ item_report i k it (its = []))
          = Inr ((s @ item_report i k it (its = [])) @ out)"
        "cut_at count limit (s @ item_report i k it (its = [])) (items_report i (Suc k) its) out"
      using Cons.IH Cons.prems by (meson list.set_intros(2))
    then show ?thesis using True Cons.prems cut_at_append by (fastforce simp: show_item_spec [of q n])
  next
    case False
    then show ?thesis using cut_at_none [of limit count s] by (intro exI [of _ "[]"]) simp
  qed
qed

lemma mem_device_cut:
  assumes "dev_inv d"
  shows "\<exists>out. mem_device count limit Nothing_done i d s = Inr (s @ out) \<and> cut_at count limit s (dev_report i d) out"
proof -
  define l where "l = DeviceLine (int i) (sd_qset d) (sd_quantum d) (sd_size d)"
  obtain out where "mem_items count limit i 0 (sd_qset d) (sd_data d) (s @ [l]) = Inr ((s @ [l]) @ out)"
      "cut_at count limit (s @ [l]) (items_report i 0 (sd_data d)) out"
    using mem_items_cut [OF dev_inv_items [OF assms]] by blast
  then show ?thesis
    using cut_at_append [of count limit s "[l]" "items_report i 0 (sd_data d)"] cut_at_none [of limit count "s @ [l]"]
    by (fastforce simp: mem_device_def items_from_def seq_printf_def Let_def l_def [symmetric] dev_report_def)
qed

lemma procmem_cut:
  assumes "\<forall>d \<in> set devs. dev_inv d"
  shows "\<exists>r out. procmem_loop count limit intr (\<lambda>_. Nothing_done) i devs s = Inr (r, s @ out)
    \<and> (r = 0 \<and> cut_at count limit s (devs_report i devs) out
       \<or> r = - ERESTARTSYS \<and> (\<exists>j \<in> {i..<i + length devs}. intr j) \<and> (\<exists>rest. devs_report i devs = out @ rest))"
  using assms
proof (induction devs arbitrary: i s)
  case Nil
  then show ?case using cut_at_all by fastforce
next
  case (Cons d ds)
  consider "limit < count s" | "count s \<le> limit" "intr i" | "count s \<le> limit" "\<not> intr i" by linarith
  then show ?case
  proof cases
    case 1
    then show ?thesis using cut_at_none [of limit count s] by (intro exI [of _ 0] exI [of _ "[]"]) simp
  next
    case 2
    then show ?thesis by (intro exI [of _ "- ERESTARTSYS"] exI [of _ "[]"]) auto
  next
    case 3
    obtain out where o: "mem_device count limit Nothing_done i d s = Inr (s @ out)" "cut_at count limit s (dev_report i d) out"
      using mem_device_cut Cons.prems by (meson list.set_intros(1))
    obtain r out' where r: "procmem_loop count limit intr (\<lambda>_. Nothing_done) (Suc i) ds (s @ out) = Inr (r, (s @ out) @ out')"
      "r = 0 \<and> cut_at count limit (s @ out) (devs_report (Suc i) ds) out'
       \<or> r = - ERESTARTSYS \<and> (\<exists>j \<in> {Suc i..<Suc i + length ds}. intr j) \<and> (\<exists>rest. devs_report (Suc i) ds = out' @ rest)"
      using Cons.IH Cons.prems by (meson list.set_intros(2))
    have loop: "procmem_loop count limit intr (\<lambda>_. Nothing_done) i (d # ds) s = Inr (r, s @ out @ out')"
      using 3 o(1) r(1) by simp
    show ?thesis
    proof (cases "out = dev_report i d")
      case True
      then have "r = 0 \<and> cut_at count limit s (devs_report i (d # ds)) (out @ out')
       \<or> r = - ERESTARTSYS \<and> (\<exists>j \<in> {i..<i + length (d # ds)}. intr j) \<and> (\<exists>rest. devs_report i (d # ds) = (out @ out') @ rest)"
        using r(2) cut_at_append [of count limit s out] by auto
      then show ?thesis using loop by blast
    next
      case False
      then have "limit < count (s @ out)" using o(2) by (auto simp: cut_at_def)
      then have "procmem_loop count limit intr (\<lambda>_. Nothing_done) (Suc i) ds (s @ out) = Inr (0, s @ out)"
        by (cases ds) simp_all
      then have "procmem_loop count limit intr (\<lambda>_. Nothing_done) i (d # ds) s = Inr (0, s @ out)"
        using 3 o(1) by simp
      then show ?thesis using cut_at_stop [OF o(2) \<open>limit < count (s @ out)\<close>] by auto
    qed
  qed
qed

text \<open>
  Reading \<open>/proc/scullmem\<close> without interference shows a prefix of what \<open>/proc/scullseq\<close> shows: all
  of it, unless the lines shown take more than the buffer size less 80 bytes, or a lock was interrupted, which
  the result tells.
\<close>

theorem scullmem_shows_prefix:
  assumes "\<forall>d \<in> set devs. dev_inv d"
  shows "\<exists>r out rest. scull_read_procmem count sz intr (\<lambda>_. Nothing_done) devs s = Inr (r, s @ out)
    \<and> devs_report 0 devs = out @ rest \<and> (r = 0 \<or> r = - ERESTARTSYS \<and> (\<exists>i < length devs. intr i))
    \<and> (r = 0 \<and> rest \<noteq> [] \<longrightarrow> u64 (s32 (sz - 80)) < count (s @ out))"
  using procmem_cut [OF assms, of count "u64 (s32 (sz - 80))" intr 0 s]
  unfolding scull_read_procmem_def cut_at_def by fastforce

theorem scullmem_shows_prefix_witness:
  "\<exists>r out rest. scull_read_procmem (\<lambda>s. 100 * int (length s)) 4096 (\<lambda>_. False) (\<lambda>_. Nothing_done)
       [tiny_dev, tiny_dev\<lparr>sd_data := [\<lparr>qs_data = None\<rparr>]\<rparr>] [] = Inr (r, [] @ out)
    \<and> [DeviceLine 0 2 4 0, DeviceLine 1 2 4 0, ItemLine (QsetAt 1 0) NULL] = out @ rest
    \<and> (r = 0 \<or> r = - ERESTARTSYS \<and> (\<exists>i < 2. False))
    \<and> (r = 0 \<and> rest \<noteq> [] \<longrightarrow> u64 (s32 (4096 - 80)) < 100 * int (length ([] @ out)))"
  using scullmem_shows_prefix [of "[tiny_dev, tiny_dev\<lparr>sd_data := [\<lparr>qs_data = None\<rparr>]\<rparr>]"
      "\<lambda>s. 100 * int (length s)" 4096 "\<lambda>_. False" "[]"]
  by (simp add: dev_inv_def params_ok_def item_ok_def tiny_dev_def dev_report_def item_report_def)

text \<open>
  The head of the list is read before the lock is taken. When another process empties the device in
  between, \<open>scullmem\<close> follows a pointer to freed memory.
\<close>

lemma scullmem_stale_head:
  assumes "sd_data d \<noteq> []" and "count s \<le> u64 (s32 (sz - 80))" and "\<not> intr 0" and "w 0 = Trimmed d'"
    and "count (s @ [DeviceLine 0 (sd_qset d') (sd_quantum d') (sd_size d')]) \<le> u64 (s32 (sz - 80))"
  shows "scull_read_procmem count sz intr w (d # ds) s = Inl UseAfterFree"
  using assms by (simp add: scull_read_procmem_def mem_device_def items_from_def seq_printf_def Let_def)

lemma fold_printf: "fold seq_printf ls s = s @ ls"
  by (induction ls arbitrary: s) (simp_all add: seq_printf_def)

fun pipes_report :: "nat \<Rightarrow> scull_pipe list \<Rightarrow> seq_line list" where
  "pipes_report i [] = []"
| "pipes_report i (p # ps) = pipe_report i p @ pipes_report (Suc i) ps"

lemma p_mem_cut:
  "\<exists>r out rest. p_mem_loop count intr i ps s = (r, s @ out) \<and> pipes_report i ps = out @ rest
     \<and> (r = 0 \<and> rest \<noteq> [] \<longrightarrow> LIMIT < count (s @ out))"
proof (induction ps arbitrary: i s)
  case (Cons p ps)
  obtain r out rest where "p_mem_loop count intr (Suc i) ps (s @ pipe_report i p) = (r, (s @ pipe_report i p) @ out)"
      "pipes_report (Suc i) ps = out @ rest" "r = 0 \<and> rest \<noteq> [] \<longrightarrow> LIMIT < count ((s @ pipe_report i p) @ out)"
    using Cons.IH by blast
  then show ?case by (force simp: fold_printf)
qed simp

text \<open>The file of the pipes: the default size and a prefix of the reports, cut off only beyond \<open>LIMIT\<close>.\<close>

lemma scullpipe_shows_prefix:
  "\<exists>r out rest. scull_read_p_mem count params intr ps s = (r, s @ DefaultLine (scull_p_buffer params) # out)
     \<and> pipes_report 0 ps = out @ rest
     \<and> (r = 0 \<and> rest \<noteq> [] \<longrightarrow> LIMIT < count (s @ DefaultLine (scull_p_buffer params) # out))"
  using p_mem_cut [of count intr 0 ps "s @ [DefaultLine (scull_p_buffer params)]"]
  by (simp add: scull_read_p_mem_def seq_printf_def)

end
