(* ===== verification/Scull_Session.thy ===== *)
theory Scull_Session
  imports Scull_Theorems
begin

text \<open>
  Sessions of the bare device: any number of files open at the same time, each with a position of its own,
  and any sequence of the calls of \<open>main.c\<close> on them, while the parameters that new opens take over
  are changed by \<open>ioctl\<close>. The kernel keeps \<open>f_pos\<close> and refuses calls on descriptors that are not open.
\<close>

record session =
  ss_params :: scull_params
  ss_dev :: scull_dev
  ss_kmem :: kmem
  ss_pos :: "nat \<Rightarrow> int option"

datatype sess_op =
    Sopen nat access_mode bool
  | Sclose nat
  | Sread nat kmalloc_ok bool nat nat
  | Swrite nat kmalloc_ok bool nat "byte list"
  | Sseek nat int int
  | Sparams scull_params

fun sess_step :: "sess_op \<Rightarrow> session \<Rightarrow> fault + session" where
  "sess_step (Sopen fd mode intr) s =
     bindE (scull_open (ss_params s) intr mode (ss_dev s) (ss_kmem s))
       (\<lambda>(ret, dev, km). Inr (s\<lparr>ss_dev := dev, ss_kmem := km,
                                ss_pos := (if ret = 0 then (ss_pos s)(fd \<mapsto> 0) else ss_pos s)\<rparr>))"
| "sess_step (Sclose fd) s =
     (case ss_pos s fd of
        None \<Rightarrow> Inr s
      | Some p \<Rightarrow> Inr (s\<lparr>ss_dev := snd (scull_release (ss_dev s)), ss_pos := (ss_pos s)(fd := None)\<rparr>))"
| "sess_step (Sread fd ok intr uncopied count) s =
     (case ss_pos s fd of
        None \<Rightarrow> Inr s
      | Some p \<Rightarrow>
          bindE (scull_read ok intr uncopied (int count) p (ss_dev s) (ss_kmem s))
            (\<lambda>r. Inr (s\<lparr>ss_dev := rd_dev r, ss_kmem := rd_kmem r, ss_pos := (ss_pos s)(fd \<mapsto> rd_pos r)\<rparr>)))"
| "sess_step (Swrite fd ok intr uncopied buf) s =
     (case ss_pos s fd of
        None \<Rightarrow> Inr s
      | Some p \<Rightarrow>
          bindE (scull_write ok intr uncopied buf p (ss_dev s) (ss_kmem s))
            (\<lambda>r. Inr (s\<lparr>ss_dev := wr_dev r, ss_kmem := wr_kmem r, ss_pos := (ss_pos s)(fd \<mapsto> wr_pos r)\<rparr>)))"
| "sess_step (Sseek fd off whence) s =
     (case ss_pos s fd of
        None \<Rightarrow> Inr s
      | Some p \<Rightarrow> Inr (s\<lparr>ss_pos := (ss_pos s)(fd \<mapsto> snd (scull_llseek (ss_dev s) p off whence))\<rparr>))"
| "sess_step (Sparams p) s = Inr (s\<lparr>ss_params := p\<rparr>)"

fun sess_run :: "sess_op list \<Rightarrow> session \<Rightarrow> fault + session" where
  "sess_run [] s = Inr s"
| "sess_run (x # xs) s = bindE (sess_step x s) (sess_run xs)"

definition sess_start :: "scull_params \<Rightarrow> session" where
  "sess_start p =
     \<lparr>ss_params = p,
      ss_dev = \<lparr>sd_data = [], sd_quantum = scull_quantum p, sd_qset = scull_qset p, sd_size = 0, sd_access_key = 0\<rparr>,
      ss_kmem = \<lparr>km_calls = 0, km_live = 0\<rparr>, ss_pos = \<lambda>_. None\<rparr>"

section \<open>The invariant of a session\<close>

text \<open>How far an operation can move a position, and which parameters may be set.\<close>

fun op_reach :: "sess_op \<Rightarrow> int" where
  "op_reach (Sread fd ok intr uncopied count) = int count"
| "op_reach (Swrite fd ok intr uncopied buf) = int (length buf)"
| "op_reach (Sseek fd off whence) = \<bar>off\<bar>"
| "op_reach _ = 0"

fun sets_valid :: "sess_op \<Rightarrow> bool" where
  "sets_valid (Sparams p) = params_ok (scull_quantum p) (scull_qset p)"
| "sets_valid _ = True"

text \<open>
  The device is well formed, no position and no size exceeds \<open>B\<close>, and the blocks taken from the
  allocator are those of the device.
\<close>

definition sess_inv :: "int \<Rightarrow> session \<Rightarrow> bool" where
  "sess_inv B s \<longleftrightarrow>
     dev_inv (ss_dev s) \<and> params_ok (scull_quantum (ss_params s)) (scull_qset (ss_params s))
     \<and> sd_size (ss_dev s) \<le> B \<and> (\<forall>fd p. ss_pos s fd = Some p \<longrightarrow> 0 \<le> p \<and> p \<le> B)
     \<and> km_live (ss_kmem s) = int (dev_blocks (ss_dev s))"

lemma op_reach_nonneg [simp]: "0 \<le> op_reach x"
  by (cases x) simp_all

lemma small_pos_ok: "dev_inv d \<Longrightarrow> int p < 2 ^ 31 \<Longrightarrow> pos_ok d p"
proof -
  assume d: "dev_inv d" and p: "int p < 2 ^ 31"
  have "0 < sd_quantum d * sd_qset d" using d by (simp add: dev_inv_def params_ok_def)
  then have "int p div (sd_quantum d * sd_qset d) \<le> int p" using zdiv_mono2 [of "int p" 1] by simp
  then have "int p div (sd_quantum d * sd_qset d) < 2 ^ 31" using p by (rule le_less_trans)
  moreover have "int p < 2 ^ 63" using p by simp
  ultimately show "pos_ok d p" by (simp add: pos_ok_def)
qed

lemma read_keeps:
  assumes "dev_inv d" "int p + int c < 2 ^ 31"
  obtains r where "scull_read ok intr u (int c) (int p) d km = Inr r" "grown d km (rd_dev r) (rd_kmem r)"
    "int p \<le> rd_pos r" "rd_pos r \<le> int p + int c"
proof (cases intr)
  case True
  then have "scull_read ok intr u (int c) (int p) d km =
      Inr \<lparr>rd_ret = - ERESTARTSYS, rd_bytes = [], rd_pos = int p, rd_dev = d, rd_kmem = km\<rparr>"
    by (simp add: scull_read_def)
  then show thesis by (rule that) (simp_all add: grown_refl assms(1))
next
  case False
  have p: "pos_ok d p" "int p + int c < 2 ^ 63" using assms by (simp_all add: small_pos_ok)
  show thesis
  proof (cases "int p < sd_size d \<and> dev_cell d p \<noteq> None")
    case True
    have "read_count d p c \<le> c" by (simp add: read_count_def Let_def)
    then show thesis
      using False scull_read_present [OF assms(1) p, of ok u km] True assms(1) by (intro that) (auto simp: grown_refl)
  next
    case absent: False
    then have "sd_size d \<le> int p \<or> dev_cell d p = None" by auto
    then obtain r where "scull_read ok False u (int c) (int p) d km = Inr r" "rd_pos r = int p"
        "grown d km (rd_dev r) (rd_kmem r)"
      using scull_read_absent [OF assms(1) p(1)] by metis
    then show thesis using False by (intro that [of r]) simp_all
  qed
qed

lemma write_keeps:
  assumes "dev_inv d" "int p + int (length buf) < 2 ^ 31"
  obtains r where "scull_write ok intr u buf (int p) d km = Inr r" "dev_inv (wr_dev r)"
    "int p \<le> wr_pos r" "wr_pos r \<le> int p + int (length buf)"
    "sd_size (wr_dev r) \<le> max (sd_size d) (int p + int (length buf))"
    "km_live (wr_kmem r) - km_live km = int (dev_blocks (wr_dev r)) - int (dev_blocks d)"
proof (cases intr)
  case True
  then have "scull_write ok intr u buf (int p) d km =
      Inr \<lparr>wr_ret = - ERESTARTSYS, wr_pos = int p, wr_dev = d, wr_kmem = km\<rparr>"
    by (simp add: scull_write_def)
  then show thesis by (rule that) (simp_all add: assms(1))
next
  case False
  have p: "pos_ok d p" "int p + int (length buf) < 2 ^ 63" using assms by (simp_all add: small_pos_ok)
  from assms(1) p show thesis
  proof (cases rule: scull_write_cases [of d p buf ok u km])
    case (nomem r)
    then show thesis using False by (intro that [of r]) (simp_all add: grown_def)
  next
    case (efault r)
    then show thesis using False storedD(1-3) [OF efault(5)] by (intro that [of r]) simp_all
  next
    case (written r d')
    have "dev_inv (wr_dev r)"
      unfolding written(6) using assms(1) p(2) storedD(1) [OF written(5)]
      by (intro dev_inv_resize) (auto simp: dev_inv_def)
    moreover have "dev_blocks (wr_dev r) = dev_blocks d'" by (simp add: written(6))
    ultimately show thesis
      using False written(1,4,6) storedD(3) [OF written(5)] by (intro that [of r]) simp_all
  qed
qed

lemma seek_reaches:
  assumes "dev_inv d" "0 \<le> p" "p \<le> B" "sd_size d \<le> B" "B + \<bar>off\<bar> < 2 ^ 31"
  shows "0 \<le> snd (scull_llseek d p off whence)" "snd (scull_llseek d p off whence) \<le> B + \<bar>off\<bar>"
proof -
  have s: "0 \<le> sd_size d" using assms(1) by (simp add: dev_inv_def)
  have e: "s64 (p + off) = p + off" using assms(2,3,5) by (intro s64_id) simp_all
  have f: "s64 (u64 (sd_size d + off)) = sd_size d + off"
    using s assms(4,5) by (simp add: s64_def u64_def mod_add_left_eq)
  show "0 \<le> snd (scull_llseek d p off whence)" using assms(2) by (simp add: scull_llseek_def Let_def split: option.split)
  show "snd (scull_llseek d p off whence) \<le> B + \<bar>off\<bar>"
    using assms(2-5) s by (auto simp: scull_llseek_def Let_def e f split: option.split)
qed

lemma open_keeps:
  assumes "dev_inv d" "params_ok (scull_quantum p) (scull_qset p)"
  shows "\<exists>ret d' km'. scull_open p intr mode d km = Inr (ret, d', km') \<and> dev_inv d' \<and> sd_size d' \<le> sd_size d
    \<and> km_live km' - km_live km = int (dev_blocks d') - int (dev_blocks d)"
  using assms by (auto simp: scull_open_def scull_trim_spec dev_inv_def dev_blocks_def)

lemma sess_inv_pos: "sess_inv B s \<Longrightarrow> ss_pos s fd = Some p \<Longrightarrow> \<exists>n. p = int n \<and> int n \<le> B"
  by (metis nonneg_int_cases sess_inv_def)

lemma sess_step_inv:
  assumes "sess_inv B s" "B + op_reach x < 2 ^ 31" "sets_valid x"
  shows "\<exists>s'. sess_step x s = Inr s' \<and> sess_inv (B + op_reach x) s'"
proof (cases x)
  case (Sread fd ok intr u c)
  then show ?thesis
  proof (cases "ss_pos s fd")
    case (Some p)
    then obtain n where n: "p = int n" "int n \<le> B" using sess_inv_pos assms(1) by blast
    obtain r where "scull_read ok intr u (int c) (int n) (ss_dev s) (ss_kmem s) = Inr r"
        "grown (ss_dev s) (ss_kmem s) (rd_dev r) (rd_kmem r)" "int n \<le> rd_pos r" "rd_pos r \<le> int n + int c"
      using read_keeps [of "ss_dev s" n c ok intr u "ss_kmem s"] assms(1,2) n Sread by (auto simp: sess_inv_def)
    then show ?thesis using assms(1) Some n Sread by (force simp: sess_inv_def grown_def)
  qed (use assms in \<open>force simp: sess_inv_def\<close>)
next
  case (Swrite fd ok intr u buf)
  then show ?thesis
  proof (cases "ss_pos s fd")
    case (Some p)
    then obtain n where n: "p = int n" "int n \<le> B" using sess_inv_pos assms(1) by blast
    obtain r where "scull_write ok intr u buf (int n) (ss_dev s) (ss_kmem s) = Inr r" "dev_inv (wr_dev r)"
        "int n \<le> wr_pos r" "wr_pos r \<le> int n + int (length buf)"
        "sd_size (wr_dev r) \<le> max (sd_size (ss_dev s)) (int n + int (length buf))"
        "km_live (wr_kmem r) - km_live (ss_kmem s) = int (dev_blocks (wr_dev r)) - int (dev_blocks (ss_dev s))"
      using write_keeps [of "ss_dev s" n buf ok intr u "ss_kmem s"] assms(1,2) n Swrite by (auto simp: sess_inv_def)
    then show ?thesis using assms(1) Some n Swrite by (force simp: sess_inv_def)
  qed (use assms in \<open>force simp: sess_inv_def\<close>)
next
  case (Sseek fd off whence)
  then show ?thesis
  proof (cases "ss_pos s fd")
    case (Some p)
    then show ?thesis using assms(1,2) Sseek seek_reaches [of "ss_dev s" p B off whence]
      by (force simp: sess_inv_def)
  qed (use assms in \<open>force simp: sess_inv_def\<close>)
next
  case (Sopen fd mode intr)
  then show ?thesis
    using open_keeps [of "ss_dev s" "ss_params s" intr mode "ss_kmem s"] assms(1) by (force simp: sess_inv_def dev_inv_def)
next
  case (Sclose fd)
  then show ?thesis using assms(1) by (auto simp: sess_inv_def scull_release_def split: option.split)
next
  case (Sparams p)
  then show ?thesis using assms(1,3) by (auto simp: sess_inv_def)
qed

lemma sess_run_inv:
  assumes "sess_inv B s" "B + (\<Sum>x\<leftarrow>xs. op_reach x) < 2 ^ 31" "\<forall>x \<in> set xs. sets_valid x"
  shows "\<exists>s'. sess_run xs s = Inr s' \<and> sess_inv (B + (\<Sum>x\<leftarrow>xs. op_reach x)) s'"
  using assms
proof (induction xs arbitrary: s B)
  case (Cons x xs)
  have "0 \<le> (\<Sum>x\<leftarrow>xs. op_reach x)" by (rule sum_list_nonneg) auto
  then obtain s1 where s1: "sess_step x s = Inr s1" "sess_inv (B + op_reach x) s1"
    using sess_step_inv [OF Cons.prems(1), of x] Cons.prems(2,3) by auto
  then show ?case using Cons.IH [OF s1(2)] Cons.prems(2,3) by (simp add: add.assoc)
qed simp

text \<open>
  C5: From loading on, whatever processes do with the device keeps it well formed: for every sequence of opens,
  reads, writes, seeks and closes on any number of files, with every allocation refused or served, every
  wait interrupted or not, every copy from and to the user cut short anywhere and the parameters of
  later opens changed to others that are valid, no call faults, all blocks taken from the allocator belong
  to the device, no position is negative, and trimming the device in the end gives back all memory.
  The calls may ask for less than two gigabytes in all.
\<close>

theorem scull_sessions:
  assumes "params_ok (scull_quantum p) (scull_qset p)" "\<forall>x \<in> set xs. sets_valid x" "(\<Sum>x\<leftarrow>xs. op_reach x) < 2 ^ 31"
  shows "\<exists>s. sess_run xs (sess_start p) = Inr s \<and> dev_inv (ss_dev s)
     \<and> km_live (ss_kmem s) = int (dev_blocks (ss_dev s)) \<and> (\<forall>fd q. ss_pos s fd = Some q \<longrightarrow> 0 \<le> q)
     \<and> (\<exists>d km. scull_trim (ss_params s) (ss_dev s) (ss_kmem s) = Inr (d, km) \<and> dev_inv d \<and> km_live km = 0)"
proof -
  have "sess_inv 0 (sess_start p)" using assms(1) by (simp add: sess_inv_def sess_start_def dev_inv_def dev_blocks_def)
  from sess_run_inv [OF this, of xs] obtain s where s: "sess_run xs (sess_start p) = Inr s" "sess_inv (\<Sum>x\<leftarrow>xs. op_reach x) s"
    using assms(2,3) by auto
  have "\<exists>d km. scull_trim (ss_params s) (ss_dev s) (ss_kmem s) = Inr (d, km) \<and> dev_inv d \<and> km_live km = 0"
    using s(2) by (simp add: sess_inv_def scull_trim_spec) (simp add: dev_inv_def)
  then show ?thesis using s by (auto simp: sess_inv_def)
qed

theorem scull_sessions_witness:
  "\<exists>s. sess_run [Sopen 3 O_RDWR False, Swrite 3 (\<lambda>_ _. True) False 0 [7, 8, 9], Sseek 3 (- 1) 2,
          Sopen 4 O_WRONLY False, Swrite 3 (\<lambda>n _. n = 0) False 0 [1], Sread 4 (\<lambda>_ _. False) False 0 5, Sclose 3]
        (sess_start \<lparr>scull_quantum = 4, scull_qset = 3, scull_p_buffer = 0\<rparr>) = Inr s
     \<and> dev_inv (ss_dev s) \<and> km_live (ss_kmem s) = int (dev_blocks (ss_dev s))"
  using scull_sessions [of "\<lparr>scull_quantum = 4, scull_qset = 3, scull_p_buffer = 0\<rparr>"
      "[Sopen 3 O_RDWR False, Swrite 3 (\<lambda>_ _. True) False 0 [7, 8, 9], Sseek 3 (- 1) 2,
        Sopen 4 O_WRONLY False, Swrite 3 (\<lambda>n _. n = 0) False 0 [1], Sread 4 (\<lambda>_ _. False) False 0 5, Sclose 3]"]
  by (auto simp: params_ok_def simp del: sess_run.simps)

end
