(* ===== verification/Oranges_Hw.thy ===== *)
theory Oranges_Hw
  imports Prelude
begin

unbundle bit_operations_syntax

text \<open>
  The ground the Orange'S kernel (\<open>oranges/code/io/cursor\<close>) stands on: ports and interrupt
  controller, video memory, \<open>lib/klib.c\<close>, \<open>kernel/i8259.c\<close>, and the constants of
  \<open>include/const.h\<close>. \<open>disp_str\<close>, \<open>disp_color_str\<close>, \<open>out_byte\<close>, \<open>enable_irq\<close> and
  \<open>disable_irq\<close> are assembly routines of \<open>lib/kliba.asm\<close>, translated too since the C code is
  nothing without them. The mask registers of the two controllers read back what was last
  written to their ports; all port writes are kept as a trace.
\<close>

section \<open>Constants (const.h)\<close>

definition INT_M_CTL :: "16 word" where "INT_M_CTL = 0x20"
definition INT_M_CTLMASK :: "16 word" where "INT_M_CTLMASK = 0x21"
definition INT_S_CTL :: "16 word" where "INT_S_CTL = 0xA0"
definition INT_S_CTLMASK :: "16 word" where "INT_S_CTLMASK = 0xA1"
definition TIMER0 :: "16 word" where "TIMER0 = 0x40"
definition TIMER_MODE :: "16 word" where "TIMER_MODE = 0x43"
definition RATE_GENERATOR :: "8 word" where "RATE_GENERATOR = 0x34"
definition TIMER_FREQ :: int where "TIMER_FREQ = 1193182"
definition HZ :: int where "HZ = 100"
definition CRTC_ADDR_REG :: "16 word" where "CRTC_ADDR_REG = 0x3D4"
definition CRTC_DATA_REG :: "16 word" where "CRTC_DATA_REG = 0x3D5"
definition START_ADDR_H :: "8 word" where "START_ADDR_H = 0xC"
definition START_ADDR_L :: "8 word" where "START_ADDR_L = 0xD"
definition CURSOR_H :: "8 word" where "CURSOR_H = 0xE"
definition CURSOR_L :: "8 word" where "CURSOR_L = 0xF"
definition NR_IRQ :: nat where "NR_IRQ = 16"
definition CLOCK_IRQ :: nat where "CLOCK_IRQ = 0"
definition KEYBOARD_IRQ :: nat where "KEYBOARD_IRQ = 1"
definition GDT_SIZE :: nat where "GDT_SIZE = 128"
definition IDT_SIZE :: nat where "IDT_SIZE = 256"
definition PRIVILEGE_KRNL :: "8 word" where "PRIVILEGE_KRNL = 0"
definition PRIVILEGE_TASK :: "8 word" where "PRIVILEGE_TASK = 1"
definition PRIVILEGE_USER :: "8 word" where "PRIVILEGE_USER = 3"

lemmas const_defs = INT_M_CTL_def INT_M_CTLMASK_def INT_S_CTL_def INT_S_CTLMASK_def TIMER0_def
  TIMER_MODE_def RATE_GENERATOR_def TIMER_FREQ_def HZ_def CRTC_ADDR_REG_def CRTC_DATA_REG_def
  START_ADDR_H_def START_ADDR_L_def CURSOR_H_def CURSOR_L_def NR_IRQ_def CLOCK_IRQ_def
  KEYBOARD_IRQ_def GDT_SIZE_def IDT_SIZE_def PRIVILEGE_KRNL_def PRIVILEGE_TASK_def PRIVILEGE_USER_def

section \<open>The machine\<close>

datatype irq_handler = spurious_irq_handler | clock_irq_handler | keyboard_irq_handler

record machine =
  mc_out :: "(16 word \<times> 8 word) list"
  mc_mask_m :: "8 word"
  mc_mask_s :: "8 word"
  mc_vram :: "int \<Rightarrow> 16 word"
  mc_disp_pos :: int
  mc_fault :: bool
  mc_irq_table :: "irq_handler list"

definition out_byte :: "16 word \<Rightarrow> 8 word \<Rightarrow> machine \<Rightarrow> machine" where
  "out_byte port v mc =
     mc\<lparr>mc_out := mc_out mc @ [(port, v)],
        mc_mask_m := (if port = INT_M_CTLMASK then v else mc_mask_m mc),
        mc_mask_s := (if port = INT_S_CTLMASK then v else mc_mask_s mc)\<rparr>"

text \<open>The rotation \<open>rol ah, cl\<close> of a single bit goes by \<open>irq\<close> modulo 8.\<close>

definition irq_bit :: "nat \<Rightarrow> 8 word" where
  "irq_bit irq = push_bit (irq mod 8) 1"

definition disable_irq :: "nat \<Rightarrow> machine \<Rightarrow> machine" where
  "disable_irq irq mc =
     (if irq < 8
      then (if mc_mask_m mc AND irq_bit irq \<noteq> 0 then mc
            else out_byte INT_M_CTLMASK (mc_mask_m mc OR irq_bit irq) mc)
      else (if mc_mask_s mc AND irq_bit irq \<noteq> 0 then mc
            else out_byte INT_S_CTLMASK (mc_mask_s mc OR irq_bit irq) mc))"

definition enable_irq :: "nat \<Rightarrow> machine \<Rightarrow> machine" where
  "enable_irq irq mc =
     (if irq < 8 then out_byte INT_M_CTLMASK (mc_mask_m mc AND NOT (irq_bit irq)) mc
      else out_byte INT_S_CTLMASK (mc_mask_s mc AND NOT (irq_bit irq)) mc)"

section \<open>Text output\<close>

text \<open>
  The loop over the bytes up to the terminating zero: a line feed moves to the start of the next
  row of 160 bytes, any other byte is stored with its colour and takes two bytes. The store goes through
  \<open>gs\<close>, a segment of 64 KB on the video memory: beyond its limit it is a protection fault, which the machine
  remembers, and \<open>disp_pos\<close> is not written.
\<close>

definition VIDEO_LIMIT :: int where "VIDEO_LIMIT = 0xFFFF"

definition V_MEM_SIZE :: int where "V_MEM_SIZE = 0x8000"

fun disp_loop :: "8 word \<Rightarrow> byte list \<Rightarrow> (int \<Rightarrow> 16 word) \<Rightarrow> int \<Rightarrow> (int \<Rightarrow> 16 word) \<times> int option" where
  "disp_loop color [] vram pos = (vram, Some pos)"
| "disp_loop color (b # bs) vram pos =
     (if b = 0 then (vram, Some pos)
      else if b = 0x0A then disp_loop color bs vram (pos + 160 - (if pos < 160 then pos else pos mod 160))
      else if pos < 0 \<or> VIDEO_LIMIT < pos + 1 then (vram, None)
      else disp_loop color bs (vram(pos := push_bit 8 (ucast color) OR ucast b)) (pos + 2))"

definition disp_color_str :: "byte list \<Rightarrow> 8 word \<Rightarrow> machine \<Rightarrow> machine" where
  "disp_color_str s color mc =
     (case disp_loop color s (mc_vram mc) (mc_disp_pos mc) of
        (vram, Some pos) \<Rightarrow> mc\<lparr>mc_vram := vram, mc_disp_pos := pos\<rparr>
      | (vram, None) \<Rightarrow> mc\<lparr>mc_vram := vram, mc_fault := True\<rparr>)"

definition disp_str :: "byte list \<Rightarrow> machine \<Rightarrow> machine" where
  "disp_str s = disp_color_str s 0x0F"

definition bytes_of :: "string \<Rightarrow> byte list" where
  "bytes_of s = map (\<lambda>c. of_nat (of_char c)) s"

section \<open>klib.c\<close>

text \<open>
  \<open>itoa_loop (Suc k)\<close> is the iteration with \<open>i = 4 * k\<close> of the loop; \<open>(num >> i) & 0xF\<close> is the
  nibble of the bit pattern whatever the sign.
\<close>

definition hex_char :: "8 word \<Rightarrow> byte" where
  "hex_char ch = (let ch = ch + 0x30 in if 0x39 < ch then ch + 7 else ch)"

fun itoa_loop :: "nat \<Rightarrow> bool \<Rightarrow> 32 word \<Rightarrow> byte list" where
  "itoa_loop 0 flag num = []"
| "itoa_loop (Suc k) flag num =
     (let ch = ucast (drop_bit (4 * k) num AND 0xF) :: 8 word
      in if flag \<or> 0 < ch then hex_char ch # itoa_loop k True num else itoa_loop k flag num)"

definition itoa :: "32 word \<Rightarrow> byte list" where
  "itoa num = [0x30, 0x78] @ (if num = 0 then [0x30] else itoa_loop 8 False num)"

definition disp_int :: "32 word \<Rightarrow> machine \<Rightarrow> machine" where
  "disp_int input = disp_str (itoa input)"

text \<open>\<open>delay\<close> counts; its loops have no effect, and it makes this many innermost iterations.\<close>

definition delay_iterations :: "int \<Rightarrow> nat" where
  "delay_iterations time = nat time * 10 * 10000"

section \<open>i8259.c\<close>

definition spurious_irq :: "32 word \<Rightarrow> machine \<Rightarrow> machine" where
  "spurious_irq irq mc = disp_str [0x0A] (disp_int irq (disp_str (bytes_of ''spurious_irq: '') mc))"

definition init_8259A :: "machine \<Rightarrow> machine" where
  "init_8259A mc =
     (let mc = out_byte INT_M_CTL 0x11 mc;
          mc = out_byte INT_S_CTL 0x11 mc;
          mc = out_byte INT_M_CTLMASK 0x20 mc;
          mc = out_byte INT_S_CTLMASK 0x28 mc;
          mc = out_byte INT_M_CTLMASK 0x4 mc;
          mc = out_byte INT_S_CTLMASK 0x2 mc;
          mc = out_byte INT_M_CTLMASK 0x1 mc;
          mc = out_byte INT_S_CTLMASK 0x1 mc;
          mc = out_byte INT_M_CTLMASK 0xFF mc;
          mc = out_byte INT_S_CTLMASK 0xFF mc
      in mc\<lparr>mc_irq_table := replicate NR_IRQ spurious_irq_handler\<rparr>)"

text \<open>\<open>irq_table[irq]\<close> beyond the table is outside its memory.\<close>

definition put_irq_handler :: "nat \<Rightarrow> irq_handler \<Rightarrow> machine \<Rightarrow> fault + machine" where
  "put_irq_handler irq h mc =
     (let mc = disable_irq irq mc
      in if irq < length (mc_irq_table mc) then Inr (mc\<lparr>mc_irq_table := (mc_irq_table mc)[irq := h]\<rparr>)
         else Inl OutOfBounds)"

section \<open>Properties\<close>

text \<open>The number a string of hexadecimal digits stands for.\<close>

definition hex_digit :: "byte \<Rightarrow> nat" where
  "hex_digit c = (if c < 0x3A then unat c - 0x30 else unat c - 0x37)"

definition hex_value :: "byte list \<Rightarrow> nat" where
  "hex_value cs = foldl (\<lambda>n c. 16 * n + hex_digit c) 0 cs"

definition nibble :: "nat \<Rightarrow> 32 word \<Rightarrow> nat" where
  "nibble k num = unat num div 16 ^ k mod 16"

lemma unat_nibble: "unat (ucast (drop_bit (4 * k) num AND 0xF :: 32 word) :: 8 word) = nibble k num"
proof -
  have "(drop_bit (4 * k) num AND 0xF :: 32 word) = take_bit 4 (drop_bit (4 * k) num)"
    by (simp add: take_bit_eq_mask mask_eq_exp_minus_1)
  moreover have "unat (take_bit 4 (drop_bit (4 * k) num)) = nibble k num"
    unfolding unsigned_take_bit_eq unat_drop_bit_eq
    by (simp add: nibble_def take_bit_eq_mod drop_bit_eq_div power_mult)
  moreover have "nibble k num < 16" by (simp add: nibble_def)
  ultimately show ?thesis
    by (simp only: unsigned_ucast_eq) (simp add: take_bit_nat_eq_self)
qed

lemma hex_chars:
  "\<forall>n \<in> set [0..<16]. hex_digit (hex_char (word_of_nat n)) = n
     \<and> hex_char (word_of_nat n) \<in> set (bytes_of ''0123456789ABCDEF'')
     \<and> (hex_char (word_of_nat n) = 0x30 \<longrightarrow> n = 0)"
  by code_simp

lemma hex_char_nibble:
  assumes "unat ch < 16"
  shows "hex_digit (hex_char ch) = unat ch" "hex_char ch \<in> set (bytes_of ''0123456789ABCDEF'')"
    "hex_char ch = 0x30 \<longrightarrow> unat ch = 0"
  using bspec [OF hex_chars, of "unat ch"] assms by simp_all

lemma mod_nibble: "unat num mod 16 ^ Suc k = nibble k num * 16 ^ k + unat num mod 16 ^ k"
  by (simp add: nibble_def mod_mult2_eq mult.commute [of 16])

lemma itoa_loop_value:
  "foldl (\<lambda>n c. 16 * n + hex_digit c) a (itoa_loop k True num) = a * 16 ^ k + unat num mod 16 ^ k"
proof (induction k arbitrary: a)
  case 0
  then show ?case by simp
next
  case (Suc k)
  have n: "unat (ucast (drop_bit (4 * k) num AND 0xF :: 32 word) :: 8 word) < 16"
    unfolding unat_nibble by (simp add: nibble_def)
  show ?case
    unfolding mod_nibble itoa_loop.simps Let_def
    using Suc hex_char_nibble(1) [OF n, unfolded unat_nibble] by (simp add: add_mult_distrib)
qed

lemma itoa_loop_False:
  "foldl (\<lambda>n c. 16 * n + hex_digit c) 0 (itoa_loop k False num) = unat num mod 16 ^ k
   \<and> length (itoa_loop k flag num) \<le> k
   \<and> set (itoa_loop k flag num) \<subseteq> set (bytes_of ''0123456789ABCDEF'')
   \<and> (itoa_loop k False num \<noteq> [] \<longrightarrow> hd (itoa_loop k False num) \<noteq> 0x30)"
proof (induction k arbitrary: flag)
  case 0
  then show ?case by simp
next
  case (Suc k)
  let ?ch = "ucast (drop_bit (4 * k) num AND 0xF :: 32 word) :: 8 word"
  have n: "unat ?ch < 16" unfolding unat_nibble by (simp add: nibble_def)
  note h = hex_char_nibble [OF n]
  have z: "0 < ?ch \<longleftrightarrow> nibble k num \<noteq> 0"
    using unat_nibble [of k num] by (metis unat_0 word_gt_0 unat_eq_zero)
  show ?case
  proof (cases "0 < ?ch")
    case True
    then have "foldl (\<lambda>n c. 16 * n + hex_digit c) 0 (itoa_loop (Suc k) False num) = unat num mod 16 ^ Suc k"
      unfolding mod_nibble using h(1) itoa_loop_value [of "hex_digit (hex_char ?ch)" k num]
      by (simp add: unat_nibble Let_def)
    then show ?thesis using True Suc [of True] Suc [of flag] h z unat_nibble [of k num]
      by (auto simp: Let_def simp del: power_Suc)
  next
    case False
    then have "unat num mod 16 ^ Suc k = unat num mod 16 ^ k" using z unfolding mod_nibble by simp
    then show ?thesis using False Suc [of True] Suc [of flag] h by (auto simp: Let_def simp del: power_Suc)
  qed
qed

text \<open>
  \<open>itoa\<close> writes the hexadecimal representation of the bit pattern: reading the digits after
  \<open>0x\<close> gives the number back, there is no leading zero except for zero itself, only the digits
  0-9 and A-F occur, and with its terminating zero the text fits the 16 bytes of \<open>disp_int\<close>.
\<close>

theorem itoa_hex:
  "\<exists>digits. itoa num = bytes_of ''0x'' @ digits \<and> hex_value digits = unat num
     \<and> set digits \<subseteq> set (bytes_of ''0123456789ABCDEF'')
     \<and> digits \<noteq> [] \<and> (hd digits = 0x30 \<longleftrightarrow> num = 0) \<and> length (itoa num) + 1 \<le> 16"
proof (cases "num = 0")
  case True
  have "bytes_of ''0x'' = [0x30, 0x78]" "(0x30 :: byte) \<in> set (bytes_of ''0123456789ABCDEF'')"
    "hex_digit 0x30 = 0" by code_simp+
  with True show ?thesis by (simp add: itoa_def hex_value_def)
next
  case False
  have "unat num < 2 ^ LENGTH(32)" by (rule unsigned_less)
  then have l: "unat num mod 16 ^ 8 = unat num" by simp
  then have "itoa_loop 8 False num \<noteq> []"
    using itoa_loop_False [of 8 num False] False by (auto simp: unat_eq_zero)
  moreover have "bytes_of ''0x'' = [0x30, 0x78]" by code_simp
  ultimately show ?thesis
    using itoa_loop_False [of 8 num False] False l by (simp add: itoa_def hex_value_def)
qed

theorem itoa_hex_witness:
  "\<exists>digits. itoa 0xB800 = bytes_of ''0x'' @ digits \<and> hex_value digits = unat (0xB800 :: 32 word)
     \<and> set digits \<subseteq> set (bytes_of ''0123456789ABCDEF'')
     \<and> digits \<noteq> [] \<and> (hd digits = 0x30 \<longleftrightarrow> (0xB800 :: 32 word) = 0) \<and> length (itoa 0xB800) + 1 \<le> 16"
  by (rule itoa_hex)

text \<open>Whether a request line is masked.\<close>

definition irq_masked :: "machine \<Rightarrow> nat \<Rightarrow> bool" where
  "irq_masked mc irq \<longleftrightarrow> bit (if irq < 8 then mc_mask_m mc else mc_mask_s mc) (irq mod 8)"

lemma bit_irq_bit: "i < 8 \<Longrightarrow> bit (irq_bit j) i \<longleftrightarrow> i = j mod 8"
  by (auto simp: irq_bit_def bit_simps)

lemma irq_bit_and_zero: "m AND irq_bit j = 0 \<longleftrightarrow> \<not> bit m (j mod 8)"
  by (simp add: irq_bit_def push_bit_eq_mult and_exp_eq_0_iff_not_bit)

lemma bit_FF: "i < 8 \<Longrightarrow> bit (0xFF :: 8 word) i"
proof -
  assume "i < 8"
  moreover have "(0xFF :: 8 word) = - 1" by simp
  ultimately show ?thesis by (simp only: bit_minus_1_iff) simp
qed

lemma ports_distinct: "INT_M_CTLMASK \<noteq> INT_S_CTLMASK" "INT_S_CTLMASK \<noteq> INT_M_CTLMASK"
  by (simp_all add: const_defs)

lemma same_line: "i < 16 \<Longrightarrow> j < 16 \<Longrightarrow> (i < 8 \<longleftrightarrow> j < (8::nat)) \<Longrightarrow> i mod 8 = j mod 8 \<longleftrightarrow> i = j"
  by (cases "i < 8") (auto simp: mod_if [of i] mod_if [of j])

lemma disable_irq_masks:
  "mc_mask_m (disable_irq j mc) = (if j < 8 then mc_mask_m mc OR irq_bit j else mc_mask_m mc)"
  "mc_mask_s (disable_irq j mc) = (if j < 8 then mc_mask_s mc else mc_mask_s mc OR irq_bit j)"
proof -
  have "m OR irq_bit j = m" if "m AND irq_bit j \<noteq> 0" for m
  proof (rule bit_word_eqI)
    fix n
    assume "n < LENGTH(8)"
    then have "bit (irq_bit j) n \<longleftrightarrow> n = j mod 8" by (intro bit_irq_bit) simp
    then show "bit (m OR irq_bit j) n \<longleftrightarrow> bit m n"
      using that by (auto simp only: bit_or_iff irq_bit_and_zero)
  qed
  then show
    "mc_mask_m (disable_irq j mc) = (if j < 8 then mc_mask_m mc OR irq_bit j else mc_mask_m mc)"
    "mc_mask_s (disable_irq j mc) = (if j < 8 then mc_mask_s mc else mc_mask_s mc OR irq_bit j)"
    by (simp_all add: disable_irq_def out_byte_def ports_distinct)
qed

lemma disable_irq_masked:
  assumes "i < 16" "j < 16"
  shows "irq_masked (disable_irq j mc) i \<longleftrightarrow> i = j \<or> irq_masked mc i"
proof (cases "i < 8 \<longleftrightarrow> j < 8")
  case True
  then show ?thesis using same_line [OF assms True]
    by (cases "j < 8") (simp_all add: irq_masked_def disable_irq_masks bit_or_iff bit_irq_bit disj_commute)
next
  case False
  then show ?thesis by (cases "j < 8") (auto simp: irq_masked_def disable_irq_masks)
qed

lemma enable_irq_masks:
  "mc_mask_m (enable_irq j mc) = (if j < 8 then mc_mask_m mc AND NOT (irq_bit j) else mc_mask_m mc)"
  "mc_mask_s (enable_irq j mc) = (if j < 8 then mc_mask_s mc else mc_mask_s mc AND NOT (irq_bit j))"
  by (simp_all add: enable_irq_def out_byte_def ports_distinct)

lemma enable_irq_masked:
  assumes "i < 16" "j < 16"
  shows "irq_masked (enable_irq j mc) i \<longleftrightarrow> i \<noteq> j \<and> irq_masked mc i"
proof (cases "i < 8 \<longleftrightarrow> j < 8")
  case True
  then show ?thesis using same_line [OF assms True]
    by (cases "j < 8")
       (simp_all add: irq_masked_def enable_irq_masks bit_and_iff bit_not_iff bit_irq_bit conj_commute)
next
  case False
  then show ?thesis by (cases "j < 8") (auto simp: irq_masked_def enable_irq_masks)
qed

lemma install_irq:
  assumes "irq < NR_IRQ" and l: "length (mc_irq_table mc) = NR_IRQ"
  shows "\<exists>mc'. put_irq_handler irq h mc = Inr mc' \<and> length (mc_irq_table (enable_irq irq mc')) = NR_IRQ
            \<and> (\<forall>i < NR_IRQ. irq_masked (enable_irq irq mc') i = (i \<noteq> irq \<and> irq_masked mc i)
                 \<and> mc_irq_table (enable_irq irq mc') ! i = (if i = irq then h else mc_irq_table mc ! i))"
proof -
  have t: "mc_irq_table (disable_irq irq mc) = mc_irq_table mc"
    "mc_irq_table (enable_irq irq mc') = mc_irq_table mc'" for mc'
    by (simp_all add: disable_irq_def enable_irq_def out_byte_def)
  have m: "irq_masked (mc'\<lparr>mc_irq_table := x\<rparr>) i = irq_masked mc' i" for mc' x i
    by (simp add: irq_masked_def)
  show ?thesis
    using assms enable_irq_masked [of _ irq] disable_irq_masked [of _ irq]
    by (auto simp: put_irq_handler_def Let_def t m NR_IRQ_def nth_list_update)
qed

text \<open>
  After \<open>init_8259A\<close> every request line is masked and handled by \<open>spurious_irq\<close>; installing a
  handler with \<open>put_irq_handler\<close> and enabling its line with \<open>enable_irq\<close> unmasks that line
  alone, points it at the handler, and leaves all others masked or unmasked and handled as before.
\<close>

theorem irq_setup:
  assumes "irq < NR_IRQ"
  shows "(\<forall>i < NR_IRQ. irq_masked (init_8259A mc0) i \<and> mc_irq_table (init_8259A mc0) ! i = spurious_irq_handler)
     \<and> length (mc_irq_table (init_8259A mc0)) = NR_IRQ
     \<and> (length (mc_irq_table mc) = NR_IRQ \<longrightarrow>
         (\<exists>mc'. put_irq_handler irq h mc = Inr mc'
            \<and> (\<forall>i < NR_IRQ. irq_masked (enable_irq irq mc') i = (i \<noteq> irq \<and> irq_masked mc i)
                 \<and> mc_irq_table (enable_irq irq mc') ! i = (if i = irq then h else mc_irq_table mc ! i))))"
proof (intro conjI impI)
  have ff: "mc_mask_m (init_8259A mc0) = 0xFF" "mc_mask_s (init_8259A mc0) = 0xFF"
    by (simp_all add: init_8259A_def out_byte_def Let_def const_defs)
  have "irq_masked (init_8259A mc0) i" for i
    unfolding irq_masked_def ff if_cancel by (rule bit_FF) simp
  then show "\<forall>i < NR_IRQ. irq_masked (init_8259A mc0) i \<and> mc_irq_table (init_8259A mc0) ! i = spurious_irq_handler"
    by (simp add: init_8259A_def Let_def)
  show "length (mc_irq_table (init_8259A mc0)) = NR_IRQ" by (simp add: init_8259A_def Let_def)
  assume "length (mc_irq_table mc) = NR_IRQ"
  with assms show "\<exists>mc'. put_irq_handler irq h mc = Inr mc'
            \<and> (\<forall>i < NR_IRQ. irq_masked (enable_irq irq mc') i = (i \<noteq> irq \<and> irq_masked mc i)
                 \<and> mc_irq_table (enable_irq irq mc') ! i = (if i = irq then h else mc_irq_table mc ! i))"
    using install_irq by blast
qed

definition blank_machine :: machine where
  "blank_machine = \<lparr>mc_out = [], mc_mask_m = 0, mc_mask_s = 0, mc_vram = (\<lambda>_. 0), mc_disp_pos = 0, mc_fault = False,
     mc_irq_table = []\<rparr>"

theorem irq_setup_witness:
  "KEYBOARD_IRQ < NR_IRQ \<and> irq_masked (init_8259A blank_machine) 9
   \<and> (\<exists>mc'. put_irq_handler KEYBOARD_IRQ keyboard_irq_handler (init_8259A blank_machine) = Inr mc'
        \<and> \<not> irq_masked (enable_irq KEYBOARD_IRQ mc') 1 \<and> irq_masked (enable_irq KEYBOARD_IRQ mc') 0)"
proof -
  have "KEYBOARD_IRQ < NR_IRQ" by (simp add: const_defs)
  from irq_setup [OF this, of blank_machine "init_8259A blank_machine" keyboard_irq_handler] show ?thesis
    by (auto simp: const_defs)
qed

end
