(* ===== verification/Oranges_Protect.thy ===== *)
theory Oranges_Protect
  imports Oranges_Hw
begin

unbundle bit_operations_syntax

text \<open>
  Protected mode in Orange'S, \<open>kernel/protect.c\<close>, \<open>kernel/start.c\<close> and \<open>include/protect.h\<close> of
  \<open>oranges/code/io/cursor\<close>: segment descriptors, interrupt gates, the task state segment, and
  the display of exceptions. The addresses the linker gives to handlers and tables are
  arguments.
\<close>

section \<open>Types and constants (protect.h)\<close>

record descriptor =
  limit_low :: "16 word"
  base_low :: "16 word"
  base_mid :: "8 word"
  attr1 :: "8 word"
  limit_high_attr2 :: "8 word"
  base_high :: "8 word"

record gate =
  offset_low :: "16 word"
  selector :: "16 word"
  dcount :: "8 word"
  attr :: "8 word"
  offset_high :: "16 word"

record tss_t =
  tss_backlink :: "32 word"
  tss_esp0 :: "32 word"
  tss_ss0 :: "32 word"
  tss_esp1 :: "32 word"
  tss_ss1 :: "32 word"
  tss_esp2 :: "32 word"
  tss_ss2 :: "32 word"
  tss_cr3 :: "32 word"
  tss_eip :: "32 word"
  tss_flags :: "32 word"
  tss_eax :: "32 word"
  tss_ecx :: "32 word"
  tss_edx :: "32 word"
  tss_ebx :: "32 word"
  tss_esp :: "32 word"
  tss_ebp :: "32 word"
  tss_esi :: "32 word"
  tss_edi :: "32 word"
  tss_es :: "32 word"
  tss_cs :: "32 word"
  tss_ss :: "32 word"
  tss_ds :: "32 word"
  tss_fs :: "32 word"
  tss_gs :: "32 word"
  tss_ldt :: "32 word"
  tss_trap :: "16 word"
  tss_iobase :: "16 word"

definition sizeof_tss :: nat where "sizeof_tss = 25 * 4 + 2 * 2"

definition sizeof_descriptor :: nat where "sizeof_descriptor = 8"

definition INDEX_TSS :: nat where "INDEX_TSS = 4"
definition INDEX_LDT_FIRST :: nat where "INDEX_LDT_FIRST = 5"
definition SELECTOR_KERNEL_CS :: "16 word" where "SELECTOR_KERNEL_CS = 0x08"
definition SELECTOR_KERNEL_DS :: "16 word" where "SELECTOR_KERNEL_DS = 0x10"
definition SELECTOR_KERNEL_GS :: "16 word" where "SELECTOR_KERNEL_GS = 0x18 + 3"
definition SELECTOR_LDT_FIRST :: "16 word" where "SELECTOR_LDT_FIRST = 0x28"
definition LDT_SIZE :: nat where "LDT_SIZE = 2"
definition NR_TASKS :: nat where "NR_TASKS = 4"

definition DA_DRW :: "8 word" where "DA_DRW = 0x92"
definition DA_C :: "8 word" where "DA_C = 0x98"
definition DA_LDT :: "16 word" where "DA_LDT = 0x82"
definition DA_386TSS :: "16 word" where "DA_386TSS = 0x89"
definition DA_386IGate :: "8 word" where "DA_386IGate = 0x8E"

definition SA_RPL_MASK :: "16 word" where "SA_RPL_MASK = 0xFFFC"
definition SA_TI_MASK :: "16 word" where "SA_TI_MASK = 0xFFFB"
definition SA_TIL :: "16 word" where "SA_TIL = 4"
definition RPL_TASK :: "16 word" where "RPL_TASK = 1"

lemmas prot_defs = sizeof_tss_def sizeof_descriptor_def INDEX_TSS_def INDEX_LDT_FIRST_def
  SELECTOR_KERNEL_CS_def SELECTOR_KERNEL_DS_def SELECTOR_KERNEL_GS_def SELECTOR_LDT_FIRST_def
  LDT_SIZE_def NR_TASKS_def DA_DRW_def DA_C_def DA_LDT_def DA_386TSS_def DA_386IGate_def
  SA_RPL_MASK_def SA_TI_MASK_def SA_TIL_def RPL_TASK_def

section \<open>Descriptors and gates\<close>

definition init_descriptor :: "32 word \<Rightarrow> 32 word \<Rightarrow> 16 word \<Rightarrow> descriptor" where
  "init_descriptor base limit attribute =
     \<lparr>limit_low = ucast (limit AND 0xFFFF), base_low = ucast (base AND 0xFFFF),
      base_mid = ucast (drop_bit 16 base AND 0xFF), attr1 = ucast (attribute AND 0xFF),
      limit_high_attr2 = ucast ((drop_bit 16 limit AND 0x0F) OR (ucast (drop_bit 8 attribute) AND 0xF0)),
      base_high = ucast (drop_bit 24 base AND 0xFF)\<rparr>"

definition seg2phys :: "descriptor list \<Rightarrow> 16 word \<Rightarrow> 32 word" where
  "seg2phys gdt seg =
     (let d = gdt ! unat (drop_bit 3 seg)
      in push_bit 24 (ucast (base_high d)) OR push_bit 16 (ucast (base_mid d)) OR ucast (base_low d))"

definition vir2phys :: "32 word \<Rightarrow> 32 word \<Rightarrow> 32 word" where
  "vir2phys seg_base vir = seg_base + vir"

text \<open>The gate that \<open>init_idt_desc\<close> writes, and the write itself; \<open>vector\<close> is an unsigned char.\<close>

definition idt_gate :: "8 word \<Rightarrow> 32 word \<Rightarrow> 8 word \<Rightarrow> gate" where
  "idt_gate desc_type base privilege =
     \<lparr>offset_low = ucast (base AND 0xFFFF), selector = SELECTOR_KERNEL_CS, dcount = 0,
      attr = desc_type OR push_bit 5 privilege, offset_high = ucast (drop_bit 16 base AND 0xFFFF)\<rparr>"

definition init_idt_desc :: "8 word \<Rightarrow> 8 word \<Rightarrow> 32 word \<Rightarrow> 8 word \<Rightarrow> gate list \<Rightarrow> gate list" where
  "init_idt_desc vector desc_type base privilege idt =
     idt[unat vector := idt_gate desc_type base privilege]"

section \<open>init_prot\<close>

datatype int_handler =
  divide_error | single_step_exception | nmi | breakpoint_exception | overflow | bounds_check
| inval_opcode | copr_not_available | double_fault | copr_seg_overrun | inval_tss
| segment_not_present | stack_exception | general_protection | page_fault | copr_error
| hwint nat | sys_call

definition init_prot_gates :: "(8 word \<times> int_handler \<times> 8 word) list" where
  "init_prot_gates =
     [(0x0, divide_error, PRIVILEGE_KRNL), (0x1, single_step_exception, PRIVILEGE_KRNL),
      (0x2, nmi, PRIVILEGE_KRNL), (0x3, breakpoint_exception, PRIVILEGE_USER),
      (0x4, overflow, PRIVILEGE_USER), (0x5, bounds_check, PRIVILEGE_KRNL),
      (0x6, inval_opcode, PRIVILEGE_KRNL), (0x7, copr_not_available, PRIVILEGE_KRNL),
      (0x8, double_fault, PRIVILEGE_KRNL), (0x9, copr_seg_overrun, PRIVILEGE_KRNL),
      (0xA, inval_tss, PRIVILEGE_KRNL), (0xB, segment_not_present, PRIVILEGE_KRNL),
      (0xC, stack_exception, PRIVILEGE_KRNL), (0xD, general_protection, PRIVILEGE_KRNL),
      (0xE, page_fault, PRIVILEGE_KRNL), (0x10, copr_error, PRIVILEGE_KRNL),
      (0x20 + 0, hwint 0, PRIVILEGE_KRNL), (0x20 + 1, hwint 1, PRIVILEGE_KRNL),
      (0x20 + 2, hwint 2, PRIVILEGE_KRNL), (0x20 + 3, hwint 3, PRIVILEGE_KRNL),
      (0x20 + 4, hwint 4, PRIVILEGE_KRNL), (0x20 + 5, hwint 5, PRIVILEGE_KRNL),
      (0x20 + 6, hwint 6, PRIVILEGE_KRNL), (0x20 + 7, hwint 7, PRIVILEGE_KRNL),
      (0x28 + 0, hwint 8, PRIVILEGE_KRNL), (0x28 + 1, hwint 9, PRIVILEGE_KRNL),
      (0x28 + 2, hwint 10, PRIVILEGE_KRNL), (0x28 + 3, hwint 11, PRIVILEGE_KRNL),
      (0x28 + 4, hwint 12, PRIVILEGE_KRNL), (0x28 + 5, hwint 13, PRIVILEGE_KRNL),
      (0x28 + 6, hwint 14, PRIVILEGE_KRNL), (0x28 + 7, hwint 15, PRIVILEGE_KRNL),
      (0x90, sys_call, PRIVILEGE_USER)]"

record link_map =
  lm_handler :: "int_handler \<Rightarrow> 32 word"
  lm_tss :: "32 word"
  lm_ldts :: "nat \<Rightarrow> 32 word"
  lm_gdt :: "32 word"
  lm_idt :: "32 word"

record prot_state =
  ps_gdt :: "descriptor list"
  ps_idt :: "gate list"
  ps_tss :: tss_t
  ps_gdt_ptr :: "16 word \<times> 32 word"
  ps_idt_ptr :: "16 word \<times> 32 word"

definition zero_tss :: tss_t where
  "zero_tss = \<lparr>tss_backlink = 0, tss_esp0 = 0, tss_ss0 = 0, tss_esp1 = 0, tss_ss1 = 0, tss_esp2 = 0,
     tss_ss2 = 0, tss_cr3 = 0, tss_eip = 0, tss_flags = 0, tss_eax = 0, tss_ecx = 0, tss_edx = 0,
     tss_ebx = 0, tss_esp = 0, tss_ebp = 0, tss_esi = 0, tss_edi = 0, tss_es = 0, tss_cs = 0,
     tss_ss = 0, tss_ds = 0, tss_fs = 0, tss_gs = 0, tss_ldt = 0, tss_trap = 0, tss_iobase = 0\<rparr>"

definition init_gates :: "link_map \<Rightarrow> gate list \<Rightarrow> gate list" where
  "init_gates lm idt =
     fold (\<lambda>(v, h, p). init_idt_desc v DA_386IGate (lm_handler lm h) p) init_prot_gates idt"

text \<open>The loop that fills the descriptors of the processes' LDTs, from process \<open>i\<close> on.\<close>

fun init_ldts :: "link_map \<Rightarrow> nat \<Rightarrow> nat \<Rightarrow> 16 word \<Rightarrow> descriptor list \<Rightarrow> descriptor list" where
  "init_ldts lm 0 i selector_ldt gdt = gdt"
| "init_ldts lm (Suc n) i selector_ldt gdt =
     init_ldts lm n (Suc i) (selector_ldt + push_bit 3 1)
       (gdt[unat (drop_bit 3 selector_ldt) :=
          init_descriptor (vir2phys (seg2phys gdt SELECTOR_KERNEL_DS) (lm_ldts lm i))
            (of_nat (LDT_SIZE * sizeof_descriptor) - 1) DA_LDT])"

definition init_prot :: "link_map \<Rightarrow> machine \<Rightarrow> prot_state \<Rightarrow> machine \<times> prot_state" where
  "init_prot lm mc st =
     (let mc = init_8259A mc;
          idt = init_gates lm (ps_idt st);
          tss = zero_tss\<lparr>tss_ss0 := ucast SELECTOR_KERNEL_DS\<rparr>;
          gdt = (ps_gdt st)[INDEX_TSS :=
                  init_descriptor (vir2phys (seg2phys (ps_gdt st) SELECTOR_KERNEL_DS) (lm_tss lm))
                    (of_nat sizeof_tss - 1) DA_386TSS];
          tss = tss\<lparr>tss_iobase := of_nat sizeof_tss\<rparr>;
          gdt = init_ldts lm NR_TASKS 0 (push_bit 3 (of_nat INDEX_LDT_FIRST)) gdt
      in (mc, st\<lparr>ps_gdt := gdt, ps_idt := idt, ps_tss := tss\<rparr>))"

section \<open>cstart\<close>

text \<open>
  \<open>loader_gdt\<close> is the table the loader left, at the address and of the length in \<open>gdt_ptr\<close>. The
  copy goes byte by byte, so whole descriptors arrive for a length that is a multiple of 8.
\<close>

definition cstart :: "link_map \<Rightarrow> descriptor list \<Rightarrow> machine \<Rightarrow> prot_state \<Rightarrow> machine \<times> prot_state" where
  "cstart lm loader_gdt mc st =
     (let mc = disp_str (replicate 15 0x0A @ bytes_of ''-----'' @ [0x22] @ bytes_of ''cstart''
                         @ [0x22] @ bytes_of '' begins-----'' @ [0x0A]) mc;
          st = st\<lparr>ps_gdt := loader_gdt @ drop (length loader_gdt) (ps_gdt st),
                  ps_gdt_ptr := (of_nat (GDT_SIZE * sizeof_descriptor) - 1, lm_gdt lm),
                  ps_idt_ptr := (of_nat (IDT_SIZE * 8) - 1, lm_idt lm)\<rparr>;
          (mc, st) = init_prot lm mc st
      in (disp_str (bytes_of ''-----'' @ [0x22] @ bytes_of ''cstart'' @ [0x22]
                    @ bytes_of '' finished-----'' @ [0x0A]) mc, st))"

section \<open>exception_handler\<close>

text \<open>The texts are UTF-8; two of them start with an em dash.\<close>

definition err_description :: "byte list list" where
  "err_description =
     [bytes_of ''#DE Divide Error'', bytes_of ''#DB RESERVED'',
      [0xE2, 0x80, 0x94] @ bytes_of ''  NMI Interrupt'', bytes_of ''#BP Breakpoint'',
      bytes_of ''#OF Overflow'', bytes_of ''#BR BOUND Range Exceeded'',
      bytes_of ''#UD Invalid Opcode (Undefined Opcode)'',
      bytes_of ''#NM Device Not Available (No Math Coprocessor)'', bytes_of ''#DF Double Fault'',
      bytes_of ''    Coprocessor Segment Overrun (reserved)'', bytes_of ''#TS Invalid TSS'',
      bytes_of ''#NP Segment Not Present'', bytes_of ''#SS Stack-Segment Fault'',
      bytes_of ''#GP General Protection'', bytes_of ''#PF Page Fault'',
      [0xE2, 0x80, 0x94] @ bytes_of ''  (Intel reserved. Do not use.)'',
      bytes_of ''#MF x87 FPU Floating-Point Error (Math Fault)'', bytes_of ''#AC Alignment Check'',
      bytes_of ''#MC Machine Check'', bytes_of ''#XF SIMD Floating-Point Exception'']"

fun clear_loop :: "nat \<Rightarrow> machine \<Rightarrow> machine" where
  "clear_loop 0 mc = mc"
| "clear_loop (Suc n) mc = clear_loop n (disp_str [0x20] mc)"

definition exception_handler ::
  "int \<Rightarrow> 32 word \<Rightarrow> 32 word \<Rightarrow> 32 word \<Rightarrow> 32 word \<Rightarrow> machine \<Rightarrow> fault + machine" where
  "exception_handler vec_no err_code eip cs eflags mc =
     (let color = 0x74;
          mc = clear_loop (80 * 5) (mc\<lparr>mc_disp_pos := 0\<rparr>);
          mc = mc\<lparr>mc_disp_pos := 0\<rparr>;
          mc = disp_color_str (bytes_of ''Exception! --> '') color mc
      in if vec_no < 0 \<or> int (length err_description) \<le> vec_no then Inl OutOfBounds
         else
           (let mc = disp_color_str (err_description ! nat vec_no) color mc;
                mc = disp_color_str [0x0A, 0x0A] color mc;
                mc = disp_color_str (bytes_of ''EFLAGS:'') color mc;
                mc = disp_int eflags mc;
                mc = disp_color_str (bytes_of ''CS:'') color mc;
                mc = disp_int cs mc;
                mc = disp_color_str (bytes_of ''EIP:'') color mc;
                mc = disp_int eip mc
            in Inr (if err_code \<noteq> 0xFFFFFFFF
                    then disp_int err_code (disp_color_str (bytes_of ''Error code:'') color mc)
                    else mc)))"

section \<open>What the hardware reads\<close>

text \<open>Base, limit and attributes of a descriptor, target and privilege of a gate, as the processor decodes them.\<close>

definition desc_base :: "descriptor \<Rightarrow> 32 word" where
  "desc_base d = push_bit 24 (ucast (base_high d)) OR push_bit 16 (ucast (base_mid d)) OR ucast (base_low d)"

definition desc_limit :: "descriptor \<Rightarrow> 32 word" where
  "desc_limit d = push_bit 16 (ucast (limit_high_attr2 d AND 0x0F)) OR ucast (limit_low d)"

definition desc_attr :: "descriptor \<Rightarrow> 16 word" where
  "desc_attr d = push_bit 8 (ucast (limit_high_attr2 d AND 0xF0)) OR ucast (attr1 d)"

definition gate_offset :: "gate \<Rightarrow> 32 word" where
  "gate_offset g = push_bit 16 (ucast (offset_high g)) OR ucast (offset_low g)"

definition gate_dpl :: "gate \<Rightarrow> nat" where
  "gate_dpl g = unat (drop_bit 5 (attr g) AND 3)"

lemma and_masks:
  "x AND 0xFFFF = take_bit 16 x" "x AND 0xFF = take_bit 8 x" "x AND 0x0F = take_bit 4 x" "x AND 3 = take_bit 2 x"
  for x :: "'a::len word"
  by (simp_all add: take_bit_eq_mask mask_eq_exp_minus_1)

lemma high_nibbles: "(0xF0 :: 8 word) = push_bit 4 (mask 4)" "(0xF0 :: 32 word) = push_bit 4 (mask 4)"
  "(0xF0FF :: 16 word) = mask 8 OR push_bit 12 (mask 4)"
  by (simp_all add: mask_eq_exp_minus_1 push_bit_eq_mult)

lemma desc_base_init: "desc_base (init_descriptor base limit a) = base"
proof (rule bit_word_eqI)
  fix n
  assume "n < LENGTH(32)"
  then show "bit (desc_base (init_descriptor base limit a)) n \<longleftrightarrow> bit base n"
    unfolding desc_base_def init_descriptor_def and_masks
    by (cases "n < 24") (auto simp: bit_simps not_less)
qed

lemma desc_limit_init: "desc_limit (init_descriptor base limit a) = take_bit 20 limit"
  unfolding desc_limit_def init_descriptor_def and_masks high_nibbles
  by (rule bit_word_eqI) (auto simp: bit_simps)

lemma desc_attr_init: "desc_attr (init_descriptor base limit a) = a AND 0xF0FF"
  unfolding desc_attr_def init_descriptor_def and_masks high_nibbles
  by (rule bit_word_eqI) (auto simp: bit_simps)

lemma gate_offset_init: "gate_offset (idt_gate t base p) = base"
  unfolding gate_offset_def idt_gate_def and_masks
  by (rule bit_word_eqI) (auto simp: bit_simps)

lemma gate_dpl_init: "\<forall>p \<in> {0,1,2,3}. gate_dpl (idt_gate DA_386IGate base p) = unat p"
  unfolding gate_dpl_def idt_gate_def DA_386IGate_def by simp

lemma length_init_idt_desc [simp]: "length (init_idt_desc v t b p idt) = length idt"
  by (simp add: init_idt_desc_def)

lemma fold_gates:
  assumes "distinct (map fst gs)" "length idt = 256"
  shows "length (fold (\<lambda>(v, h, p). init_idt_desc v t (f h) p) gs idt) = 256
    \<and> (\<forall>(v, h, p) \<in> set gs. fold (\<lambda>(v, h, p). init_idt_desc v t (f h) p) gs idt ! unat v = idt_gate t (f h) p)
    \<and> (\<forall>v. v \<notin> fst ` set gs \<longrightarrow> fold (\<lambda>(v, h, p). init_idt_desc v t (f h) p) gs idt ! unat v = idt ! unat v)"
  using assms
proof (induction gs arbitrary: idt)
  case Nil
  then show ?case by simp
next
  case (Cons g gs)
  obtain v h p where g: "g = (v, h, p)" by (cases g)
  define idt' where "idt' = init_idt_desc v t (f h) p idt"
  have l: "length idt' = 256" using Cons by (simp add: idt'_def)
  have at: "idt' ! unat w = (if w = v then idt_gate t (f h) p else idt ! unat w)" for w
  proof -
    have "unat v < 2 ^ LENGTH(8)" by (rule unsigned_less)
    then have "unat v < 256" by simp
    then show ?thesis using Cons.prems(2) by (auto simp: idt'_def init_idt_desc_def nth_list_update dest: unsigned_word_eqI)
  qed
  have d: "distinct (map fst gs)" "v \<notin> fst ` set gs" using Cons.prems(1) by (auto simp: g)
  show ?case using Cons.IH [OF d(1) l] d(2) at unfolding g idt'_def [symmetric] by (auto simp: idt'_def [symmetric])
qed
section \<open>Properties\<close>

text \<open>
  What \<open>init_descriptor\<close> scatters over the fields of a descriptor the processor puts together
  again: the 32-bit base, the 20-bit limit and the twelve attribute bits; \<open>seg2phys\<close> of the
  selector of the entry returns the base, and a gate leads to the handler it was made for.
\<close>

theorem descriptor_roundtrip:
  "desc_base (init_descriptor base limit a) = base
   \<and> desc_limit (init_descriptor base limit a) = take_bit 20 limit
   \<and> desc_attr (init_descriptor base limit a) = a AND 0xF0FF
   \<and> gate_offset (idt_gate t base p) = base
   \<and> (unat (drop_bit 3 sel) < length gdt \<longrightarrow>
        seg2phys (gdt[unat (drop_bit 3 sel) := init_descriptor base limit a]) sel = base)"
  using desc_base_init [of base limit a]
  by (simp add: desc_limit_init desc_attr_init gate_offset_init seg2phys_def desc_base_def Let_def)

theorem descriptor_roundtrip_witness:
  "unat (drop_bit 3 (0x10 :: 16 word)) < length (replicate 3 (init_descriptor 0 0 0))
   \<and> seg2phys ((replicate 3 (init_descriptor 0 0 0))
        [unat (drop_bit 3 (0x10 :: 16 word)) := init_descriptor 0xB8000 0xFFFF 0x92]) 0x10 = 0xB8000"
  using descriptor_roundtrip [where base = "0xB8000" and limit = "0xFFFF" and a = "0x92" and sel = "0x10"
      and gdt = "replicate 3 (init_descriptor 0 0 0)"] by simp

lemma gates_distinct: "distinct (map fst init_prot_gates)"
  by code_simp

lemma gates_privilege: "\<forall>(v, h, p) \<in> set init_prot_gates. p \<in> {0, 1, 2, 3}"
  by code_simp

lemma user_gates: "{v. \<exists>h p. (v, h, p) \<in> set init_prot_gates \<and> unat p = 3} = {3, 4, 0x90}"
proof -
  have "{v. \<exists>h p. (v, h, p) \<in> set init_prot_gates \<and> unat p = 3} = fst ` set (filter (\<lambda>(v, h, p). unat p = 3) init_prot_gates)"
    by force
  also have "\<dots> = {3, 4, 0x90}" by code_simp
  finally show ?thesis .
qed

text \<open>
  \<open>init_prot\<close> fills the interrupt table as meant: each of its 33 vectors leads, in the
  kernel code segment, to its own handler with its privilege; code outside ring 0 can call
  exactly the vectors 3, 4 and 0x90, the system call; all other gates keep their contents.
\<close>

theorem init_prot_idt:
  assumes "length (ps_idt st) = IDT_SIZE"
  shows "let idt = ps_idt (snd (init_prot lm mc st))
     in length idt = IDT_SIZE
        \<and> (\<forall>(v, h, p) \<in> set init_prot_gates. gate_offset (idt ! unat v) = lm_handler lm h
             \<and> selector (idt ! unat v) = SELECTOR_KERNEL_CS \<and> gate_dpl (idt ! unat v) = unat p)
        \<and> {v \<in> fst ` set init_prot_gates. gate_dpl (idt ! unat v) = 3} = {3, 4, 0x90}
        \<and> (\<forall>v. v \<notin> fst ` set init_prot_gates \<longrightarrow> idt ! unat v = ps_idt st ! unat v)"
proof -
  define idt where "idt = ps_idt (snd (init_prot lm mc st))"
  have i: "idt = fold (\<lambda>(v, h, p). init_idt_desc v DA_386IGate (lm_handler lm h) p) init_prot_gates (ps_idt st)"
    by (simp add: idt_def init_prot_def init_gates_def Let_def)
  note fg = fold_gates [OF gates_distinct, of "ps_idt st" DA_386IGate "lm_handler lm", folded i]
  have gate: "idt ! unat v = idt_gate DA_386IGate (lm_handler lm h) p" if "(v, h, p) \<in> set init_prot_gates" for v h p
    using fg assms that by (auto simp: IDT_SIZE_def)
  have dpl: "gate_dpl (idt ! unat v) = unat p" if "(v, h, p) \<in> set init_prot_gates" for v h p
    using gate [OF that] gates_privilege that gate_dpl_init by (auto simp del: insert_iff)
  have "{v \<in> fst ` set init_prot_gates. gate_dpl (idt ! unat v) = 3}
      = {v. \<exists>h p. (v, h, p) \<in> set init_prot_gates \<and> unat p = 3}"
    using dpl by force
  moreover have "gate_offset (idt ! unat v) = lm_handler lm h \<and> selector (idt ! unat v) = SELECTOR_KERNEL_CS"
    if "(v, h, p) \<in> set init_prot_gates" for v h p
    using gate [OF that] by (simp add: gate_offset_init) (simp add: idt_gate_def)
  ultimately show ?thesis
    using fg assms dpl by (auto simp: Let_def idt_def [symmetric] user_gates IDT_SIZE_def)
qed

definition zero_gate :: gate where
  "zero_gate = \<lparr>offset_low = 0, selector = 0, dcount = 0, attr = 0, offset_high = 0\<rparr>"

definition boot_state :: prot_state where
  "boot_state = \<lparr>ps_gdt = replicate GDT_SIZE (init_descriptor 0 0xFFFFF 0xC092),
     ps_idt = replicate IDT_SIZE zero_gate, ps_tss = zero_tss, ps_gdt_ptr = (0, 0), ps_idt_ptr = (0, 0)\<rparr>"

definition sample_link :: link_map where
  "sample_link = \<lparr>lm_handler = (\<lambda>h. 0x30400), lm_tss = 0x35000, lm_ldts = (\<lambda>i. 0x36000 + of_nat (i * 100)),
     lm_gdt = 0x34000, lm_idt = 0x34800\<rparr>"

theorem init_prot_idt_witness:
  "length (ps_idt boot_state) = IDT_SIZE
   \<and> {v \<in> fst ` set init_prot_gates.
        gate_dpl (ps_idt (snd (init_prot sample_link blank_machine boot_state)) ! unat v) = 3} = {3, 4, 0x90}"
  using init_prot_idt [of boot_state sample_link blank_machine] by (simp add: boot_state_def Let_def)

lemma seg2phys_update: "i \<noteq> 2 \<Longrightarrow> seg2phys (gdt[i := d]) SELECTOR_KERNEL_DS = seg2phys gdt SELECTOR_KERNEL_DS"
  by (simp add: seg2phys_def SELECTOR_KERNEL_DS_def)

definition ldt_descriptor :: "link_map \<Rightarrow> descriptor list \<Rightarrow> nat \<Rightarrow> descriptor" where
  "ldt_descriptor lm gdt i = init_descriptor (seg2phys gdt SELECTOR_KERNEL_DS + lm_ldts lm i) 15 DA_LDT"

lemma init_prot_gdt_entries:
  "ps_gdt (snd (init_prot lm mc st)) = (ps_gdt st)
     [4 := init_descriptor (seg2phys (ps_gdt st) SELECTOR_KERNEL_DS + lm_tss lm) 103 DA_386TSS,
      5 := ldt_descriptor lm (ps_gdt st) 0, 6 := ldt_descriptor lm (ps_gdt st) 1,
      7 := ldt_descriptor lm (ps_gdt st) 2, 8 := ldt_descriptor lm (ps_gdt st) 3]"
proof -
  have n: "NR_TASKS = Suc (Suc (Suc (Suc 0)))" by (simp add: NR_TASKS_def)
  show ?thesis
    unfolding init_prot_def Let_def n init_ldts.simps snd_conv
    by (simp add: ldt_descriptor_def vir2phys_def prot_defs seg2phys_update [unfolded SELECTOR_KERNEL_DS_def])
       (simp add: numeral_2_eq_2 numeral_3_eq_3)
qed

text \<open>
  \<open>init_prot\<close> leaves the loader's descriptors alone, points entry 4 at the task state segment
  and entries 5 to 8 at the LDTs of the four processes, each with the limit of its table, and
  changes no other entry; the I/O bitmap offset lies beyond the TSS limit, so no port is open to
  the tasks, and the ring-0 stack segment is the kernel's data segment.
\<close>

theorem init_prot_gdt:
  assumes "length (ps_gdt st) = GDT_SIZE"
  shows "let st' = snd (init_prot lm mc st); gdt = ps_gdt st'; base = seg2phys (ps_gdt st) SELECTOR_KERNEL_DS
     in length gdt = GDT_SIZE
        \<and> (\<forall>i < GDT_SIZE. i \<notin> {4..8} \<longrightarrow> gdt ! i = ps_gdt st ! i)
        \<and> desc_base (gdt ! 4) = base + lm_tss lm \<and> desc_limit (gdt ! 4) = 103
        \<and> (\<forall>i < NR_TASKS. desc_base (gdt ! (5 + i)) = base + lm_ldts lm i \<and> desc_limit (gdt ! (5 + i)) = 15
             \<and> unat (drop_bit 3 (SELECTOR_LDT_FIRST + of_nat (8 * i))) = 5 + i)
        \<and> unat (tss_iobase (ps_tss st')) > unat (desc_limit (gdt ! 4))
        \<and> tss_ss0 (ps_tss st') = ucast SELECTOR_KERNEL_DS"
proof -
  note g = init_prot_gdt_entries [of lm mc st]
  have l: "take_bit 20 103 = (103 :: 32 word)" "take_bit 20 15 = (15 :: 32 word)" by simp_all
  have ts: "i < NR_TASKS \<Longrightarrow> i = 0 \<or> i = 1 \<or> i = 2 \<or> i = 3" for i by (auto simp: NR_TASKS_def)
  have tss: "tss_iobase (ps_tss (snd (init_prot lm mc st))) = 104"
    "tss_ss0 (ps_tss (snd (init_prot lm mc st))) = ucast SELECTOR_KERNEL_DS"
    by (simp_all add: init_prot_def Let_def sizeof_tss_def)
  have sel: "\<forall>i \<in> set [0..<4]. unat (drop_bit 3 (SELECTOR_LDT_FIRST + word_of_nat (8 * i))) = 5 + i"
    by code_simp
  have "\<forall>i < NR_TASKS. desc_base (ps_gdt (snd (init_prot lm mc st)) ! (5 + i))
        = seg2phys (ps_gdt st) SELECTOR_KERNEL_DS + lm_ldts lm i
      \<and> desc_limit (ps_gdt (snd (init_prot lm mc st)) ! (5 + i)) = 15"
    using assms by (auto dest!: ts simp: g ldt_descriptor_def desc_base_init desc_limit_init l GDT_SIZE_def)
  moreover have "\<forall>i < GDT_SIZE. i \<notin> {4..8} \<longrightarrow> ps_gdt (snd (init_prot lm mc st)) ! i = ps_gdt st ! i"
    by (auto simp: g nth_list_update)
  ultimately show ?thesis
    using assms sel by (auto simp: Let_def tss) (simp_all add: g desc_base_init desc_limit_init l GDT_SIZE_def NR_TASKS_def)
qed

theorem init_prot_gdt_witness:
  "length (ps_gdt boot_state) = GDT_SIZE
   \<and> desc_base (ps_gdt (snd (init_prot sample_link blank_machine boot_state)) ! 4) = 0x35000"
  using init_prot_gdt [of boot_state sample_link blank_machine]
  by (simp add: boot_state_def Let_def seg2phys_def init_descriptor_def sample_link_def GDT_SIZE_def
      SELECTOR_KERNEL_DS_def)

end
