(* ===== verification/Oranges_Sched.thy ===== *)
theory Oranges_Sched
  imports Oranges_Protect
begin

unbundle bit_operations_syntax

text \<open>
  Processes, the clock and the scheduler of Orange'S: \<open>include/proc.h\<close>, \<open>kernel/global.c\<close>,
  \<open>kernel/main.c\<close>, \<open>kernel/proc.c\<close> and \<open>kernel/clock.c\<close> of \<open>oranges/code/io/cursor\<close>. A pointer
  into the process table is an index. The outer loop of \<open>schedule\<close> runs for ever when no process
  has time left and no priority is positive, so \<open>schedule\<close> is partial: \<open>None\<close> is not returning.
\<close>

section \<open>Processes (proc.h)\<close>

record stack_frame =
  sf_gs :: "32 word"
  sf_fs :: "32 word"
  sf_es :: "32 word"
  sf_ds :: "32 word"
  sf_edi :: "32 word"
  sf_esi :: "32 word"
  sf_ebp :: "32 word"
  sf_kernel_esp :: "32 word"
  sf_ebx :: "32 word"
  sf_edx :: "32 word"
  sf_ecx :: "32 word"
  sf_eax :: "32 word"
  sf_retaddr :: "32 word"
  sf_eip :: "32 word"
  sf_cs :: "32 word"
  sf_eflags :: "32 word"
  sf_esp :: "32 word"
  sf_ss :: "32 word"

record process =
  regs :: stack_frame
  ldt_sel :: "16 word"
  ldts :: "descriptor list"
  p_ticks :: int
  p_priority :: int
  p_pid :: "32 word"
  p_name :: "byte list"

record task =
  initial_eip :: "32 word"
  stacksize :: int
  t_name :: "byte list"

definition STACK_SIZE_TTY :: int where "STACK_SIZE_TTY = 0x8000"
definition STACK_SIZE_TESTA :: int where "STACK_SIZE_TESTA = 0x8000"
definition STACK_SIZE_TESTB :: int where "STACK_SIZE_TESTB = 0x8000"
definition STACK_SIZE_TESTC :: int where "STACK_SIZE_TESTC = 0x8000"

definition STACK_SIZE_TOTAL :: int where
  "STACK_SIZE_TOTAL = STACK_SIZE_TTY + STACK_SIZE_TESTA + STACK_SIZE_TESTB + STACK_SIZE_TESTC"

text \<open>\<open>task_table\<close> of \<open>global.c\<close>; the entry points come from the linker.\<close>

definition task_table :: "(nat \<Rightarrow> 32 word) \<Rightarrow> task list" where
  "task_table entry =
     [\<lparr>initial_eip = entry 0, stacksize = STACK_SIZE_TTY, t_name = bytes_of ''tty''\<rparr>,
      \<lparr>initial_eip = entry 1, stacksize = STACK_SIZE_TESTA, t_name = bytes_of ''TestA''\<rparr>,
      \<lparr>initial_eip = entry 2, stacksize = STACK_SIZE_TESTB, t_name = bytes_of ''TestB''\<rparr>,
      \<lparr>initial_eip = entry 3, stacksize = STACK_SIZE_TESTC, t_name = bytes_of ''TestC''\<rparr>]"

record kernel =
  k_procs :: "process list"
  k_ready :: nat
  k_ticks :: int
  k_reenter :: int

section \<open>schedule (proc.c)\<close>

text \<open>The inner loop: the first process with the greatest positive number of ticks, from index \<open>i\<close> on.\<close>

fun pick_loop :: "process list \<Rightarrow> nat \<Rightarrow> int \<Rightarrow> nat \<Rightarrow> int \<times> nat" where
  "pick_loop [] i greatest_ticks ready = (greatest_ticks, ready)"
| "pick_loop (p # ps) i greatest_ticks ready =
     (if greatest_ticks < p_ticks p then pick_loop ps (Suc i) (p_ticks p) i
      else pick_loop ps (Suc i) greatest_ticks ready)"

definition refill :: "process list \<Rightarrow> process list" where
  "refill ps = map (\<lambda>p. p\<lparr>p_ticks := p_priority p\<rparr>) ps"

partial_function (option) schedule :: "process list \<Rightarrow> nat \<Rightarrow> (process list \<times> nat) option" where
  "schedule ps ready =
     (case pick_loop ps 0 0 ready of
        (greatest_ticks, ready') \<Rightarrow>
          if greatest_ticks \<noteq> 0 then Some (ps, ready') else schedule (refill ps) ready')"

definition sys_get_ticks :: "kernel \<Rightarrow> int" where
  "sys_get_ticks k = k_ticks k"

section \<open>clock.c\<close>

definition clock_handler :: "kernel \<Rightarrow> kernel option" where
  "clock_handler k =
     (let p = k_procs k ! k_ready k;
          p = p\<lparr>p_ticks := s32 (p_ticks p - 1)\<rparr>;
          k = k\<lparr>k_ticks := s32 (k_ticks k + 1), k_procs := (k_procs k)[k_ready k := p]\<rparr>
      in if k_reenter k \<noteq> 0 then Some k
         else if 0 < p_ticks p then Some k
         else (case schedule (k_procs k) (k_ready k) of
                 None \<Rightarrow> None
               | Some (ps, ready) \<Rightarrow> Some (k\<lparr>k_procs := ps, k_ready := ready\<rparr>)))"

text \<open>The busy wait of \<open>milli_delay\<close> over the values that successive calls of \<open>get_ticks\<close> return.\<close>

fun delay_polls :: "int \<Rightarrow> int \<Rightarrow> int list \<Rightarrow> nat option" where
  "delay_polls t milli_sec [] = None"
| "delay_polls t milli_sec (now # obs) =
     (if s32 ((now - t) * 1000) sdiv HZ < milli_sec then map_option Suc (delay_polls t milli_sec obs)
      else Some 0)"

definition milli_delay :: "int \<Rightarrow> int list \<Rightarrow> nat option" where
  "milli_delay milli_sec obs = (case obs of [] \<Rightarrow> None | t # obs \<Rightarrow> delay_polls t milli_sec obs)"

definition init_clock :: "machine \<Rightarrow> fault + machine" where
  "init_clock mc =
     (let mc = out_byte TIMER_MODE RATE_GENERATOR mc;
          mc = out_byte TIMER0 (of_int (TIMER_FREQ div HZ)) mc;
          mc = out_byte TIMER0 (of_int (drop_bit 8 (TIMER_FREQ div HZ))) mc
      in case put_irq_handler CLOCK_IRQ clock_irq_handler mc of
           Inl e \<Rightarrow> Inl e
         | Inr mc \<Rightarrow> Inr (enable_irq CLOCK_IRQ mc))"

section \<open>kernel_main (main.c)\<close>

text \<open>The selector \<open>((8 * i) & SA_RPL_MASK & SA_TI_MASK) | SA_TIL | RPL_TASK\<close>.\<close>

definition task_selector :: "16 word \<Rightarrow> 32 word" where
  "task_selector i = ucast ((8 * i AND SA_RPL_MASK AND SA_TI_MASK) OR SA_TIL OR RPL_TASK)"

definition init_proc :: "descriptor list \<Rightarrow> nat \<Rightarrow> task \<Rightarrow> 16 word \<Rightarrow> 32 word \<Rightarrow> process \<Rightarrow> process" where
  "init_proc gdt i t selector_ldt stack p =
     p\<lparr>p_name := t_name t, p_pid := of_nat i, ldt_sel := selector_ldt,
       ldts := [(gdt ! unat (drop_bit 3 SELECTOR_KERNEL_CS))\<lparr>attr1 := DA_C OR push_bit 5 PRIVILEGE_TASK\<rparr>,
                (gdt ! unat (drop_bit 3 SELECTOR_KERNEL_DS))\<lparr>attr1 := DA_DRW OR push_bit 5 PRIVILEGE_TASK\<rparr>],
       regs := (regs p)\<lparr>sf_cs := task_selector 0, sf_ds := task_selector 1, sf_es := task_selector 1,
                        sf_fs := task_selector 1, sf_ss := task_selector 1,
                        sf_gs := ucast ((SELECTOR_KERNEL_GS AND SA_RPL_MASK) OR RPL_TASK),
                        sf_eip := initial_eip t, sf_esp := stack, sf_eflags := 0x1202\<rparr>\<rparr>"

text \<open>The loop over the tasks; a name that does not fit \<open>p_name[16]\<close> with its zero overruns it.\<close>

fun init_procs ::
  "descriptor list \<Rightarrow> nat \<Rightarrow> task list \<Rightarrow> 16 word \<Rightarrow> 32 word \<Rightarrow> process list \<Rightarrow> fault + process list" where
  "init_procs gdt i [] selector_ldt stack ps = Inr ps"
| "init_procs gdt i (t # ts) selector_ldt stack ps =
     (if length ps \<le> i \<or> 16 \<le> length (t_name t) then Inl OutOfBounds
      else init_procs gdt (Suc i) ts (selector_ldt + push_bit 3 1) (stack - of_int (stacksize t))
             (ps[i := init_proc gdt i t selector_ldt stack (ps ! i)]))"

definition set_priority :: "nat \<Rightarrow> int \<Rightarrow> process list \<Rightarrow> process list" where
  "set_priority i n ps = ps[i := (ps ! i)\<lparr>p_ticks := n, p_priority := n\<rparr>]"

text \<open>Up to the point where \<open>restart\<close> enters the first process; \<open>init_keyboard\<close> is an argument.\<close>

definition kernel_main ::
  "(machine \<Rightarrow> fault + machine) \<Rightarrow> (nat \<Rightarrow> 32 word) \<Rightarrow> 32 word \<Rightarrow> descriptor list \<Rightarrow> kernel \<Rightarrow> machine
   \<Rightarrow> fault + (kernel \<times> machine)" where
  "kernel_main init_keyboard entry task_stack gdt k mc =
     (let mc = disp_str (bytes_of ''-----'' @ [0x22] @ bytes_of ''kernel_main'' @ [0x22]
                         @ bytes_of '' begins-----'' @ [0x0A]) mc
      in case init_procs gdt 0 (task_table entry) SELECTOR_LDT_FIRST
                (task_stack + of_int STACK_SIZE_TOTAL) (k_procs k) of
           Inl e \<Rightarrow> Inl e
         | Inr ps \<Rightarrow>
             (let ps = set_priority 2 3 (set_priority 1 5 (set_priority 0 15 ps));
                  k = k\<lparr>k_procs := ps, k_reenter := 0, k_ticks := 0, k_ready := 0\<rparr>
              in case init_clock mc of
                   Inl e \<Rightarrow> Inl e
                 | Inr mc \<Rightarrow>
                     (case init_keyboard mc of Inl e \<Rightarrow> Inl e | Inr mc \<Rightarrow> Inr (k, mc))))"

section \<open>What schedule does\<close>

lemma pick_loop_bound:
  "pick_loop ps i g r = (g', r') \<Longrightarrow> g \<le> g' \<and> (\<forall>p \<in> set ps. p_ticks p \<le> g')"
proof (induction ps i g r rule: pick_loop.induct)
  case (2 p ps i g r)
  then show ?case by (cases "g < p_ticks p") fastforce+
qed simp

lemma pick_loop_first:
  "pick_loop ps i g r = (g', r') \<Longrightarrow>
   (g' = g \<and> r' = r)
   \<or> (\<exists>j < length ps. r' = i + j \<and> g < g' \<and> p_ticks (ps ! j) = g' \<and> (\<forall>l < j. p_ticks (ps ! l) < g'))"
proof (induction ps i g r rule: pick_loop.induct)
  case (2 p ps i g r)
  show ?case
  proof (cases "g < p_ticks p")
    case True
    with 2 have "(g' = p_ticks p \<and> r' = i)
      \<or> (\<exists>j < length ps. r' = Suc i + j \<and> p_ticks p < g' \<and> p_ticks (ps ! j) = g' \<and> (\<forall>l < j. p_ticks (ps ! l) < g'))"
      by simp
    then show ?thesis
    proof (elim disjE exE conjE)
      assume "g' = p_ticks p" "r' = i"
      then show ?thesis using True by (intro disjI2 exI [of _ 0]) simp
    next
      fix j assume "j < length ps" "r' = Suc i + j" "p_ticks p < g'" "p_ticks (ps ! j) = g'"
        "\<forall>l < j. p_ticks (ps ! l) < g'"
      then show ?thesis using True
        by (intro disjI2 exI [of _ "Suc j"]) (simp add: less_Suc_eq_0_disj all_conj_distrib, metis nth_Cons_0 nth_Cons_Suc)
    qed
  next
    case False
    with 2 have "(g' = g \<and> r' = r)
      \<or> (\<exists>j < length ps. r' = Suc i + j \<and> g < g' \<and> p_ticks (ps ! j) = g' \<and> (\<forall>l < j. p_ticks (ps ! l) < g'))"
      by simp
    then show ?thesis
    proof (elim disjE exE conjE)
      fix j assume "j < length ps" "r' = Suc i + j" "g < g'" "p_ticks (ps ! j) = g'"
        "\<forall>l < j. p_ticks (ps ! l) < g'"
      then show ?thesis using False
        by (intro disjI2 exI [of _ "Suc j"]) (auto simp: less_Suc_eq_0_disj)
    qed simp
  qed
qed simp

text \<open>The process that is chosen: the first of those with the most ticks.\<close>

definition first_max :: "process list \<Rightarrow> nat \<Rightarrow> bool" where
  "first_max ps r \<longleftrightarrow> r < length ps \<and> 0 < p_ticks (ps ! r)
     \<and> (\<forall>j < length ps. p_ticks (ps ! j) \<le> p_ticks (ps ! r)) \<and> (\<forall>j < r. p_ticks (ps ! j) < p_ticks (ps ! r))"

lemma pick_loop_zero:
  assumes "pick_loop ps 0 0 r = (g, r')"
  shows "g \<noteq> 0 \<longleftrightarrow> (\<exists>p \<in> set ps. 0 < p_ticks p)" "g \<noteq> 0 \<Longrightarrow> first_max ps r'"
proof -
  note b = pick_loop_bound [OF assms] and f = pick_loop_first [OF assms]
  show "g \<noteq> 0 \<longleftrightarrow> (\<exists>p \<in> set ps. 0 < p_ticks p)" using b f nth_mem by fastforce
  show "g \<noteq> 0 \<Longrightarrow> first_max ps r'" using b f by (auto simp: first_max_def)
qed

definition runnable :: "process list \<Rightarrow> bool" where
  "runnable ps \<longleftrightarrow> (\<exists>p \<in> set ps. 0 < p_ticks p)"

lemma schedule_runnable:
  assumes "runnable ps"
  shows "\<exists>r. schedule ps ready = Some (ps, r) \<and> first_max ps r"
proof -
  obtain g r where p: "pick_loop ps 0 0 ready = (g, r)" by force
  then show ?thesis using assms pick_loop_zero [OF p] by (subst schedule.simps) (simp add: runnable_def)
qed

lemma schedule_refill:
  assumes "\<not> runnable ps"
  shows "\<exists>r. schedule ps ready = schedule (refill ps) r"
proof -
  obtain g r where p: "pick_loop ps 0 0 ready = (g, r)" by force
  then show ?thesis using assms pick_loop_zero [OF p] by (subst schedule.simps) (auto simp: runnable_def)
qed

lemma schedule_some:
  assumes "schedule ps ready = Some x"
  shows "runnable ps \<or> (\<exists>p \<in> set ps. 0 < p_priority p)"
  using assms
proof (rule schedule.raw_induct
    [where P = "\<lambda>ps ready x. runnable ps \<or> (\<exists>p \<in> set ps. 0 < p_priority p)", rotated])
  fix schedule :: "process list \<Rightarrow> nat \<Rightarrow> (process list \<times> nat) option" and ps ready x
  assume ih: "\<And>ps ready x. schedule ps ready = Some x \<Longrightarrow> runnable ps \<or> (\<exists>p \<in> set ps. 0 < p_priority p)"
    and s: "(case pick_loop ps 0 0 ready of (g, r) \<Rightarrow> if g \<noteq> 0 then Some (ps, r) else schedule (refill ps) r) = Some x"
  obtain g r where p: "pick_loop ps 0 0 ready = (g, r)" by force
  show "runnable ps \<or> (\<exists>p \<in> set ps. 0 < p_priority p)"
  proof (cases "g = 0")
    case True
    with s p have "schedule (refill ps) r = Some x" by simp
    from ih [OF this] show ?thesis by (auto simp: runnable_def refill_def)
  next
    case False
    then show ?thesis using pick_loop_zero [OF p] by (simp add: runnable_def)
  qed
qed

lemma schedule_total:
  assumes "runnable ps \<or> (\<exists>p \<in> set ps. 0 < p_priority p)"
  shows "\<exists>r. schedule ps ready = Some (if runnable ps then ps else refill ps, r)
    \<and> first_max (if runnable ps then ps else refill ps) r"
proof (cases "runnable ps")
  case True
  then show ?thesis using schedule_runnable by simp
next
  case False
  then have "runnable (refill ps)" using assms by (auto simp: runnable_def refill_def)
  then show ?thesis using False schedule_refill [OF False, of ready] schedule_runnable by fastforce
qed

text \<open>
  C6: \<open>schedule\<close> returns exactly when some process has ticks left or a positive priority. It then
  hands the processor to the first of the processes with the most ticks left; the tick counters
  are refilled from the priorities first when, and only when, nobody had any left.
\<close>

theorem schedule_correct:
  "(\<exists>p \<in> set ps. 0 < p_ticks p \<or> 0 < p_priority p)
     = (\<exists>r. schedule ps ready = Some (if runnable ps then ps else refill ps, r)
          \<and> first_max (if runnable ps then ps else refill ps) r)
   \<and> ((\<exists>x. schedule ps ready = Some x) = (\<exists>p \<in> set ps. 0 < p_ticks p \<or> 0 < p_priority p))"
proof -
  have e: "(\<exists>p \<in> set ps. 0 < p_ticks p \<or> 0 < p_priority p) = (runnable ps \<or> (\<exists>p \<in> set ps. 0 < p_priority p))"
    by (auto simp: runnable_def)
  show ?thesis unfolding e using schedule_some [of ps ready] schedule_total [of ps ready] by blast
qed

section \<open>Sharing the processor\<close>

text \<open>\<open>n\<close> clock interrupts, and the processes they were charged to.\<close>

fun clock_run :: "nat \<Rightarrow> kernel \<Rightarrow> (kernel \<times> nat list) option" where
  "clock_run 0 k = Some (k, [])"
| "clock_run (Suc n) k =
     (case clock_handler k of
        None \<Rightarrow> None
      | Some k' \<Rightarrow> (case clock_run n k' of None \<Rightarrow> None | Some (k'', tr) \<Rightarrow> Some (k'', k_ready k # tr)))"

abbreviation (input) tick_list :: "kernel \<Rightarrow> int list" where
  "tick_list k \<equiv> map p_ticks (k_procs k)"

abbreviation (input) priority_list :: "kernel \<Rightarrow> int list" where
  "priority_list k \<equiv> map p_priority (k_procs k)"

definition sched_inv :: "kernel \<Rightarrow> bool" where
  "sched_inv k \<longleftrightarrow> k_reenter k = 0 \<and> k_ready k < length (k_procs k) \<and> 0 < p_ticks (k_procs k ! k_ready k)
     \<and> (\<forall>p \<in> set (k_procs k). 0 \<le> p_ticks p \<and> p_ticks p < 2 ^ 31 \<and> 0 \<le> p_priority p \<and> p_priority p < 2 ^ 31)
     \<and> (\<exists>p \<in> set (k_procs k). 0 < p_priority p)"

definition charge :: "kernel \<Rightarrow> process list" where
  "charge k = (k_procs k)[k_ready k := (k_procs k ! k_ready k)\<lparr>p_ticks := p_ticks (k_procs k ! k_ready k) - 1\<rparr>]"

lemma charge_lists:
  assumes "sched_inv k"
  shows "map p_ticks (charge k) = (tick_list k)[k_ready k := tick_list k ! k_ready k - 1]"
    "map p_priority (charge k) = priority_list k" "length (charge k) = length (k_procs k)"
    "\<forall>p \<in> set (charge k). 0 \<le> p_ticks p \<and> p_ticks p < 2 ^ 31 \<and> 0 \<le> p_priority p \<and> p_priority p < 2 ^ 31"
proof -
  let ?r = "k_ready k" and ?p = "k_procs k ! k_ready k"
  have r: "?r < length (k_procs k)" using assms by (simp add: sched_inv_def)
  then have m: "?p \<in> set (k_procs k)" by simp
  show "map p_ticks (charge k) = (tick_list k)[?r := tick_list k ! ?r - 1]"
    using r by (simp add: charge_def map_update)
  show "map p_priority (charge k) = priority_list k"
    using r by (simp add: charge_def map_update) (metis length_map list_update_id nth_map)
  show "length (charge k) = length (k_procs k)" by (simp add: charge_def)
  have "set (charge k) \<subseteq> insert (?p\<lparr>p_ticks := p_ticks ?p - 1\<rparr>) (set (k_procs k))"
    unfolding charge_def by (rule set_update_subset_insert)
  moreover have all: "\<forall>p \<in> set (k_procs k). 0 \<le> p_ticks p \<and> p_ticks p < 2 ^ 31 \<and> 0 \<le> p_priority p \<and> p_priority p < 2 ^ 31"
    and "0 < p_ticks ?p" using assms unfolding sched_inv_def by blast+
  moreover have "0 \<le> p_ticks ?p - 1 \<and> p_ticks ?p - 1 < 2 ^ 31 \<and> 0 \<le> p_priority ?p \<and> p_priority ?p < 2 ^ 31"
    using all m \<open>0 < p_ticks ?p\<close> by (smt (verit))
  ultimately show "\<forall>p \<in> set (charge k). 0 \<le> p_ticks p \<and> p_ticks p < 2 ^ 31 \<and> 0 \<le> p_priority p \<and> p_priority p < 2 ^ 31"
    by (auto simp del: power_numeral)
qed

lemma refill_lists:
  "map p_ticks (refill ps) = map p_priority ps" "map p_priority (refill ps) = map p_priority ps"
  by (simp_all add: refill_def comp_def)

text \<open>
  One interrupt: the running process is charged; while somebody has ticks left they are all that
  changes, and otherwise everybody's ticks are refilled.
\<close>

lemma clock_step:
  assumes inv: "sched_inv k"
  defines "ps \<equiv> if runnable (charge k) then charge k else refill (charge k)"
  shows "\<exists>k'. clock_handler k = Some k' \<and> k_procs k' = ps \<and> sched_inv k'"
proof -
  let ?p = "k_procs k ! k_ready k"
  have bnd: "0 < p_ticks ?p" "p_ticks ?p < 2 ^ 31" and r: "k_ready k < length (k_procs k)" and re: "k_reenter k = 0"
    using inv by (auto simp: sched_inv_def)
  then have w: "s32 (p_ticks ?p - 1) = p_ticks ?p - 1" by (intro s32_id) linarith+
  note cl = charge_lists [OF inv]
  have prio: "\<exists>p \<in> set (charge k). 0 < p_priority p"
  proof -
    have "set (map p_priority (charge k)) = set (priority_list k)" using cl(2) by simp
    moreover have "\<exists>x \<in> set (priority_list k). 0 < x" using inv by (auto simp: sched_inv_def)
    ultimately have "\<exists>x \<in> set (map p_priority (charge k)). 0 < x" by simp
    then show ?thesis by auto
  qed
  have handler: "clock_handler k = (if 1 < p_ticks ?p
      then Some (k\<lparr>k_ticks := s32 (k_ticks k + 1), k_procs := charge k\<rparr>)
      else (case schedule (charge k) (k_ready k) of None \<Rightarrow> None
        | Some (ps, ready) \<Rightarrow> Some (k\<lparr>k_ticks := s32 (k_ticks k + 1), k_procs := ps, k_ready := ready\<rparr>)))"
    using re r by (simp add: clock_handler_def Let_def w charge_def split: option.split)
  show ?thesis
  proof (cases "1 < p_ticks ?p")
    case True
    have at: "charge k ! k_ready k = ?p\<lparr>p_ticks := p_ticks ?p - 1\<rparr>" using r by (simp add: charge_def)
    moreover have "charge k ! k_ready k \<in> set (charge k)" using r cl(3) by (intro nth_mem) simp
    ultimately have "runnable (charge k)" using True unfolding runnable_def by force
    then show ?thesis using True handler inv cl prio at by (auto simp: ps_def sched_inv_def)
  next
    case False
    obtain r' where s: "schedule (charge k) (k_ready k) = Some (ps, r')" and f: "first_max ps r'"
      using schedule_total [of "charge k" "k_ready k"] prio by (auto simp: ps_def)
    have "\<forall>p \<in> set ps. 0 \<le> p_ticks p \<and> p_ticks p < 2 ^ 31 \<and> 0 \<le> p_priority p \<and> p_priority p < 2 ^ 31"
      using cl(4) by (auto simp: ps_def refill_def)
    moreover have "\<exists>p \<in> set ps. 0 < p_priority p" using prio by (auto simp: ps_def refill_def)
    ultimately show ?thesis using False handler s f re by (simp add: sched_inv_def first_max_def)
  qed
qed

lemma sum_list_charge:
  assumes "sched_inv k"
  shows "sum_list (map p_ticks (charge k)) = sum_list (tick_list k) - 1"
proof -
  have "k_ready k < length (tick_list k)" using assms by (simp add: sched_inv_def)
  then show ?thesis unfolding charge_lists(1) [OF assms] by (simp add: sum_list_update_int)
qed

lemma runnable_iff_sum:
  assumes "\<forall>p \<in> set ps. 0 \<le> p_ticks p"
  shows "runnable ps \<longleftrightarrow> 0 < sum_list (map p_ticks ps)"
proof -
  have "sum_list (map p_ticks ps) = 0 \<longleftrightarrow> (\<forall>p \<in> set ps. p_ticks p = 0)"
    using assms by (subst sum_list_nonneg_eq_0_iff) auto
  moreover have "0 \<le> sum_list (map p_ticks ps)" using assms by (intro sum_list_nonneg) auto
  ultimately show ?thesis using assms by (force simp: runnable_def)
qed

lemma epoch:
  assumes "sched_inv k" "sum_list (tick_list k) = int (Suc m)"
  shows "\<exists>k' tr. clock_run (Suc m) k = Some (k', tr) \<and> sched_inv k' \<and> tick_list k' = priority_list k
     \<and> priority_list k' = priority_list k \<and> (\<forall>i < length (k_procs k). int (count_list tr i) = tick_list k ! i)"
  using assms
proof (induction m arbitrary: k)
  case (0 k)
  note cl = charge_lists [OF 0(1)]
  have z: "sum_list (map p_ticks (charge k)) = 0" using sum_list_charge [OF 0(1)] 0(2) by simp
  then have nr: "\<not> runnable (charge k)" using runnable_iff_sum [of "charge k"] cl(4) by simp
  obtain k' where k': "clock_handler k = Some k'" "k_procs k' = refill (charge k)" "sched_inv k'"
    using clock_step [OF 0(1)] nr by auto
  have "int (count_list [k_ready k] i) = tick_list k ! i" if i: "i < length (k_procs k)" for i
  proof -
    have "\<forall>x \<in> set (map p_ticks (charge k)). x = 0"
      using z cl(4) by (subst (asm) sum_list_nonneg_eq_0_iff) auto
    then have "map p_ticks (charge k) ! i = 0" using i cl(3) by (metis length_map nth_mem)
    then show ?thesis unfolding cl(1) using i by (auto simp: nth_list_update split: if_splits)
  qed
  then show ?case using k' cl(2) by (simp add: refill_lists)
next
  case (Suc m k)
  note cl = charge_lists [OF Suc.prems(1)]
  have z: "sum_list (map p_ticks (charge k)) = int (Suc m)" using sum_list_charge [OF Suc.prems(1)] Suc.prems(2) by simp
  then have r: "runnable (charge k)" using runnable_iff_sum [of "charge k"] cl(4) by simp
  obtain k1 where k1: "clock_handler k = Some k1" "k_procs k1 = charge k" "sched_inv k1"
    using clock_step [OF Suc.prems(1)] r by auto
  obtain k' tr where ih: "clock_run (Suc m) k1 = Some (k', tr)" "sched_inv k'" "tick_list k' = priority_list k1"
      "priority_list k' = priority_list k1"
      "\<forall>i < length (k_procs k1). int (count_list tr i) = tick_list k1 ! i"
    using Suc.IH [OF k1(3)] z k1(2) by auto
  have "int (count_list (k_ready k # tr) i) = tick_list k ! i" if "i < length (k_procs k)" for i
    using ih(5) that k1(2) cl(1,3) by (auto simp: nth_list_update split: if_splits)
  then show ?case using ih k1 cl(2) by simp
qed

text \<open>
  C21: The processor is shared in proportion to the priorities. From a state in which the ticks of
  all processes are full, the next clock interrupts, as many as the priorities add up to, charge
  each process exactly as many ticks as its priority, and end in a state with full ticks again;
  the scheduler never hangs on the way.
\<close>

theorem clock_fair_share:
  assumes "sched_inv k" "tick_list k = priority_list k"
  shows "\<exists>k' tr. clock_run (nat (sum_list (priority_list k))) k = Some (k', tr)
     \<and> (\<forall>i < length (k_procs k). int (count_list tr i) = p_priority (k_procs k ! i))
     \<and> sched_inv k' \<and> tick_list k' = priority_list k' \<and> priority_list k' = priority_list k"
proof -
  have "0 < sum_list (tick_list k)"
  proof -
    have "k_procs k ! k_ready k \<in> set (k_procs k)" "0 < p_ticks (k_procs k ! k_ready k)"
      using assms(1) by (auto simp: sched_inv_def)
    then have "runnable (k_procs k)" by (auto simp: runnable_def)
    then show ?thesis using runnable_iff_sum [of "k_procs k"] assms(1) by (simp add: sched_inv_def)
  qed
  then obtain m where m: "sum_list (tick_list k) = int (Suc m)"
    by (metis gr0_implies_Suc zero_less_imp_eq_int)
  from epoch [OF assms(1) m] show ?thesis using assms(2) m
    by (metis (no_types, lifting) nat_int nth_map)
qed

definition zero_frame :: stack_frame where
  "zero_frame = \<lparr>sf_gs = 0, sf_fs = 0, sf_es = 0, sf_ds = 0, sf_edi = 0, sf_esi = 0, sf_ebp = 0,
     sf_kernel_esp = 0, sf_ebx = 0, sf_edx = 0, sf_ecx = 0, sf_eax = 0, sf_retaddr = 0, sf_eip = 0,
     sf_cs = 0, sf_eflags = 0, sf_esp = 0, sf_ss = 0\<rparr>"

definition proc_with :: "int \<Rightarrow> process" where
  "proc_with n = \<lparr>regs = zero_frame, ldt_sel = 0, ldts = [], p_ticks = n, p_priority = n, p_pid = 0, p_name = []\<rparr>"

definition two_procs :: kernel where
  "two_procs = \<lparr>k_procs = [proc_with 2, proc_with 1], k_ready = 0, k_ticks = 0, k_reenter = 0\<rparr>"

theorem clock_fair_share_witness:
  "\<exists>k' tr. clock_run 3 two_procs = Some (k', tr) \<and> count_list tr 0 = 2 \<and> count_list tr 1 = 1"
proof -
  have "sched_inv two_procs" "tick_list two_procs = priority_list two_procs"
    by (simp_all add: two_procs_def sched_inv_def proc_with_def)
  from clock_fair_share [OF this] show ?thesis
    by (auto simp: two_procs_def proc_with_def less_Suc_eq)
qed

section \<open>Starvation\<close>

definition starved :: "nat \<Rightarrow> kernel \<Rightarrow> bool" where
  "starved j k \<longleftrightarrow> j < length (k_procs k) \<and> k_ready k \<noteq> j
     \<and> p_ticks (k_procs k ! j) \<le> 0 \<and> p_priority (k_procs k ! j) \<le> 0"

lemma starved_step:
  assumes "starved j k" "clock_handler k = Some k'"
  shows "starved j k'"
proof -
  define ps where "ps = (k_procs k)[k_ready k := (k_procs k ! k_ready k)
      \<lparr>p_ticks := s32 (p_ticks (k_procs k ! k_ready k) - 1)\<rparr>]"
  have ps: "j < length ps" "ps ! j = k_procs k ! j" using assms(1) by (auto simp: ps_def starved_def)
  have "starved j (k\<lparr>k_ticks := t, k_procs := ps', k_ready := r\<rparr>)"
    if "schedule ps (k_ready k) = Some (ps', r)" for ps' r t
  proof -
    have "ps' = (if runnable ps then ps else refill ps)" "first_max ps' r"
      using schedule_total [of ps "k_ready k"] schedule_some [OF that] that by auto
    then show ?thesis using assms(1) ps by (cases "runnable ps") (auto simp: starved_def first_max_def refill_def)
  qed
  then show ?thesis
    using assms ps
    by (auto simp: clock_handler_def Let_def ps_def [symmetric] starved_def split: if_splits option.splits)
qed

lemma starved_run: "starved j k \<Longrightarrow> clock_run n k = Some (k', tr) \<Longrightarrow> j \<notin> set tr \<and> starved j k'"
proof (induction n arbitrary: k tr)
  case (Suc n)
  then show ?case using starved_step [OF Suc.prems(1)]
    by (auto simp: starved_def split: option.splits)
qed simp

section \<open>Booting\<close>

definition all_zero_proc :: process where
  "all_zero_proc = proc_with 0"

text \<open>Process \<open>i\<close> as \<open>kernel_main\<close> leaves it, apart from ticks and priority.\<close>

definition booted_proc :: "descriptor list \<Rightarrow> (nat \<Rightarrow> 32 word) \<Rightarrow> 32 word \<Rightarrow> nat \<Rightarrow> process \<Rightarrow> bool" where
  "booted_proc gdt entry task_stack i p \<longleftrightarrow>
     p_pid p = of_nat i \<and> ldt_sel p = SELECTOR_LDT_FIRST + of_nat (8 * i)
     \<and> sf_eip (regs p) = entry i \<and> sf_esp (regs p) = task_stack + of_nat (0x8000 * (4 - i))
     \<and> sf_cs (regs p) = 0x5 \<and> sf_ds (regs p) = 0xD \<and> sf_es (regs p) = 0xD \<and> sf_fs (regs p) = 0xD
     \<and> sf_ss (regs p) = 0xD \<and> sf_gs (regs p) = 0x19 \<and> sf_eflags (regs p) = 0x1202
     \<and> ldts p = [(gdt ! 1)\<lparr>attr1 := 0xB8\<rparr>, (gdt ! 2)\<lparr>attr1 := 0xB2\<rparr>]"

lemma init_clock_spec:
  assumes "length (mc_irq_table mc) = NR_IRQ"
  shows "\<exists>mc'. init_clock mc = Inr mc' \<and> \<not> irq_masked mc' CLOCK_IRQ \<and> mc_irq_table mc' ! CLOCK_IRQ = clock_irq_handler
    \<and> drop (length (mc_out mc)) (take (length (mc_out mc) + 3) (mc_out mc')) = [(TIMER_MODE, 0x34), (TIMER0, 0x9B), (TIMER0, 0x2E)]"
proof -
  define mc1 where "mc1 = out_byte TIMER0 (of_int (drop_bit 8 (TIMER_FREQ div HZ)))
      (out_byte TIMER0 (of_int (TIMER_FREQ div HZ)) (out_byte TIMER_MODE RATE_GENERATOR mc))"
  have t: "mc_irq_table mc1 = mc_irq_table mc"
    "mc_out mc1 = mc_out mc @ [(TIMER_MODE, 0x34), (TIMER0, 0x9B), (TIMER0, 0x2E)]"
    by (simp_all add: mc1_def out_byte_def const_defs)
  obtain mc2 where mc2: "put_irq_handler CLOCK_IRQ clock_irq_handler mc1 = Inr mc2"
      "\<not> irq_masked (enable_irq CLOCK_IRQ mc2) CLOCK_IRQ" "mc_irq_table (enable_irq CLOCK_IRQ mc2) ! CLOCK_IRQ = clock_irq_handler"
    using install_irq [of CLOCK_IRQ mc1 clock_irq_handler] assms t by (auto simp: const_defs)
  then have o: "\<exists>xs. mc_out (enable_irq CLOCK_IRQ mc2) = mc_out mc1 @ xs"
    by (auto simp: put_irq_handler_def enable_irq_def disable_irq_def out_byte_def Let_def split: if_splits)
  have "init_clock mc = Inr (enable_irq CLOCK_IRQ mc2)"
    using mc2(1) by (simp add: init_clock_def Let_def mc1_def)
  then show ?thesis using mc2 o t by auto
qed

lemma task_selectors: "task_selector 0 = 0x5" "task_selector 1 = 0xD"
  "ucast ((SELECTOR_KERNEL_GS AND SA_RPL_MASK) OR RPL_TASK) = (0x19 :: 32 word)"
  "DA_C OR push_bit 5 PRIVILEGE_TASK = 0xB8" "DA_DRW OR push_bit 5 PRIVILEGE_TASK = 0xB2"
  by (simp_all add: task_selector_def prot_defs const_defs)

lemma init_proc_booted:
  assumes "initial_eip t = entry i" "sel = SELECTOR_LDT_FIRST + of_nat (8 * i)"
    "stack = task_stack + of_nat (0x8000 * (4 - i))"
  shows "booted_proc gdt entry task_stack i (init_proc gdt i t sel stack p)"
  using assms by (simp add: booted_proc_def init_proc_def task_selectors)
    (simp add: prot_defs)

lemma less_4: "i < 4 \<Longrightarrow> i = 0 \<or> i = 1 \<or> i = 2 \<or> i = (3 :: nat)"
  by linarith

lemma all_less_4: "(\<forall>i < 4. P i) \<longleftrightarrow> P 0 \<and> P 1 \<and> P 2 \<and> P (3 :: nat)"
  by (auto dest!: less_4)

lemma length_4: "length xs = 4 \<Longrightarrow> \<exists>a b c d. xs = [a, b, c, d]"
  by (auto simp: numeral_eq_Suc length_Suc_conv)

lemma booted_proc_ticks [simp]:
  "booted_proc gdt entry task_stack i (p\<lparr>p_ticks := n, p_priority := m\<rparr>) = booted_proc gdt entry task_stack i p"
  by (simp add: booted_proc_def)

lemma init_procs_booted:
  assumes "length ps = 4"
  shows "\<exists>qs. init_procs gdt 0 (task_table entry) SELECTOR_LDT_FIRST (task_stack + of_int STACK_SIZE_TOTAL) ps = Inr qs
    \<and> length qs = 4 \<and> (\<forall>i < 4. booted_proc gdt entry task_stack i (qs ! i))
    \<and> map p_ticks qs = map p_ticks ps \<and> map p_priority qs = map p_priority ps"
proof -
  obtain a b c d where ps: "ps = [a, b, c, d]"
    using length_4 [OF assms] by blast
  define t where "t i = task_table entry ! i" for i
  define sel stk where "sel i = SELECTOR_LDT_FIRST + word_of_nat (8 * i)"
    and "stk i = task_stack + word_of_nat (0x8000 * (4 - i))" for i
  have e: "init_procs gdt 0 (task_table entry) SELECTOR_LDT_FIRST (task_stack + of_int STACK_SIZE_TOTAL) ps
      = Inr [init_proc gdt 0 (t 0) (sel 0) (stk 0) a, init_proc gdt 1 (t 1) (sel 1) (stk 1) b,
             init_proc gdt 2 (t 2) (sel 2) (stk 2) c, init_proc gdt 3 (t 3) (sel 3) (stk 3) d]"
    by (simp add: ps t_def task_table_def bytes_of_def sel_def stk_def STACK_SIZE_TOTAL_def STACK_SIZE_TTY_def
        STACK_SIZE_TESTA_def STACK_SIZE_TESTB_def STACK_SIZE_TESTC_def numeral_2_eq_2 numeral_3_eq_3)
       (simp add: add.commute)
  have "booted_proc gdt entry task_stack i (init_proc gdt i (t i) (sel i) (stk i) p)" if "i < 4" for i p
  proof (rule init_proc_booted)
    show "initial_eip (t i) = entry i" using that by (auto simp: t_def task_table_def all_less_4 dest!: less_4)
  qed (simp_all add: sel_def stk_def)
  moreover have "p_ticks (init_proc gdt i x y z p) = p_ticks p" "p_priority (init_proc gdt i x y z p) = p_priority p"
    for i x y z p by (simp_all add: init_proc_def)
  ultimately show ?thesis unfolding e by (simp add: ps all_less_4)
qed

lemma kernel_main_spec:
  assumes "length (k_procs k) = NR_TASKS" "length (mc_irq_table mc) = NR_IRQ"
    and kb: "\<forall>mc. \<exists>mc'. init_kb mc = Inr mc' \<and> (irq_masked mc' 0 = irq_masked mc 0) \<and> mc_irq_table mc' ! 0 = mc_irq_table mc ! 0"
  shows "\<exists>k' mc'. kernel_main init_kb entry task_stack gdt k mc = Inr (k', mc')
     \<and> length (k_procs k') = NR_TASKS
     \<and> (\<forall>i < NR_TASKS. booted_proc gdt entry task_stack i (k_procs k' ! i))
     \<and> map p_ticks (k_procs k') = [15, 5, 3, p_ticks (k_procs k ! 3)]
     \<and> map p_priority (k_procs k') = [15, 5, 3, p_priority (k_procs k ! 3)]
     \<and> k_ready k' = 0 \<and> k_reenter k' = 0 \<and> k_ticks k' = 0
     \<and> \<not> irq_masked mc' CLOCK_IRQ \<and> mc_irq_table mc' ! CLOCK_IRQ = clock_irq_handler"
proof -
  have "length (k_procs k) = 4" using assms(1) by (simp add: NR_TASKS_def)
  from init_procs_booted [OF this, of gdt entry task_stack]
  obtain qs where q: "init_procs gdt 0 (task_table entry) SELECTOR_LDT_FIRST (task_stack + of_int STACK_SIZE_TOTAL) (k_procs k) = Inr qs"
    "length qs = 4" "\<forall>i < 4. booted_proc gdt entry task_stack i (qs ! i)"
    "map p_ticks qs = map p_ticks (k_procs k)" "map p_priority qs = map p_priority (k_procs k)"
    by blast
  define ps where "ps = set_priority 2 3 (set_priority 1 5 (set_priority 0 15 qs))"
  obtain a b c d where qs: "qs = [a, b, c, d]" using length_4 [OF q(2)] by blast
  have d: "p_ticks d = p_ticks (k_procs k ! 3)" "p_priority d = p_priority (k_procs k ! 3)"
    using arg_cong [OF q(4), of "\<lambda>xs. xs ! 3"] arg_cong [OF q(5), of "\<lambda>xs. xs ! 3"] assms(1)
    by (simp_all add: qs NR_TASKS_def)
  have ps: "length ps = 4" "\<forall>i < 4. booted_proc gdt entry task_stack i (ps ! i)"
    "map p_ticks ps = [15, 5, 3, p_ticks (k_procs k ! 3)]" "map p_priority ps = [15, 5, 3, p_priority (k_procs k ! 3)]"
    using q(3) d by (simp_all add: ps_def qs set_priority_def all_less_4)
  define mc1 where "mc1 = disp_str (bytes_of ''-----'' @ [0x22] @ bytes_of ''kernel_main'' @ [0x22]
      @ bytes_of '' begins-----'' @ [0x0A]) mc"
  have "mc_irq_table mc1 = mc_irq_table mc" by (simp add: mc1_def disp_str_def disp_color_str_def split: prod.split option.split)
  then obtain mc2 where mc2: "init_clock mc1 = Inr mc2" "\<not> irq_masked mc2 CLOCK_IRQ"
      "mc_irq_table mc2 ! CLOCK_IRQ = clock_irq_handler"
    using init_clock_spec [of mc1] assms(2) by auto
  obtain mc3 where mc3: "init_kb mc2 = Inr mc3" "irq_masked mc3 0 = irq_masked mc2 0" "mc_irq_table mc3 ! 0 = mc_irq_table mc2 ! 0"
    using kb by blast
  have "kernel_main init_kb entry task_stack gdt k mc =
      Inr (k\<lparr>k_procs := ps, k_reenter := 0, k_ticks := 0, k_ready := 0\<rparr>, mc3)"
    unfolding kernel_main_def Let_def mc1_def [symmetric] q(1) sum.case mc2(1) ps_def [symmetric] mc3(1) ..
  then show ?thesis using ps mc2 mc3 by (simp add: NR_TASKS_def CLOCK_IRQ_def)
qed

text \<open>
  \<open>kernel_main\<close> brings up the four processes: each has its own pid, the LDT selector whose
  descriptor \<open>init_prot\<close> prepared, its task's entry point, segments of privilege 1 (code \<open>0x5\<close>,
  data \<open>0xD\<close>) copied from the kernel's flat segments, interrupts enabled, and a stack of
  \<open>0x8000\<close> bytes of its own, the stacks lying one below the other in \<open>task_stack\<close>; the first
  process is ready, and clock interrupts reach \<open>clock_handler\<close>.
\<close>

theorem kernel_main_boots:
  assumes "length (k_procs k) = NR_TASKS" "length (mc_irq_table mc) = NR_IRQ"
    and kb: "\<forall>mc. \<exists>mc'. init_kb mc = Inr mc' \<and> (irq_masked mc' 0 = irq_masked mc 0) \<and> mc_irq_table mc' ! 0 = mc_irq_table mc ! 0"
  shows "\<exists>k' mc'. kernel_main init_kb entry task_stack gdt k mc = Inr (k', mc')
     \<and> length (k_procs k') = NR_TASKS
     \<and> (\<forall>i < NR_TASKS. booted_proc gdt entry task_stack i (k_procs k' ! i))
     \<and> map p_ticks (k_procs k') = [15, 5, 3, p_ticks (k_procs k ! 3)]
     \<and> map p_priority (k_procs k') = [15, 5, 3, p_priority (k_procs k ! 3)]
     \<and> k_ready k' = 0 \<and> k_reenter k' = 0 \<and> k_ticks k' = 0
     \<and> \<not> irq_masked mc' CLOCK_IRQ \<and> mc_irq_table mc' ! CLOCK_IRQ = clock_irq_handler"
  by (rule kernel_main_spec [OF assms])

definition bss_kernel :: kernel where
  "bss_kernel = \<lparr>k_procs = replicate NR_TASKS all_zero_proc, k_ready = 0, k_ticks = 0, k_reenter = 0\<rparr>"

theorem kernel_main_boots_witness:
  "\<exists>k' mc'. kernel_main Inr (\<lambda>i. 0x31000) 0x40000 (ps_gdt boot_state) bss_kernel (init_8259A blank_machine) = Inr (k', mc')
     \<and> map p_priority (k_procs k') = [15, 5, 3, 0] \<and> \<not> irq_masked mc' CLOCK_IRQ"
proof -
  have "length (k_procs bss_kernel) = NR_TASKS" "length (mc_irq_table (init_8259A blank_machine)) = NR_IRQ"
    by (simp_all add: bss_kernel_def init_8259A_def Let_def)
  from kernel_main_boots [OF this, where init_kb = Inr and entry = "\<lambda>i. 0x31000" and task_stack = "0x40000"
      and gdt = "ps_gdt boot_state"] show ?thesis
    by (auto simp: bss_kernel_def NR_TASKS_def all_zero_proc_def proc_with_def)
qed

text \<open>
  \<open>kernel_main\<close> gives ticks and a priority to the first three processes only. Of the statically
  zeroed table the fourth, \<open>TestC\<close>, keeps priority 0: no clock interrupt is ever charged to it
  and it is never chosen to run; 23 ticks are always shared 15, 5, 3 and 0.
\<close>

theorem testC_starves:
  assumes "\<forall>mc. \<exists>mc'. init_kb mc = Inr mc' \<and> (irq_masked mc' 0 = irq_masked mc 0) \<and> mc_irq_table mc' ! 0 = mc_irq_table mc ! 0"
    "length (mc_irq_table mc) = NR_IRQ"
  shows "\<exists>k mc'. kernel_main init_kb entry task_stack gdt bss_kernel mc = Inr (k, mc')
     \<and> (\<forall>n. \<exists>k' tr. clock_run n k = Some (k', tr) \<and> 3 \<notin> set tr \<and> k_ready k' \<noteq> 3)
     \<and> (\<exists>k' tr. clock_run 23 k = Some (k', tr) \<and> map (count_list tr) [0, 1, 2, 3] = [15, 5, 3, 0])"
proof -
  have "length (k_procs bss_kernel) = NR_TASKS" by (simp add: bss_kernel_def)
  from kernel_main_spec [OF this assms(2,1), of entry task_stack gdt]
  obtain k mc' where k: "kernel_main init_kb entry task_stack gdt bss_kernel mc = Inr (k, mc')"
    "length (k_procs k) = 4" "tick_list k = [15, 5, 3, 0]" "priority_list k = [15, 5, 3, 0]"
    "k_ready k = 0" "k_reenter k = 0"
    by (auto simp: bss_kernel_def NR_TASKS_def all_zero_proc_def proc_with_def)
  obtain a b c d where ps: "k_procs k = [a, b, c, d]" using length_4 [OF k(2)] by blast
  have inv: "sched_inv k" using k ps by (simp add: sched_inv_def)
  have st: "starved 3 k" using k ps by (simp add: starved_def)
  have run: "\<exists>k' tr. clock_run n k = Some (k', tr)" if "sched_inv k" for n k
    using that
  proof (induction n arbitrary: k)
    case (Suc n)
    obtain k1 where "clock_handler k = Some k1" "sched_inv k1" using clock_step [OF Suc.prems] by blast
    with Suc.IH [of k1] show ?case by auto
  qed simp
  have never: "\<forall>n. \<exists>k' tr. clock_run n k = Some (k', tr) \<and> 3 \<notin> set tr \<and> k_ready k' \<noteq> 3"
    using run [OF inv] starved_run [OF st] unfolding starved_def by blast
  have "sum_list (tick_list k) = int (Suc 22)" using k by simp
  then obtain k' tr where "clock_run (Suc 22) k = Some (k', tr)" "\<forall>i < length (k_procs k). int (count_list tr i) = tick_list k ! i"
    using epoch [OF inv] by blast
  then have e: "clock_run 23 k = Some (k', tr) \<and> map (count_list tr) [0, 1, 2, 3] = [15, 5, 3, 0]"
    unfolding k(2,3) all_less_4 by simp
  show ?thesis by (intro exI [of _ k] exI [of _ mc'] conjI k(1) never exI [of _ k'] exI [of _ tr] e)
qed

theorem testC_starves_witness:
  "\<exists>k mc'. kernel_main Inr (\<lambda>i. 0x31000) 0x40000 (ps_gdt boot_state) bss_kernel (init_8259A blank_machine) = Inr (k, mc')
     \<and> (\<forall>n. \<exists>k' tr. clock_run n k = Some (k', tr) \<and> 3 \<notin> set tr \<and> k_ready k' \<noteq> 3)
     \<and> (\<exists>k' tr. clock_run 23 k = Some (k', tr) \<and> map (count_list tr) [0, 1, 2, 3] = [15, 5, 3, 0])"
  by (rule testC_starves) (simp_all add: init_8259A_def Let_def)

text \<open>
  \<open>milli_delay\<close> returns at the first poll of the clock at which the requested number of
  milliseconds has passed, ten to a tick, and not before, as long as the wait is shorter than
  the two million ticks after which the product would overflow.
\<close>

theorem milli_delay_waits:
  assumes "\<forall>x \<in> set obs. t \<le> x \<and> x - t \<le> 2000000"
  shows "milli_delay ms (t # obs) = Some n \<longleftrightarrow>
     n < length obs \<and> ms \<le> 10 * (obs ! n - t) \<and> (\<forall>j < n. 10 * (obs ! j - t) < ms)"
proof -
  have "delay_polls t ms obs = Some n \<longleftrightarrow>
     n < length obs \<and> ms \<le> 10 * (obs ! n - t) \<and> (\<forall>j < n. 10 * (obs ! j - t) < ms)"
    using assms
  proof (induction obs arbitrary: n)
    case Nil
    then show ?case by simp
  next
    case (Cons x obs)
    have "s32 ((x - t) * 1000) = (x - t) * 1000" using Cons.prems by (intro s32_id) auto
    moreover have "(x - t) * 1000 sdiv HZ = 10 * (x - t)"
      using Cons.prems by (subst sdiv_nonneg) (auto simp: HZ_def)
    ultimately have x: "delay_polls t ms (x # obs) =
        (if 10 * (x - t) < ms then map_option Suc (delay_polls t ms obs) else Some 0)"
      by (simp only: delay_polls.simps)
    show ?case
    proof (cases n)
      case 0
      then show ?thesis by (auto simp: x simp del: delay_polls.simps)
    next
      case (Suc m)
      then show ?thesis using Cons.IH [of m] Cons.prems by (auto simp: x less_Suc_eq_0_disj simp del: delay_polls.simps)
    qed
  qed
  then show ?thesis by (simp add: milli_delay_def)
qed

theorem milli_delay_waits_witness:
  "milli_delay 25 [7, 8, 9, 10, 11] = Some 2"
  using milli_delay_waits [of "[8, 9, 10, 11]" 7 25 2] by (simp add: less_Suc_eq numeral_2_eq_2)

end
