(* ===== verification/Oranges_Stages.thy ===== *)
theory Oranges_Stages
  imports Oranges_Sched
begin

text \<open>
  How the processes of Orange'S came to be: the stages of the kernel before the one of the other
  theories, \<open>process/ring0_to_1\<close>, \<open>process/ring1_to_0\<close>, \<open>process/reenter\<close>, \<open>process/mult_proc\<close>,
  \<open>process/mult_proc_clean\<close>, \<open>sys_call\<close>, \<open>timer\<close> and \<open>scheduler\<close> under \<open>oranges/code\<close>. Modelled is what is
  different in them, \<open>kernel_main\<close> and the clock interrupt; the files they share with the last
  stage are the same there. \<open>k_ready\<close> is \<open>p_proc_ready\<close>, and fields that a stage does not have yet are
  left alone.
\<close>

definition banner :: "machine \<Rightarrow> machine" where
  "banner = disp_str (bytes_of ''-----'' @ [0x22] @ bytes_of ''kernel_main'' @ [0x22] @ bytes_of '' begins-----'' @ [0x0A])"

section \<open>One process\<close>

text \<open>The first process, without a name or a number.\<close>

definition init_first :: "descriptor list \<Rightarrow> 32 word \<Rightarrow> 32 word \<Rightarrow> process \<Rightarrow> process" where
  "init_first gdt testA stack p =
     p\<lparr>ldt_sel := SELECTOR_LDT_FIRST,
       ldts := [(gdt ! unat (drop_bit 3 SELECTOR_KERNEL_CS))\<lparr>attr1 := DA_C OR push_bit 5 PRIVILEGE_TASK\<rparr>,
                (gdt ! unat (drop_bit 3 SELECTOR_KERNEL_DS))\<lparr>attr1 := DA_DRW OR push_bit 5 PRIVILEGE_TASK\<rparr>],
       regs := (regs p)\<lparr>sf_cs := task_selector 0, sf_ds := task_selector 1, sf_es := task_selector 1,
                        sf_fs := task_selector 1, sf_ss := task_selector 1,
                        sf_gs := ucast ((SELECTOR_KERNEL_GS AND SA_RPL_MASK) OR RPL_TASK),
                        sf_eip := testA, sf_esp := stack, sf_eflags := 0x1202\<rparr>\<rparr>"

definition kernel_main_ring0_to_1 :: "32 word \<Rightarrow> 32 word \<Rightarrow> descriptor list \<Rightarrow> kernel \<Rightarrow> machine \<Rightarrow> fault + (kernel \<times> machine)" where
  "kernel_main_ring0_to_1 testA task_stack gdt k mc =
     (if k_procs k = [] then Inl OutOfBounds
      else Inr (k\<lparr>k_procs := (k_procs k)[0 := init_first gdt testA (task_stack + 0x8000) (k_procs k ! 0)], k_ready := 0\<rparr>, banner mc))"

definition kernel_main_reenter :: "32 word \<Rightarrow> 32 word \<Rightarrow> descriptor list \<Rightarrow> kernel \<Rightarrow> machine \<Rightarrow> fault + (kernel \<times> machine)" where
  "kernel_main_reenter testA task_stack gdt k mc =
     (if k_procs k = [] then Inl OutOfBounds
      else Inr (k\<lparr>k_procs := (k_procs k)[0 := init_first gdt testA (task_stack + 0x8000) (k_procs k ! 0)],
                  k_reenter := - 1, k_ready := 0\<rparr>, banner mc))"

section \<open>Several processes in turn\<close>

definition test_task :: "(nat \<Rightarrow> 32 word) \<Rightarrow> nat \<Rightarrow> string \<Rightarrow> task" where
  "test_task entry i name = \<lparr>initial_eip = entry i, stacksize = 0x8000, t_name = bytes_of name\<rparr>"

definition task_table2 :: "(nat \<Rightarrow> 32 word) \<Rightarrow> task list" where
  "task_table2 entry = [test_task entry 0 ''TestA'', test_task entry 1 ''TestB'']"

definition task_table3 :: "(nat \<Rightarrow> 32 word) \<Rightarrow> task list" where
  "task_table3 entry = [test_task entry 0 ''TestA'', test_task entry 1 ''TestB'', test_task entry 2 ''TestC'']"

definition kernel_main_mult_proc ::
  "(nat \<Rightarrow> 32 word) \<Rightarrow> 32 word \<Rightarrow> descriptor list \<Rightarrow> kernel \<Rightarrow> machine \<Rightarrow> fault + (kernel \<times> machine)" where
  "kernel_main_mult_proc entry task_stack gdt k mc =
     bindE (init_procs gdt 0 (task_table2 entry) SELECTOR_LDT_FIRST (task_stack + 0x10000) (k_procs k))
       (\<lambda>ps. Inr (k\<lparr>k_procs := ps, k_reenter := - 1, k_ready := 0\<rparr>, banner mc))"

definition install_clock :: "machine \<Rightarrow> fault + machine" where
  "install_clock mc = bindE (put_irq_handler CLOCK_IRQ clock_irq_handler mc) (\<lambda>mc. Inr (enable_irq CLOCK_IRQ mc))"

definition kernel_main_mult_proc_clean ::
  "(nat \<Rightarrow> 32 word) \<Rightarrow> 32 word \<Rightarrow> descriptor list \<Rightarrow> kernel \<Rightarrow> machine \<Rightarrow> fault + (kernel \<times> machine)" where
  "kernel_main_mult_proc_clean entry task_stack gdt k mc =
     bindE (init_procs gdt 0 (task_table3 entry) SELECTOR_LDT_FIRST (task_stack + 0x18000) (k_procs k))
       (\<lambda>ps. bindE (install_clock (banner mc)) (\<lambda>mc. Inr (k\<lparr>k_procs := ps, k_reenter := 0, k_ready := 0\<rparr>, mc)))"

definition kernel_main_sys_call ::
  "(nat \<Rightarrow> 32 word) \<Rightarrow> 32 word \<Rightarrow> descriptor list \<Rightarrow> kernel \<Rightarrow> machine \<Rightarrow> fault + (kernel \<times> machine)" where
  "kernel_main_sys_call entry task_stack gdt k mc =
     bindE (init_procs gdt 0 (task_table3 entry) SELECTOR_LDT_FIRST (task_stack + 0x18000) (k_procs k))
       (\<lambda>ps. bindE (install_clock (banner mc))
          (\<lambda>mc. Inr (k\<lparr>k_procs := ps, k_reenter := 0, k_ticks := 0, k_ready := 0\<rparr>, mc)))"

text \<open>From \<open>timer\<close> on the timer chip is programmed first, here by the calls that later became \<open>init_clock\<close>.\<close>

definition start_timer :: "machine \<Rightarrow> machine" where
  "start_timer mc =
     out_byte TIMER0 (of_int (drop_bit 8 (TIMER_FREQ div HZ)))
       (out_byte TIMER0 (of_int (TIMER_FREQ div HZ)) (out_byte TIMER_MODE RATE_GENERATOR mc))"

definition kernel_main_timer ::
  "(nat \<Rightarrow> 32 word) \<Rightarrow> 32 word \<Rightarrow> descriptor list \<Rightarrow> kernel \<Rightarrow> machine \<Rightarrow> fault + (kernel \<times> machine)" where
  "kernel_main_timer entry task_stack gdt k mc =
     bindE (init_procs gdt 0 (task_table3 entry) SELECTOR_LDT_FIRST (task_stack + 0x18000) (k_procs k))
       (\<lambda>ps. bindE (install_clock (start_timer (banner mc)))
          (\<lambda>mc. Inr (k\<lparr>k_procs := ps, k_reenter := 0, k_ticks := 0, k_ready := 0\<rparr>, mc)))"

definition kernel_main_scheduler ::
  "(nat \<Rightarrow> 32 word) \<Rightarrow> 32 word \<Rightarrow> descriptor list \<Rightarrow> kernel \<Rightarrow> machine \<Rightarrow> fault + (kernel \<times> machine)" where
  "kernel_main_scheduler entry task_stack gdt k mc =
     bindE (init_procs gdt 0 (task_table3 entry) SELECTOR_LDT_FIRST (task_stack + 0x18000) (k_procs k))
       (\<lambda>ps. bindE (install_clock (start_timer (banner mc)))
          (\<lambda>mc. Inr (k\<lparr>k_procs := set_priority 2 3 (set_priority 1 5 (set_priority 0 15 ps)),
                       k_reenter := 0, k_ticks := 0, k_ready := 0\<rparr>, mc)))"

section \<open>The clock interrupt\<close>

text \<open>\<open>p_proc_ready++\<close>, back to the start behind the last of \<open>NR_TASKS\<close> processes.\<close>

definition next_proc :: "nat \<Rightarrow> kernel \<Rightarrow> kernel" where
  "next_proc nr k = k\<lparr>k_ready := (if nr \<le> Suc (k_ready k) then 0 else Suc (k_ready k))\<rparr>"

definition clock_mult_proc :: "kernel \<times> machine \<Rightarrow> kernel \<times> machine" where
  "clock_mult_proc s = (case s of (k, mc) \<Rightarrow> (next_proc 2 k, disp_str (bytes_of ''#'') mc))"

definition clock_mult_proc_clean :: "kernel \<times> machine \<Rightarrow> kernel \<times> machine" where
  "clock_mult_proc_clean s =
     (case s of (k, mc) \<Rightarrow>
        (let mc = disp_str (bytes_of ''#'') mc
         in if k_reenter k \<noteq> 0 then (k, disp_str (bytes_of ''!'') mc) else (next_proc 3 k, mc)))"

definition clock_sys_call :: "kernel \<times> machine \<Rightarrow> kernel \<times> machine" where
  "clock_sys_call s =
     (case s of (k, mc) \<Rightarrow>
        (let mc = disp_str (bytes_of ''#'') mc; k = k\<lparr>k_ticks := s32 (k_ticks k + 1)\<rparr>
         in if k_reenter k \<noteq> 0 then (k, disp_str (bytes_of ''!'') mc) else (next_proc 3 k, mc)))"

definition clock_timer :: "kernel \<times> machine \<Rightarrow> kernel \<times> machine" where
  "clock_timer s =
     (case s of (k, mc) \<Rightarrow>
        (let k = k\<lparr>k_ticks := s32 (k_ticks k + 1)\<rparr>
         in if k_reenter k \<noteq> 0 then (k, mc) else (next_proc 3 k, mc)))"

section \<open>What the stages do\<close>

text \<open>Process \<open>i\<close> of \<open>n\<close> as \<open>kernel_main\<close> leaves it.\<close>

definition stage_proc :: "nat \<Rightarrow> descriptor list \<Rightarrow> (nat \<Rightarrow> 32 word) \<Rightarrow> 32 word \<Rightarrow> nat \<Rightarrow> process \<Rightarrow> bool" where
  "stage_proc n gdt entry task_stack i p \<longleftrightarrow>
     p_pid p = of_nat i \<and> ldt_sel p = SELECTOR_LDT_FIRST + of_nat (8 * i)
     \<and> sf_eip (regs p) = entry i \<and> sf_esp (regs p) = task_stack + of_nat (0x8000 * (n - i))
     \<and> sf_cs (regs p) = 0x5 \<and> sf_ds (regs p) = 0xD \<and> sf_es (regs p) = 0xD \<and> sf_fs (regs p) = 0xD
     \<and> sf_ss (regs p) = 0xD \<and> sf_gs (regs p) = 0x19 \<and> sf_eflags (regs p) = 0x1202
     \<and> ldts p = [(gdt ! 1)\<lparr>attr1 := 0xB8\<rparr>, (gdt ! 2)\<lparr>attr1 := 0xB2\<rparr>]"

lemma kernel_selectors: "unat (drop_bit 3 SELECTOR_KERNEL_CS) = 1" "unat (drop_bit 3 SELECTOR_KERNEL_DS) = 2"
  by (simp_all add: prot_defs)

lemma init_proc_stage:
  assumes "initial_eip t = entry i" "sel = SELECTOR_LDT_FIRST + of_nat (8 * i)" "stack = task_stack + of_nat (0x8000 * (n - i))"
  shows "stage_proc n gdt entry task_stack i (init_proc gdt i t sel stack p)"
  using assms by (simp add: stage_proc_def init_proc_def task_selectors kernel_selectors)

lemma init_procs_two:
  "init_procs gdt 0 (task_table2 entry) SELECTOR_LDT_FIRST (task_stack + 0x10000) [a, b] =
     Inr [init_proc gdt 0 (test_task entry 0 ''TestA'') (SELECTOR_LDT_FIRST + of_nat 0) (task_stack + of_nat 0x10000) a,
          init_proc gdt 1 (test_task entry 1 ''TestB'') (SELECTOR_LDT_FIRST + of_nat 8) (task_stack + of_nat 0x8000) b]"
  by (simp add: task_table2_def test_task_def bytes_of_def) (simp add: add.commute)

lemma init_procs_three:
  "init_procs gdt 0 (task_table3 entry) SELECTOR_LDT_FIRST (task_stack + 0x18000) [a, b, c] =
     Inr [init_proc gdt 0 (test_task entry 0 ''TestA'') (SELECTOR_LDT_FIRST + of_nat 0) (task_stack + of_nat 0x18000) a,
          init_proc gdt 1 (test_task entry 1 ''TestB'') (SELECTOR_LDT_FIRST + of_nat 8) (task_stack + of_nat 0x10000) b,
          init_proc gdt 2 (test_task entry 2 ''TestC'') (SELECTOR_LDT_FIRST + of_nat 16) (task_stack + of_nat 0x8000) c]"
  by (simp add: task_table3_def test_task_def bytes_of_def numeral_2_eq_2) (simp add: add.commute)

lemma install_clock_spec:
  assumes "length (mc_irq_table mc) = NR_IRQ"
  shows "\<exists>mc'. install_clock (banner mc) = Inr mc' \<and> \<not> irq_masked mc' CLOCK_IRQ \<and> mc_irq_table mc' ! CLOCK_IRQ = clock_irq_handler"
    "\<exists>mc'. install_clock (start_timer (banner mc)) = Inr mc' \<and> \<not> irq_masked mc' CLOCK_IRQ \<and> mc_irq_table mc' ! CLOCK_IRQ = clock_irq_handler"
proof -
  have b: "mc_irq_table (banner mc) = mc_irq_table mc"
    by (simp add: banner_def disp_str_def disp_color_str_def split: prod.split option.split)
  then have "length (mc_irq_table (banner mc)) = NR_IRQ" "length (mc_irq_table (start_timer (banner mc))) = NR_IRQ"
    using assms by (simp_all add: start_timer_def out_byte_def)
  then show "\<exists>mc'. install_clock (banner mc) = Inr mc' \<and> \<not> irq_masked mc' CLOCK_IRQ \<and> mc_irq_table mc' ! CLOCK_IRQ = clock_irq_handler"
    "\<exists>mc'. install_clock (start_timer (banner mc)) = Inr mc' \<and> \<not> irq_masked mc' CLOCK_IRQ \<and> mc_irq_table mc' ! CLOCK_IRQ = clock_irq_handler"
    using install_irq [of CLOCK_IRQ _ clock_irq_handler] by (fastforce simp: install_clock_def const_defs)+
qed

lemma all_less_3: "(\<forall>i < 3. P i) \<longleftrightarrow> P 0 \<and> P 1 \<and> P (2 :: nat)"
  by (auto simp: numeral_3_eq_3 less_Suc_eq numeral_2_eq_2)

lemma stage_proc_ticks [simp]:
  "stage_proc n gdt entry task_stack i (p\<lparr>p_ticks := t, p_priority := pr\<rparr>) = stage_proc n gdt entry task_stack i p"
  by (simp add: stage_proc_def)

lemma init_procs_stage:
  assumes "length ps = 3"
  shows "\<exists>qs. init_procs gdt 0 (task_table3 entry) SELECTOR_LDT_FIRST (task_stack + 0x18000) ps = Inr qs
    \<and> length qs = 3 \<and> (\<forall>i < 3. stage_proc 3 gdt entry task_stack i (qs ! i))"
proof -
  obtain a b c where ps: "ps = [a, b, c]" using assms by (auto simp: numeral_3_eq_3 length_Suc_conv)
  have "stage_proc 3 gdt entry task_stack i (init_proc gdt i (test_task entry i name) sel stack p)"
    if "sel = SELECTOR_LDT_FIRST + of_nat (8 * i)" "stack = task_stack + of_nat (0x8000 * (3 - i))" for i name sel stack p
    using that by (intro init_proc_stage) (simp_all add: test_task_def)
  note sp = this
  have "stage_proc 3 gdt entry task_stack 0 (init_proc gdt 0 (test_task entry 0 ''TestA'') (SELECTOR_LDT_FIRST + of_nat 0) (task_stack + of_nat 0x18000) a)"
    "stage_proc 3 gdt entry task_stack 1 (init_proc gdt 1 (test_task entry 1 ''TestB'') (SELECTOR_LDT_FIRST + of_nat 8) (task_stack + of_nat 0x10000) b)"
    "stage_proc 3 gdt entry task_stack 2 (init_proc gdt 2 (test_task entry 2 ''TestC'') (SELECTOR_LDT_FIRST + of_nat 16) (task_stack + of_nat 0x8000) c)"
    by (rule sp; simp)+
  then show ?thesis unfolding ps init_procs_three all_less_3 by auto
qed

lemma all_Suc_less: "(\<forall>i < Suc n. P i) \<longleftrightarrow> P n \<and> (\<forall>i < n. P i)"
  by (auto simp: less_Suc_eq)

definition booted :: "nat \<Rightarrow> descriptor list \<Rightarrow> (nat \<Rightarrow> 32 word) \<Rightarrow> 32 word \<Rightarrow> kernel \<Rightarrow> machine \<Rightarrow> bool" where
  "booted n gdt entry task_stack k mc \<longleftrightarrow>
     length (k_procs k) = n \<and> (\<forall>i < n. stage_proc n gdt entry task_stack i (k_procs k ! i))
     \<and> k_ready k = 0 \<and> k_reenter k = 0
     \<and> \<not> irq_masked mc CLOCK_IRQ \<and> mc_irq_table mc ! CLOCK_IRQ = clock_irq_handler"

lemma stages_boot:
  assumes "length (k_procs k) = 3" "length (mc_irq_table mc) = NR_IRQ"
  shows "\<exists>k' mc'. kernel_main_mult_proc_clean entry task_stack gdt k mc = Inr (k', mc') \<and> booted 3 gdt entry task_stack k' mc'"
    "\<exists>k' mc'. kernel_main_sys_call entry task_stack gdt k mc = Inr (k', mc') \<and> booted 3 gdt entry task_stack k' mc'"
    "\<exists>k' mc'. kernel_main_timer entry task_stack gdt k mc = Inr (k', mc') \<and> booted 3 gdt entry task_stack k' mc'"
    "\<exists>k' mc'. kernel_main_scheduler entry task_stack gdt k mc = Inr (k', mc') \<and> booted 3 gdt entry task_stack k' mc'
       \<and> map p_ticks (k_procs k') = [15, 5, 3] \<and> map p_priority (k_procs k') = [15, 5, 3]"
proof -
  note boot_defs = kernel_main_mult_proc_clean_def kernel_main_sys_call_def kernel_main_timer_def kernel_main_scheduler_def
  obtain qs where q: "init_procs gdt 0 (task_table3 entry) SELECTOR_LDT_FIRST (task_stack + 0x18000) (k_procs k) = Inr qs"
    "length qs = 3" "\<forall>i < 3. stage_proc 3 gdt entry task_stack i (qs ! i)"
    using init_procs_stage [OF assms(1)] by blast
  obtain mc1 mc2 where c: "install_clock (banner mc) = Inr mc1" "\<not> irq_masked mc1 CLOCK_IRQ" "mc_irq_table mc1 ! CLOCK_IRQ = clock_irq_handler"
    "install_clock (start_timer (banner mc)) = Inr mc2" "\<not> irq_masked mc2 CLOCK_IRQ" "mc_irq_table mc2 ! CLOCK_IRQ = clock_irq_handler"
    using install_clock_spec [OF assms(2)] by blast
  obtain a b d where qs: "qs = [a, b, d]" using q(2) by (auto simp: numeral_3_eq_3 length_Suc_conv)
  show "\<exists>k' mc'. kernel_main_mult_proc_clean entry task_stack gdt k mc = Inr (k', mc') \<and> booted 3 gdt entry task_stack k' mc'"
    "\<exists>k' mc'. kernel_main_sys_call entry task_stack gdt k mc = Inr (k', mc') \<and> booted 3 gdt entry task_stack k' mc'"
    "\<exists>k' mc'. kernel_main_timer entry task_stack gdt k mc = Inr (k', mc') \<and> booted 3 gdt entry task_stack k' mc'"
    using q c by (simp_all add: boot_defs booted_def)
  show "\<exists>k' mc'. kernel_main_scheduler entry task_stack gdt k mc = Inr (k', mc') \<and> booted 3 gdt entry task_stack k' mc'
     \<and> map p_ticks (k_procs k') = [15, 5, 3] \<and> map p_priority (k_procs k') = [15, 5, 3]"
    using q c by (simp add: boot_defs booted_def qs set_priority_def all_less_3)
qed

section \<open>Taking turns\<close>

text \<open>\<open>n\<close> clock interrupts, and the processes that were running when they came.\<close>

fun irq_run :: "(kernel \<times> machine \<Rightarrow> kernel \<times> machine) \<Rightarrow> nat \<Rightarrow> kernel \<times> machine \<Rightarrow> (kernel \<times> machine) \<times> nat list" where
  "irq_run clock 0 s = (s, [])"
| "irq_run clock (Suc n) s = (case irq_run clock n (clock s) of (s', tr) \<Rightarrow> (s', k_ready (fst s) # tr))"

lemma count_list_distinct: "distinct xs \<Longrightarrow> count_list xs x = (if x \<in> set xs then 1 else 0)"
  by (induction xs) (auto simp: count_list_0_iff)

locale round_robin =
  fixes clock :: "kernel \<times> machine \<Rightarrow> kernel \<times> machine" and nr :: nat
  assumes some_process: "0 < nr"
    and turn: "k_reenter (fst s) = 0 \<Longrightarrow> k_ready (fst s) < nr \<Longrightarrow> k_ready (fst (clock s)) = Suc (k_ready (fst s)) mod nr"
    and keeps: "k_reenter (fst (clock s)) = k_reenter (fst s)" "k_procs (fst (clock s)) = k_procs (fst s)"
begin

lemma irq_run_turns:
  assumes "k_reenter (fst s) = 0" "k_ready (fst s) < nr"
  shows "\<exists>s'. irq_run clock n s = (s', map (\<lambda>i. (k_ready (fst s) + i) mod nr) [0..<n])
    \<and> k_ready (fst s') = (k_ready (fst s) + n) mod nr \<and> k_procs (fst s') = k_procs (fst s)"
  using assms
proof (induction n arbitrary: s)
  case (Suc n)
  have "k_reenter (fst (clock s)) = 0" "k_ready (fst (clock s)) < nr"
    using Suc.prems some_process by (simp_all add: keeps turn)
  from Suc.IH [OF this] show ?case using Suc.prems
    by (auto simp: keeps turn mod_simps map_upt_Suc simp del: upt_Suc)
qed simp

lemma turns_rotate: "map (\<lambda>j. (r + j) mod nr) [0..<nr] = rotate r [0..<nr]"
  by (rule nth_equalityI) (simp_all add: nth_rotate)

lemma equal_turns: "i < nr \<Longrightarrow> count_list (map (\<lambda>j. (r + j) mod nr) [0..<nr * m]) i = m"
proof (induction m)
  case (Suc m)
  have "[0..<nr * Suc m] = [0..<nr * m] @ map (\<lambda>j. nr * m + j) [0..<nr]"
    using upt_add_eq_append [of 0 "nr * m" nr] by (simp add: add.commute map_add_upt)
  moreover have "map (\<lambda>j. (r + (nr * m + j)) mod nr) [0..<nr] = rotate r [0..<nr]"
    unfolding turns_rotate [symmetric] by (metis (no_types) add.left_commute mod_mult_self4)
  moreover have "count_list (rotate r [0..<nr]) i = 1"
    using Suc.prems by (simp add: count_list_distinct)
  ultimately show ?case using Suc by (simp add: comp_def)
qed simp

theorem equal_shares:
  assumes "k_reenter (fst s) = 0" "k_ready (fst s) < nr"
  shows "\<exists>s' tr. irq_run clock (nr * m) s = (s', tr) \<and> (\<forall>i < nr. count_list tr i = m)
    \<and> k_ready (fst s') = k_ready (fst s) \<and> k_procs (fst s') = k_procs (fst s)"
  using irq_run_turns [OF assms, of "nr * m"] assms(2) equal_turns by fastforce

end

lemmas next_turn = next_proc_def Let_def mod_Suc

interpretation mult_proc: round_robin clock_mult_proc 2
  by unfold_locales (auto simp: clock_mult_proc_def next_turn split: prod.splits)

interpretation mult_proc_clean: round_robin clock_mult_proc_clean 3
  by unfold_locales (auto simp: clock_mult_proc_clean_def next_turn split: prod.splits)

interpretation ticking: round_robin clock_sys_call 3
  by unfold_locales (auto simp: clock_sys_call_def next_turn split: prod.splits)

interpretation timed: round_robin clock_timer 3
  by unfold_locales (auto simp: clock_timer_def next_turn split: prod.splits)

text \<open>
  C22: The stages with three processes share the processor fairly: what \<open>kernel_main\<close> leaves behind is
  three processes of privilege 1, each with its own pid, LDT selector, entry point and stack, and a clock
  that interrupts; \<open>3 * m\<close> interrupts from there on find each of the processes running \<open>m\<close> times in the
  stages up to \<open>timer\<close>, whose clock goes round, and in the stage \<open>scheduler\<close> 23 interrupts find them
  running 15, 5 and 3 times, as their priorities say.
\<close>

theorem stages_share:
  assumes "length (k_procs k) = 3" "length (mc_irq_table mc) = NR_IRQ"
  shows "(\<forall>km clock. (km, clock) \<in> {(kernel_main_mult_proc_clean, clock_mult_proc_clean),
             (kernel_main_sys_call, clock_sys_call), (kernel_main_timer, clock_timer)} \<longrightarrow>
          (\<exists>k' mc' s' tr. km entry task_stack gdt k mc = Inr (k', mc') \<and> booted 3 gdt entry task_stack k' mc'
            \<and> irq_run clock (3 * m) (k', mc') = (s', tr) \<and> (\<forall>i < 3. count_list tr i = m)))
     \<and> (\<exists>k' mc' k'' tr. kernel_main_scheduler entry task_stack gdt k mc = Inr (k', mc') \<and> booted 3 gdt entry task_stack k' mc'
          \<and> clock_run 23 k' = Some (k'', tr) \<and> map (count_list tr) [0, 1, 2] = [15, 5, 3])"
proof (intro conjI allI impI)
  fix km clock assume s: "(km, clock) \<in> {(kernel_main_mult_proc_clean, clock_mult_proc_clean),
      (kernel_main_sys_call, clock_sys_call), (kernel_main_timer, clock_timer)}"
  then obtain k' mc' where b: "km entry task_stack gdt k mc = Inr (k', mc')" "booted 3 gdt entry task_stack k' mc'"
    using stages_boot(1-3) [OF assms] by blast
  then have "k_reenter (fst (k', mc')) = 0" "k_ready (fst (k', mc')) < 3" by (simp_all add: booted_def)
  then obtain s' tr where "irq_run clock (3 * m) (k', mc') = (s', tr)" "\<forall>i < 3. count_list tr i = m"
    using s mult_proc_clean.equal_shares ticking.equal_shares timed.equal_shares by blast
  then show "\<exists>k' mc' s' tr. km entry task_stack gdt k mc = Inr (k', mc') \<and> booted 3 gdt entry task_stack k' mc'
      \<and> irq_run clock (3 * m) (k', mc') = (s', tr) \<and> (\<forall>i < 3. count_list tr i = m)"
    using b by blast
next
  obtain k' mc' where b: "kernel_main_scheduler entry task_stack gdt k mc = Inr (k', mc')" "booted 3 gdt entry task_stack k' mc'"
    "map p_ticks (k_procs k') = [15, 5, 3]" "map p_priority (k_procs k') = [15, 5, 3]"
    using stages_boot(4) [OF assms, of entry task_stack gdt] by (elim exE conjE)
  then obtain a b c where ps: "k_procs k' = [a, b, c]" by (auto simp: booted_def numeral_3_eq_3 length_Suc_conv)
  have "sched_inv k'" "sum_list (map p_ticks (k_procs k')) = int (Suc 22)"
    using b ps by (simp_all add: sched_inv_def booted_def)
  from epoch [OF this] obtain k'' tr where r: "clock_run (Suc 22) k' = Some (k'', tr)"
    "\<forall>i < length (k_procs k'). int (count_list tr i) = map p_ticks (k_procs k') ! i" by blast
  then have "clock_run 23 k' = Some (k'', tr)" "map (count_list tr) [0, 1, 2] = [15, 5, 3]"
    unfolding b(3) by (simp_all add: ps all_Suc_less numeral_2_eq_2)
  then show "\<exists>k' mc' k'' tr. kernel_main_scheduler entry task_stack gdt k mc = Inr (k', mc') \<and> booted 3 gdt entry task_stack k' mc'
      \<and> clock_run 23 k' = Some (k'', tr) \<and> map (count_list tr) [0, 1, 2] = [15, 5, 3]"
    using b(1,2) by (intro exI conjI)
qed

definition bss_three :: kernel where
  "bss_three = \<lparr>k_procs = replicate 3 all_zero_proc, k_ready = 0, k_ticks = 0, k_reenter = 0\<rparr>"

theorem stages_share_witness:
  "\<exists>k' mc' s' tr. kernel_main_timer (\<lambda>i. 0x31000) 0x40000 (ps_gdt boot_state) bss_three (init_8259A blank_machine) = Inr (k', mc')
     \<and> irq_run clock_timer 6 (k', mc') = (s', tr) \<and> (\<forall>i < 3. count_list tr i = 2)"
proof -
  have "length (k_procs bss_three) = 3" "length (mc_irq_table (init_8259A blank_machine)) = NR_IRQ"
    by (simp_all add: bss_three_def init_8259A_def Let_def)
  from stages_share [OF this, where entry = "\<lambda>i. 0x31000" and task_stack = "0x40000" and gdt = "ps_gdt boot_state" and m = 2,
      THEN conjunct1, rule_format, of kernel_main_timer clock_timer]
  show ?thesis by auto
qed

text \<open>
  An interrupt that comes while the kernel is in another (\<open>k_reenter\<close> is not 0) leaves the turn alone from
  \<open>mult_proc_clean\<close> on; \<open>mult_proc\<close> relied on the assembly code in front of it not to call the handler then.
  The ticks that \<open>get_ticks\<close> reports count every interrupt.
\<close>

lemma reentered_clock:
  assumes "k_reenter k \<noteq> 0" "clock \<in> {clock_mult_proc_clean, clock_sys_call, clock_timer}"
  shows "k_ready (fst (clock (k, mc))) = k_ready k \<and> k_procs (fst (clock (k, mc))) = k_procs k"
  using assms by (auto simp: clock_mult_proc_clean_def clock_sys_call_def clock_timer_def Let_def)

lemma ticks_counted:
  assumes "clock \<in> {clock_sys_call, clock_timer}"
  shows "k_ticks (fst (clock (k, mc))) = s32 (k_ticks k + 1)"
  using assms by (auto simp: clock_sys_call_def clock_timer_def next_proc_def Let_def)

lemma one_process_boots:
  assumes "k_procs k \<noteq> []"
  shows "\<exists>k' mc'. kernel_main_ring0_to_1 testA task_stack gdt k mc = Inr (k', mc')
      \<and> kernel_main_reenter testA task_stack gdt k mc = Inr (k'\<lparr>k_reenter := - 1\<rparr>, mc')
      \<and> sf_eip (regs (k_procs k' ! 0)) = testA \<and> sf_esp (regs (k_procs k' ! 0)) = task_stack + 0x8000
      \<and> sf_cs (regs (k_procs k' ! 0)) = 0x5 \<and> sf_ss (regs (k_procs k' ! 0)) = 0xD \<and> k_ready k' = 0"
  using assms by (simp add: kernel_main_ring0_to_1_def kernel_main_reenter_def init_first_def task_selectors)

text \<open>In \<open>mult_proc\<close> the two processes run in turn.\<close>

lemma two_in_turn:
  assumes "length (k_procs k) = 2"
  shows "\<exists>k' mc'. kernel_main_mult_proc entry task_stack gdt k mc = Inr (k', mc')
      \<and> (\<forall>i < 2. stage_proc 2 gdt entry task_stack i (k_procs k' ! i))
      \<and> (\<exists>s' tr. irq_run clock_mult_proc (2 * m) (k'\<lparr>k_reenter := 0\<rparr>, mc') = (s', tr) \<and> (\<forall>i < 2. count_list tr i = m))"
proof -
  obtain a b where ps: "k_procs k = [a, b]" using assms by (auto simp: numeral_2_eq_2 length_Suc_conv)
  let ?a = "init_proc gdt 0 (test_task entry 0 ''TestA'') (SELECTOR_LDT_FIRST + of_nat 0) (task_stack + of_nat 0x10000) a"
  let ?b = "init_proc gdt 1 (test_task entry 1 ''TestB'') (SELECTOR_LDT_FIRST + of_nat 8) (task_stack + of_nat 0x8000) b"
  let ?k = "k\<lparr>k_procs := [?a, ?b], k_reenter := - 1, k_ready := 0\<rparr>"
  have "kernel_main_mult_proc entry task_stack gdt k mc = Inr (?k, banner mc)"
    unfolding kernel_main_mult_proc_def ps init_procs_two by simp
  moreover have "stage_proc 2 gdt entry task_stack 0 ?a" "stage_proc 2 gdt entry task_stack 1 ?b"
    by (rule init_proc_stage; simp add: test_task_def)+
  then have "\<forall>i < 2. stage_proc 2 gdt entry task_stack i (k_procs ?k ! i)" by (simp add: less_2_cases_iff)
  moreover have "\<exists>s' tr. irq_run clock_mult_proc (2 * m) (?k\<lparr>k_reenter := 0\<rparr>, banner mc) = (s', tr) \<and> (\<forall>i < 2. count_list tr i = m)"
    using mult_proc.equal_shares [of "(?k\<lparr>k_reenter := 0\<rparr>, banner mc)" m] by auto
  ultimately show ?thesis by blast
qed

end
