(* ===== verification/Oranges_Prot_Stages.thy ===== *)
theory Oranges_Prot_Stages
  imports Oranges_Protect
begin

unbundle bit_operations_syntax

text \<open>
  How protected mode was set up in the stages of Orange'S before the last: \<open>kernel/protect.c\<close>,
  \<open>kernel/i8259.c\<close> and \<open>kernel/start.c\<close> of \<open>kernel/int_internal\<close>, \<open>kernel/int_extern\<close>, \<open>process/ring0_to_1\<close>,
  \<open>process/ring1_to_0\<close>, \<open>process/mult_proc\<close>, \<open>process/mult_proc_clean\<close> and \<open>sys_call\<close>. First there are gates
  for the exceptions of the processor, then for the interrupt lines, then a task state segment and
  descriptors for the tables of the processes, and in the end the gate of the system call.
\<close>

section \<open>The interrupt controllers\<close>

definition send_icws :: "machine \<Rightarrow> machine" where
  "send_icws mc =
     (let mc = out_byte INT_M_CTL 0x11 mc;
          mc = out_byte INT_S_CTL 0x11 mc;
          mc = out_byte INT_M_CTLMASK 0x20 mc;
          mc = out_byte INT_S_CTLMASK 0x28 mc;
          mc = out_byte INT_M_CTLMASK 0x4 mc;
          mc = out_byte INT_S_CTLMASK 0x2 mc;
          mc = out_byte INT_M_CTLMASK 0x1 mc
      in out_byte INT_S_CTLMASK 0x1 mc)"

definition init_8259A_int_internal :: "machine \<Rightarrow> machine" where
  "init_8259A_int_internal mc = out_byte INT_S_CTLMASK 0xFF (out_byte INT_M_CTLMASK 0xFF (send_icws mc))"

definition init_8259A_int_extern :: "machine \<Rightarrow> machine" where
  "init_8259A_int_extern mc = out_byte INT_S_CTLMASK 0xFF (out_byte INT_M_CTLMASK 0xFD (send_icws mc))"

definition init_8259A_ring1_to_0 :: "machine \<Rightarrow> machine" where
  "init_8259A_ring1_to_0 mc = out_byte INT_S_CTLMASK 0xFF (out_byte INT_M_CTLMASK 0xFE (send_icws mc))"

section \<open>init_prot\<close>

definition exception_gates :: "(8 word \<times> int_handler \<times> 8 word) list" where
  "exception_gates =
     [(0x0, divide_error, PRIVILEGE_KRNL), (0x1, single_step_exception, PRIVILEGE_KRNL),
      (0x2, nmi, PRIVILEGE_KRNL), (0x3, breakpoint_exception, PRIVILEGE_USER),
      (0x4, overflow, PRIVILEGE_USER), (0x5, bounds_check, PRIVILEGE_KRNL),
      (0x6, inval_opcode, PRIVILEGE_KRNL), (0x7, copr_not_available, PRIVILEGE_KRNL),
      (0x8, double_fault, PRIVILEGE_KRNL), (0x9, copr_seg_overrun, PRIVILEGE_KRNL),
      (0xA, inval_tss, PRIVILEGE_KRNL), (0xB, segment_not_present, PRIVILEGE_KRNL),
      (0xC, stack_exception, PRIVILEGE_KRNL), (0xD, general_protection, PRIVILEGE_KRNL),
      (0xE, page_fault, PRIVILEGE_KRNL), (0x10, copr_error, PRIVILEGE_KRNL)]"

definition irq_gates :: "(8 word \<times> int_handler \<times> 8 word) list" where
  "irq_gates = map (\<lambda>i. (0x20 + of_nat i, hwint i, PRIVILEGE_KRNL)) [0..<16]"

definition set_gates :: "link_map \<Rightarrow> (8 word \<times> int_handler \<times> 8 word) list \<Rightarrow> prot_state \<Rightarrow> prot_state" where
  "set_gates lm gates st =
     st\<lparr>ps_idt := fold (\<lambda>(v, h, p). init_idt_desc v DA_386IGate (lm_handler lm h) p) gates (ps_idt st)\<rparr>"

definition init_prot_int_internal :: "link_map \<Rightarrow> machine \<Rightarrow> prot_state \<Rightarrow> machine \<times> prot_state" where
  "init_prot_int_internal lm mc st = (init_8259A_int_internal mc, set_gates lm exception_gates st)"

definition init_prot_int_extern :: "link_map \<Rightarrow> machine \<Rightarrow> prot_state \<Rightarrow> machine \<times> prot_state" where
  "init_prot_int_extern lm mc st = (init_8259A_int_extern mc, set_gates lm (exception_gates @ irq_gates) st)"

text \<open>The task state segment, and the descriptor of the table of the only process.\<close>

definition set_tss :: "link_map \<Rightarrow> prot_state \<Rightarrow> prot_state" where
  "set_tss lm st =
     st\<lparr>ps_tss := zero_tss\<lparr>tss_ss0 := ucast SELECTOR_KERNEL_DS, tss_iobase := of_nat sizeof_tss\<rparr>,
        ps_gdt := (ps_gdt st)[INDEX_TSS :=
          init_descriptor (vir2phys (seg2phys (ps_gdt st) SELECTOR_KERNEL_DS) (lm_tss lm)) (of_nat sizeof_tss - 1) DA_386TSS]\<rparr>"

definition set_ldt :: "link_map \<Rightarrow> prot_state \<Rightarrow> prot_state" where
  "set_ldt lm st =
     st\<lparr>ps_gdt := (ps_gdt st)[INDEX_LDT_FIRST :=
          init_descriptor (vir2phys (seg2phys (ps_gdt st) SELECTOR_KERNEL_DS) (lm_ldts lm 0))
            (of_nat (LDT_SIZE * sizeof_descriptor) - 1) DA_LDT]\<rparr>"

definition set_ldts :: "link_map \<Rightarrow> nat \<Rightarrow> prot_state \<Rightarrow> prot_state" where
  "set_ldts lm nr st = st\<lparr>ps_gdt := init_ldts lm nr 0 (push_bit 3 (of_nat INDEX_LDT_FIRST)) (ps_gdt st)\<rparr>"

definition init_prot_ring0_to_1 :: "link_map \<Rightarrow> machine \<Rightarrow> prot_state \<Rightarrow> machine \<times> prot_state" where
  "init_prot_ring0_to_1 lm mc st =
     (init_8259A_int_internal mc, set_ldt lm (set_tss lm (set_gates lm (exception_gates @ irq_gates) st)))"

definition init_prot_ring1_to_0 :: "link_map \<Rightarrow> machine \<Rightarrow> prot_state \<Rightarrow> machine \<times> prot_state" where
  "init_prot_ring1_to_0 lm mc st =
     (init_8259A_ring1_to_0 mc, set_ldt lm (set_tss lm (set_gates lm (exception_gates @ irq_gates) st)))"

definition init_prot_mult_proc :: "link_map \<Rightarrow> machine \<Rightarrow> prot_state \<Rightarrow> machine \<times> prot_state" where
  "init_prot_mult_proc lm mc st =
     (init_8259A_ring1_to_0 mc, set_ldts lm 2 (set_tss lm (set_gates lm (exception_gates @ irq_gates) st)))"

definition init_prot_mult_proc_clean :: "link_map \<Rightarrow> machine \<Rightarrow> prot_state \<Rightarrow> machine \<times> prot_state" where
  "init_prot_mult_proc_clean lm mc st =
     (init_8259A mc, set_ldts lm 3 (set_tss lm (set_gates lm (exception_gates @ irq_gates) st)))"

definition init_prot_sys_call :: "link_map \<Rightarrow> machine \<Rightarrow> prot_state \<Rightarrow> machine \<times> prot_state" where
  "init_prot_sys_call lm mc st =
     (init_8259A mc,
      set_ldts lm 3 (set_tss lm (set_gates lm (exception_gates @ irq_gates @ [(0x90, sys_call, PRIVILEGE_USER)]) st)))"

section \<open>cstart of the first stages\<close>

text \<open>
  The loader's descriptors move into the kernel's own table, of which the register is told; the stage
  \<open>kernel/enhance_sort\<close> does no more.
\<close>

definition begins :: "byte list" where
  "begins = replicate 15 0x0A @ bytes_of ''-----'' @ [0x22] @ bytes_of ''cstart'' @ [0x22] @ bytes_of '' begins-----'' @ [0x0A]"

definition ends :: "byte list" where
  "ends = bytes_of ''-----'' @ [0x22] @ bytes_of ''cstart'' @ [0x22] @ bytes_of '' ends-----'' @ [0x0A]"

definition take_gdt :: "link_map \<Rightarrow> descriptor list \<Rightarrow> prot_state \<Rightarrow> prot_state" where
  "take_gdt lm loader_gdt st =
     st\<lparr>ps_gdt := loader_gdt @ drop (length loader_gdt) (ps_gdt st),
        ps_gdt_ptr := (of_nat (GDT_SIZE * sizeof_descriptor) - 1, lm_gdt lm)\<rparr>"

definition cstart_enhance :: "link_map \<Rightarrow> descriptor list \<Rightarrow> machine \<Rightarrow> prot_state \<Rightarrow> machine \<times> prot_state" where
  "cstart_enhance lm loader_gdt mc st = (disp_str ends (disp_str begins mc), take_gdt lm loader_gdt st)"

definition cstart_int_extern :: "link_map \<Rightarrow> descriptor list \<Rightarrow> machine \<Rightarrow> prot_state \<Rightarrow> machine \<times> prot_state" where
  "cstart_int_extern lm loader_gdt mc st =
     (let mc = disp_str begins mc;
          st = (take_gdt lm loader_gdt st)\<lparr>ps_idt_ptr := (of_nat (IDT_SIZE * 8) - 1, lm_idt lm)\<rparr>;
          (mc, st) = init_prot_int_extern lm mc st
      in (disp_str ends mc, st))"

section \<open>What the stages set up\<close>

text \<open>
  A stage as it was meant: the vectors with their handlers and privileges, the number of processes whose
  tables are described (and a task state segment if there are any), and the interrupt lines that are open.
\<close>

definition prot_stages ::
  "((link_map \<Rightarrow> machine \<Rightarrow> prot_state \<Rightarrow> machine \<times> prot_state) \<times> (8 word \<times> int_handler \<times> 8 word) list \<times> nat \<times> nat set) list" where
  "prot_stages =
     [(init_prot_int_internal, exception_gates, 0, {}),
      (init_prot_int_extern, exception_gates @ irq_gates, 0, {KEYBOARD_IRQ}),
      (init_prot_ring0_to_1, exception_gates @ irq_gates, 1, {}),
      (init_prot_ring1_to_0, exception_gates @ irq_gates, 1, {CLOCK_IRQ}),
      (init_prot_mult_proc, exception_gates @ irq_gates, 2, {CLOCK_IRQ}),
      (init_prot_mult_proc_clean, exception_gates @ irq_gates, 3, {}),
      (init_prot_sys_call, exception_gates @ irq_gates @ [(0x90, sys_call, PRIVILEGE_USER)], 3, {})]"

definition idt_ok :: "link_map \<Rightarrow> (8 word \<times> int_handler \<times> 8 word) list \<Rightarrow> gate list \<Rightarrow> gate list \<Rightarrow> bool" where
  "idt_ok lm gates idt idt' \<longleftrightarrow>
     length idt' = IDT_SIZE
     \<and> (\<forall>(v, h, p) \<in> set gates. gate_offset (idt' ! unat v) = lm_handler lm h
          \<and> selector (idt' ! unat v) = SELECTOR_KERNEL_CS \<and> gate_dpl (idt' ! unat v) = unat p)
     \<and> (\<forall>v. v \<notin> fst ` set gates \<longrightarrow> idt' ! unat v = idt ! unat v)"

definition gdt_ok :: "link_map \<Rightarrow> nat \<Rightarrow> descriptor list \<Rightarrow> descriptor list \<Rightarrow> bool" where
  "gdt_ok lm n gdt gdt' \<longleftrightarrow>
     length gdt' = GDT_SIZE
     \<and> (\<forall>j < GDT_SIZE. n = 0 \<or> j < 4 \<or> 5 + n \<le> j \<longrightarrow> gdt' ! j = gdt ! j)
     \<and> (0 < n \<longrightarrow> desc_base (gdt' ! 4) = seg2phys gdt SELECTOR_KERNEL_DS + lm_tss lm \<and> desc_limit (gdt' ! 4) = 103)
     \<and> (\<forall>i < n. desc_base (gdt' ! (5 + i)) = seg2phys gdt SELECTOR_KERNEL_DS + lm_ldts lm i \<and> desc_limit (gdt' ! (5 + i)) = 15)"

lemma set_gates_idt_ok:
  assumes "distinct (map fst gates)" "\<forall>(v, h, p) \<in> set gates. p \<in> {0, 1, 2, 3}" "length (ps_idt st) = IDT_SIZE"
  shows "idt_ok lm gates (ps_idt st) (ps_idt (set_gates lm gates st))"
proof -
  let ?idt = "ps_idt (set_gates lm gates st)"
  have "length (ps_idt st) = 256" using assms(3) by (simp add: IDT_SIZE_def)
  from fold_gates [OF assms(1) this, of DA_386IGate "lm_handler lm"]
  have f: "length ?idt = 256" "\<forall>(v, h, p) \<in> set gates. ?idt ! unat v = idt_gate DA_386IGate (lm_handler lm h) p"
    "\<forall>v. v \<notin> fst ` set gates \<longrightarrow> ?idt ! unat v = ps_idt st ! unat v"
    by (simp_all add: set_gates_def)
  have "gate_offset (?idt ! unat v) = lm_handler lm h \<and> selector (?idt ! unat v) = SELECTOR_KERNEL_CS \<and> gate_dpl (?idt ! unat v) = unat p"
    if "(v, h, p) \<in> set gates" for v h p
  proof -
    have g: "?idt ! unat v = idt_gate DA_386IGate (lm_handler lm h) p" and p: "p \<in> {0, 1, 2, 3}"
      using f(2) assms(2) that by auto
    have "selector (idt_gate DA_386IGate (lm_handler lm h) p) = SELECTOR_KERNEL_CS" by (simp add: idt_gate_def)
    then show ?thesis unfolding g using gate_dpl_init [THEN bspec, OF p] by (simp add: gate_offset_init)
  qed
  then show ?thesis using f by (auto simp: idt_ok_def IDT_SIZE_def)
qed

lemma stage_gates:
  "distinct (map fst (exception_gates @ irq_gates @ [(0x90, sys_call, PRIVILEGE_USER)]))"
  "\<forall>(v, h, p) \<in> set (exception_gates @ irq_gates @ [(0x90, sys_call, PRIVILEGE_USER)]). p \<in> {0, 1, 2, 3}"
  by code_simp+

lemma stage_masks:
  "mc_mask_m (init_8259A_int_internal mc) = 0xFF" "mc_mask_s (init_8259A_int_internal mc) = 0xFF"
  "mc_mask_m (init_8259A_int_extern mc) = 0xFD" "mc_mask_s (init_8259A_int_extern mc) = 0xFF"
  "mc_mask_m (init_8259A_ring1_to_0 mc) = 0xFE" "mc_mask_s (init_8259A_ring1_to_0 mc) = 0xFF"
  "mc_mask_m (init_8259A mc) = 0xFF" "mc_mask_s (init_8259A mc) = 0xFF"
  by (simp_all add: init_8259A_int_internal_def init_8259A_int_extern_def init_8259A_ring1_to_0_def init_8259A_def
      out_byte_def Let_def const_defs)

lemma masked_lines:
  assumes "mc_mask_m mc = m" "mc_mask_s mc = sl" "\<forall>i \<in> set [0..<16]. bit (if i < 8 then m else sl) (i mod 8) \<longleftrightarrow> i \<notin> open"
  shows "\<forall>i < NR_IRQ. irq_masked mc i \<longleftrightarrow> i \<notin> open"
proof (intro allI impI)
  fix i assume "i < NR_IRQ"
  then have "i \<in> set [0..<16]" by (simp add: NR_IRQ_def)
  with assms(3) have "bit (if i < 8 then m else sl) (i mod 8) \<longleftrightarrow> i \<notin> open" by (rule bspec)
  then show "irq_masked mc i \<longleftrightarrow> i \<notin> open" unfolding irq_masked_def assms(1,2) .
qed

lemma stage_lines:
  "\<forall>i < NR_IRQ. irq_masked (init_8259A_int_internal mc) i" "\<forall>i < NR_IRQ. irq_masked (init_8259A mc) i"
  "\<forall>i < NR_IRQ. irq_masked (init_8259A_int_extern mc) i \<longleftrightarrow> i \<noteq> KEYBOARD_IRQ"
  "\<forall>i < NR_IRQ. irq_masked (init_8259A_ring1_to_0 mc) i \<longleftrightarrow> i \<noteq> CLOCK_IRQ"
proof -
  have "\<forall>i \<in> set [0..<16]. bit (if i < 8 then 0xFF else 0xFF :: 8 word) (i mod 8) \<longleftrightarrow> i \<notin> {}" by code_simp
  then show "\<forall>i < NR_IRQ. irq_masked (init_8259A_int_internal mc) i" "\<forall>i < NR_IRQ. irq_masked (init_8259A mc) i"
    using masked_lines [OF stage_masks(1,2), of "{}"] masked_lines [OF stage_masks(7,8), of "{}"] by blast+
  have "\<forall>i \<in> set [0..<16]. bit (if i < 8 then 0xFD else 0xFF :: 8 word) (i mod 8) \<longleftrightarrow> i \<notin> {KEYBOARD_IRQ}" by code_simp
  then show "\<forall>i < NR_IRQ. irq_masked (init_8259A_int_extern mc) i \<longleftrightarrow> i \<noteq> KEYBOARD_IRQ"
    using masked_lines [OF stage_masks(3,4)] by blast
  have "\<forall>i \<in> set [0..<16]. bit (if i < 8 then 0xFE else 0xFF :: 8 word) (i mod 8) \<longleftrightarrow> i \<notin> {CLOCK_IRQ}" by code_simp
  then show "\<forall>i < NR_IRQ. irq_masked (init_8259A_ring1_to_0 mc) i \<longleftrightarrow> i \<noteq> CLOCK_IRQ"
    using masked_lines [OF stage_masks(5,6)] by blast
qed

text \<open>The descriptors of one, two and three processes, on top of that of the task state segment.\<close>

lemma set_ldts_one: "set_ldt lm st = set_ldts lm 1 st"
  by (simp add: set_ldt_def set_ldts_def prot_defs)

lemma tss_ldts_gdt:
  assumes "length (ps_gdt st) = GDT_SIZE" "n \<in> {1, 2, 3}"
  shows "gdt_ok lm n (ps_gdt st) (ps_gdt (set_ldts lm n (set_tss lm st)))"
proof -
  let ?t = "init_descriptor (seg2phys (ps_gdt st) SELECTOR_KERNEL_DS + lm_tss lm) 103 DA_386TSS"
  let ?l = "ldt_descriptor lm (ps_gdt st)"
  have n: "init_ldts lm 1 = init_ldts lm (Suc 0)" "init_ldts lm 2 = init_ldts lm (Suc (Suc 0))"
    "init_ldts lm 3 = init_ldts lm (Suc (Suc (Suc 0)))"
    by (simp_all only: numeral_2_eq_2 numeral_3_eq_3 One_nat_def)
  have e: "ps_gdt (set_ldts lm 1 (set_tss lm st)) = (ps_gdt st)[4 := ?t, 5 := ?l 0]"
    "ps_gdt (set_ldts lm 2 (set_tss lm st)) = (ps_gdt st)[4 := ?t, 5 := ?l 0, 6 := ?l 1]"
    "ps_gdt (set_ldts lm 3 (set_tss lm st)) = (ps_gdt st)[4 := ?t, 5 := ?l 0, 6 := ?l 1, 7 := ?l 2]"
    unfolding set_ldts_def set_tss_def n init_ldts.simps
    by (simp_all add: ldt_descriptor_def vir2phys_def prot_defs seg2phys_update [unfolded SELECTOR_KERNEL_DS_def])
      (simp add: numeral_2_eq_2)
  have l: "take_bit 20 103 = (103 :: 32 word)" "take_bit 20 15 = (15 :: 32 word)" by simp_all
  have d: "desc_base ?t = seg2phys (ps_gdt st) SELECTOR_KERNEL_DS + lm_tss lm" "desc_limit ?t = 103"
    "desc_base (?l i) = seg2phys (ps_gdt st) SELECTOR_KERNEL_DS + lm_ldts lm i" "desc_limit (?l i) = 15" for i
    by (simp_all add: ldt_descriptor_def desc_base_init desc_limit_init l)
  have "length (ps_gdt st) = 128" using assms(1) by (simp add: GDT_SIZE_def)
  then have "gdt_ok lm 1 (ps_gdt st) ((ps_gdt st)[4 := ?t, 5 := ?l 0])"
    "gdt_ok lm 2 (ps_gdt st) ((ps_gdt st)[4 := ?t, 5 := ?l 0, 6 := ?l 1])"
    "gdt_ok lm 3 (ps_gdt st) ((ps_gdt st)[4 := ?t, 5 := ?l 0, 6 := ?l 1, 7 := ?l 2])"
    by (auto simp: gdt_ok_def d GDT_SIZE_def numeral_2_eq_2 numeral_3_eq_3 less_Suc_eq)
  then show ?thesis using assms(2) e by (elim insertE emptyE) simp_all
qed

lemma gdt_ok_0: "length gdt = GDT_SIZE \<Longrightarrow> gdt_ok lm 0 gdt gdt"
  by (simp add: gdt_ok_def)

lemma set_gates_gdt [simp]: "ps_gdt (set_gates lm gates st) = ps_gdt st"
  by (simp add: set_gates_def)

lemma set_tables_idt [simp]: "ps_idt (set_tss lm st) = ps_idt st" "ps_idt (set_ldts lm n st) = ps_idt st"
  by (simp_all add: set_tss_def set_ldts_def)

lemma stages_idt:
  assumes "length (ps_idt st) = IDT_SIZE"
    "gates \<in> {exception_gates, exception_gates @ irq_gates, exception_gates @ irq_gates @ [(0x90, sys_call, PRIVILEGE_USER)]}"
  shows "idt_ok lm gates (ps_idt st) (ps_idt (set_gates lm gates st))"
proof (rule set_gates_idt_ok [OF _ _ assms(1)])
  show "distinct (map fst gates)" using assms(2) stage_gates(1) by auto
  show "\<forall>(v, h, p) \<in> set gates. p \<in> {0, 1, 2, 3}"
    by (rule ballI, rule stage_gates(2) [THEN bspec]) (use assms(2) in auto)
qed

text \<open>
  Every stage sets up what it is meant to: its vectors lead to their handlers in the kernel code segment with
  their privileges and no other gate changes; from the first process on the descriptor table has the task
  state segment and one table for each process at their addresses and changes nowhere else; and of the
  sixteen interrupt lines exactly the keyboard's, the clock's or none is open.
\<close>

theorem stages_protect:
  assumes "length (ps_idt st) = IDT_SIZE" "length (ps_gdt st) = GDT_SIZE" "(init, gates, n, open) \<in> set prot_stages"
    "init lm mc st = (mc', st')"
  shows "idt_ok lm gates (ps_idt st) (ps_idt st') \<and> gdt_ok lm n (ps_gdt st) (ps_gdt st')
    \<and> (\<forall>i < NR_IRQ. irq_masked mc' i \<longleftrightarrow> i \<notin> open)"
proof -
  note idt = stages_idt [OF assms(1)]
  note gdt = tss_ldts_gdt [of "set_gates lm gates st" n lm]
  note defs = init_prot_int_internal_def init_prot_int_extern_def init_prot_ring0_to_1_def init_prot_ring1_to_0_def
    init_prot_mult_proc_def init_prot_mult_proc_clean_def init_prot_sys_call_def set_ldts_one
  consider "init = init_prot_int_internal" "gates = exception_gates" "n = 0" "open = {}"
    | "init = init_prot_int_extern" "gates = exception_gates @ irq_gates" "n = 0" "open = {KEYBOARD_IRQ}"
    | "init = init_prot_ring0_to_1" "gates = exception_gates @ irq_gates" "n = 1" "open = {}"
    | "init = init_prot_ring1_to_0" "gates = exception_gates @ irq_gates" "n = 1" "open = {CLOCK_IRQ}"
    | "init = init_prot_mult_proc" "gates = exception_gates @ irq_gates" "n = 2" "open = {CLOCK_IRQ}"
    | "init = init_prot_mult_proc_clean" "gates = exception_gates @ irq_gates" "n = 3" "open = {}"
    | "init = init_prot_sys_call" "gates = exception_gates @ irq_gates @ [(0x90, sys_call, PRIVILEGE_USER)]" "n = 3" "open = {}"
    using assms(3) unfolding prot_stages_def by auto
  then show ?thesis
    using assms(2,4) idt [of gates lm] gdt gdt_ok_0 [OF assms(2), of lm] stage_lines [of mc]
    by cases (auto simp: defs)
qed

theorem stages_protect_witness:
  "idt_ok sample_link exception_gates (ps_idt boot_state)
     (ps_idt (snd (init_prot_int_internal sample_link blank_machine boot_state)))
   \<and> gdt_ok sample_link 2 (ps_gdt boot_state) (ps_gdt (snd (init_prot_mult_proc sample_link blank_machine boot_state)))"
proof -
  have l: "length (ps_idt boot_state) = IDT_SIZE" "length (ps_gdt boot_state) = GDT_SIZE" by (simp_all add: boot_state_def)
  have "(init_prot_int_internal, exception_gates, 0, {}) \<in> set prot_stages"
    "(init_prot_mult_proc, exception_gates @ irq_gates, 2, {CLOCK_IRQ}) \<in> set prot_stages"
    by (simp_all add: prot_stages_def)
  from this [THEN stages_protect [OF l], OF prod.collapse [symmetric]] show ?thesis by blast
qed

text \<open>
  Until the stage \<open>sys_call\<close> a process can enter the kernel on its own only by a breakpoint or an overflow; with
  it the system call is added, and nothing else.
\<close>

lemma user_vectors:
  "fst ` {g \<in> set (exception_gates @ irq_gates). snd (snd g) = PRIVILEGE_USER} = {3, 4}"
  "fst ` {g \<in> set (exception_gates @ irq_gates @ [(0x90, sys_call, PRIVILEGE_USER)]). snd (snd g) = PRIVILEGE_USER} = {3, 4, 0x90}"
proof -
  have f: "fst ` {g \<in> set gs. snd (snd g) = PRIVILEGE_USER} = set (map fst (filter (\<lambda>g. snd (snd g) = PRIVILEGE_USER) gs))"
    for gs :: "(8 word \<times> int_handler \<times> 8 word) list" by auto
  show "fst ` {g \<in> set (exception_gates @ irq_gates). snd (snd g) = PRIVILEGE_USER} = {3, 4}"
    unfolding f by code_simp
  show "fst ` {g \<in> set (exception_gates @ irq_gates @ [(0x90, sys_call, PRIVILEGE_USER)]). snd (snd g) = PRIVILEGE_USER} = {3, 4, 0x90}"
    unfolding f by code_simp
qed

text \<open>The last of these stages has the interrupt table of the final kernel.\<close>

lemma sys_call_idt:
  "ps_idt (snd (init_prot_sys_call lm mc st)) = ps_idt (snd (init_prot lm mc st))"
proof -
  have "exception_gates @ irq_gates @ [(0x90, sys_call, PRIVILEGE_USER)] = init_prot_gates" by code_simp
  then show ?thesis by (simp add: init_prot_sys_call_def set_gates_def init_prot_def init_gates_def Let_def)
qed

text \<open>
  After \<open>cstart\<close> the processor finds the descriptors of the loader where it found them before, at the start of
  a table of 128, and behind the pointer of the interrupt table the 32 gates.
\<close>

lemma cstart_int_extern_tables:
  fixes lm :: link_map and mc :: machine
  assumes "length (ps_gdt st) = GDT_SIZE" "length (ps_idt st) = IDT_SIZE" "length loader_gdt \<le> GDT_SIZE"
  defines "st' \<equiv> snd (cstart_int_extern lm loader_gdt mc st)"
  shows "take (length loader_gdt) (ps_gdt st') = loader_gdt \<and> length (ps_gdt st') = GDT_SIZE
    \<and> ps_gdt_ptr st' = (1023, lm_gdt lm) \<and> ps_idt_ptr st' = (2047, lm_idt lm)
    \<and> idt_ok lm (exception_gates @ irq_gates) (ps_idt st) (ps_idt st')"
proof -
  let ?s = "(take_gdt lm loader_gdt st)\<lparr>ps_idt_ptr := (of_nat (IDT_SIZE * 8) - 1, lm_idt lm)\<rparr>"
  have e: "st' = set_gates lm (exception_gates @ irq_gates) ?s"
    by (simp add: st'_def cstart_int_extern_def init_prot_int_extern_def Let_def)
  have p: "ps_gdt_ptr st' = ps_gdt_ptr ?s" "ps_idt_ptr st' = ps_idt_ptr ?s" by (simp_all add: e set_gates_def)
  have "ps_idt ?s = ps_idt st" by (simp add: take_gdt_def)
  then have "idt_ok lm (exception_gates @ irq_gates) (ps_idt st) (ps_idt st')"
    using stages_idt [of ?s "exception_gates @ irq_gates" lm] assms(2) by (simp add: e)
  then show ?thesis using assms(1,3) p by (simp add: e) (simp add: take_gdt_def GDT_SIZE_def IDT_SIZE_def sizeof_descriptor_def)
qed

end
