(* ===== verification/Oranges_Keymap.thy ===== *)
theory Oranges_Keymap
  imports Oranges_Hw
begin

text \<open>
  Keys and scan codes of Orange'S: the macros of \<open>include/keyboard.h\<close> and the table of
  \<open>include/keymap.h\<close> of \<open>oranges/code/io/cursor\<close>. The table has one row for each scan code, with
  the key without shift, with shift, and after the prefix \<open>0xE0\<close>; it is given in four parts of
  32 rows. Names that Isabelle or its library uses carry the suffix \<open>_key\<close>.
\<close>

section \<open>Keys (keyboard.h)\<close>

definition KB_IN_BYTES :: nat where "KB_IN_BYTES = 32"
definition MAP_COLS :: nat where "MAP_COLS = 3"
definition NR_SCAN_CODES :: nat where "NR_SCAN_CODES = 0x80"
definition FLAG_BREAK :: "32 word" where "FLAG_BREAK = 0x0080"
definition FLAG_EXT :: "32 word" where "FLAG_EXT = 0x0100"
definition FLAG_SHIFT_L :: "32 word" where "FLAG_SHIFT_L = 0x0200"
definition FLAG_SHIFT_R :: "32 word" where "FLAG_SHIFT_R = 0x0400"
definition FLAG_CTRL_L :: "32 word" where "FLAG_CTRL_L = 0x0800"
definition FLAG_CTRL_R :: "32 word" where "FLAG_CTRL_R = 0x1000"
definition FLAG_ALT_L :: "32 word" where "FLAG_ALT_L = 0x2000"
definition FLAG_ALT_R :: "32 word" where "FLAG_ALT_R = 0x4000"
definition FLAG_PAD :: "32 word" where "FLAG_PAD = 0x8000"
definition MASK_RAW :: "32 word" where "MASK_RAW = 0x01FF"
definition ESC :: "32 word" where "ESC = 0x01 + FLAG_EXT"
definition TAB :: "32 word" where "TAB = 0x02 + FLAG_EXT"
definition ENTER :: "32 word" where "ENTER = 0x03 + FLAG_EXT"
definition BACKSPACE :: "32 word" where "BACKSPACE = 0x04 + FLAG_EXT"
definition GUI_L :: "32 word" where "GUI_L = 0x05 + FLAG_EXT"
definition GUI_R :: "32 word" where "GUI_R = 0x06 + FLAG_EXT"
definition APPS :: "32 word" where "APPS = 0x07 + FLAG_EXT"
definition SHIFT_L :: "32 word" where "SHIFT_L = 0x08 + FLAG_EXT"
definition SHIFT_R :: "32 word" where "SHIFT_R = 0x09 + FLAG_EXT"
definition CTRL_L :: "32 word" where "CTRL_L = 0x0A + FLAG_EXT"
definition CTRL_R :: "32 word" where "CTRL_R = 0x0B + FLAG_EXT"
definition ALT_L :: "32 word" where "ALT_L = 0x0C + FLAG_EXT"
definition ALT_R :: "32 word" where "ALT_R = 0x0D + FLAG_EXT"
definition CAPS_LOCK :: "32 word" where "CAPS_LOCK = 0x0E + FLAG_EXT"
definition NUM_LOCK :: "32 word" where "NUM_LOCK = 0x0F + FLAG_EXT"
definition SCROLL_LOCK :: "32 word" where "SCROLL_LOCK = 0x10 + FLAG_EXT"
definition F1 :: "32 word" where "F1 = 0x11 + FLAG_EXT"
definition F2 :: "32 word" where "F2 = 0x12 + FLAG_EXT"
definition F3 :: "32 word" where "F3 = 0x13 + FLAG_EXT"
definition F4 :: "32 word" where "F4 = 0x14 + FLAG_EXT"
definition F5 :: "32 word" where "F5 = 0x15 + FLAG_EXT"
definition F6 :: "32 word" where "F6 = 0x16 + FLAG_EXT"
definition F7 :: "32 word" where "F7 = 0x17 + FLAG_EXT"
definition F8 :: "32 word" where "F8 = 0x18 + FLAG_EXT"
definition F9 :: "32 word" where "F9 = 0x19 + FLAG_EXT"
definition F10 :: "32 word" where "F10 = 0x1A + FLAG_EXT"
definition F11 :: "32 word" where "F11 = 0x1B + FLAG_EXT"
definition F12 :: "32 word" where "F12 = 0x1C + FLAG_EXT"
definition PRINTSCREEN :: "32 word" where "PRINTSCREEN = 0x1D + FLAG_EXT"
definition PAUSEBREAK :: "32 word" where "PAUSEBREAK = 0x1E + FLAG_EXT"
definition INSERT_key :: "32 word" where "INSERT_key = 0x1F + FLAG_EXT"
definition DELETE_key :: "32 word" where "DELETE_key = 0x20 + FLAG_EXT"
definition HOME_key :: "32 word" where "HOME_key = 0x21 + FLAG_EXT"
definition END_key :: "32 word" where "END_key = 0x22 + FLAG_EXT"
definition PAGEUP :: "32 word" where "PAGEUP = 0x23 + FLAG_EXT"
definition PAGEDOWN :: "32 word" where "PAGEDOWN = 0x24 + FLAG_EXT"
definition UP_key :: "32 word" where "UP_key = 0x25 + FLAG_EXT"
definition DOWN_key :: "32 word" where "DOWN_key = 0x26 + FLAG_EXT"
definition LEFT_key :: "32 word" where "LEFT_key = 0x27 + FLAG_EXT"
definition RIGHT_key :: "32 word" where "RIGHT_key = 0x28 + FLAG_EXT"
definition POWER :: "32 word" where "POWER = 0x29 + FLAG_EXT"
definition SLEEP :: "32 word" where "SLEEP = 0x2A + FLAG_EXT"
definition WAKE :: "32 word" where "WAKE = 0x2B + FLAG_EXT"
definition PAD_SLASH :: "32 word" where "PAD_SLASH = 0x2C + FLAG_EXT"
definition PAD_STAR :: "32 word" where "PAD_STAR = 0x2D + FLAG_EXT"
definition PAD_MINUS :: "32 word" where "PAD_MINUS = 0x2E + FLAG_EXT"
definition PAD_PLUS :: "32 word" where "PAD_PLUS = 0x2F + FLAG_EXT"
definition PAD_ENTER :: "32 word" where "PAD_ENTER = 0x30 + FLAG_EXT"
definition PAD_DOT :: "32 word" where "PAD_DOT = 0x31 + FLAG_EXT"
definition PAD_0 :: "32 word" where "PAD_0 = 0x32 + FLAG_EXT"
definition PAD_1 :: "32 word" where "PAD_1 = 0x33 + FLAG_EXT"
definition PAD_2 :: "32 word" where "PAD_2 = 0x34 + FLAG_EXT"
definition PAD_3 :: "32 word" where "PAD_3 = 0x35 + FLAG_EXT"
definition PAD_4 :: "32 word" where "PAD_4 = 0x36 + FLAG_EXT"
definition PAD_5 :: "32 word" where "PAD_5 = 0x37 + FLAG_EXT"
definition PAD_6 :: "32 word" where "PAD_6 = 0x38 + FLAG_EXT"
definition PAD_7 :: "32 word" where "PAD_7 = 0x39 + FLAG_EXT"
definition PAD_8 :: "32 word" where "PAD_8 = 0x3A + FLAG_EXT"
definition PAD_9 :: "32 word" where "PAD_9 = 0x3B + FLAG_EXT"
definition PAD_UP :: "32 word" where "PAD_UP = PAD_8"
definition PAD_DOWN :: "32 word" where "PAD_DOWN = PAD_2"
definition PAD_LEFT :: "32 word" where "PAD_LEFT = PAD_4"
definition PAD_RIGHT :: "32 word" where "PAD_RIGHT = PAD_6"
definition PAD_HOME :: "32 word" where "PAD_HOME = PAD_7"
definition PAD_END :: "32 word" where "PAD_END = PAD_1"
definition PAD_PAGEUP :: "32 word" where "PAD_PAGEUP = PAD_9"
definition PAD_PAGEDOWN :: "32 word" where "PAD_PAGEDOWN = PAD_3"
definition PAD_INS :: "32 word" where "PAD_INS = PAD_0"
definition PAD_MID :: "32 word" where "PAD_MID = PAD_5"
definition PAD_DEL :: "32 word" where "PAD_DEL = PAD_DOT"

lemmas key_defs = KB_IN_BYTES_def MAP_COLS_def NR_SCAN_CODES_def FLAG_BREAK_def FLAG_EXT_def
  FLAG_SHIFT_L_def FLAG_SHIFT_R_def FLAG_CTRL_L_def FLAG_CTRL_R_def FLAG_ALT_L_def
  FLAG_ALT_R_def FLAG_PAD_def MASK_RAW_def ESC_def TAB_def ENTER_def BACKSPACE_def
  GUI_L_def GUI_R_def APPS_def SHIFT_L_def SHIFT_R_def CTRL_L_def CTRL_R_def ALT_L_def
  ALT_R_def CAPS_LOCK_def NUM_LOCK_def SCROLL_LOCK_def F1_def F2_def F3_def F4_def F5_def
  F6_def F7_def F8_def F9_def F10_def F11_def F12_def PRINTSCREEN_def PAUSEBREAK_def
  INSERT_key_def DELETE_key_def HOME_key_def END_key_def PAGEUP_def PAGEDOWN_def UP_key_def
  DOWN_key_def LEFT_key_def RIGHT_key_def POWER_def SLEEP_def WAKE_def PAD_SLASH_def
  PAD_STAR_def PAD_MINUS_def PAD_PLUS_def PAD_ENTER_def PAD_DOT_def PAD_0_def PAD_1_def
  PAD_2_def PAD_3_def PAD_4_def PAD_5_def PAD_6_def PAD_7_def PAD_8_def PAD_9_def
  PAD_UP_def PAD_DOWN_def PAD_LEFT_def PAD_RIGHT_def PAD_HOME_def PAD_END_def
  PAD_PAGEUP_def PAD_PAGEDOWN_def PAD_INS_def PAD_MID_def PAD_DEL_def

section \<open>The table (keymap.h)\<close>

definition keymap0 :: "32 word list" where
  "keymap0 =
     [0, 0, 0,
      ESC, ESC, 0,
      0x31, 0x21, 0,
      0x32, 0x40, 0,
      0x33, 0x23, 0,
      0x34, 0x24, 0,
      0x35, 0x25, 0,
      0x36, 0x5E, 0,
      0x37, 0x26, 0,
      0x38, 0x2A, 0,
      0x39, 0x28, 0,
      0x30, 0x29, 0,
      0x2D, 0x5F, 0,
      0x3D, 0x2B, 0,
      BACKSPACE, BACKSPACE, 0,
      TAB, TAB, 0,
      0x71, 0x51, 0,
      0x77, 0x57, 0,
      0x65, 0x45, 0,
      0x72, 0x52, 0,
      0x74, 0x54, 0,
      0x79, 0x59, 0,
      0x75, 0x55, 0,
      0x69, 0x49, 0,
      0x6F, 0x4F, 0,
      0x70, 0x50, 0,
      0x5B, 0x7B, 0,
      0x5D, 0x7D, 0,
      ENTER, ENTER, PAD_ENTER,
      CTRL_L, CTRL_L, CTRL_R,
      0x61, 0x41, 0,
      0x73, 0x53, 0]"

definition keymap1 :: "32 word list" where
  "keymap1 =
     [0x64, 0x44, 0,
      0x66, 0x46, 0,
      0x67, 0x47, 0,
      0x68, 0x48, 0,
      0x6A, 0x4A, 0,
      0x6B, 0x4B, 0,
      0x6C, 0x4C, 0,
      0x3B, 0x3A, 0,
      0x27, 0x22, 0,
      0x60, 0x7E, 0,
      SHIFT_L, SHIFT_L, 0,
      0x5C, 0x7C, 0,
      0x7A, 0x5A, 0,
      0x78, 0x58, 0,
      0x63, 0x43, 0,
      0x76, 0x56, 0,
      0x62, 0x42, 0,
      0x6E, 0x4E, 0,
      0x6D, 0x4D, 0,
      0x2C, 0x3C, 0,
      0x2E, 0x3E, 0,
      0x2F, 0x3F, PAD_SLASH,
      SHIFT_R, SHIFT_R, 0,
      0x2A, 0x2A, 0,
      ALT_L, ALT_L, ALT_R,
      0x20, 0x20, 0,
      CAPS_LOCK, CAPS_LOCK, 0,
      F1, F1, 0,
      F2, F2, 0,
      F3, F3, 0,
      F4, F4, 0,
      F5, F5, 0]"

definition keymap2 :: "32 word list" where
  "keymap2 =
     [F6, F6, 0,
      F7, F7, 0,
      F8, F8, 0,
      F9, F9, 0,
      F10, F10, 0,
      NUM_LOCK, NUM_LOCK, 0,
      SCROLL_LOCK, SCROLL_LOCK, 0,
      PAD_HOME, 0x37, HOME_key,
      PAD_UP, 0x38, UP_key,
      PAD_PAGEUP, 0x39, PAGEUP,
      PAD_MINUS, 0x2D, 0,
      PAD_LEFT, 0x34, LEFT_key,
      PAD_MID, 0x35, 0,
      PAD_RIGHT, 0x36, RIGHT_key,
      PAD_PLUS, 0x2B, 0,
      PAD_END, 0x31, END_key,
      PAD_DOWN, 0x32, DOWN_key,
      PAD_PAGEDOWN, 0x33, PAGEDOWN,
      PAD_INS, 0x30, INSERT_key,
      PAD_DOT, 0x2E, DELETE_key,
      0, 0, 0,
      0, 0, 0,
      0, 0, 0,
      F11, F11, 0,
      F12, F12, 0,
      0, 0, 0,
      0, 0, 0,
      0, 0, GUI_L,
      0, 0, GUI_R,
      0, 0, APPS,
      0, 0, 0,
      0, 0, 0]"

definition keymap3 :: "32 word list" where
  "keymap3 =
     [0, 0, 0,
      0, 0, 0,
      0, 0, 0,
      0, 0, 0,
      0, 0, 0,
      0, 0, 0,
      0, 0, 0,
      0, 0, 0,
      0, 0, 0,
      0, 0, 0,
      0, 0, 0,
      0, 0, 0,
      0, 0, 0,
      0, 0, 0,
      0, 0, 0,
      0, 0, 0,
      0, 0, 0,
      0, 0, 0,
      0, 0, 0,
      0, 0, 0,
      0, 0, 0,
      0, 0, 0,
      0, 0, 0,
      0, 0, 0,
      0, 0, 0,
      0, 0, 0,
      0, 0, 0,
      0, 0, 0,
      0, 0, 0,
      0, 0, 0,
      0, 0, 0,
      0, 0, 0]"

definition keymap :: "32 word list" where
  "keymap = keymap0 @ keymap1 @ keymap2 @ keymap3"

text \<open>The table by rows.\<close>

fun rows_of :: "'a list \<Rightarrow> ('a \<times> 'a \<times> 'a) list" where
  "rows_of (a # b # c # xs) = (a, b, c) # rows_of xs"
| "rows_of _ = []"

lemma length_keymap: "length keymap = NR_SCAN_CODES * MAP_COLS"
  by (simp add: keymap_def keymap0_def keymap1_def keymap2_def keymap3_def key_defs)

text \<open>For each printable character, from the blank to the tilde, the place of the table that types it.\<close>

definition ascii_keys :: "nat list" where
  "ascii_keys =
     [171, 7, 121, 13, 16, 19, 25, 120, 31, 34, 28, 40, 153, 36, 156, 159, 33, 6, 9, 12, 15, 18,
      21, 24, 27, 30, 118, 117, 154, 39, 157, 160, 10, 91, 145, 139, 97, 55, 100, 103, 106, 70,
      109, 112, 115, 151, 148, 73, 76, 49, 58, 94, 61, 67, 142, 52, 136, 64, 133, 78, 129, 81,
      22, 37, 123, 90, 144, 138, 96, 54, 99, 102, 105, 69, 108, 111, 114, 150, 147, 72, 75, 48,
      57, 93, 60, 66, 141, 51, 135, 63, 132, 79, 130, 82, 124]"

lemma keymap_types_ascii: "map (\<lambda>i. keymap ! i) ascii_keys = map word_of_nat [0x20..<0x7F]"
  by (simp add: ascii_keys_def keymap_def keymap0_def keymap1_def keymap2_def keymap3_def key_defs
      upt_conv_Cons)

lemma keymap_shifts:
  "list_all (\<lambda>(a, b, e). 0x61 \<le> a \<and> a \<le> 0x7A \<longrightarrow> b = a - 0x20) (rows_of keymap)"
  by code_simp

text \<open>
  The table has a row of three for each of the 128 scan codes, every printable ASCII character
  can be typed by some key with or without shift, and shift turns every lower-case letter into its
  capital.
\<close>

theorem keymap_ascii:
  "length keymap = NR_SCAN_CODES * MAP_COLS
   \<and> map (\<lambda>i. keymap ! i) ascii_keys = map word_of_nat [0x20..<0x7F] \<and> list_all (\<lambda>i. i mod MAP_COLS < 2) ascii_keys
   \<and> list_all (\<lambda>(a, b, e). 0x61 \<le> a \<and> a \<le> 0x7A \<longrightarrow> b = a - 0x20) (rows_of keymap)"
proof -
  have "list_all (\<lambda>i. i mod MAP_COLS < 2) ascii_keys" by code_simp
  then show ?thesis using keymap_types_ascii keymap_shifts length_keymap by blast
qed

theorem keymap_ascii_witness:
  "keymap ! (ascii_keys ! 33) = word_of_nat (0x20 + 33)"
proof -
  have "33 < length ascii_keys" by (simp add: ascii_keys_def)
  then have "keymap ! (ascii_keys ! 33) = map (\<lambda>i. keymap ! i) ascii_keys ! 33" by simp
  also have "\<dots> = map word_of_nat [0x20..<0x7F] ! 33" using keymap_ascii by simp
  finally show ?thesis by (simp add: nth_map)
qed

end
