(* ===== verification/Oranges_Keyboard.thy ===== *)
theory Oranges_Keyboard
  imports Oranges_Keymap
begin

unbundle bit_operations_syntax

text \<open>
  The keyboard driver and the terminal task of Orange'S: \<open>kernel/keyboard.c\<close>, \<open>kernel/tty.c\<close> and
  the buffer type of \<open>include/keyboard.h\<close> of \<open>oranges/code/io/cursor\<close>. The pointers into the
  buffer are offsets. \<open>get_byte_from_kbuf\<close> spins until an interrupt has delivered a byte; the
  bytes that arrive during the spinning are an argument, and \<open>None\<close> means that the task is
  still spinning.
\<close>

section \<open>State\<close>

record kb_input =
  p_head :: nat
  p_tail :: nat
  kb_count :: int
  kb_buf :: "byte list"

record keyboard =
  kb_in :: kb_input
  code_with_E0 :: bool
  shift_l :: bool
  shift_r :: bool
  alt_l :: bool
  alt_r :: bool
  ctrl_l :: bool
  ctrl_r :: bool
  column :: nat

section \<open>keyboard_handler and get_byte_from_kbuf\<close>

definition keyboard_handler :: "byte \<Rightarrow> kb_input \<Rightarrow> kb_input" where
  "keyboard_handler scan_code kb =
     (if kb_count kb < int KB_IN_BYTES
      then (let kb = kb\<lparr>kb_buf := (kb_buf kb)[p_head kb := scan_code], p_head := p_head kb + 1\<rparr>;
                kb = (if p_head kb = KB_IN_BYTES then kb\<lparr>p_head := 0\<rparr> else kb)
            in kb\<lparr>kb_count := kb_count kb + 1\<rparr>)
      else kb)"

definition take_byte :: "kb_input \<Rightarrow> byte \<times> kb_input" where
  "take_byte kb =
     (let scan_code = kb_buf kb ! p_tail kb;
          kb = kb\<lparr>p_tail := p_tail kb + 1\<rparr>;
          kb = (if p_tail kb = KB_IN_BYTES then kb\<lparr>p_tail := 0\<rparr> else kb)
      in (scan_code, kb\<lparr>kb_count := kb_count kb - 1\<rparr>))"

fun get_byte_from_kbuf :: "byte list \<Rightarrow> kb_input \<Rightarrow> (byte \<times> kb_input \<times> byte list) option" where
  "get_byte_from_kbuf [] kb =
     (if kb_count kb \<le> 0 then None else (case take_byte kb of (b, kb) \<Rightarrow> Some (b, kb, [])))"
| "get_byte_from_kbuf (a # arrivals) kb =
     (if kb_count kb \<le> 0 then get_byte_from_kbuf arrivals (keyboard_handler a kb)
      else (case take_byte kb of (b, kb) \<Rightarrow> Some (b, kb, a # arrivals)))"

section \<open>init_keyboard\<close>

definition init_keyboard :: "keyboard \<Rightarrow> machine \<Rightarrow> fault + (keyboard \<times> machine)" where
  "init_keyboard ks mc =
     (let ks = ks\<lparr>kb_in := (kb_in ks)\<lparr>kb_count := 0, p_head := 0, p_tail := 0\<rparr>,
                  shift_l := False, shift_r := False, alt_l := False, alt_r := False,
                  ctrl_l := False, ctrl_r := False\<rparr>
      in case put_irq_handler KEYBOARD_IRQ keyboard_irq_handler mc of
           Inl e \<Rightarrow> Inl e
         | Inr mc \<Rightarrow> Inr (ks, enable_irq KEYBOARD_IRQ mc))"

section \<open>in_process (tty.c)\<close>

definition in_process :: "32 word \<Rightarrow> machine \<Rightarrow> machine" where
  "in_process key mc =
     (if key AND FLAG_EXT = 0
      then
        (let mc = disp_str [ucast (key AND 0xFF)] mc;
             pos = mc_disp_pos mc sdiv 2;
             mc = out_byte CRTC_ADDR_REG CURSOR_H mc;
             mc = out_byte CRTC_DATA_REG (word_of_int (drop_bit 8 pos)) mc;
             mc = out_byte CRTC_ADDR_REG CURSOR_L mc
         in out_byte CRTC_DATA_REG (word_of_int pos) mc)
      else if key AND MASK_RAW = UP_key
           \<and> (key AND FLAG_SHIFT_L \<noteq> 0 \<or> key AND FLAG_SHIFT_R \<noteq> 0)
      then
        (let mc = out_byte CRTC_ADDR_REG START_ADDR_H mc;
             mc = out_byte CRTC_DATA_REG (word_of_int (drop_bit 8 (80 * 15))) mc;
             mc = out_byte CRTC_ADDR_REG START_ADDR_L mc
         in out_byte CRTC_DATA_REG (word_of_int (80 * 15)) mc)
      else mc)"

text \<open>The stage before, \<open>io/keyboard\<close>, has this terminal without a cursor and without scrolling.\<close>

definition in_process_keyboard :: "32 word \<Rightarrow> machine \<Rightarrow> machine" where
  "in_process_keyboard key mc = (if key AND FLAG_EXT = 0 then disp_str [ucast (key AND 0xFF)] mc else mc)"

section \<open>keyboard_read\<close>

text \<open>
  The comparison of the five bytes after \<open>0xE1\<close>; it stops at the first one that differs. The
  result says whether all agreed.
\<close>

fun match_pause :: "byte list \<Rightarrow> byte list \<Rightarrow> kb_input \<Rightarrow> (bool \<times> kb_input \<times> byte list) option" where
  "match_pause [] arr kb = Some (True, kb, arr)"
| "match_pause (e # es) arr kb =
     (case get_byte_from_kbuf arr kb of
        None \<Rightarrow> None
      | Some (b, kb, arr) \<Rightarrow> if b \<noteq> e then Some (False, kb, arr) else match_pause es arr kb)"

text \<open>\<open>if (get_byte_from_kbuf() == b1) if (get_byte_from_kbuf() == b2)\<close>.\<close>

definition match_two :: "byte \<Rightarrow> byte \<Rightarrow> byte list \<Rightarrow> kb_input \<Rightarrow> (bool \<times> kb_input \<times> byte list) option" where
  "match_two b1 b2 arr kb =
     (case get_byte_from_kbuf arr kb of
        None \<Rightarrow> None
      | Some (b, kb, arr) \<Rightarrow>
          if b \<noteq> b1 then Some (False, kb, arr)
          else (case get_byte_from_kbuf arr kb of
                  None \<Rightarrow> None
                | Some (b, kb, arr) \<Rightarrow> Some (b = b2, kb, arr)))"

text \<open>
  The part from \<open>make = ...\<close> on, for a key that is neither Pause nor PrintScreen: the new state
  and the key passed to \<open>in_process\<close>, if there is one.
\<close>

definition keyrow :: "byte \<Rightarrow> nat" where
  "keyrow scan_code = unat (scan_code AND 0x7F) * MAP_COLS"

definition pick_column :: "keyboard \<Rightarrow> keyboard" where
  "pick_column ks =
     (let ks = ks\<lparr>column := 0\<rparr>;
          ks = (if shift_l ks \<or> shift_r ks then ks\<lparr>column := 1\<rparr> else ks)
      in if code_with_E0 ks then ks\<lparr>column := 2, code_with_E0 := False\<rparr> else ks)"

definition set_modifier :: "32 word \<Rightarrow> bool \<Rightarrow> keyboard \<Rightarrow> keyboard" where
  "set_modifier key pressed ks =
     (if key = SHIFT_L then ks\<lparr>shift_l := pressed\<rparr>
      else if key = SHIFT_R then ks\<lparr>shift_r := pressed\<rparr>
      else if key = CTRL_L then ks\<lparr>ctrl_l := pressed\<rparr>
      else if key = CTRL_R then ks\<lparr>ctrl_r := pressed\<rparr>
      else if key = ALT_L then ks\<lparr>alt_l := pressed\<rparr>
      else if key = ALT_R then ks\<lparr>alt_l := pressed\<rparr>
      else ks)"

definition add_flags :: "32 word \<Rightarrow> keyboard \<Rightarrow> 32 word" where
  "add_flags key ks =
     key OR (if shift_l ks then FLAG_SHIFT_L else 0) OR (if shift_r ks then FLAG_SHIFT_R else 0)
         OR (if ctrl_l ks then FLAG_CTRL_L else 0) OR (if ctrl_r ks then FLAG_CTRL_R else 0)
         OR (if alt_l ks then FLAG_ALT_L else 0) OR (if alt_r ks then FLAG_ALT_R else 0)"

definition decode_key :: "byte \<Rightarrow> keyboard \<Rightarrow> keyboard \<times> 32 word option" where
  "decode_key scan_code ks =
     (let make = (ucast scan_code AND FLAG_BREAK = 0);
          ks = pick_column ks;
          key = keymap ! (keyrow scan_code + column ks);
          ks = set_modifier key make ks
      in (ks, if make then Some (add_flags key ks) else None))"

text \<open>The scan codes of one key: \<open>Inl\<close> is Pause or PrintScreen, \<open>Inr\<close> the code to decode.\<close>

definition scan :: "byte list \<Rightarrow> keyboard \<Rightarrow> ((32 word + byte) \<times> keyboard \<times> byte list) option" where
  "scan arr ks =
     (let ks = ks\<lparr>code_with_E0 := False\<rparr>
      in case get_byte_from_kbuf arr (kb_in ks) of
           None \<Rightarrow> None
         | Some (scan_code, kb, arr) \<Rightarrow>
             if scan_code = 0xE1
             then (case match_pause [0x1D, 0x45, 0xE1, 0x9D, 0xC5] arr kb of
                     None \<Rightarrow> None
                   | Some (is_pausebreak, kb, arr) \<Rightarrow>
                       Some (if is_pausebreak then Inl PAUSEBREAK else Inr scan_code, ks\<lparr>kb_in := kb\<rparr>, arr))
             else if scan_code = 0xE0
             then (case get_byte_from_kbuf arr kb of
                     None \<Rightarrow> None
                   | Some (scan_code, kb, arr) \<Rightarrow>
                       (case (if scan_code = 0x2A then match_two 0xE0 0x37 arr kb
                              else if scan_code = 0xB7 then match_two 0xE0 0xAA arr kb
                              else Some (False, kb, arr)) of
                          None \<Rightarrow> None
                        | Some (print, kb, arr) \<Rightarrow>
                            Some (if print then Inl PRINTSCREEN else Inr scan_code,
                                  ks\<lparr>kb_in := kb, code_with_E0 := \<not> print\<rparr>, arr)))
             else Some (Inr scan_code, ks\<lparr>kb_in := kb\<rparr>, arr))"

definition keyboard_read ::
  "byte list \<Rightarrow> keyboard \<Rightarrow> machine \<Rightarrow> (keyboard \<times> machine \<times> byte list) option" where
  "keyboard_read arr ks mc =
     (if kb_count (kb_in ks) \<le> 0 then Some (ks, mc, arr)
      else (case scan arr ks of
              None \<Rightarrow> None
            | Some (Inl special, ks, arr) \<Rightarrow> Some (ks, mc, arr)
            | Some (Inr scan_code, ks, arr) \<Rightarrow>
                (case decode_key scan_code ks of
                   (ks, None) \<Rightarrow> Some (ks, mc, arr)
                 | (ks, Some key) \<Rightarrow> Some (ks, in_process key mc, arr))))"

section \<open>task_tty\<close>

definition deliver :: "byte list \<Rightarrow> keyboard \<Rightarrow> keyboard" where
  "deliver bs ks = ks\<lparr>kb_in := fold keyboard_handler bs (kb_in ks)\<rparr>"

text \<open>
  The endless loop, followed for as many rounds as the schedule has entries: for each round the
  scan codes that arrive before it and those that arrive while it waits for a byte.
\<close>

fun task_tty :: "(byte list \<times> byte list) list \<Rightarrow> keyboard \<Rightarrow> machine \<Rightarrow> (keyboard \<times> machine) option" where
  "task_tty [] ks mc = Some (ks, mc)"
| "task_tty ((before, during) # rounds) ks mc =
     (case keyboard_read during (deliver before ks) mc of
        None \<Rightarrow> None
      | Some (ks, mc, later) \<Rightarrow> task_tty rounds (deliver later ks) mc)"

section \<open>The buffer as a queue\<close>

definition kb_inv :: "kb_input \<Rightarrow> bool" where
  "kb_inv kb \<longleftrightarrow> length (kb_buf kb) = 32 \<and> p_tail kb < 32 \<and> 0 \<le> kb_count kb \<and> kb_count kb \<le> 32
     \<and> p_head kb = (p_tail kb + nat (kb_count kb)) mod 32"

definition kb_contents :: "kb_input \<Rightarrow> byte list" where
  "kb_contents kb = map (\<lambda>i. kb_buf kb ! ((p_tail kb + i) mod 32)) [0..<nat (kb_count kb)]"

lemma kb_handler_spec:
  assumes inv: "kb_inv kb"
  shows "kb_inv (keyboard_handler b kb)"
    and "kb_contents (keyboard_handler b kb) = kb_contents kb @ (if kb_count kb < 32 then [b] else [])"
    and "kb_count (keyboard_handler b kb) = (if kb_count kb < 32 then kb_count kb + 1 else kb_count kb)"
proof -
  define t n where "t = p_tail kb" and "n = nat (kb_count kb)"
  have tn: "length (kb_buf kb) = 32" "t < 32" "kb_count kb = int n" "p_head kb = (t + n) mod 32" "n \<le> 32"
    using inv by (auto simp: kb_inv_def t_def n_def)
  have h: "(if Suc ((t + n) mod 32) = 32 then 0 else Suc ((t + n) mod 32)) = Suc (t + n) mod 32"
    by (simp add: mod_Suc)
  have k: "keyboard_handler b kb = (if n < 32 then kb\<lparr>kb_buf := (kb_buf kb)[(t + n) mod 32 := b],
      p_head := Suc (t + n) mod 32, kb_count := int (Suc n)\<rparr> else kb)"
    using tn h by (auto simp: keyboard_handler_def KB_IN_BYTES_def Let_def split: if_splits)
  have "nat (1 + int n) = Suc n" by simp
  then show "kb_inv (keyboard_handler b kb)" using inv tn unfolding k kb_inv_def by (auto simp: t_def)
  show "kb_count (keyboard_handler b kb) = (if kb_count kb < 32 then kb_count kb + 1 else kb_count kb)"
    using tn unfolding k by auto
  have "(t + n) mod 32 \<noteq> (t + i) mod 32" if "i < n" "n < 32" for i
    using mod_add_inj [OF that] .
  moreover have "nat (1 + int n) = Suc n" by simp
  ultimately show "kb_contents (keyboard_handler b kb) = kb_contents kb @ (if kb_count kb < 32 then [b] else [])"
    using tn unfolding k kb_contents_def by (auto simp: t_def [symmetric] n_def [symmetric])
qed

lemma kb_take_spec:
  assumes inv: "kb_inv kb" and pos: "0 < kb_count kb" and take: "take_byte kb = (b, kb')"
  shows "kb_inv kb'" and "kb_contents kb = b # kb_contents kb'" and "kb_count kb' = kb_count kb - 1"
proof -
  define t n where "t = p_tail kb" and "n = nat (kb_count kb) - 1"
  have tn: "length (kb_buf kb) = 32" "t < 32" "kb_count kb = int (Suc n)" "p_head kb = (t + Suc n) mod 32" "n < 32"
    using inv pos by (auto simp: kb_inv_def t_def n_def)
  have h: "(if Suc t = 32 then 0 else Suc t) = Suc t mod 32" using tn(2) by simp
  have k: "b = kb_buf kb ! t" "kb' = kb\<lparr>p_tail := Suc t mod 32, kb_count := int n\<rparr>"
    using tn take h by (auto simp: take_byte_def KB_IN_BYTES_def Let_def t_def [symmetric] split: if_splits)
  have wrap: "(Suc t mod 32 + i) mod 32 = (t + Suc i) mod 32" for i by (simp add: mod_simps)
  show "kb_inv kb'" using tn wrap [of n] by (simp add: kb_inv_def k)
  show "kb_count kb' = kb_count kb - 1" using tn by (simp add: k)
  have "nat (kb_count kb) = Suc n" using tn(3) by simp
  then show "kb_contents kb = b # kb_contents kb'"
    using tn wrap by (simp add: kb_contents_def k t_def [symmetric] upt_conv_Cons map_Suc_upt [symmetric] del: upt_Suc)
qed

datatype kb_op = Interrupt byte | Get

definition kb_step :: "kb_op \<Rightarrow> kb_input \<Rightarrow> kb_input" where
  "kb_step x kb = (case x of Interrupt b \<Rightarrow> keyboard_handler b kb
     | Get \<Rightarrow> (case get_byte_from_kbuf [] kb of None \<Rightarrow> kb | Some (b, kb', arr) \<Rightarrow> kb'))"

definition kb_pushed :: "kb_op \<Rightarrow> kb_input \<Rightarrow> byte list" where
  "kb_pushed x kb = (case x of Interrupt b \<Rightarrow> if length (kb_contents kb) < KB_IN_BYTES then [b] else [] | Get \<Rightarrow> [])"

definition kb_popped :: "kb_op \<Rightarrow> kb_input \<Rightarrow> byte list" where
  "kb_popped x kb = (case x of Interrupt b \<Rightarrow> []
     | Get \<Rightarrow> (case get_byte_from_kbuf [] kb of None \<Rightarrow> [] | Some (b, kb', arr) \<Rightarrow> [b]))"

lemma length_kb_contents: "kb_inv kb \<Longrightarrow> int (length (kb_contents kb)) = kb_count kb"
  by (simp add: kb_contents_def kb_inv_def)

lemma kb_contents_Nil: "kb_inv kb \<Longrightarrow> kb_contents kb = [] \<longleftrightarrow> kb_count kb \<le> 0"
  using length_kb_contents [of kb] by (metis length_0_conv of_nat_le_0_iff)

lemma get_byte_now:
  assumes "kb_inv kb" and "kb_contents kb = b # bs"
  obtains kb' where "get_byte_from_kbuf arr kb = Some (b, kb', arr)" and "kb_inv kb'" and "kb_contents kb' = bs"
proof -
  have pos: "0 < kb_count kb" using assms kb_contents_Nil by force
  obtain c kb' where t: "take_byte kb = (c, kb')" by (cases "take_byte kb")
  then have "kb_inv kb'" "kb_contents kb' = bs" "c = b"
    using kb_take_spec [OF assms(1) pos t] assms(2) by simp_all
  moreover have "get_byte_from_kbuf arr kb = Some (c, kb', arr)" using pos t by (cases arr) simp_all
  ultimately show thesis using that by simp
qed

lemma get_byte_empty: "kb_inv kb \<Longrightarrow> kb_contents kb = [] \<Longrightarrow> get_byte_from_kbuf [] kb = None"
  by (simp add: kb_contents_Nil)

text \<open>A byte that arrives while the task waits is not lost: the buffer is empty then.\<close>

lemma get_byte_waits:
  assumes "kb_inv kb" and "kb_contents kb @ arr = b # bs"
  obtains kb' arr' where "get_byte_from_kbuf arr kb = Some (b, kb', arr')" and "kb_inv kb'"
    and "kb_contents kb' @ arr' = bs"
proof (cases "kb_contents kb")
  case (Cons c cs)
  then show thesis using assms get_byte_now [OF assms(1) Cons, of arr] that by auto
next
  case Nil
  then have arr: "arr = b # bs" and c: "kb_count kb = 0" using assms kb_contents_Nil by (auto simp: kb_inv_def)
  have "kb_contents (keyboard_handler b kb) = [b]" using kb_handler_spec(2) [OF assms(1)] Nil c by simp
  then show thesis
    using get_byte_now [OF kb_handler_spec(1) [OF assms(1)], of b b "[]" bs] that c arr by auto
qed

interpretation kbq: fifo kb_step kb_inv kb_contents kb_pushed kb_popped "\<lambda>_. KB_IN_BYTES"
proof
  fix kb :: kb_input and x
  assume inv: "kb_inv kb"
  have "kb_inv (kb_step x kb) \<and> kb_popped x kb @ kb_contents (kb_step x kb) = kb_contents kb @ kb_pushed x kb"
  proof (cases x)
    case (Interrupt b)
    have "length (kb_contents kb) < KB_IN_BYTES \<longleftrightarrow> kb_count kb < 32"
      unfolding KB_IN_BYTES_def using length_kb_contents [OF inv] by linarith
    then show ?thesis using kb_handler_spec(1,2) [OF inv, of b] Interrupt
      by (simp add: kb_step_def kb_popped_def kb_pushed_def)
  next
    case Get
    show ?thesis
    proof (cases "kb_contents kb")
      case Nil
      then show ?thesis using get_byte_empty [OF inv Nil] Get inv
        by (simp add: kb_step_def kb_popped_def kb_pushed_def)
    next
      case (Cons b bs)
      obtain kb' where g: "get_byte_from_kbuf [] kb = Some (b, kb', [])" "kb_inv kb'" "kb_contents kb' = bs"
        by (rule get_byte_now [OF inv Cons])
      then have "kb_step Get kb = kb'" "kb_popped Get kb = [b]" "kb_pushed Get kb = []"
        by (simp_all add: kb_step_def kb_popped_def kb_pushed_def del: get_byte_from_kbuf.simps)
      then show ?thesis using Get Cons g by simp
    qed
  qed
  then show "kb_inv (kb_step x kb)"
    and "kb_popped x kb @ kb_contents (kb_step x kb) = kb_contents kb @ kb_pushed x kb" by auto
  show "length (kb_contents kb) \<le> KB_IN_BYTES"
    using inv length_kb_contents [OF inv] by (simp add: kb_inv_def KB_IN_BYTES_def)
qed simp

text \<open>
  C9: Between the interrupt handler and the terminal task the buffer is a queue of at most 32 scan
  codes, whatever order interrupts and reads come in: what is read, followed by what is left, is
  what was there followed by what the handler accepted. The handler accepts every scan code while
  fewer than 32 wait and drops it otherwise, and a read that finds none takes none.
\<close>

theorem keyboard_fifo:
  assumes "kb_inv kb"
  shows "kb_inv (run_ops kb_step xs kb)
    \<and> out_ops kb_step kb_popped xs kb @ kb_contents (run_ops kb_step xs kb)
        = kb_contents kb @ out_ops kb_step kb_pushed xs kb
    \<and> length (kb_contents (run_ops kb_step xs kb)) \<le> KB_IN_BYTES"
  using kbq.inv_run [OF assms] kbq.run_order [OF assms] kbq.run_bound [OF assms] by blast

definition empty_kb :: kb_input where
  "empty_kb = \<lparr>p_head = 0, p_tail = 0, kb_count = 0, kb_buf = replicate 32 0\<rparr>"

lemma kb_inv_empty [simp]: "kb_inv empty_kb"
  by (simp add: kb_inv_def empty_kb_def)

theorem keyboard_fifo_witness:
  "kb_inv empty_kb \<and> length (kb_contents (run_ops kb_step [Interrupt 0x1E, Get, Get] empty_kb)) \<le> KB_IN_BYTES"
  using keyboard_fifo [OF kb_inv_empty, of "[Interrupt 0x1E, Get, Get]"] by simp

section \<open>keyboard_read returns\<close>

text \<open>
  \<open>takes k arr kb arr' kb'\<close>: between the two states at most \<open>k\<close> bytes were taken off the front of
  the stream of bytes that wait in the buffer or are still to come.
\<close>

definition takes :: "nat \<Rightarrow> byte list \<Rightarrow> kb_input \<Rightarrow> byte list \<Rightarrow> kb_input \<Rightarrow> bool" where
  "takes k arr kb arr' kb' \<longleftrightarrow> kb_inv kb'
     \<and> (\<exists>n\<le>k. kb_contents kb' @ arr' = drop n (kb_contents kb @ arr))"

lemma takes_refl: "kb_inv kb \<Longrightarrow> takes k arr kb arr kb"
  unfolding takes_def by (metis drop_0 le0)

lemma takes_trans:
  assumes "takes k arr kb arr1 kb1" and "takes l arr1 kb1 arr2 kb2"
  shows "takes (k + l) arr kb arr2 kb2"
  using assms unfolding takes_def by (metis add_le_mono add.commute drop_drop)

lemma takes_mono: "takes k arr kb arr1 kb1 \<Longrightarrow> k \<le> l \<Longrightarrow> takes l arr kb arr1 kb1"
  unfolding takes_def by (meson le_trans)

lemma takes_length: "takes k arr kb arr1 kb1 \<Longrightarrow>
  length (kb_contents kb @ arr) \<le> length (kb_contents kb1 @ arr1) + k"
  unfolding takes_def by (metis diff_le_mono2 le_diff_conv length_drop)

lemma get_byte_takes:
  assumes "kb_inv kb" and "1 \<le> length (kb_contents kb @ arr)"
  obtains b kb' arr' where "get_byte_from_kbuf arr kb = Some (b, kb', arr')" and "takes 1 arr kb arr' kb'"
proof -
  obtain b bs where c: "kb_contents kb @ arr = b # bs" using assms(2) by (cases "kb_contents kb @ arr") auto
  then have "bs = drop 1 (kb_contents kb @ arr)" by simp
  then show thesis using get_byte_waits [OF assms(1) c] that unfolding takes_def by (metis order_refl)
qed

lemma match_pause_takes:
  assumes "kb_inv kb" and "length es \<le> length (kb_contents kb @ arr)"
  shows "\<exists>p kb' arr'. match_pause es arr kb = Some (p, kb', arr') \<and> takes (length es) arr kb arr' kb'"
  using assms
proof (induction es arbitrary: arr kb)
  case Nil
  then show ?case by (auto simp: takes_refl)
next
  case (Cons e es)
  obtain b kb1 arr1 where g: "get_byte_from_kbuf arr kb = Some (b, kb1, arr1)" and t: "takes 1 arr kb arr1 kb1"
    using get_byte_takes [of kb arr] Cons.prems by auto
  have "kb_inv kb1" "length es \<le> length (kb_contents kb1 @ arr1)"
    using t takes_length [OF t] Cons.prems(2) by (auto simp: takes_def)
  from Cons.IH [OF this] obtain p kb2 arr2 where
    "match_pause es arr1 kb1 = Some (p, kb2, arr2)" "takes (length es) arr1 kb1 arr2 kb2" by blast
  then show ?case using g takes_trans [OF t] takes_mono [OF t, of "length (e # es)"] by auto
qed

lemma match_two_takes:
  assumes "kb_inv kb" and "2 \<le> length (kb_contents kb @ arr)"
  shows "\<exists>p kb' arr'. match_two b1 b2 arr kb = Some (p, kb', arr') \<and> takes 2 arr kb arr' kb'"
proof -
  obtain b kb1 arr1 where g: "get_byte_from_kbuf arr kb = Some (b, kb1, arr1)" and t: "takes 1 arr kb arr1 kb1"
    using get_byte_takes [of kb arr] assms by auto
  have "kb_inv kb1" "1 \<le> length (kb_contents kb1 @ arr1)"
    using t takes_length [OF t] assms(2) by (auto simp: takes_def)
  then obtain c kb2 arr2 where "get_byte_from_kbuf arr1 kb1 = Some (c, kb2, arr2)" "takes 1 arr1 kb1 arr2 kb2"
    using get_byte_takes by blast
  then show ?thesis using g takes_trans [OF t, of 1] takes_mono [OF t, of 2]
    by (auto simp: match_two_def numeral_2_eq_2)
qed

lemma scan_takes:
  assumes inv: "kb_inv (kb_in ks)" and len: "6 \<le> length (kb_contents (kb_in ks) @ arr)"
  shows "\<exists>r ks' arr'. scan arr ks = Some (r, ks', arr') \<and> takes 6 arr (kb_in ks) arr' (kb_in ks')"
proof -
  obtain b kb1 arr1 where g: "get_byte_from_kbuf arr (kb_in ks) = Some (b, kb1, arr1)"
    and t: "takes 1 arr (kb_in ks) arr1 kb1"
    using get_byte_takes [OF inv] len by (metis le_trans one_le_numeral)
  have inv1: "kb_inv kb1" and len1: "5 \<le> length (kb_contents kb1 @ arr1)"
    using t takes_length [OF t] len by (auto simp: takes_def)
  consider "b = 0xE1" | "b = 0xE0" | "b \<noteq> 0xE1" "b \<noteq> 0xE0" by blast
  then show ?thesis
  proof cases
    case 1
    obtain p kb2 arr2 where "match_pause [0x1D, 0x45, 0xE1, 0x9D, 0xC5] arr1 kb1 = Some (p, kb2, arr2)"
      and "takes 5 arr1 kb1 arr2 kb2"
      using match_pause_takes [OF inv1, of "[0x1D, 0x45, 0xE1, 0x9D, 0xC5]" arr1] len1
      by (auto simp: eval_nat_numeral simp del: match_pause.simps)
    then show ?thesis using g 1 takes_trans [OF t, of 5] by (simp add: scan_def del: match_pause.simps)
  next
    case 2
    obtain c kb2 arr2 where g2: "get_byte_from_kbuf arr1 kb1 = Some (c, kb2, arr2)" and t2: "takes 1 arr1 kb1 arr2 kb2"
      using get_byte_takes [OF inv1] len1 by (metis le_trans one_le_numeral)
    have inv2: "kb_inv kb2" and len2: "2 \<le> length (kb_contents kb2 @ arr2)"
      using t2 takes_length [OF t2] len1 by (auto simp: takes_def)
    obtain p kb3 arr3 where m: "(if c = 0x2A then match_two 0xE0 0x37 arr2 kb2
        else if c = 0xB7 then match_two 0xE0 0xAA arr2 kb2 else Some (False, kb2, arr2)) = Some (p, kb3, arr3)"
      and t3: "takes 2 arr2 kb2 arr3 kb3"
      using match_two_takes [OF inv2 len2] takes_refl [OF inv2] by metis
    have "takes 6 arr (kb_in ks) arr3 kb3"
      by (rule takes_mono [OF takes_trans [OF t takes_trans [OF t2 t3]]]) simp
    then show ?thesis using g g2 m 2 by (simp add: scan_def)
  next
    case 3
    then show ?thesis using g takes_mono [OF t, of 6] by (simp add: scan_def)
  qed
qed

lemma pick_column_simps [simp]:
  "kb_in (pick_column ks) = kb_in ks" "alt_r (pick_column ks) = alt_r ks" "column (pick_column ks) < MAP_COLS"
  by (auto simp: pick_column_def MAP_COLS_def Let_def)

lemma set_modifier_simps [simp]:
  "kb_in (set_modifier key pressed ks) = kb_in ks" "alt_r (set_modifier key pressed ks) = alt_r ks"
  "column (set_modifier key pressed ks) = column ks"
  by (auto simp: set_modifier_def)

lemma decode_keeps [simp]:
  "kb_in (fst (decode_key b ks)) = kb_in ks" "alt_r (fst (decode_key b ks)) = alt_r ks"
  "column (fst (decode_key b ks)) < MAP_COLS"
  by (simp_all add: decode_key_def Let_def)

lemma keyrow_in_range: "c < MAP_COLS \<Longrightarrow> keyrow b + c < length keymap"
proof -
  assume c: "c < MAP_COLS"
  have "b AND 0x7F = take_bit 7 b" by (simp add: take_bit_eq_mask mask_eq_exp_minus_1)
  then have "unat (b AND 0x7F) = take_bit 7 (unat b)" by (simp add: unsigned_take_bit_eq)
  then have "unat (b AND 0x7F) < 128" using take_bit_nat_less_exp [of 7 "unat b"] by simp
  then show ?thesis using c by (simp add: keyrow_def length_keymap NR_SCAN_CODES_def MAP_COLS_def)
qed

text \<open>
  A round of the terminal task ends: with the buffer empty at once, and otherwise if six scan
  codes, the length of the longest sequence, are in the buffer or arrive while it waits. It takes
  at most six of them, leaves the rest in their order and the buffer sound, and the row and column
  it looks up for any scan code lie within the key table.
\<close>

theorem keyboard_read_returns:
  assumes "kb_inv (kb_in ks)" and "kb_contents (kb_in ks) = [] \<or> 6 \<le> length (kb_contents (kb_in ks) @ arr)"
  shows "(\<exists>ks' mc' arr' n. keyboard_read arr ks mc = Some (ks', mc', arr') \<and> kb_inv (kb_in ks') \<and> n \<le> 6
            \<and> kb_contents (kb_in ks') @ arr' = drop n (kb_contents (kb_in ks) @ arr))
         \<and> (\<forall>b ks. keyrow b + column (fst (decode_key b ks)) < length keymap)"
proof -
  have "\<exists>ks' mc' arr'. keyboard_read arr ks mc = Some (ks', mc', arr') \<and> takes 6 arr (kb_in ks) arr' (kb_in ks')"
  proof (cases "kb_contents (kb_in ks) = []")
    case True
    then show ?thesis using kb_contents_Nil [OF assms(1)] takes_refl [OF assms(1)] by (simp add: keyboard_read_def)
  next
    case False
    then have "\<not> kb_count (kb_in ks) \<le> 0" using kb_contents_Nil [OF assms(1)] by simp
    moreover obtain r ks' arr' where "scan arr ks = Some (r, ks', arr')" "takes 6 arr (kb_in ks) arr' (kb_in ks')"
      using scan_takes [OF assms(1)] False assms(2) by blast
    moreover have "kb_in x = kb_in ks'" if "decode_key c ks' = (x, y)" for c x y
      using decode_keeps(1) [of c ks'] that by simp
    ultimately show ?thesis by (auto simp: keyboard_read_def split: sum.split prod.split option.split)
  qed
  then show ?thesis unfolding takes_def using keyrow_in_range [OF decode_keeps(3)] by metis
qed

definition idle_keyboard :: keyboard where
  "idle_keyboard = \<lparr>kb_in = empty_kb, code_with_E0 = False, shift_l = False, shift_r = False, alt_l = False,
     alt_r = False, ctrl_l = False, ctrl_r = False, column = 0\<rparr>"

theorem keyboard_read_returns_witness:
  "\<exists>ks' mc' arr'. keyboard_read [] idle_keyboard blank_machine = Some (ks', mc', arr') \<and> kb_inv (kb_in ks')"
proof -
  have "kb_inv (kb_in idle_keyboard)" "kb_contents (kb_in idle_keyboard) = []"
    by (simp_all add: idle_keyboard_def kb_contents_def empty_kb_def kb_inv_def)
  then show ?thesis using keyboard_read_returns [of idle_keyboard "[]" blank_machine] by blast
qed

section \<open>Typing\<close>

text \<open>The scan codes of a person who types a printable character: shift around the key if needed.\<close>

definition key_code :: "nat \<Rightarrow> byte" where
  "key_code c = of_nat (ascii_keys ! (c - 0x20) div MAP_COLS)"

definition needs_shift :: "nat \<Rightarrow> bool" where
  "needs_shift c = (ascii_keys ! (c - 0x20) mod MAP_COLS = 1)"

definition keystrokes :: "nat \<Rightarrow> byte list" where
  "keystrokes c = (if needs_shift c then [0x2A, key_code c, key_code c OR 0x80, 0xAA]
                   else [key_code c, key_code c OR 0x80])"

definition printable :: "nat \<Rightarrow> bool" where
  "printable c = (0x20 \<le> c \<and> c < 0x7F)"

text \<open>One scan code that is an event of its own.\<close>

definition key_event :: "byte \<Rightarrow> keyboard \<times> machine \<Rightarrow> keyboard \<times> machine" where
  "key_event b = (\<lambda>(ks, mc). case decode_key b (ks\<lparr>code_with_E0 := False\<rparr>) of
     (ks, None) \<Rightarrow> (ks, mc) | (ks, Some key) \<Rightarrow> (ks, in_process key mc))"

lemma scan_code_facts:
  assumes "k < 0x60"
  shows "keyrow (of_nat k) = k * MAP_COLS" and "keyrow (of_nat k OR 0x80) = k * MAP_COLS"
    and "ucast (of_nat k :: byte) AND FLAG_BREAK = 0" and "ucast (of_nat k OR 0x80 :: byte) AND FLAG_BREAK \<noteq> 0"
    and "of_nat k \<noteq> (0xE0 :: byte)" "of_nat k \<noteq> (0xE1 :: byte)"
    and "of_nat k OR 0x80 \<noteq> (0xE0 :: byte)" "of_nat k OR 0x80 \<noteq> (0xE1 :: byte)"
proof -
  have k: "unat (of_nat k :: byte) = k" using assms by (simp add: unat_of_nat)
  have "(of_nat k :: byte) AND 0x7F = take_bit 7 (of_nat k)" by (simp add: take_bit_eq_mask mask_eq_exp_minus_1)
  also have "\<dots> = of_nat k" using assms by (simp add: word_unat_eq_iff unsigned_take_bit_eq k take_bit_nat_eq_self)
  finally have low: "(of_nat k :: byte) AND 0x7F = of_nat k" .
  have low2: "(of_nat k OR 0x80 :: byte) AND 0x7F = of_nat k" using low by (simp add: bit.conj_disj_distrib2)
  show "keyrow (of_nat k) = k * MAP_COLS" "keyrow (of_nat k OR 0x80) = k * MAP_COLS"
    by (simp_all add: keyrow_def low low2 k)
  have "(of_nat k :: byte) AND 0x80 = (of_nat k AND 0x7F) AND 0x80" by (simp add: low)
  also have "\<dots> = 0" by (simp add: and.assoc)
  finally have b: "(of_nat k :: byte) AND 0x80 = 0" .
  have u: "ucast c AND FLAG_BREAK = (ucast (c AND 0x80 :: byte) :: 32 word)" for c
    by (simp add: FLAG_BREAK_def unsigned_and_eq)
  show "ucast (of_nat k :: byte) AND FLAG_BREAK = 0" by (simp add: u b)
  show "ucast (of_nat k OR 0x80 :: byte) AND FLAG_BREAK \<noteq> 0" by (simp add: u b bit.conj_disj_distrib2)
  have "x \<noteq> 0xE0 \<and> x \<noteq> 0xE1" if "x AND 0x7F = (of_nat k :: byte)" for x :: byte
  proof (intro conjI notI)
    assume "x = 0xE0"
    then have "of_nat k = (0x60 :: byte)" using that by simp
    then show False using k assms by simp
  next
    assume "x = 0xE1"
    then have "of_nat k = (0x61 :: byte)" using that by simp
    then show False using k assms by simp
  qed
  then show "of_nat k \<noteq> (0xE0 :: byte)" "of_nat k \<noteq> (0xE1 :: byte)"
    "of_nat k OR 0x80 \<noteq> (0xE0 :: byte)" "of_nat k OR 0x80 \<noteq> (0xE1 :: byte)" using low low2 by blast+
qed

lemma ascii_place:
  assumes "printable c"
  shows "keymap ! (ascii_keys ! (c - 0x20)) = word_of_nat c" and "ascii_keys ! (c - 0x20) div MAP_COLS < 0x60"
    and "ascii_keys ! (c - 0x20) mod MAP_COLS = (if needs_shift c then 1 else 0)"
proof -
  have len: "length ascii_keys = 95" by (simp add: ascii_keys_def)
  have i: "c - 0x20 < 95" "0x20 + (c - 0x20) = c" using assms by (auto simp: printable_def)
  have u: "[0x20..<0x7F] ! (c - 0x20) = c" using i nth_upt [of "0x20" "c - 0x20" "0x7F"] by linarith
  have "keymap ! (ascii_keys ! (c - 0x20)) = map (\<lambda>i. keymap ! i) ascii_keys ! (c - 0x20)"
    by (rule nth_map [symmetric]) (use i(1) len in linarith)
  also have "\<dots> = map word_of_nat [0x20..<0x7F] ! (c - 0x20)" by (simp only: keymap_types_ascii)
  also have "\<dots> = word_of_nat ([0x20..<0x7F] ! (c - 0x20))"
  proof (rule nth_map)
    have "length [0x20..<0x7F] = 95" by (simp only: length_upt)
    then show "c - 0x20 < length [0x20..<0x7F]" using i(1) by linarith
  qed
  also have "\<dots> = word_of_nat c" by (simp only: u)
  finally show "keymap ! (ascii_keys ! (c - 0x20)) = word_of_nat c" .
  have "list_all (\<lambda>i. i div MAP_COLS < 0x60 \<and> i mod MAP_COLS < 2) ascii_keys" by code_simp
  then have "ascii_keys ! (c - 0x20) div MAP_COLS < 0x60 \<and> ascii_keys ! (c - 0x20) mod MAP_COLS < 2"
    unfolding list_all_length len using i(1) by blast
  then show "ascii_keys ! (c - 0x20) div MAP_COLS < 0x60"
    and "ascii_keys ! (c - 0x20) mod MAP_COLS = (if needs_shift c then 1 else 0)"
    by (auto simp: needs_shift_def)
qed

lemma printable_word:
  assumes "printable c"
  shows "(word_of_nat c :: 32 word) < 0x80" and "ucast (word_of_nat c :: 32 word) = (of_nat c :: byte)"
    and "of_nat c \<noteq> (0 :: byte)" and "of_nat c \<noteq> (0x0A :: byte)"
proof -
  have c: "c < 128" "c \<noteq> 0" "c \<noteq> 10" using assms by (auto simp: printable_def)
  show "(word_of_nat c :: 32 word) < 0x80" using c by (simp add: word_less_nat_alt unat_of_nat)
  show "ucast (word_of_nat c :: 32 word) = (of_nat c :: byte)"
    using c by (simp add: unsigned_of_nat take_bit_nat_eq_self)
  have "unat (of_nat c :: byte) = c" using c by (simp add: unat_of_nat)
  then show "of_nat c \<noteq> (0 :: byte)" "of_nat c \<noteq> (0x0A :: byte)" using c by auto
qed

text \<open>No key is held down.\<close>

definition released :: "keyboard \<Rightarrow> bool" where
  "released ks \<longleftrightarrow> \<not> shift_l ks \<and> \<not> shift_r ks \<and> \<not> ctrl_l ks \<and> \<not> ctrl_r ks \<and> \<not> alt_l ks \<and> \<not> alt_r ks"

lemma char_not_modifier:
  assumes "(w :: 32 word) < 0x80"
  shows "set_modifier w pressed ks = ks" and "w AND FLAG_EXT = 0" and "w AND 0xFF = w"
proof -
  have "w \<noteq> SHIFT_L" "w \<noteq> SHIFT_R" "w \<noteq> CTRL_L" "w \<noteq> CTRL_R" "w \<noteq> ALT_L" "w \<noteq> ALT_R"
    using assms by (auto simp: key_defs)
  then show "set_modifier w pressed ks = ks" by (simp add: set_modifier_def)
  have "take_bit 8 (unat w) = unat w" using assms by (simp add: word_less_nat_alt take_bit_nat_eq_self)
  then have "take_bit 8 w = w" by (simp add: word_unat_eq_iff unsigned_take_bit_eq)
  then show ff: "w AND 0xFF = w" by (simp add: take_bit_eq_mask mask_eq_exp_minus_1)
  have "w AND FLAG_EXT = (w AND 0xFF) AND FLAG_EXT" by (simp only: ff)
  also have "\<dots> = 0" by (simp add: FLAG_EXT_def and.assoc)
  finally show "w AND FLAG_EXT = 0" .
qed

lemma in_process_char:
  assumes "(w :: 32 word) < 0x80"
  shows "in_process (add_flags w ks) mc = in_process w mc"
proof -
  have "add_flags w ks AND FLAG_EXT = w AND FLAG_EXT"
    by (simp add: add_flags_def bit.conj_disj_distrib2 key_defs)
  moreover have "add_flags w ks AND 0xFF = w AND 0xFF"
    by (simp add: add_flags_def bit.conj_disj_distrib2 key_defs)
  ultimately show ?thesis using char_not_modifier(2) [OF assms] by (simp add: in_process_def)
qed

lemma key_event_char:
  assumes c: "printable c" and shift: "needs_shift c \<longleftrightarrow> shift_l ks \<or> shift_r ks"
  shows "\<exists>col. key_event (key_code c) (ks, mc) = (ks\<lparr>code_with_E0 := False, column := col\<rparr>, in_process (word_of_nat c) mc)"
    and "\<exists>col. key_event (key_code c OR 0x80) (ks, mc) = (ks\<lparr>code_with_E0 := False, column := col\<rparr>, mc)"
proof -
  let ?p = "ascii_keys ! (c - 0x20)" and ?col = "if needs_shift c then 1 else 0 :: nat"
  let ?ks = "ks\<lparr>code_with_E0 := False, column := ?col\<rparr>"
  have col: "pick_column (ks\<lparr>code_with_E0 := False\<rparr>) = ?ks" using shift by (auto simp: pick_column_def)
  have "?p div MAP_COLS * MAP_COLS + ?col = ?p" using ascii_place(3) [OF c] by (metis div_mult_mod_eq)
  then have w: "keymap ! (keyrow b + ?col) = word_of_nat c" if "b = key_code c \<or> b = key_code c OR 0x80" for b
    using that ascii_place(1) [OF c] scan_code_facts(1,2) [OF ascii_place(2) [OF c]] by (auto simp: key_code_def)
  note facts = scan_code_facts [OF ascii_place(2) [OF c], folded key_code_def] char_not_modifier [OF printable_word(1) [OF c]]
    in_process_char [OF printable_word(1) [OF c]]
  have "key_event (key_code c) (ks, mc) = (?ks, in_process (word_of_nat c) mc)"
    using w [of "key_code c"] facts by (simp add: key_event_def decode_key_def col Let_def)
  then show "\<exists>col. key_event (key_code c) (ks, mc) = (ks\<lparr>code_with_E0 := False, column := col\<rparr>, in_process (word_of_nat c) mc)"
    by blast
  have "key_event (key_code c OR 0x80) (ks, mc) = (?ks, mc)"
    using w [of "key_code c OR 0x80"] facts by (simp add: key_event_def decode_key_def col Let_def)
  then show "\<exists>col. key_event (key_code c OR 0x80) (ks, mc) = (ks\<lparr>code_with_E0 := False, column := col\<rparr>, mc)"
    by blast
qed

lemma keymap_shift: "keymap ! 126 = SHIFT_L" "keymap ! 127 = SHIFT_L"
  by (simp_all add: keymap_def keymap0_def keymap1_def keymap2_def keymap3_def)

lemma key_event_shift:
  assumes "released ks"
  shows "\<exists>col. key_event 0x2A (ks, mc) = (ks\<lparr>shift_l := True, code_with_E0 := False, column := col\<rparr>, mc)"
    and "\<exists>col. key_event 0xAA (ks\<lparr>shift_l := True, code_with_E0 := e, column := k\<rparr>, mc)
      = (ks\<lparr>code_with_E0 := False, column := col\<rparr>, mc)"
proof -
  have row: "keyrow 0x2A = 126" "keyrow 0xAA = 126" by (simp_all add: keyrow_def MAP_COLS_def)
  have p: "in_process (add_flags SHIFT_L ks) mc = mc" for ks
    by (simp add: in_process_def add_flags_def bit.conj_disj_distrib2 key_defs)
  show "\<exists>col. key_event 0x2A (ks, mc) = (ks\<lparr>shift_l := True, code_with_E0 := False, column := col\<rparr>, mc)"
    using assms p by (cases ks) (simp add: key_event_def decode_key_def pick_column_def set_modifier_def
        released_def row keymap_shift Let_def FLAG_BREAK_def)
  show "\<exists>col. key_event 0xAA (ks\<lparr>shift_l := True, code_with_E0 := e, column := k\<rparr>, mc)
      = (ks\<lparr>code_with_E0 := False, column := col\<rparr>, mc)"
    using assms by (cases ks) (simp add: key_event_def decode_key_def pick_column_def set_modifier_def
        released_def row keymap_shift Let_def FLAG_BREAK_def)
qed

lemma type_char:
  assumes "released ks" and "printable c"
  shows "\<exists>ks'. fold key_event (keystrokes c) (ks, mc) = (ks', in_process (word_of_nat c) mc) \<and> released ks'"
proof (cases "needs_shift c")
  case False
  then have same: "needs_shift c \<longleftrightarrow> shift_l ks \<or> shift_r ks" using assms(1) by (simp add: released_def)
  obtain i where 1: "key_event (key_code c) (ks, mc) = (ks\<lparr>code_with_E0 := False, column := i\<rparr>, in_process (word_of_nat c) mc)"
    using key_event_char(1) [OF assms(2) same] by blast
  obtain j where "key_event (key_code c OR 0x80) (ks\<lparr>code_with_E0 := False, column := i\<rparr>, in_process (word_of_nat c) mc)
      = (ks\<lparr>code_with_E0 := False, column := j\<rparr>, in_process (word_of_nat c) mc)"
    using key_event_char(2) [OF assms(2), of "ks\<lparr>code_with_E0 := False, column := i\<rparr>"] same by auto
  then show ?thesis using 1 False assms(1) by (simp add: keystrokes_def released_def)
next
  case True
  let ?on = "\<lambda>i. ks\<lparr>shift_l := True, code_with_E0 := False, column := i\<rparr>"
  have on: "(?on i)\<lparr>code_with_E0 := False, column := j\<rparr> = ?on j" for i j by (cases ks) simp
  obtain i where 1: "key_event 0x2A (ks, mc) = (?on i, mc)" using key_event_shift(1) [OF assms(1)] by blast
  obtain j where 2: "key_event (key_code c) (?on i, mc) = (?on j, in_process (word_of_nat c) mc)"
    using key_event_char(1) [OF assms(2), of "?on i"] True on by auto
  obtain k where 3: "key_event (key_code c OR 0x80) (?on j, in_process (word_of_nat c) mc)
      = (?on k, in_process (word_of_nat c) mc)"
    using key_event_char(2) [OF assms(2), of "?on j"] True on by auto
  obtain l where "key_event 0xAA (?on k, in_process (word_of_nat c) mc)
      = (ks\<lparr>code_with_E0 := False, column := l\<rparr>, in_process (word_of_nat c) mc)"
    using key_event_shift(2) [OF assms(1)] by blast
  then show ?thesis using 1 2 3 True assms(1) by (simp add: keystrokes_def released_def)
qed

lemma type_text:
  assumes "released ks" and "list_all printable cs"
  shows "\<exists>ks'. fold key_event (concat (map keystrokes cs)) (ks, mc)
    = (ks', fold (\<lambda>c. in_process (word_of_nat c)) cs mc) \<and> released ks'"
  using assms
proof (induction cs arbitrary: ks mc)
  case (Cons c cs)
  then obtain ks1 where "fold key_event (keystrokes c) (ks, mc) = (ks1, in_process (word_of_nat c) mc)" "released ks1"
    using type_char [of ks c mc] by auto
  then show ?case using Cons.IH [of ks1] Cons.prems by simp
qed simp

text \<open>What is displayed, and where the cursor is put.\<close>

definition cursor_at :: "int \<Rightarrow> (16 word \<times> 8 word) list" where
  "cursor_at pos = [(CRTC_ADDR_REG, CURSOR_H), (CRTC_DATA_REG, word_of_int (drop_bit 8 pos)),
                    (CRTC_ADDR_REG, CURSOR_L), (CRTC_DATA_REG, word_of_int pos)]"

lemma in_process_shows:
  assumes "printable c" and "0 \<le> mc_disp_pos mc" and "mc_disp_pos mc + 2 \<le> V_MEM_SIZE"
  shows "mc_vram (in_process (word_of_nat c) mc) = (mc_vram mc)(mc_disp_pos mc := 0x0F00 OR of_nat c)"
    and "mc_disp_pos (in_process (word_of_nat c) mc) = mc_disp_pos mc + 2"
    and "mc_out (in_process (word_of_nat c) mc) = mc_out mc @ cursor_at ((mc_disp_pos mc + 2) sdiv 2)"
    and "mc_fault (in_process (word_of_nat c) mc) = mc_fault mc"
proof -
  have c: "c < 256" using assms(1) by (simp add: printable_def)
  note w = printable_word [OF assms(1)] char_not_modifier(2,3) [OF printable_word(1) [OF assms(1)]]
  have "ucast (of_nat c :: byte) = (of_nat c :: 16 word)" using c by (simp add: unsigned_of_nat take_bit_nat_eq_self)
  then have d: "disp_str [of_nat c] mc = mc\<lparr>mc_vram := (mc_vram mc)(mc_disp_pos mc := 0x0F00 OR of_nat c),
      mc_disp_pos := mc_disp_pos mc + 2\<rparr>"
    using w assms(2,3) by (simp add: disp_str_def disp_color_str_def VIDEO_LIMIT_def V_MEM_SIZE_def)
  show "mc_vram (in_process (word_of_nat c) mc) = (mc_vram mc)(mc_disp_pos mc := 0x0F00 OR of_nat c)"
    "mc_disp_pos (in_process (word_of_nat c) mc) = mc_disp_pos mc + 2"
    "mc_out (in_process (word_of_nat c) mc) = mc_out mc @ cursor_at ((mc_disp_pos mc + 2) sdiv 2)"
    "mc_fault (in_process (word_of_nat c) mc) = mc_fault mc"
    using w by (simp_all add: in_process_def d out_byte_def Let_def cursor_at_def)
qed

text \<open>The last stage adds writes to the display controller and changes nothing else.\<close>

lemma in_process_adds_cursor:
  "in_process key mc = (in_process_keyboard key mc)\<lparr>mc_out := mc_out (in_process key mc)\<rparr>"
  by (simp add: in_process_def in_process_keyboard_def out_byte_def Let_def CRTC_ADDR_REG_def CRTC_DATA_REG_def
      INT_M_CTLMASK_def INT_S_CTLMASK_def)

lemma text_shows:
  fixes mc :: machine and cs :: "nat list"
  assumes "list_all printable cs" and "0 \<le> mc_disp_pos mc" and "mc_disp_pos mc + 2 * int (length cs) \<le> V_MEM_SIZE"
  defines "mc' \<equiv> fold (\<lambda>c. in_process (word_of_nat c)) cs mc"
  shows "mc_fault mc' = mc_fault mc \<and> mc_disp_pos mc' = mc_disp_pos mc + 2 * int (length cs)
    \<and> (\<forall>i. mc_vram mc' i = (if \<exists>k<length cs. i = mc_disp_pos mc + 2 * int k
         then 0x0F00 OR of_nat (cs ! nat ((i - mc_disp_pos mc) div 2)) else mc_vram mc i))
    \<and> (cs = [] \<or> (\<exists>out. mc_out mc' = out @ cursor_at (mc_disp_pos mc' sdiv 2)))"
  using assms(1,3) unfolding mc'_def
proof (induction cs rule: rev_induct)
  case (snoc c cs)
  let ?m = "fold (\<lambda>c. in_process (word_of_nat c)) cs mc"
  have c: "printable c" and IH: "mc_disp_pos ?m = mc_disp_pos mc + 2 * int (length cs)" "mc_fault ?m = mc_fault mc"
    "mc_vram ?m i = (if \<exists>k<length cs. i = mc_disp_pos mc + 2 * int k
       then 0x0F00 OR of_nat (cs ! nat ((i - mc_disp_pos mc) div 2)) else mc_vram mc i)" for i
    using snoc by simp_all
  have room: "0 \<le> mc_disp_pos ?m" "mc_disp_pos ?m + 2 \<le> V_MEM_SIZE" using IH(1) assms(2) snoc.prems(2) by simp_all
  have "mc_vram (in_process (word_of_nat c) ?m) i = (if \<exists>k<length (cs @ [c]). i = mc_disp_pos mc + 2 * int k
       then 0x0F00 OR of_nat ((cs @ [c]) ! nat ((i - mc_disp_pos mc) div 2)) else mc_vram mc i)" for i
    by (auto simp: in_process_shows(1) [OF c room] IH less_Suc_eq nth_append)
  then show ?case using in_process_shows(2-4) [OF c room] IH(1,2) by auto
qed simp

lemma key_event_kb_in:
  "key_event b (map_prod (kb_in_update f) id s) = map_prod (kb_in_update f) id (key_event b s)"
proof (cases s)
  case (Pair ks mc)
  have p: "pick_column (ks\<lparr>code_with_E0 := e, kb_in := k\<rparr>) = (pick_column (ks\<lparr>code_with_E0 := e\<rparr>))\<lparr>kb_in := k\<rparr>" for e k
    by (cases ks) (simp add: pick_column_def Let_def)
  have m: "set_modifier key pressed (x\<lparr>kb_in := k\<rparr>) = (set_modifier key pressed x)\<lparr>kb_in := k\<rparr>" for key pressed x k
    by (cases x) (simp add: set_modifier_def)
  have a: "add_flags key (x\<lparr>kb_in := k\<rparr>) = add_flags key x" for key x k by (simp add: add_flags_def)
  have u: "kb_in_update f x = x\<lparr>kb_in := f (kb_in x)\<rparr>" for x by (cases x) simp
  have e: "(x\<lparr>kb_in := k\<rparr>)\<lparr>code_with_E0 := e\<rparr> = x\<lparr>code_with_E0 := e, kb_in := k\<rparr>" for x k e by (cases x) simp
  show ?thesis unfolding Pair
    by (simp add: key_event_def decode_key_def Let_def u e p m a)
qed

text \<open>The state without its buffer.\<close>

definition forget :: "keyboard \<times> machine \<Rightarrow> keyboard \<times> machine" where
  "forget = map_prod (kb_in_update (\<lambda>_. empty_kb)) id"

lemma key_event_forget: "key_event b (forget s) = forget (key_event b s)"
  unfolding forget_def by (rule key_event_kb_in)

lemma fold_key_event_forget: "fold key_event bs (forget s) = forget (fold key_event bs s)"
  by (induction bs arbitrary: s) (simp_all add: key_event_forget)

lemma forget_simp [simp]: "forget (ks\<lparr>kb_in := kb\<rparr>, mc) = forget (ks, mc)"
  by (simp add: forget_def)

lemma deliver_spec:
  assumes "kb_inv (kb_in ks)" and "length (kb_contents (kb_in ks)) + length bs \<le> KB_IN_BYTES"
  shows "kb_inv (kb_in (deliver bs ks)) \<and> kb_contents (kb_in (deliver bs ks)) = kb_contents (kb_in ks) @ bs
    \<and> deliver bs ks = ks\<lparr>kb_in := kb_in (deliver bs ks)\<rparr>"
proof -
  have "kb_inv (fold keyboard_handler bs kb) \<and> kb_contents (fold keyboard_handler bs kb) = kb_contents kb @ bs"
    if "kb_inv kb" "length (kb_contents kb) + length bs \<le> 32" for kb
    using that
  proof (induction bs arbitrary: kb)
    case (Cons b bs)
    have "kb_count kb < 32" using Cons.prems length_kb_contents [of kb] by simp
    then have "kb_contents (keyboard_handler b kb) = kb_contents kb @ [b]" "kb_inv (keyboard_handler b kb)"
      using kb_handler_spec(1,2) [OF Cons.prems(1), of b] by simp_all
    then show ?case using Cons.IH [of "keyboard_handler b kb"] Cons.prems(2) by simp
  qed simp
  then show ?thesis using assms by (simp add: deliver_def KB_IN_BYTES_def)
qed

lemma keyboard_read_event:
  assumes "kb_inv (kb_in ks)" and c: "kb_contents (kb_in ks) = b # bs" and b: "b \<notin> {0xE0, 0xE1}"
  shows "\<exists>ks' mc' kb'. keyboard_read [] ks mc = Some (ks', mc', []) \<and> key_event b (ks\<lparr>kb_in := kb'\<rparr>, mc) = (ks', mc')
    \<and> kb_in ks' = kb' \<and> kb_inv kb' \<and> kb_contents kb' = bs"
proof -
  obtain kb' where g: "get_byte_from_kbuf [] (kb_in ks) = Some (b, kb', [])" "kb_inv kb'" "kb_contents kb' = bs"
    by (rule get_byte_now [OF assms(1) c])
  have n: "\<not> kb_count (kb_in ks) \<le> 0" using kb_contents_Nil [OF assms(1)] c by simp
  let ?ks = "ks\<lparr>code_with_E0 := False, kb_in := kb'\<rparr>"
  obtain x y where dec: "decode_key b ?ks = (x, y)" by (cases "decode_key b ?ks")
  have s: "scan [] ks = Some (Inr b, ?ks, [])" using g(1) b by (simp add: scan_def del: get_byte_from_kbuf.simps)
  have e: "(ks\<lparr>kb_in := kb'\<rparr>)\<lparr>code_with_E0 := False\<rparr> = ?ks" by (cases ks) simp
  let ?mc = "case y of None \<Rightarrow> mc | Some key \<Rightarrow> in_process key mc"
  have "keyboard_read [] ks mc = Some (x, ?mc, [])"
    using n by (simp add: keyboard_read_def s dec split: option.split)
  moreover have "key_event b (ks\<lparr>kb_in := kb'\<rparr>, mc) = (x, ?mc)"
    unfolding key_event_def prod.case e dec by (simp split: option.split)
  moreover have "kb_in x = kb'" using decode_keeps(1) [of b ?ks] dec by simp
  ultimately show ?thesis using g(2,3) by blast
qed

text \<open>
  A schedule of arrivals, a batch before each round, that never overflows the buffer: each round
  takes one scan code out of it. \<open>left_over\<close> is how many wait at the end.
\<close>

fun fits :: "nat \<Rightarrow> byte list list \<Rightarrow> bool" where
  "fits n [] = (n \<le> KB_IN_BYTES)"
| "fits n (b # bs) = (n + length b \<le> KB_IN_BYTES \<and> fits (n + length b - 1) bs)"

fun left_over :: "nat \<Rightarrow> byte list list \<Rightarrow> nat" where
  "left_over n [] = n"
| "left_over n (b # bs) = left_over (n + length b - 1) bs"

lemma drained: "fits n bs \<Longrightarrow> fits n (bs @ replicate k []) \<and> left_over n (bs @ replicate 32 []) = 0"
proof -
  have l: "left_over n (replicate k []) = n - k" for n k by (induction k arbitrary: n) simp_all
  have r: "n \<le> 32 \<Longrightarrow> fits n (replicate k [])" for n by (induction k arbitrary: n) (simp_all add: KB_IN_BYTES_def)
  show "fits n bs \<Longrightarrow> ?thesis"
    by (induction bs arbitrary: n) (simp_all add: l r KB_IN_BYTES_def)
qed

lemma task_tty_events:
  assumes "kb_inv (kb_in ks)" and "fits (length (kb_contents (kb_in ks))) batches"
    and "set (kb_contents (kb_in ks) @ concat batches) \<inter> {0xE0, 0xE1} = {}"
  shows "\<exists>ks' mc' used. task_tty (map (\<lambda>b. (b, [])) batches) ks mc = Some (ks', mc')
    \<and> kb_contents (kb_in ks) @ concat batches = used @ kb_contents (kb_in ks') \<and> kb_inv (kb_in ks')
    \<and> length (kb_contents (kb_in ks')) = left_over (length (kb_contents (kb_in ks))) batches
    \<and> fold key_event used (forget (ks, mc)) = forget (ks', mc')"
  using assms
proof (induction batches arbitrary: ks mc)
  case Nil
  then show ?case by (intro exI [of _ ks] exI [of _ mc] exI [of _ "[]"]) simp
next
  case (Cons b batches)
  define ks1 where "ks1 = deliver b ks"
  have d: "kb_inv (kb_in ks1)" "kb_contents (kb_in ks1) = kb_contents (kb_in ks) @ b" "ks1 = ks\<lparr>kb_in := kb_in ks1\<rparr>"
    using deliver_spec [of ks b] Cons.prems by (simp_all add: ks1_def)
  have f1: "forget (ks1, mc) = forget (ks, mc)" using d(3) forget_simp by metis
  obtain ks2 mc2 used0 where r: "keyboard_read [] ks1 mc = Some (ks2, mc2, [])" and i2: "kb_inv (kb_in ks2)"
    and c2: "kb_contents (kb_in ks1) = used0 @ kb_contents (kb_in ks2)"
    and l2: "length (kb_contents (kb_in ks2)) = length (kb_contents (kb_in ks1)) - 1"
    and f2: "fold key_event used0 (forget (ks, mc)) = forget (ks2, mc2)"
  proof (cases "kb_contents (kb_in ks1)")
    case Nil
    then have "keyboard_read [] ks1 mc = Some (ks1, mc, [])"
      using kb_contents_Nil [OF d(1)] by (simp add: keyboard_read_def)
    then show thesis using that [of ks1 mc "[]"] d(1) Nil f1 by simp
  next
    case cons: (Cons c cs)
    then have "c \<notin> {0xE0, 0xE1}" using d(2) Cons.prems(3) by (metis Int_iff append_assoc concat.simps(2) empty_iff list.set_intros(1) Un_iff set_append)
    then obtain ks2 mc2 kb' where k: "keyboard_read [] ks1 mc = Some (ks2, mc2, [])"
      "key_event c (ks1\<lparr>kb_in := kb'\<rparr>, mc) = (ks2, mc2)" "kb_in ks2 = kb'" "kb_inv kb'" "kb_contents kb' = cs"
      using keyboard_read_event [OF d(1) cons] by blast
    moreover have "key_event c (forget (ks, mc)) = forget (ks2, mc2)"
      using k(2) f1 by (metis forget_simp key_event_forget)
    ultimately show thesis using that [of ks2 mc2 "[c]"] cons by simp
  qed
  have l2': "length (kb_contents (kb_in ks2)) = length (kb_contents (kb_in ks)) + length b - 1"
    using l2 unfolding d(2) by simp
  have "set (kb_contents (kb_in ks2)) \<subseteq> set (kb_contents (kb_in ks) @ b)" using c2 unfolding d(2) by simp
  then have prems: "fits (length (kb_contents (kb_in ks2))) batches"
    "set (kb_contents (kb_in ks2) @ concat batches) \<inter> {0xE0, 0xE1} = {}"
    using Cons.prems(2,3) unfolding l2' by auto
  obtain ks' mc' used where "task_tty (map (\<lambda>b. (b, [])) batches) ks2 mc2 = Some (ks', mc')" "kb_inv (kb_in ks')"
    "kb_contents (kb_in ks2) @ concat batches = used @ kb_contents (kb_in ks')"
    "length (kb_contents (kb_in ks')) = left_over (length (kb_contents (kb_in ks2))) batches"
    "fold key_event used (forget (ks2, mc2)) = forget (ks', mc')"
    using Cons.IH [OF i2 prems] by blast
  moreover have "deliver [] ks2 = ks2" by (simp add: deliver_def)
  moreover have "kb_contents (kb_in ks) @ concat (b # batches) = used0 @ (kb_contents (kb_in ks2) @ concat batches)"
    using c2 unfolding d(2) by (metis append_assoc concat.simps(2))
  ultimately show ?case using r l2' f2
    by (intro exI [of _ ks'] exI [of _ mc'] exI [of _ "used0 @ used"]) (simp add: ks1_def [symmetric])
qed

lemma keystrokes_plain: "printable c \<Longrightarrow> set (keystrokes c) \<inter> {0xE0, 0xE1} = {}"
  using scan_code_facts(5-8) [OF ascii_place(2), of c] by (simp add: keystrokes_def key_code_def)

lemma init_keyboard_idle:
  assumes "length (kb_buf (kb_in ks0)) = 32" and "init_keyboard ks0 mc0 = Inr (ks, mc)"
  shows "kb_inv (kb_in ks) \<and> kb_contents (kb_in ks) = [] \<and> released ks"
  using assms by (auto simp: init_keyboard_def Let_def kb_inv_def kb_contents_def released_def split: sum.splits)

text \<open>
  C19: After \<open>init_keyboard\<close> the terminal shows what is typed. For every text of printable
  characters that fits into the 32 KB of video memory from the display position on, and however the scan
  codes of its keys, with shift pressed and released where needed, arrive between the rounds of the task
  without overflowing the 32 bytes of the buffer, 32 rounds after the last arrival the buffer is empty, no store
  has left the video segment, the text stands in video memory from the old position on in white, nothing
  else there has changed, and the cursor registers were last set to the position behind the text.
\<close>

theorem typing_echo:
  assumes "length (kb_buf (kb_in ks0)) = 32" and "init_keyboard ks0 mc0 = Inr (ks, mc)"
    and "list_all printable cs" and "concat batches = concat (map keystrokes cs)" and "fits 0 batches"
    and "0 \<le> mc_disp_pos mc" and "mc_disp_pos mc + 2 * int (length cs) \<le> V_MEM_SIZE"
  shows "\<exists>ks' mc'. task_tty (map (\<lambda>b. (b, [])) (batches @ replicate 32 [])) ks mc = Some (ks', mc')
    \<and> kb_contents (kb_in ks') = [] \<and> mc_fault mc' = mc_fault mc \<and> mc_disp_pos mc' = mc_disp_pos mc + 2 * int (length cs)
    \<and> (\<forall>i. mc_vram mc' i = (if \<exists>k<length cs. i = mc_disp_pos mc + 2 * int k
         then 0x0F00 OR of_nat (cs ! nat ((i - mc_disp_pos mc) div 2)) else mc_vram mc i))
    \<and> (cs = [] \<or> (\<exists>out. mc_out mc' = out @ cursor_at (mc_disp_pos mc' sdiv 2)))"
proof -
  let ?all = "batches @ replicate 32 []"
  have idle: "kb_inv (kb_in ks)" "kb_contents (kb_in ks) = []" "released ks"
    using init_keyboard_idle [OF assms(1,2)] by simp_all
  have all: "concat ?all = concat (map keystrokes cs)" using assms(4) by simp
  have plain: "set (kb_contents (kb_in ks) @ concat ?all) \<inter> {0xE0, 0xE1} = {}"
    unfolding idle(2) all using assms(3) keystrokes_plain by (fastforce simp: list_all_iff)
  obtain ks' mc' used where run: "task_tty (map (\<lambda>b. (b, [])) ?all) ks mc = Some (ks', mc')"
    "kb_contents (kb_in ks) @ concat ?all = used @ kb_contents (kb_in ks')"
    "length (kb_contents (kb_in ks')) = left_over (length (kb_contents (kb_in ks))) ?all"
    "fold key_event used (forget (ks, mc)) = forget (ks', mc')"
    using task_tty_events [OF idle(1) _ plain, of mc] drained [OF assms(5)] idle(2) by auto
  have empty: "kb_contents (kb_in ks') = []" using run(3) drained [OF assms(5)] idle(2) by simp
  then have "used = concat (map keystrokes cs)" using run(2) idle(2) all by simp
  then have "mc' = fold (\<lambda>c. in_process (word_of_nat c)) cs mc"
    using run(4) type_text [OF idle(3) assms(3), of mc] unfolding fold_key_event_forget by (auto simp: forget_def)
  then show ?thesis using run(1) empty text_shows [OF assms(3,6,7)] by auto
qed

theorem typing_echo_witness:
  "\<exists>ks mc ks' mc'. init_keyboard idle_keyboard (init_8259A blank_machine) = Inr (ks, mc)
    \<and> task_tty (map (\<lambda>b. (b, [])) ([concat (map keystrokes [0x48, 0x69])] @ replicate 32 [])) ks mc = Some (ks', mc')
    \<and> mc_vram mc' (mc_disp_pos mc) = 0x0F48 \<and> mc_disp_pos mc' = mc_disp_pos mc + 4"
proof -
  have "length (mc_irq_table (init_8259A blank_machine)) = NR_IRQ"
    by (simp add: init_8259A_def Let_def)
  moreover have "mc_irq_table (disable_irq q m) = mc_irq_table m" for q m by (simp add: disable_irq_def out_byte_def)
  ultimately obtain m where "put_irq_handler KEYBOARD_IRQ keyboard_irq_handler (init_8259A blank_machine) = Inr m"
    by (auto simp: put_irq_handler_def const_defs Let_def)
  then obtain ks mc where i: "init_keyboard idle_keyboard (init_8259A blank_machine) = Inr (ks, mc)"
    by (simp add: init_keyboard_def)
  have o: "mc_disp_pos (out_byte q v m) = mc_disp_pos m" for q v m by (simp add: out_byte_def)
  then have "mc_disp_pos (init_8259A blank_machine) = 0" by (simp add: init_8259A_def Let_def blank_machine_def)
  then have pos: "mc_disp_pos mc = 0"
    using i by (auto simp: init_keyboard_def put_irq_handler_def Let_def enable_irq_def disable_irq_def o split: sum.splits if_splits)
  have "length (keystrokes c) \<le> 4" for c by (simp add: keystrokes_def)
  then have "fits 0 [concat (map keystrokes [0x48, 0x69])]"
    using add_mono [of "length (keystrokes 0x48)" 4 "length (keystrokes 0x69)" 4] by (simp add: KB_IN_BYTES_def)
  moreover have "length (kb_buf (kb_in idle_keyboard)) = 32" by (simp add: idle_keyboard_def empty_kb_def)
  ultimately obtain ks' mc' where t: "task_tty (map (\<lambda>b. (b, [])) ([concat (map keystrokes [0x48, 0x69])] @ replicate 32 [])) ks mc = Some (ks', mc')"
    "mc_disp_pos mc' = mc_disp_pos mc + 2 * int (length [0x48, 0x69 :: nat])"
    "\<forall>i. mc_vram mc' i = (if \<exists>k<length [0x48, 0x69 :: nat]. i = mc_disp_pos mc + 2 * int k
         then 0x0F00 OR of_nat ([0x48, 0x69 :: nat] ! nat ((i - mc_disp_pos mc) div 2)) else mc_vram mc i)"
    using typing_echo [OF _ i, of "[0x48, 0x69]" "[concat (map keystrokes [0x48, 0x69])]"]
    by (fastforce simp: printable_def pos V_MEM_SIZE_def)
  have "mc_vram mc' (mc_disp_pos mc) = 0x0F48" unfolding t(3) [rule_format] by auto
  then show ?thesis using i t(1,2) by auto
qed

section \<open>The right Alt key\<close>

lemma scan_alt_r: "scan arr ks = Some (r, ks', arr') \<Longrightarrow> alt_r ks' = alt_r ks"
  by (auto simp: scan_def Let_def split: option.splits if_splits)

lemma keyboard_read_alt_r:
  assumes "keyboard_read arr ks mc = Some (ks', mc', arr')"
  shows "alt_r ks' = alt_r ks"
proof -
  have d: "decode_key b x = (y, z) \<Longrightarrow> alt_r y = alt_r x" for b x y z using decode_keeps(2) [of b x] by simp
  show ?thesis using assms
    by (auto simp: keyboard_read_def split: if_splits option.splits sum.splits prod.splits dest!: scan_alt_r d)
qed

lemma task_tty_alt_r: "task_tty rounds ks mc = Some (ks', mc') \<Longrightarrow> alt_r ks' = alt_r ks"
proof (induction rounds ks mc rule: task_tty.induct)
  case (2 before during rounds ks mc)
  have d: "alt_r (deliver bs x) = alt_r x" for bs x by (simp add: deliver_def)
  from "2.prems" obtain ks1 mc1 later where r: "keyboard_read during (deliver before ks) mc = Some (ks1, mc1, later)"
    "task_tty rounds (deliver later ks1) mc1 = Some (ks', mc')" by (auto split: option.splits)
  then show ?case using "2.IH" [OF r(1) refl refl r(2)] keyboard_read_alt_r [OF r(1)] d by simp
qed simp

lemma keymap_alt_r: "keymap ! 170 = ALT_R"
  by (simp add: keymap_def keymap0_def keymap1_def keymap2_def keymap3_def)

text \<open>
  The right Alt key is taken for the left one. Pressing it sets \<open>alt_l\<close> and passes the flag of
  the left Alt key to the terminal, releasing it clears \<open>alt_l\<close> although the left key may still be
  held, and \<open>alt_r\<close> keeps its initial value whatever is typed.
\<close>

theorem right_alt_is_left:
  "\<exists>press release. decode_key 0x38 (ks\<lparr>code_with_E0 := True\<rparr>) = (press, Some (add_flags ALT_R press))
     \<and> alt_l press \<and> (add_flags ALT_R press) AND FLAG_ALT_L = FLAG_ALT_L
     \<and> decode_key 0xB8 (ks\<lparr>code_with_E0 := True\<rparr>) = (release, None) \<and> \<not> alt_l release
     \<and> (case task_tty rounds ks mc of None \<Rightarrow> True | Some (ks', mc') \<Rightarrow> alt_r ks' = alt_r ks)"
proof -
  have row: "keyrow 0x38 = 168" "keyrow 0xB8 = 168" by (simp_all add: keyrow_def MAP_COLS_def)
  have t: "case task_tty rounds ks mc of None \<Rightarrow> True | Some (ks', mc') \<Rightarrow> alt_r ks' = alt_r ks"
    by (auto split: option.split dest: task_tty_alt_r)
  have c: "pick_column (ks\<lparr>code_with_E0 := True\<rparr>) = ks\<lparr>code_with_E0 := False, column := 2\<rparr>"
    by (cases ks) (simp add: pick_column_def Let_def)
  have m: "set_modifier ALT_R pressed x = x\<lparr>alt_l := pressed\<rparr>" for pressed x
    by (simp add: set_modifier_def key_defs)
  have f: "add_flags key x AND FLAG_ALT_L = FLAG_ALT_L" if "alt_l x" "key AND FLAG_ALT_L = 0" for key x
    using that by (simp add: add_flags_def bit.conj_disj_distrib2 key_defs)
  have "ALT_R AND FLAG_ALT_L = 0" by (simp add: key_defs)
  then show ?thesis using t f [of _ ALT_R] by (simp add: decode_key_def c m row keymap_alt_r Let_def FLAG_BREAK_def)
qed

end
