(* ===== verification/MiniCRT_Malloc.thy ===== *)
theory MiniCRT_Malloc
  imports Prelude
begin

text \<open>
  The heap of MiniCRT, \<open>miniCRT/malloc.c\<close>: a doubly linked list of blocks that starts at
  \<open>list_head\<close>, each block with a header of four 32-bit words in front of its payload. The memory
  is modelled byte by byte, so that headers, payloads and whatever overlaps them share it, and
  addresses and sizes wrap as 32-bit unsigned numbers do. The pointer \<open>NULL\<close> is 0.
\<close>

named_theorems heap_defs \<open>field accesses of the block header\<close>

section \<open>Memory\<close>

type_synonym memory = "int \<Rightarrow> byte"

definition load32 :: "memory \<Rightarrow> int \<Rightarrow> int" where
  "load32 m a = uint (m a) + 256 * uint (m (a + 1)) + 65536 * uint (m (a + 2)) + 16777216 * uint (m (a + 3))"

definition store32 :: "int \<Rightarrow> int \<Rightarrow> memory \<Rightarrow> memory" where
  "store32 a v m = m(a := word_of_int v, a + 1 := word_of_int (v div 256),
     a + 2 := word_of_int (v div 65536), a + 3 := word_of_int (v div 16777216))"

lemma digits_sum:
  fixes v q r t :: int
  shows "v = q * 256 + x \<Longrightarrow> q = r * 256 + y \<Longrightarrow> r = t * 256 + z \<Longrightarrow> x + 256 * y + 65536 * z + 16777216 * t = v"
  by simp

lemma load_store_same [simp]:
  assumes "0 \<le> v" and "v < 2 ^ 32"
  shows "load32 (store32 a v m) a = v"
proof -
  define q r where "q = v div 256" and "r = q div 256"
  have d: "v div 65536 = r" "v div 16777216 = r div 256"
    by (simp_all add: q_def r_def zdiv_zmult2_eq [symmetric])
  have "v div 16777216 * 16777216 \<le> v" using div_mult_mod_eq [of v 16777216] pos_mod_sign [of 16777216 v] by linarith
  then have "0 \<le> v div 16777216" "v div 16777216 < 256"
    using assms by (simp_all add: pos_imp_zdiv_nonneg_iff)
  then have m: "r div 256 mod 256 = r div 256" unfolding d by simp
  have "v = q * 256 + v mod 256" "q = r * 256 + q mod 256" "r = r div 256 * 256 + r mod 256"
    by (simp_all add: q_def r_def)
  then have "v mod 256 + 256 * (v div 256 mod 256) + 65536 * (v div 65536 mod 256) + 16777216 * (v div 16777216 mod 256) = v"
    unfolding d m q_def [symmetric] by (rule digits_sum)
  moreover have "load32 (m(a := b0, a + 1 := b1, a + 2 := b2, a + 3 := b3)) a
      = uint b0 + 256 * uint b1 + 65536 * uint b2 + 16777216 * uint b3" for b0 b1 b2 b3
    by (simp add: load32_def)
  moreover have "uint (word_of_int x :: byte) = x mod 256" for x by (simp add: uint_word_of_int)
  ultimately show ?thesis by (simp only: store32_def)
qed

lemma load_store_other [simp]: "b + 4 \<le> a \<or> a + 4 \<le> b \<Longrightarrow> load32 (store32 a v m) b = load32 m b"
  by (auto simp: load32_def store32_def)

lemma store_frame: "x < a \<or> a + 4 \<le> x \<Longrightarrow> store32 a v m x = m x"
  by (auto simp: store32_def)

section \<open>The header\<close>

definition HEAP_BLOCK_FREE :: int where "HEAP_BLOCK_FREE = 0xABABABAB"
definition HEAP_BLOCK_USED :: int where "HEAP_BLOCK_USED = 0xCDCDCDCD"
definition HEADER_SIZE :: int where "HEADER_SIZE = 16"

definition ADDR_ADD :: "int \<Rightarrow> int \<Rightarrow> int" where
  "ADDR_ADD a off = u32 (a + off)"

definition h_type :: "memory \<Rightarrow> int \<Rightarrow> int" where "h_type m h = load32 m h"
definition h_size :: "memory \<Rightarrow> int \<Rightarrow> int" where "h_size m h = load32 m (h + 4)"
definition h_next :: "memory \<Rightarrow> int \<Rightarrow> int" where "h_next m h = load32 m (h + 8)"
definition h_prev :: "memory \<Rightarrow> int \<Rightarrow> int" where "h_prev m h = load32 m (h + 12)"

definition set_type :: "int \<Rightarrow> int \<Rightarrow> memory \<Rightarrow> memory" where "set_type h v = store32 h v"
definition set_size :: "int \<Rightarrow> int \<Rightarrow> memory \<Rightarrow> memory" where "set_size h v = store32 (h + 4) v"
definition set_next :: "int \<Rightarrow> int \<Rightarrow> memory \<Rightarrow> memory" where "set_next h v = store32 (h + 8) v"
definition set_prev :: "int \<Rightarrow> int \<Rightarrow> memory \<Rightarrow> memory" where "set_prev h v = store32 (h + 12) v"

lemmas [heap_defs] = h_type_def h_size_def h_next_def h_prev_def set_type_def set_size_def set_next_def
  set_prev_def HEAP_BLOCK_FREE_def HEAP_BLOCK_USED_def HEADER_SIZE_def

section \<open>free\<close>

definition merge_prev :: "int \<Rightarrow> memory \<Rightarrow> int \<times> memory" where
  "merge_prev header m =
     (if h_prev m header \<noteq> 0 \<and> h_type m (h_prev m header) = HEAP_BLOCK_FREE
      then
        (let m = set_next (h_prev m header) (h_next m header) m;
             m = (if h_next m header \<noteq> 0 then set_prev (h_next m header) (h_prev m header) m else m);
             m = set_size (h_prev m header) (u32 (h_size m (h_prev m header) + h_size m header)) m
         in (h_prev m header, m))
      else (header, m))"

definition merge_next :: "int \<Rightarrow> memory \<Rightarrow> memory" where
  "merge_next header m =
     (if h_next m header \<noteq> 0 \<and> h_type m (h_next m header) = HEAP_BLOCK_FREE
      then
        (let m = set_size header (u32 (h_size m header + h_size m (h_next m header))) m
         in set_next header (h_next m (h_next m header)) m)
      else m)"

definition free :: "int \<Rightarrow> memory \<Rightarrow> memory" where
  "free ptr m =
     (let header = ADDR_ADD ptr (- HEADER_SIZE)
      in if h_type m header \<noteq> HEAP_BLOCK_USED then m
         else (let m = set_type header HEAP_BLOCK_FREE m
               in case merge_prev header m of (header, m) \<Rightarrow> merge_next header m))"

section \<open>malloc\<close>

definition split_block :: "int \<Rightarrow> int \<Rightarrow> memory \<Rightarrow> memory" where
  "split_block sz header m =
     (let next = ADDR_ADD header (u32 (sz + HEADER_SIZE));
          m = set_prev next header m;
          m = set_next next (h_next m header) m;
          m = set_type next HEAP_BLOCK_FREE m;
          m = set_size next (u32 (h_size m header - u32 (sz + HEADER_SIZE))) m;
          m = set_next header next m;
          m = set_size header (u32 (sz + HEADER_SIZE)) m
      in set_type header HEAP_BLOCK_USED m)"

text \<open>The loop ends only if the list does; \<open>None\<close> stands for a search that never returns.\<close>

partial_function (option) malloc_loop :: "int \<Rightarrow> int \<Rightarrow> memory \<Rightarrow> (int \<times> memory) option" where
  "malloc_loop sz header m =
     (if header = 0 then Some (0, m)
      else if h_type m header = HEAP_BLOCK_USED then malloc_loop sz (h_next m header) m
      else if u32 (sz + HEADER_SIZE) < h_size m header \<and> h_size m header \<le> u32 (sz + HEADER_SIZE * 2)
      then Some (ADDR_ADD header HEADER_SIZE, set_type header HEAP_BLOCK_USED m)
      else if u32 (sz + HEADER_SIZE * 2) < h_size m header
      then Some (ADDR_ADD header HEADER_SIZE, split_block sz header m)
      else malloc_loop sz (h_next m header) m)"

definition malloc :: "int \<Rightarrow> int \<Rightarrow> memory \<Rightarrow> (int \<times> memory) option" where
  "malloc list_head sz m = (if sz = 0 then Some (0, m) else malloc_loop sz list_head m)"

section \<open>mini_crt_heap_init\<close>

text \<open>
  The system call \<open>brk\<close> is a parameter: \<open>brk 0\<close> is the present break, \<open>brk e\<close> what the call returns
  when it is asked to move it to \<open>e\<close>. The result is the return value, the new \<open>list_head\<close> and the
  memory; \<open>list_head\<close> is a static variable and 0 until it is set.
\<close>

definition heap_size :: int where "heap_size = 1024 * 1024 * 32"

definition mini_crt_heap_init :: "(int \<Rightarrow> int) \<Rightarrow> memory \<Rightarrow> int \<times> int \<times> memory" where
  "mini_crt_heap_init brk m =
     (let base = brk 0;
          fin = brk (ADDR_ADD base heap_size)
      in if fin = 0 then (0, 0, m)
         else (let m = set_size base heap_size m;
                   m = set_type base HEAP_BLOCK_FREE m;
                   m = set_next base 0 m;
                   m = set_prev base 0 m
               in (1, base, m)))"

section \<open>The heap as a list of blocks\<close>

text \<open>
  The abstract heap: the blocks in address order, each with its size including the header and
  whether it is in use. \<open>segment m a bs z\<close> says that from \<open>a\<close> on the blocks \<open>bs\<close> lie side by side,
  each linked to the next and the last one to \<open>z\<close>, and \<open>tiles\<close> that they end the list. The backward
  pointers are not part of it.
\<close>

type_synonym block = "int \<times> bool"

definition extent :: "block list \<Rightarrow> int" where
  "extent bs = sum_list (map fst bs)"

lemma extent_simps [simp]:
  "extent [] = 0" "extent (b # bs) = fst b + extent bs" "extent (xs @ ys) = extent xs + extent ys"
  by (simp_all add: extent_def)

fun segment :: "memory \<Rightarrow> int \<Rightarrow> block list \<Rightarrow> int \<Rightarrow> bool" where
  "segment m a [] z = True"
| "segment m a ((s, u) # bs) z =
     (h_type m a = (if u then HEAP_BLOCK_USED else HEAP_BLOCK_FREE) \<and> h_size m a = s \<and> HEADER_SIZE < s
      \<and> h_next m a = (if bs = [] then z else a + s) \<and> segment m (a + s) bs z)"

abbreviation tiles :: "memory \<Rightarrow> int \<Rightarrow> block list \<Rightarrow> bool" where
  "tiles m a bs \<equiv> segment m a bs 0"

text \<open>The contract of \<open>malloc\<close>: first fit, splitting a block when more than a header would be left over.\<close>

fun first_fit :: "int \<Rightarrow> block list \<Rightarrow> (int \<times> block list) option" where
  "first_fit n [] = None"
| "first_fit n ((s, u) # bs) =
     (if \<not> u \<and> n + 16 < s
      then Some (0, if s \<le> n + 32 then (s, True) # bs else (n + 16, True) # (s - (n + 16), False) # bs)
      else map_option (\<lambda>(off, bs'). (s + off, (s, u) # bs')) (first_fit n bs))"

text \<open>The contract of \<open>free\<close>: the block joins the free blocks beside it.\<close>

fun join_next :: "int \<Rightarrow> block list \<Rightarrow> block list" where
  "join_next s ((s', False) # ys) = (s + s', False) # ys"
| "join_next s ys = (s, False) # ys"

definition free_spec :: "block list \<Rightarrow> int \<Rightarrow> block list \<Rightarrow> block list" where
  "free_spec xs s ys =
     (if xs \<noteq> [] \<and> \<not> snd (last xs) then butlast xs @ join_next (fst (last xs) + s) ys
      else xs @ join_next s ys)"

lemma extent_nonneg: "segment m a bs z \<Longrightarrow> 0 \<le> extent bs"
  by (induction m a bs z rule: segment.induct) (auto simp: HEADER_SIZE_def)

lemma extent_pos: "segment m a bs z \<Longrightarrow> bs \<noteq> [] \<Longrightarrow> 16 < extent bs"
  by (cases bs) (fastforce simp: HEADER_SIZE_def dest: extent_nonneg)+

lemma segment_append:
  "segment m a (xs @ ys) z \<longleftrightarrow> segment m a xs (if ys = [] then z else a + extent xs) \<and> segment m (a + extent xs) ys z"
  by (induction xs arbitrary: a) (auto simp: add.assoc)

text \<open>Only the memory of the blocks matters, so a write elsewhere does not disturb the list.\<close>

lemma load_cong: "(\<And>x. a \<le> x \<Longrightarrow> x < a + 4 \<Longrightarrow> m' x = m x) \<Longrightarrow> load32 m' a = load32 m a"
  by (simp add: load32_def)

lemma segment_cong:
  "segment m a bs z \<Longrightarrow> (\<And>x. a \<le> x \<Longrightarrow> x < a + extent bs \<Longrightarrow> m' x = m x) \<Longrightarrow> segment m' a bs z"
proof (induction bs arbitrary: a)
  case (Cons b bs)
  obtain s u where b: "b = (s, u)" by (cases b)
  have t: "0 \<le> extent bs" and s: "16 < s" using Cons.prems(1) b by (auto simp: HEADER_SIZE_def dest: extent_nonneg)
  have eq: "load32 m' c = load32 m c" if "c \<in> {a, a + 4, a + 8}" for c
    using that t s b by (intro load_cong Cons.prems(2)) auto
  have "segment m' (a + s) bs z" using Cons.IH [of "a + s"] Cons.prems b t s by auto
  then show ?case using Cons.prems(1) eq b by (simp add: h_type_def h_size_def h_next_def)
qed simp

text \<open>The single block, with its header changed.\<close>

lemma segment_one: "segment m a [(s, u)] z \<longleftrightarrow> h_type m a = (if u then HEAP_BLOCK_USED else HEAP_BLOCK_FREE)
    \<and> h_size m a = s \<and> HEADER_SIZE < s \<and> h_next m a = z"
  by simp

lemma segment_Cons:
  "segment m a (b # bs) z \<longleftrightarrow> segment m a [b] (if bs = [] then z else a + fst b) \<and> segment m (a + fst b) bs z"
  by (cases b) auto

definition fits32 :: "int \<Rightarrow> block list \<Rightarrow> bool" where
  "fits32 a bs \<longleftrightarrow> 0 < a \<and> a + extent bs \<le> 2 ^ 32"

text \<open>The bytes that belong to clients: the payloads of the blocks in use.\<close>

fun payload :: "int \<Rightarrow> block list \<Rightarrow> int set" where
  "payload a [] = {}"
| "payload a ((s, u) # bs) = (if u then {a + 16..<a + s} else {}) \<union> payload (a + s) bs"

section \<open>malloc is first fit\<close>

lemma malloc_step_used:
  assumes "segment m a ((s, u) # bs) z" and "0 < a" and "u \<or> s \<le> u32 (n + 16)" and "u32 (n + 16) \<le> u32 (n + 32)"
  shows "malloc_loop n a m = malloc_loop n (if bs = [] then z else a + s) m"
  using assms by (subst malloc_loop.simps) (auto simp: heap_defs)

lemma split_block_spec:
  assumes seg: "segment m a [(s, False)] z" and s: "n + 32 < s" and n: "0 < n" and a: "0 < a" "a + s \<le> 2 ^ 32"
    and z: "0 \<le> z" "z < 2 ^ 32"
  shows "segment (split_block n a m) a [(n + 16, True), (s - (n + 16), False)] z"
    and "\<And>x. x < a \<or> a + s \<le> x \<Longrightarrow> split_block n a m x = m x"
proof -
  have u: "u32 (n + 16) = n + 16" "u32 (s - (n + 16)) = s - (n + 16)" "u32 (a + (n + 16)) = a + (n + 16)"
    using s n a by (simp_all add: u32_id)
  have seg': "h_size m a = s" "h_next m a = z" using seg by simp_all
  show "segment (split_block n a m) a [(n + 16, True), (s - (n + 16), False)] z"
    using seg' s n a z by (simp add: split_block_def heap_defs ADDR_ADD_def u Let_def)
  show "split_block n a m x = m x" if "x < a \<or> a + s \<le> x" for x
    using that seg' s n by (auto simp: split_block_def heap_defs ADDR_ADD_def u Let_def store_frame)
qed

lemma payload_bounds: "segment m a bs z \<Longrightarrow> x \<in> payload a bs \<Longrightarrow> a + 16 \<le> x \<and> x < a + extent bs"
proof (induction m a bs z rule: segment.induct)
  case (2 m a s u bs z)
  have "0 \<le> extent bs" "16 < s" using "2.prems"(1) extent_nonneg by (auto simp: HEADER_SIZE_def)
  then show ?case using 2 by (auto split: if_splits)
qed simp

lemma take_block_spec:
  assumes "segment m a [(s, False)] z"
  shows "segment (set_type a HEAP_BLOCK_USED m) a [(s, True)] z"
    and "\<And>x. x < a \<or> a + s \<le> x \<Longrightarrow> set_type a HEAP_BLOCK_USED m x = m x"
  using assms by (auto simp: heap_defs store_frame)

text \<open>What the search makes of a list of blocks.\<close>

definition search_ok :: "int \<Rightarrow> int \<Rightarrow> block list \<Rightarrow> memory \<Rightarrow> bool" where
  "search_ok n a bs m \<longleftrightarrow> (case first_fit n bs of
      None \<Rightarrow> malloc_loop n a m = Some (0, m)
    | Some (off, bs') \<Rightarrow> \<exists>m'. malloc_loop n a m = Some (a + off + 16, m') \<and> segment m' a bs' 0
        \<and> (\<forall>x. x \<in> payload a bs \<or> x < a \<or> a + extent bs \<le> x \<longrightarrow> m' x = m x))"

text \<open>The first block is taken: its place is filled by the blocks \<open>cs\<close>.\<close>

lemma search_takes:
  assumes rest: "segment m (a + s) bs 0" and loop: "malloc_loop n a m = Some (a + 16, m')"
    and ff: "first_fit n ((s, False) # bs) = Some (0, cs @ bs)"
    and cs: "segment m' a cs (if bs = [] then 0 else a + s)" "extent cs = s" "cs \<noteq> []"
    and frame: "\<And>x. x < a \<or> a + s \<le> x \<Longrightarrow> m' x = m x"
  shows "search_ok n a ((s, False) # bs) m"
proof -
  have "segment m' (a + s) bs 0" using segment_cong [OF rest] frame by simp
  then have "segment m' a (cs @ bs) 0" using cs by (cases "bs = []") (simp_all add: segment_append)
  moreover have "m' x = m x" if "x \<in> payload a ((s, False) # bs) \<or> x < a \<or> a + extent ((s, False) # bs) \<le> x" for x
    using that frame payload_bounds [OF rest, of x] extent_nonneg [OF rest] by auto
  ultimately show ?thesis using loop ff by (auto simp: search_ok_def)
qed

text \<open>The first block is passed over.\<close>

lemma search_skips:
  assumes seg: "segment m a ((s, u) # bs) 0" and skip: "u \<or> s \<le> n + 16"
    and step: "malloc_loop n a m = malloc_loop n (if bs = [] then 0 else a + s) m"
    and IH: "bs \<noteq> [] \<Longrightarrow> search_ok n (a + s) bs m"
  shows "search_ok n a ((s, u) # bs) m"
proof (cases "first_fit n bs")
  case None
  have "malloc_loop n 0 m = Some (0, m)" by (subst malloc_loop.simps) simp
  then show ?thesis using IH step None skip by (cases "bs = []") (auto simp: search_ok_def)
next
  case (Some r)
  obtain off bs' where r: "r = (off, bs')" by (cases r)
  have ne: "bs \<noteq> []" using Some by auto
  have s: "16 < s" using seg by (simp add: HEADER_SIZE_def)
  obtain m' where m': "malloc_loop n (a + s) m = Some (a + s + off + 16, m')" "segment m' (a + s) bs' 0"
    "\<And>x. x \<in> payload (a + s) bs \<or> x < a + s \<or> a + s + extent bs \<le> x \<Longrightarrow> m' x = m x"
    using IH [OF ne] Some r by (auto simp: search_ok_def)
  have "bs' \<noteq> []" using Some r by (cases bs) (auto split: if_splits)
  moreover have "segment m' a [(s, u)] (a + s)" by (rule segment_cong [of m]) (use seg ne m'(3) in auto)
  ultimately have "segment m' a ((s, u) # bs') 0" using m'(2) by simp
  moreover have "m' x = m x" if "x \<in> payload a ((s, u) # bs) \<or> x < a \<or> a + extent ((s, u) # bs) \<le> x" for x
    using that m'(3) [of x] s by (auto split: if_splits)
  moreover have "first_fit n ((s, u) # bs) = Some (s + off, (s, u) # bs')" using skip Some r by auto
  ultimately show ?thesis using m'(1) step ne by (auto simp: search_ok_def add.assoc)
qed

lemma malloc_search:
  assumes "segment m a bs 0" and "bs \<noteq> []" and "fits32 a bs" and n: "0 < n" "n + 32 < 2 ^ 32"
  shows "search_ok n a bs m"
  using assms(1-3)
proof (induction bs arbitrary: a)
  case (Cons b bs)
  obtain s u where b: "b = (s, u)" by (cases b)
  have u16: "u32 (n + 16) = n + 16" "u32 (n + 32) = n + 32" using n by (simp_all add: u32_id)
  have s: "16 < s" "0 < a" "a + s + extent bs \<le> 2 ^ 32" "0 \<le> extent bs"
    using Cons.prems b by (auto simp: fits32_def HEADER_SIZE_def dest: extent_nonneg)
  have rest: "segment m (a + s) bs 0" using Cons.prems b by simp
  let ?z = "if bs = [] then 0 else a + s"
  have z: "0 \<le> ?z" "?z < 2 ^ 32" using s extent_pos [OF rest] by auto
  have a16: "ADDR_ADD a 16 = a + 16" using s by (simp add: ADDR_ADD_def u32_id)
  consider (take) "\<not> u" "n + 16 < s" "s \<le> n + 32" | (split) "\<not> u" "n + 32 < s" | (skip) "u \<or> s \<le> n + 16"
    by linarith
  then show ?case
  proof cases
    case take
    then have one: "segment m a [(s, False)] ?z" using Cons.prems(1) b by simp
    then have "malloc_loop n a m = Some (a + 16, set_type a HEAP_BLOCK_USED m)"
      using take u16 s(2) a16 by (subst malloc_loop.simps) (simp add: heap_defs)
    then show ?thesis using search_takes [OF rest, of n _ "[(s, True)]"] take take_block_spec [OF one] by (simp add: b)
  next
    case split
    then have one: "segment m a [(s, False)] ?z" using Cons.prems(1) b by simp
    then have "malloc_loop n a m = Some (a + 16, split_block n a m)"
      using split u16 s(2) a16 by (subst malloc_loop.simps) (simp add: heap_defs)
    moreover have "a + s \<le> 2 ^ 32" using s by linarith
    ultimately show ?thesis
      using search_takes [OF rest, of n _ "[(n + 16, True), (s - (n + 16), False)]"] split n
        split_block_spec [OF one split(2) n(1) s(2) _ z] by (simp add: b)
  next
    case skip
    have "malloc_loop n a m = malloc_loop n ?z m"
      using malloc_step_used [OF _ s(2), of m s u bs 0 n] Cons.prems(1) b skip u16 by simp
    moreover have "fits32 (a + s) bs" using s by (simp add: fits32_def)
    ultimately show ?thesis using search_skips [OF Cons.prems(1) [unfolded b] skip] Cons.IH [OF rest] unfolding b by blast
  qed
qed simp

lemmas malloc_loop_spec = malloc_search [unfolded search_ok_def]

section \<open>free joins neighbours\<close>

lemma segment_set_prev:
  assumes "segment m a bs z"
  shows "segment (set_prev a v m) a bs z"
proof (cases bs)
  case (Cons b bs')
  obtain s u where b: "b = (s, u)" by (cases b)
  have "segment (set_prev a v m) (a + s) bs' z"
    by (rule segment_cong [of m]) (use assms Cons b in \<open>auto simp: set_prev_def store_frame HEADER_SIZE_def\<close>)
  then show ?thesis using assms Cons b by (simp add: h_type_def h_size_def h_next_def set_prev_def)
qed simp

lemma merge_next_spec:
  assumes seg: "segment m p ((s, False) # ys) 0" and fits: "0 < p" "p + s + extent ys \<le> 2 ^ 32"
  shows "segment (merge_next p m) p (join_next s ys) 0" and "\<And>x. x < p \<or> p + 16 \<le> x \<Longrightarrow> merge_next p m x = m x"
proof -
  show "merge_next p m x = m x" if "x < p \<or> p + 16 \<le> x" for x
    using that by (auto simp: merge_next_def Let_def set_size_def set_next_def store_frame)
  show "segment (merge_next p m) p (join_next s ys) 0"
  proof (cases ys)
    case Nil
    then show ?thesis using seg by (simp add: merge_next_def)
  next
    case (Cons y ys')
    obtain s' u where y: "y = (s', u)" by (cases y)
    have h: "h_size m p = s" "h_next m p = p + s" "16 < s" "h_type m p = HEAP_BLOCK_FREE" using seg Cons
      by (simp_all add: HEADER_SIZE_def)
    have h': "h_type m (p + s) = (if u then HEAP_BLOCK_USED else HEAP_BLOCK_FREE)" "h_size m (p + s) = s'" "16 < s'"
      "h_next m (p + s) = (if ys' = [] then 0 else p + s + s')" "segment m (p + s + s') ys' 0"
      using seg Cons y by (simp_all add: HEADER_SIZE_def)
    have t: "0 \<le> extent ys'" using extent_nonneg [OF h'(5)] .
    show ?thesis
    proof (cases u)
      case True
      then show ?thesis using seg h h' fits Cons y by (simp add: merge_next_def HEAP_BLOCK_USED_def HEAP_BLOCK_FREE_def)
    next
      case False
      let ?n = "if ys' = [] then 0 else p + s + s'"
      have u: "u32 (s + s') = s + s'" using h(3) h'(3) fits t Cons y by (simp add: u32_id)
      have "h_next (set_size p (s + s') m) (p + s) = ?n" using h'(4) h(3) by (simp add: h_next_def set_size_def)
      moreover have "h_next (set_size p (s + s') m) p = p + s" using h(2) by (simp add: h_next_def set_size_def)
      ultimately have m': "merge_next p m = set_next p ?n (set_size p (s + s') m)"
        using h h' fits False by (simp add: merge_next_def u HEAP_BLOCK_FREE_def)
      have n: "0 \<le> ?n" "?n < 2 ^ 32" using fits h(3) h'(3) extent_pos [OF h'(5)] Cons y by auto
      have "segment (merge_next p m) (p + (s + s')) ys' 0"
        by (rule segment_cong [of m]) (use h h' in \<open>auto simp: m' set_next_def set_size_def store_frame add.assoc\<close>)
      then show ?thesis using h h' n fits t Cons y False
        by (simp add: m' add.assoc h_type_def h_size_def h_next_def set_size_def set_next_def HEADER_SIZE_def)
    qed
  qed
qed

lemma merge_prev_spec:
  assumes q: "segment m q [(s0, False)] p" "p = q + s0" and seg: "segment m p ((s, False) # ys) 0"
    and prev: "h_prev m p = q" and fits: "0 < q" "p + s + extent ys \<le> 2 ^ 32"
  shows "\<exists>m'. merge_prev p m = (q, m') \<and> segment m' q ((s0 + s, False) # ys) 0
    \<and> (\<forall>x. x < q \<or> p + s + extent ys \<le> x \<or> x \<in> payload (p + s) ys \<longrightarrow> m' x = m x)"
proof -
  let ?n = "if ys = [] then 0 else p + s"
  have h: "h_size m q = s0" "16 < s0" "h_type m q = HEAP_BLOCK_FREE" "h_size m p = s" "16 < s" "h_next m p = ?n"
    "segment m (p + s) ys 0" using q(1) seg by (simp_all add: HEADER_SIZE_def)
  have t: "0 \<le> extent ys" using extent_nonneg [OF h(7)] .
  have n: "0 \<le> ?n" "?n < 2 ^ 32" using fits h q(2) extent_pos [OF h(7)] by auto
  have u: "u32 (s0 + s) = s0 + s" using h t q(2) fits by (simp add: u32_id)
  define m1 where "m1 = set_next q ?n m"
  define m2 where "m2 = (if ys = [] then m1 else set_prev (p + s) q m1)"
  define m3 where "m3 = set_size q (s0 + s) m2"
  have 1: "h_next m1 p = ?n" "h_prev m1 p = q" using h prev q(2) by (simp_all add: m1_def h_next_def h_prev_def set_next_def)
  have 2: "h_prev m2 p = q" "h_size m2 q = s0" "h_size m2 p = s" "h_next m2 q = ?n" "h_type m2 q = HEAP_BLOCK_FREE"
    using h prev q(2) n by (auto simp: m2_def m1_def h_next_def h_prev_def h_size_def h_type_def set_next_def
        set_prev_def split: if_splits)
  have "h_prev m3 p = q" using 2 h(2) q(2) by (simp add: m3_def h_prev_def set_size_def)
  moreover have "p + s \<noteq> 0" using fits q(2) h by linarith
  ultimately have "merge_prev p m = (q, m3)"
    using prev fits(1) h(3) 1 2
    unfolding merge_prev_def Let_def h(6) prev m1_def [symmetric]
    by (cases "ys = []") (simp_all add: m2_def u m3_def)
  moreover have "segment m3 q ((s0 + s, False) # ys) 0"
  proof -
    have "segment m1 (p + s) ys 0"
      by (rule segment_cong [OF h(7)]) (use h q(2) in \<open>auto simp: m1_def set_next_def store_frame\<close>)
    then have "segment m2 (p + s) ys 0" by (simp add: m2_def segment_set_prev)
    then have "segment m3 (q + (s0 + s)) ys 0" unfolding q(2) [symmetric] add.assoc [symmetric]
      by (rule segment_cong) (use h q(2) in \<open>auto simp: m3_def set_size_def store_frame\<close>)
    then show ?thesis using 2 h t fits q(2) by (auto simp: m3_def h_type_def h_size_def h_next_def set_size_def HEADER_SIZE_def)
  qed
  moreover have "m3 x = m x" if "x < q \<or> p + s + extent ys \<le> x \<or> x \<in> payload (p + s) ys" for x
  proof -
    have "x < q \<or> q + 16 \<le> x" "ys \<noteq> [] \<Longrightarrow> x < p + s \<or> p + s + 16 \<le> x"
      using that payload_bounds [OF h(7), of x] h t q(2) extent_pos [OF h(7)] by auto
    then show ?thesis by (auto simp: m3_def m2_def m1_def set_size_def set_prev_def set_next_def store_frame)
  qed
  ultimately show ?thesis by blast
qed

text \<open>\<open>free\<close> up to the point where the block is marked free.\<close>

lemma free_marks:
  assumes seg: "segment m p ((s, True) # ys) 0" and fits: "0 < p" "p + s \<le> 2 ^ 32"
  defines "m1 \<equiv> set_type p HEAP_BLOCK_FREE m"
  shows "free (p + 16) m = (case merge_prev p m1 of (h, m) \<Rightarrow> merge_next h m)"
    and "segment m1 p ((s, False) # ys) 0" and "h_prev m1 p = h_prev m p"
    and "\<And>x. x < p \<or> p + 4 \<le> x \<Longrightarrow> m1 x = m x"
proof -
  have s: "16 < s" using seg by (simp add: HEADER_SIZE_def)
  then have "ADDR_ADD (p + 16) (- HEADER_SIZE) = p" using fits by (simp add: ADDR_ADD_def HEADER_SIZE_def u32_id)
  then show "free (p + 16) m = (case merge_prev p m1 of (h, m) \<Rightarrow> merge_next h m)"
    using seg by (simp add: free_def m1_def Let_def)
  show frame: "m1 x = m x" if "x < p \<or> p + 4 \<le> x" for x using that by (simp add: m1_def set_type_def store_frame)
  have "segment m1 (p + s) ys 0" by (rule segment_cong [of m]) (use seg s in \<open>auto simp: frame\<close>)
  then show "segment m1 p ((s, False) # ys) 0" using seg
    by (simp add: m1_def set_type_def h_type_def h_size_def h_next_def HEAP_BLOCK_FREE_def)
  show "h_prev m1 p = h_prev m p" by (simp add: m1_def set_type_def h_prev_def)
qed

text \<open>The last step of \<open>free\<close>, on a free block at \<open>h\<close> with the blocks \<open>pre\<close> in front of it.\<close>

lemma merge_next_tiles:
  assumes pre: "segment m a pre h" "h = a + extent pre" and seg: "segment m h ((s, False) # ys) 0"
    and fits: "0 < h" "h + s + extent ys \<le> 2 ^ 32"
  shows "tiles (merge_next h m) a (pre @ join_next s ys)"
proof -
  note mn = merge_next_spec [OF seg fits]
  have "segment (merge_next h m) a pre h" by (rule segment_cong [OF pre(1)]) (use mn(2) pre(2) in simp)
  moreover have "join_next s ys \<noteq> []" by (cases "(s, ys)" rule: join_next.cases) simp_all
  ultimately show ?thesis using mn(1) pre(2) by (simp add: segment_append)
qed

lemma merge_prev_none:
  assumes "segment m a xs p" and "xs \<noteq> [] \<Longrightarrow> snd (last xs)"
    and "h_prev m p = (if xs = [] then 0 else a + extent (butlast xs))"
  shows "merge_prev p m = (p, m)"
proof (cases "xs = []")
  case True
  then show ?thesis using assms(3) by (simp add: merge_prev_def)
next
  case False
  then obtain xs0 s0 where xs: "xs = xs0 @ [(s0, True)]" using assms(2) by (metis append_butlast_last_id prod.collapse)
  then have "h_type m (a + extent xs0) = HEAP_BLOCK_USED" using assms(1) by (simp add: segment_append)
  then show ?thesis using assms(3) xs by (simp add: merge_prev_def HEAP_BLOCK_USED_def HEAP_BLOCK_FREE_def)
qed

text \<open>No free block in front.\<close>

lemma free_after_used:
  assumes seg: "segment m a xs p" "segment m p ((s, True) # ys) 0" "p = a + extent xs" and used: "xs \<noteq> [] \<Longrightarrow> snd (last xs)"
    and prev: "h_prev m p = (if xs = [] then 0 else a + extent (butlast xs))"
    and fits: "0 < p" "p + s + extent ys \<le> 2 ^ 32"
  shows "tiles (free (p + 16) m) a (xs @ join_next s ys)"
    and "\<And>x. x \<in> payload a xs \<union> payload (p + s) ys \<Longrightarrow> free (p + 16) m x = m x"
proof -
  have s: "16 < s" "p + s \<le> 2 ^ 32" using seg(2) fits extent_nonneg [of m "p + s" ys 0] by (auto simp: HEADER_SIZE_def)
  note fm = free_marks [OF seg(2) fits(1) s(2)]
  let ?m1 = "set_type p HEAP_BLOCK_FREE m"
  have xs1: "segment ?m1 a xs p" by (rule segment_cong [OF seg(1)]) (rule fm(4), simp add: seg(3))
  then have "merge_prev p ?m1 = (p, ?m1)" using used prev fm(3) by (intro merge_prev_none) simp_all
  then have f: "free (p + 16) m = merge_next p ?m1" using fm(1) by simp
  show "tiles (free (p + 16) m) a (xs @ join_next s ys)"
    unfolding f using xs1 seg(3) fm(2) fits by (rule merge_next_tiles)
  show "free (p + 16) m x = m x" if "x \<in> payload a xs \<union> payload (p + s) ys" for x
  proof -
    have "x < p \<or> p + 16 \<le> x"
      using that payload_bounds [OF seg(1), of x] payload_bounds [of m "p + s" ys 0 x] seg(2,3) s(1) by auto
    then show ?thesis using merge_next_spec(2) [OF fm(2) fits, of x] fm(4) [of x] unfolding f by auto
  qed
qed

text \<open>A free block of \<open>s0\<close> bytes in front.\<close>

lemma free_after_free:
  assumes seg: "segment m a xs0 q" "q = a + extent xs0" "segment m q [(s0, False)] p" "p = q + s0" "segment m p ((s, True) # ys) 0"
    and prev: "h_prev m p = q" and fits: "0 < a" "p + s + extent ys \<le> 2 ^ 32"
  shows "tiles (free (p + 16) m) a (xs0 @ join_next (s0 + s) ys)"
    and "\<And>x. x \<in> payload a xs0 \<union> payload (p + s) ys \<Longrightarrow> free (p + 16) m x = m x"
proof -
  have s: "16 < s" "16 < s0" "0 < q" "0 < p" "p + s \<le> 2 ^ 32"
    using seg fits extent_nonneg [OF seg(1)] extent_nonneg [of m "p + s" ys 0] by (auto simp: HEADER_SIZE_def)
  note fm = free_marks [OF seg(5) s(4,5)]
  let ?m1 = "set_type p HEAP_BLOCK_FREE m"
  have q1: "segment ?m1 a xs0 q" by (rule segment_cong [OF seg(1)]) (rule fm(4), use s seg(2,4) in simp)
  have b1: "segment ?m1 q [(s0, False)] p" by (rule segment_cong [OF seg(3)]) (rule fm(4), use s seg(4) in simp)
  obtain m2 where m2: "merge_prev p ?m1 = (q, m2)" "segment m2 q ((s0 + s, False) # ys) 0"
    "\<And>x. x < q \<or> p + s + extent ys \<le> x \<or> x \<in> payload (p + s) ys \<Longrightarrow> m2 x = ?m1 x"
    using merge_prev_spec [OF b1 seg(4) fm(2) _ s(3) fits(2)] prev fm(3) by auto
  have f: "free (p + 16) m = merge_next q m2" using fm(1) m2(1) by simp
  have le: "q + (s0 + s) + extent ys \<le> 2 ^ 32" using fits(2) seg(4) by linarith
  have "segment m2 a xs0 q" by (rule segment_cong [OF q1]) (use m2(3) seg(2) in simp)
  from merge_next_tiles [OF this seg(2) m2(2) s(3) le] show "tiles (free (p + 16) m) a (xs0 @ join_next (s0 + s) ys)"
    unfolding f .
  show "free (p + 16) m x = m x" if "x \<in> payload a xs0 \<union> payload (p + s) ys" for x
  proof -
    have "x < q \<or> x \<in> payload (p + s) ys \<and> p + s \<le> x"
      using that payload_bounds [OF seg(1), of x] payload_bounds [of m "p + s" ys 0 x] seg(2,5) by auto
    then show ?thesis
      using m2(3) [of x] merge_next_spec(2) [OF m2(2) s(3) le, of x] fm(4) [of x] seg(4) s(1,2) unfolding f by auto
  qed
qed

lemma payload_free_last: "payload a (xs @ [(s, False)]) = payload a xs"
  by (induction xs arbitrary: a) auto

lemma free_refines:
  assumes seg: "tiles m a (xs @ (s, True) # ys)" and fits: "fits32 a (xs @ (s, True) # ys)"
    and prev: "h_prev m (a + extent xs) = (if xs = [] then 0 else a + extent (butlast xs))"
  shows "tiles (free (a + extent xs + 16) m) a (free_spec xs s ys)"
    and "\<And>x. x \<in> payload a xs \<union> payload (a + extent xs + s) ys \<Longrightarrow> free (a + extent xs + 16) m x = m x"
proof -
  let ?p = "a + extent xs"
  have segs: "segment m a xs ?p" "segment m ?p ((s, True) # ys) 0" using seg by (simp_all add: segment_append)
  have le: "0 < a" "0 < ?p" "?p + s + extent ys \<le> 2 ^ 32"
    using fits extent_nonneg [OF segs(1)] by (auto simp: fits32_def)
  have "tiles (free (?p + 16) m) a (free_spec xs s ys)
      \<and> (\<forall>x. x \<in> payload a xs \<union> payload (?p + s) ys \<longrightarrow> free (?p + 16) m x = m x)"
  proof (cases "xs \<noteq> [] \<and> \<not> snd (last xs)")
    case False
    then have "free_spec xs s ys = xs @ join_next s ys" by (auto simp: free_spec_def)
    then show ?thesis using free_after_used [OF segs refl _ prev le(2,3)] False by auto
  next
    case True
    then obtain xs0 s0 where xs: "xs = xs0 @ [(s0, False)]" by (metis append_butlast_last_id prod.collapse)
    let ?q = "a + extent xs0"
    have q: "segment m a xs0 ?q" "segment m ?q [(s0, False)] ?p" "?p = ?q + s0" using segs(1) xs by (simp_all add: segment_append)
    have "h_prev m ?p = ?q" using prev xs by simp
    note f = free_after_free [OF q(1) refl q(2,3) segs(2) this le(1,3)]
    moreover have "free_spec xs s ys = xs0 @ join_next (s0 + s) ys" using xs by (simp add: free_spec_def)
    ultimately show ?thesis using xs by (auto simp: payload_free_last)
  qed
  then show "tiles (free (a + extent xs + 16) m) a (free_spec xs s ys)"
    and "\<And>x. x \<in> payload a xs \<union> payload (a + extent xs + s) ys \<Longrightarrow> free (a + extent xs + 16) m x = m x" by auto
qed

section \<open>What the heap promises\<close>

lemma first_fit_None: "first_fit n bs = None \<longleftrightarrow> (\<forall>b\<in>set bs. snd b \<or> fst b \<le> n + 16)"
  by (induction n bs rule: first_fit.induct) auto

lemma payload_shift_bound: "\<forall>b\<in>set bs. 16 < fst b \<Longrightarrow> x \<in> payload a bs \<Longrightarrow> a + 16 \<le> x"
proof (induction bs arbitrary: a)
  case (Cons b bs)
  obtain s u where b: "b = (s, u)" by (cases b)
  then show ?case using Cons.IH [of "a + s"] Cons.prems by (auto split: if_splits)
qed simp

lemma first_fit_payload:
  assumes "first_fit n bs = Some (off, bs')" and "0 < n" and "\<forall>b\<in>set bs. 16 < fst b"
  shows "{a + off + 16..<a + off + 16 + n} \<inter> payload a bs = {}
    \<and> {a + off + 16..<a + off + 16 + n} \<union> payload a bs \<subseteq> payload a bs' \<and> extent bs' = extent bs \<and> 0 \<le> off"
  using assms
proof (induction bs arbitrary: a off bs')
  case (Cons b bs)
  obtain s u where b: "b = (s, u)" by (cases b)
  show ?case
  proof (cases "\<not> u \<and> n + 16 < s")
    case True
    have later: "x \<in> payload (a + s) bs \<Longrightarrow> a + s + 16 \<le> x" for x
      using payload_shift_bound [of bs x "a + s"] Cons.prems(3) by simp
    have eq: "a + (n + 16) + (s - (n + 16)) = a + s" by simp
    show ?thesis using Cons.prems(1) True b later by (fastforce simp: eq split: if_splits)
  next
    case False
    then have skip: "first_fit n (b # bs) = map_option (\<lambda>(off, bs'). (s + off, (s, u) # bs')) (first_fit n bs)"
      by (auto simp: b)
    then obtain off0 bs0 where r: "first_fit n bs = Some (off0, bs0)" "off = s + off0" "bs' = (s, u) # bs0"
      using Cons.prems(1) unfolding skip by (cases "first_fit n bs") auto
    have IH: "{a + s + off0 + 16..<a + s + off0 + 16 + n} \<inter> payload (a + s) bs = {}"
      "{a + s + off0 + 16..<a + s + off0 + 16 + n} \<union> payload (a + s) bs \<subseteq> payload (a + s) bs0"
      "extent bs0 = extent bs" "0 \<le> off0" using Cons.IH [OF r(1)] Cons.prems by auto
    moreover have "16 < s" using Cons.prems(3) b by simp
    ultimately show ?thesis using r b by (fastforce simp: add.assoc split: if_splits)
  qed
qed simp

lemma segment_sizes: "segment m a bs z \<Longrightarrow> \<forall>b\<in>set bs. 16 < fst b"
  by (induction m a bs z rule: segment.induct) (auto simp: HEADER_SIZE_def)

text \<open>
  C3: On a heap whose blocks lie side by side, \<open>malloc\<close> is a first-fit allocator. It always returns. It
  returns \<open>NULL\<close> and changes nothing exactly when no free block has room for the request and a
  header. Otherwise the \<open>n\<close> bytes at the result belong to no other client, they and all bytes
  clients had before belong to clients afterwards, no byte of a client has changed, and the
  blocks are those of the first fit, again side by side over the same memory.
\<close>

theorem malloc_first_fit:
  assumes "tiles m a bs" and "bs \<noteq> []" and "fits32 a bs" and "0 < n" and "n + 32 < 2 ^ 32"
  shows "case first_fit n bs of
      None \<Rightarrow> malloc a n m = Some (0, m) \<and> (\<forall>b\<in>set bs. snd b \<or> fst b \<le> n + 16)
    | Some (off, bs') \<Rightarrow> \<exists>p m'. malloc a n m = Some (p, m') \<and> p = a + off + 16 \<and> a < p \<and> tiles m' a bs' \<and> extent bs' = extent bs
        \<and> {p..<p + n} \<inter> payload a bs = {} \<and> {p..<p + n} \<union> payload a bs \<subseteq> payload a bs'
        \<and> (\<forall>x\<in>payload a bs. m' x = m x)"
proof (cases "first_fit n bs")
  case None
  then show ?thesis using malloc_loop_spec [OF assms] assms(4) first_fit_None [of n bs] by (simp add: malloc_def)
next
  case (Some r)
  obtain off bs' where r: "r = (off, bs')" by (cases r)
  obtain m' where m': "malloc_loop n a m = Some (a + off + 16, m')" "tiles m' a bs'"
    "\<And>x. x \<in> payload a bs \<Longrightarrow> m' x = m x"
    using malloc_loop_spec [OF assms] Some r by auto
  moreover note first_fit_payload [OF _ assms(4) segment_sizes [OF assms(1)], of off bs' a]
  ultimately show ?thesis using Some r assms(4) by (auto simp: malloc_def)
qed

text \<open>
  C32: Freeing a block of such a heap, when the backward pointer of the block is right, joins it with
  the free blocks on both sides, keeps the blocks side by side over the same memory and does not
  change a byte of any other client.
\<close>

theorem free_joins:
  assumes "tiles m a (xs @ (s, True) # ys)" and "fits32 a (xs @ (s, True) # ys)"
    and "h_prev m (a + extent xs) = (if xs = [] then 0 else a + extent (butlast xs))"
  shows "tiles (free (a + extent xs + 16) m) a (free_spec xs s ys)
    \<and> extent (free_spec xs s ys) = extent (xs @ (s, True) # ys)
    \<and> (\<forall>x\<in>payload a xs \<union> payload (a + extent xs + s) ys. free (a + extent xs + 16) m x = m x)"
proof -
  have j: "extent (join_next k ys) = k + extent ys" for k by (cases "(k, ys)" rule: join_next.cases) simp_all
  have "xs \<noteq> [] \<Longrightarrow> extent (butlast xs) + fst (last xs) = extent xs"
    by (metis append_butlast_last_id extent_simps(1-3) add.right_neutral)
  then have "extent (free_spec xs s ys) = extent (xs @ (s, True) # ys)"
    by (auto simp: free_spec_def j)
  then show ?thesis using free_refines [OF assms] by blast
qed

section \<open>Initialisation\<close>

text \<open>
  The kernel answers a \<open>brk\<close> it refuses with the present break, which is not 0, so the test for failure
  never succeeds: the function reports a heap of 32 megabytes whether it got one or not.
\<close>

lemma heap_init_ignores_failure:
  assumes "0 < brk 0" and "brk 0 + heap_size < 2 ^ 32" and "brk (brk 0 + heap_size) \<in> {brk 0, brk 0 + heap_size}"
  shows "\<exists>m'. mini_crt_heap_init brk m = (1, brk 0, m') \<and> tiles m' (brk 0) [(heap_size, False)] \<and> h_prev m' (brk 0) = 0
    \<and> fits32 (brk 0) [(heap_size, False)]"
proof -
  have "ADDR_ADD (brk 0) heap_size = brk 0 + heap_size" using assms by (simp add: ADDR_ADD_def u32_id heap_size_def)
  moreover have "brk (brk 0 + heap_size) \<noteq> 0" using assms by (auto simp: heap_size_def)
  ultimately show ?thesis using assms by (simp add: mini_crt_heap_init_def Let_def heap_defs heap_size_def fits32_def)
qed

definition granted_brk :: "int \<Rightarrow> int" where
  "granted_brk x = (if x = 0 then 0x8050000 else x)"

definition fresh_heap :: memory where
  "fresh_heap = snd (snd (mini_crt_heap_init granted_brk (\<lambda>_. 0)))"

lemma fresh_heap: "tiles fresh_heap 0x8050000 [(heap_size, False)]" "fits32 0x8050000 [(heap_size, False)]"
  using heap_init_ignores_failure [of granted_brk "\<lambda>_. 0"] by (auto simp: granted_brk_def heap_size_def fresh_heap_def)

theorem malloc_first_fit_witness:
  "\<exists>m'. malloc 0x8050000 100 fresh_heap = Some (0x8050010, m') \<and> tiles m' 0x8050000 [(116, True), (heap_size - 116, False)]"
  using malloc_first_fit [OF fresh_heap(1) _ fresh_heap(2), of 100] by (auto simp: heap_size_def)

theorem free_joins_witness:
  "\<exists>m. tiles m 0x8050000 [(116, True), (heap_size - 116, False)]
     \<and> tiles (free 0x8050010 m) 0x8050000 [(heap_size, False)]"
proof -
  have one: "segment fresh_heap 0x8050000 [(heap_size, False)] 0" by (rule fresh_heap(1))
  let ?m = "set_prev 0x8050000 0 (split_block 100 0x8050000 fresh_heap)"
  have "segment (split_block 100 0x8050000 fresh_heap) 0x8050000 [(100 + 16, True), (heap_size - (100 + 16), False)] 0"
    by (rule split_block_spec(1) [OF one]) (simp_all add: heap_size_def)
  from segment_set_prev [OF this, of 0]
  have t: "tiles ?m 0x8050000 ([] @ (116, True) # [(heap_size - 116, False)])" by (simp add: add.commute)
  have "fits32 0x8050000 ([] @ (116, True) # [(heap_size - 116, False)])" "h_prev ?m (0x8050000 + extent []) = 0"
    by (simp_all add: fits32_def heap_size_def h_prev_def set_prev_def)
  from free_joins [OF t this(1)] this(2) show ?thesis using t by (auto simp: free_spec_def)
qed

section \<open>Sizes that wrap\<close>

lemma u32_wrap: "2 ^ 32 \<le> x \<Longrightarrow> x < 2 ^ 33 \<Longrightarrow> u32 x = x - 2 ^ 32"
  using minus_mod_self2 [of x "2 ^ 32"] mod_pos_pos_trivial [of "x - 2 ^ 32" "2 ^ 32"] by (simp add: u32_def)

text \<open>
  The sums \<open>size + HEADER_SIZE\<close> and \<open>size + HEADER_SIZE * 2\<close> are computed in 32 bits. A request whose sums
  fit and which is larger than the heap is refused. A request for one of the sixteen largest
  sizes, close to four gigabytes, is served from the first block of a fresh heap of 32 megabytes:
  the client is given a block shorter than the header that precedes it.
\<close>

theorem malloc_size_wraps:
  assumes "tiles m a [(s, False)]" and "0 < a" and "a + s \<le> 2 ^ 32" and "32 < s"
  shows "(\<forall>n. s \<le> n + 16 \<and> 0 < n \<and> n + 32 < 2 ^ 32 \<longrightarrow> malloc a n m = Some (0, m))
    \<and> (\<forall>n. 2 ^ 32 - 16 \<le> n \<and> n < 2 ^ 32 \<longrightarrow>
          malloc a n m = Some (a + 16, split_block n a m) \<and> u32 (n + HEADER_SIZE) < HEADER_SIZE)"
proof (intro conjI allI impI)
  fix n :: int
  assume n: "s \<le> n + 16 \<and> 0 < n \<and> n + 32 < 2 ^ 32"
  have "fits32 a [(s, False)]" using assms by (simp add: fits32_def)
  moreover have "first_fit n [(s, False)] = None" using n by simp
  ultimately show "malloc a n m = Some (0, m)" using malloc_loop_spec [OF assms(1), of n] n by (simp add: malloc_def)
next
  fix n :: int
  assume n: "2 ^ 32 - 16 \<le> n \<and> n < 2 ^ 32"
  have u: "u32 (n + 16) = n + 16 - 2 ^ 32" "u32 (n + 32) = n + 32 - 2 ^ 32"
    using n u32_wrap [of "n + 16"] u32_wrap [of "n + 32"] by simp_all
  have "ADDR_ADD a 16 = a + 16" using assms by (simp add: ADDR_ADD_def u32_id)
  then show "malloc a n m = Some (a + 16, split_block n a m)"
    using n u assms by (subst malloc_def, subst malloc_loop.simps) (simp add: heap_defs)
  show "u32 (n + HEADER_SIZE) < HEADER_SIZE" using n u by (simp add: HEADER_SIZE_def)
qed

theorem malloc_size_wraps_witness:
  "malloc 0x8050000 0x4000000 fresh_heap = Some (0, fresh_heap)
   \<and> (\<exists>m'. malloc 0x8050000 0xFFFFFFFF fresh_heap = Some (0x8050010, m'))"
  using malloc_size_wraps [OF fresh_heap(1)] by (auto simp: heap_size_def)

section \<open>Stale backward pointers\<close>

datatype heap_op = Malloc int | Free nat

text \<open>A client: \<open>Free i\<close> gives back the result of its \<open>i\<close>-th allocation.\<close>

fun run_heap :: "int \<Rightarrow> heap_op list \<Rightarrow> int list \<Rightarrow> memory \<Rightarrow> (int list \<times> memory) option" where
  "run_heap a [] ps m = Some (ps, m)"
| "run_heap a (Malloc n # ops) ps m =
     (case malloc a n m of None \<Rightarrow> None | Some (p, m') \<Rightarrow> run_heap a ops (ps @ [p]) m')"
| "run_heap a (Free i # ops) ps m = run_heap a ops ps (free (ps ! i) m)"

text \<open>
  Splitting a block does not correct the backward pointer of the block behind it. After the heap was
  set up, eight calls that only free what they allocated, each block once, lead to two live
  allocations that share memory: the block returned last lies over the one allocated by the fifth
  call, which was never freed.
\<close>

theorem malloc_overlaps_live_block:
  "\<exists>a m p q r m'. mini_crt_heap_init granted_brk m0 = (1, a, m)
    \<and> run_heap a [Malloc 100, Malloc 100, Free 0, Malloc 40, Malloc 30, Free 2, Free 1, Malloc 100] [] m
        = Some ([p, q, p, r, p], m')
    \<and> p \<le> r \<and> r + 30 \<le> p + 100"
proof -
  obtain a m where i: "mini_crt_heap_init granted_brk m0 = (1, a, m)"
    by (simp add: mini_crt_heap_init_def granted_brk_def ADDR_ADD_def u32_def heap_size_def Let_def)
  then have m: "a = 0x8050000" "m = set_prev 0x8050000 0 (set_next 0x8050000 0 (set_type 0x8050000 HEAP_BLOCK_FREE
      (set_size 0x8050000 heap_size m0)))"
    by (auto simp: mini_crt_heap_init_def granted_brk_def Let_def split: if_splits)
  have "\<exists>m'. run_heap a [Malloc 100, Malloc 100, Free 0, Malloc 40, Malloc 30, Free 2, Free 1, Malloc 100] [] m
      = Some ([a + 16, a + 132, a + 16, a + 72, a + 16], m')"
    unfolding m by (simp add: malloc_def malloc_loop.simps split_block_def free_def merge_prev_def merge_next_def
        heap_defs ADDR_ADD_def u32_def heap_size_def Let_def)
  then show ?thesis using i by fastforce
qed

end
