(* ===== verification/MiniCRT_Stdio.thy ===== *)
theory MiniCRT_Stdio
  imports MiniCRT_Malloc
begin

text \<open>
  Strings, files, formatted output and the entry point of MiniCRT: \<open>string.c\<close>, \<open>stdio.c\<close>,
  \<open>printf.c\<close> and \<open>entry.c\<close>. A C string is the list of its bytes before the terminating zero. The
  kernel behind \<open>int 0x80\<close> is a parameter: \<open>sys nr args s\<close> is the result of system call \<open>nr\<close> and the
  state it leaves.
\<close>

section \<open>string.c\<close>

type_synonym cstring = "byte list"

fun strcmp_loop :: "cstring \<Rightarrow> cstring \<Rightarrow> int" where
  "strcmp_loop (x # xs) (y # ys) =
     (let ret = uint x - uint y in if ret \<noteq> 0 then ret else strcmp_loop xs ys)"
| "strcmp_loop _ _ = 0"

definition strcmp :: "cstring \<Rightarrow> cstring \<Rightarrow> int" where
  "strcmp src dst =
     (let ret = strcmp_loop src dst in if ret < 0 then -1 else if ret > 0 then 1 else ret)"

fun strlen_loop :: "cstring \<Rightarrow> int \<Rightarrow> int" where
  "strlen_loop [] cnt = cnt"
| "strlen_loop (c # cs) cnt = strlen_loop cs (s32 (cnt + 1))"

definition strlen :: "cstring option \<Rightarrow> int" where
  "strlen str = (case str of None \<Rightarrow> 0 | Some s \<Rightarrow> u32 (strlen_loop s 0))"

text \<open>The destination is a buffer; writing behind its end is a fault.\<close>

fun strcpy_loop :: "byte list \<Rightarrow> nat \<Rightarrow> cstring \<Rightarrow> fault + byte list" where
  "strcpy_loop buf i [] = (if i < length buf then Inr (buf[i := 0]) else Inl OutOfBounds)"
| "strcpy_loop buf i (c # cs) = (if i < length buf then strcpy_loop (buf[i := c]) (Suc i) cs else Inl OutOfBounds)"

definition strcpy :: "byte list \<Rightarrow> cstring \<Rightarrow> fault + byte list" where
  "strcpy dst src = strcpy_loop dst 0 src"

definition digit :: "byte list" where
  "digit = map (\<lambda>c. of_nat (of_char c)) ''0123456789ABCDEFGHIJKLMNOPQRSTUVWXYZ''"

text \<open>\<open>while (n)\<close>; a negative remainder would index in front of \<open>digit\<close>. The digits come last first.\<close>

function itoa_digits :: "int \<Rightarrow> int \<Rightarrow> byte list \<Rightarrow> fault + byte list" where
  "itoa_digits radix n str =
     (if n = 0 \<or> radix < 2 then Inr str
      else if n smod radix < 0 then Inl OutOfBounds
      else itoa_digits radix (n sdiv radix) (str @ [digit ! nat (n smod radix)]))"
  by auto
termination
proof (relation "measure (\<lambda>(radix, n, str). nat \<bar>n\<bar>)")
  fix radix n :: int and str :: "byte list"
  assume a: "\<not> (n = 0 \<or> radix < 2)"
  have "\<bar>n sdiv radix\<bar> = \<bar>n\<bar> div radix" using a pos_imp_zdiv_nonneg_iff [of radix "\<bar>n\<bar>"] by (auto simp: signed_divide_int_def abs_mult abs_sgn_eq)
  moreover have "\<bar>n\<bar> div radix < \<bar>n\<bar>" using a by (intro int_div_less_self) auto
  ultimately show "((radix, n sdiv radix, str @ [digit ! nat (n smod radix)]), radix, n, str)
      \<in> measure (\<lambda>(radix, n, str). nat \<bar>n\<bar>)" using a by simp
qed simp

text \<open>The reversal: \<open>head\<close> and \<open>p\<close> move towards each other, swapping.\<close>

function swap_loop :: "nat \<Rightarrow> nat \<Rightarrow> 'a list \<Rightarrow> 'a list" where
  "swap_loop head p str =
     (if head < p then swap_loop (head + 1) (p - 1) (str[head := str ! p, p := str ! head]) else str)"
  by auto
termination by (relation "measure (\<lambda>(head, p, str). p - head)") auto

text \<open>
  \<open>n\<close> is a 32-bit int, so \<open>-n\<close> wraps for the smallest one. The result is what is in the buffer; when
  the function returns early the buffer is left as it was, \<open>None\<close>.
\<close>

definition itoa :: "int \<Rightarrow> int \<Rightarrow> fault + cstring option" where
  "itoa n radix =
     (if radix < 2 \<or> radix > 36 then Inr None
      else if radix \<noteq> 10 \<and> n < 0 then Inr None
      else if n = 0 then Inr (Some [0x30])
      else (let neg = (radix = 10 \<and> n < 0);
                n = (if neg then s32 (- n) else n)
            in case itoa_digits radix n (if neg then [0x2D] else []) of
                 Inl e \<Rightarrow> Inl e
               | Inr str \<Rightarrow> Inr (Some (swap_loop (if neg then 1 else 0) (length str - 1) str))))"

section \<open>stdio.c\<close>

datatype sysarg = SInt int | SStr cstring | SBuf "byte list"

type_synonym 's kernel = "int \<Rightarrow> sysarg list \<Rightarrow> 's \<Rightarrow> int \<times> 's"

definition mini_crt_io_init :: int where "mini_crt_io_init = 1"

definition sys_open :: "'s kernel \<Rightarrow> cstring \<Rightarrow> int \<Rightarrow> int \<Rightarrow> 's \<Rightarrow> int \<times> 's" where
  "sys_open sys pathname flags mode = sys 5 [SStr pathname, SInt flags, SInt mode]"

definition sys_write :: "'s kernel \<Rightarrow> int \<Rightarrow> byte list \<Rightarrow> int \<Rightarrow> 's \<Rightarrow> int \<times> 's" where
  "sys_write sys fd buffer size' = sys 4 [SInt fd, SBuf buffer, SInt size']"

text \<open>The buffer of a \<open>read\<close> is an address; what arrives there is part of the state of the kernel.\<close>

definition sys_read :: "'s kernel \<Rightarrow> int \<Rightarrow> int \<Rightarrow> int \<Rightarrow> 's \<Rightarrow> int \<times> 's" where
  "sys_read sys fd buffer size' = sys 3 [SInt fd, SInt buffer, SInt size']"

definition sys_close :: "'s kernel \<Rightarrow> int \<Rightarrow> 's \<Rightarrow> int \<times> 's" where
  "sys_close sys fd = sys 6 [SInt fd]"

definition sys_seek :: "'s kernel \<Rightarrow> int \<Rightarrow> int \<Rightarrow> int \<Rightarrow> 's \<Rightarrow> int \<times> 's" where
  "sys_seek sys fd offset mode = sys 19 [SInt fd, SInt offset, SInt mode]"

definition O_RDONLY :: int where "O_RDONLY = 0"
definition O_WRONLY :: int where "O_WRONLY = 1"
definition O_RDWR :: int where "O_RDWR = 2"
definition O_CREAT :: int where "O_CREAT = 64"
definition O_TRUNC :: int where "O_TRUNC = 512"

text \<open>The flags are disjoint bits, so \<open>|\<close> is the sum; \<open>00700\<close> is 448.\<close>

definition fopen_flags :: "cstring \<Rightarrow> int" where
  "fopen_flags mode =
     (let flags = 0;
          flags = (if strcmp mode [0x77] = 0 then O_WRONLY + O_CREAT + O_TRUNC else flags);
          flags = (if strcmp mode [0x77, 0x2B] = 0 then O_RDWR + O_CREAT + O_TRUNC else flags);
          flags = (if strcmp mode [0x72] = 0 then O_RDONLY else flags)
      in if strcmp mode [0x72, 0x2B] = 0 then O_RDONLY + O_CREAT else flags)"

definition fopen :: "'s kernel \<Rightarrow> cstring \<Rightarrow> cstring \<Rightarrow> 's \<Rightarrow> int \<times> 's" where
  "fopen sys filename mode = sys_open sys filename (fopen_flags mode) 448"

definition fread :: "'s kernel \<Rightarrow> int \<Rightarrow> int \<Rightarrow> int \<Rightarrow> int \<Rightarrow> 's \<Rightarrow> int \<times> 's" where
  "fread sys buffer size' count stream = sys_read sys stream buffer (u32 (size' * count))"

definition fwrite :: "'s kernel \<Rightarrow> byte list \<Rightarrow> int \<Rightarrow> int \<Rightarrow> int \<Rightarrow> 's \<Rightarrow> int \<times> 's" where
  "fwrite sys buffer size' count stream = sys_write sys stream buffer (u32 (size' * count))"

definition fclose :: "'s kernel \<Rightarrow> int \<Rightarrow> 's \<Rightarrow> int \<times> 's" where
  "fclose sys fp = sys_close sys fp"

definition fseek :: "'s kernel \<Rightarrow> int \<Rightarrow> int \<Rightarrow> int \<Rightarrow> 's \<Rightarrow> int \<times> 's" where
  "fseek sys fp offset whence = sys_seek sys fp offset whence"

section \<open>printf.c\<close>

definition EOF :: int where "EOF = - 1"
definition stdout :: int where "stdout = 1"

text \<open>\<open>char\<close> is signed.\<close>

definition fputc :: "'s kernel \<Rightarrow> byte \<Rightarrow> int \<Rightarrow> 's \<Rightarrow> int \<times> 's" where
  "fputc sys c stream s =
     (case fwrite sys [c] 1 1 stream s of (r, s) \<Rightarrow> if r \<noteq> 1 then (EOF, s) else (sint c, s))"

definition fputs :: "'s kernel \<Rightarrow> cstring \<Rightarrow> int \<Rightarrow> 's \<Rightarrow> int \<times> 's" where
  "fputs sys str stream s =
     (let len = s32 (strlen (Some str))
      in case fwrite sys str 1 len stream s of (r, s) \<Rightarrow> if r \<noteq> len then (EOF, s) else (len, s))"

datatype va_arg = AInt int | AStr cstring

text \<open>
  The loop over the format. An argument of the wrong kind or a missing one is read as whatever is on
  the stack; that is a fault here.
\<close>

fun vfprintf_loop ::
  "'s kernel \<Rightarrow> int \<Rightarrow> cstring \<Rightarrow> bool \<Rightarrow> int \<Rightarrow> va_arg list \<Rightarrow> 's \<Rightarrow> (fault + int) \<times> 's" where
  "vfprintf_loop sys stream [] translating ret args s = (Inr ret, s)"
| "vfprintf_loop sys stream (p # ps) translating ret args s =
     (if p = 0x25
      then (if \<not> translating then vfprintf_loop sys stream ps True ret args s
            else (case fputc sys 0x25 stream s of (r, s) \<Rightarrow>
                    if r < 0 then (Inr EOF, s) else vfprintf_loop sys stream ps False (s32 (ret + 1)) args s))
      else if p = 0x64 \<and> translating
      then (case args of
              AInt n # args \<Rightarrow>
                (case itoa n 10 of
                   Inr (Some buf) \<Rightarrow>
                     (case fputs sys buf stream s of (r, s) \<Rightarrow>
                        if r < 0 then (Inr EOF, s)
                        else vfprintf_loop sys stream ps False (s32 (ret + strlen (Some buf))) args s)
                 | _ \<Rightarrow> (Inl OutOfBounds, s))
            | _ \<Rightarrow> (Inl OutOfBounds, s))
      else if p = 0x73 \<and> translating
      then (case args of
              AStr str # args \<Rightarrow>
                (case fputs sys str stream s of (r, s) \<Rightarrow>
                   if r < 0 then (Inr EOF, s)
                   else vfprintf_loop sys stream ps False (s32 (ret + strlen (Some str))) args s)
            | _ \<Rightarrow> (Inl OutOfBounds, s))
      else (case fputc sys p stream s of (r, s) \<Rightarrow>
              if r < 0 then (Inr EOF, s) else vfprintf_loop sys stream ps False (s32 (ret + 1)) args s))"

definition vfprintf :: "'s kernel \<Rightarrow> int \<Rightarrow> cstring \<Rightarrow> va_arg list \<Rightarrow> 's \<Rightarrow> (fault + int) \<times> 's" where
  "vfprintf sys stream format args s = vfprintf_loop sys stream format False 0 args s"

definition printf :: "'s kernel \<Rightarrow> cstring \<Rightarrow> va_arg list \<Rightarrow> 's \<Rightarrow> (fault + int) \<times> 's" where
  "printf sys format args = vfprintf sys stdout format args"

definition fprintf :: "'s kernel \<Rightarrow> int \<Rightarrow> cstring \<Rightarrow> va_arg list \<Rightarrow> 's \<Rightarrow> (fault + int) \<times> 's" where
  "fprintf sys stream format args = vfprintf sys stream format args"

section \<open>entry.c\<close>

text \<open>
  \<open>main\<close> is the program linked to the library: from \<open>list_head\<close>, the arguments and the memory it
  computes the value it returns. The result is the exit code of the process.
\<close>

definition mini_crt_entry :: "(int \<Rightarrow> int) \<Rightarrow> (int \<Rightarrow> cstring list \<Rightarrow> memory \<Rightarrow> int) \<Rightarrow> cstring list \<Rightarrow> memory \<Rightarrow> int" where
  "mini_crt_entry brk main argv m =
     (case mini_crt_heap_init brk m of (ok, list_head, m) \<Rightarrow>
        if ok = 0 then 1
        else if mini_crt_io_init = 0 then 1
        else main list_head argv m)"

section \<open>itoa writes numerals\<close>

text \<open>The numeral of a number, most significant digit first.\<close>

function numeral_of :: "nat \<Rightarrow> nat \<Rightarrow> byte list" where
  "numeral_of r n = (if r < 2 \<or> n < r then [digit ! n] else numeral_of r (n div r) @ [digit ! (n mod r)])"
  by auto
termination by (relation "measure (\<lambda>(r, n). n)") auto

declare numeral_of.simps [simp del] itoa_digits.simps [simp del] swap_loop.simps [simp del]

lemma length_swap_loop [simp]: "length (swap_loop i j xs) = length xs"
proof (induction i j xs rule: swap_loop.induct)
  case (1 i j xs)
  then show ?case by (subst swap_loop.simps) simp
qed

lemma nth_swap_loop:
  "j < length xs \<Longrightarrow> k < length xs \<Longrightarrow> swap_loop i j xs ! k = (if i \<le> k \<and> k \<le> j then xs ! (i + j - k) else xs ! k)"
proof (induction i j xs arbitrary: k rule: swap_loop.induct)
  case (1 i j xs)
  show ?case
  proof (cases "i < j")
    case True
    have "swap_loop i j xs ! k = swap_loop (i + 1) (j - 1) (xs[i := xs ! j, j := xs ! i]) ! k"
      using True by (subst swap_loop.simps) simp
    also have "\<dots> = (if i + 1 \<le> k \<and> k \<le> j - 1 then xs[i := xs ! j, j := xs ! i] ! (i + 1 + (j - 1) - k)
        else xs[i := xs ! j, j := xs ! i] ! k)" using "1.IH" True "1.prems" by simp
    also have "\<dots> = (if i \<le> k \<and> k \<le> j then xs ! (i + j - k) else xs ! k)"
      using True "1.prems" by (auto simp: nth_list_update)
    finally show ?thesis .
  next
    case False
    then have "swap_loop i j xs = xs" by (subst swap_loop.simps) simp
    moreover have "i + j - k = k" if "i \<le> k" "k \<le> j" using that False by simp
    ultimately show ?thesis by auto
  qed
qed

lemma swap_loop_rev: "ds \<noteq> [] \<Longrightarrow> swap_loop (length xs) (length (xs @ ds) - 1) (xs @ ds) = xs @ rev ds"
  by (rule nth_equalityI) (auto simp: nth_swap_loop nth_append rev_nth add.commute)

lemma itoa_digits_spec:
  assumes "2 \<le> r" and "0 < n"
  shows "itoa_digits (int r) (int n) str = Inr (str @ rev (numeral_of r n))"
  using assms(2)
proof (induction n arbitrary: str rule: less_induct)
  case (less n)
  have "itoa_digits (int r) (int n) str = itoa_digits (int r) (int (n div r)) (str @ [digit ! (n mod r)])"
    using less.prems assms(1)
    by (subst itoa_digits.simps) (simp add: sdiv_nonneg smod_nonneg zdiv_int [symmetric] zmod_int [symmetric])
  also have "\<dots> = Inr (str @ rev (numeral_of r n))"
  proof (cases "n < r")
    case True
    then show ?thesis by (subst itoa_digits.simps) (simp add: numeral_of.simps [of r n])
  next
    case False
    then have "n div r < n" "0 < n div r" using assms(1) less.prems by (auto simp: div_greater_zero_iff)
    moreover have "numeral_of r n = numeral_of r (n div r) @ [digit ! (n mod r)]"
      using False assms(1) by (subst numeral_of.simps) simp
    ultimately show ?thesis using less.IH [of "n div r"] by simp
  qed
  finally show ?case .
qed

lemma numeral_of_ne [simp]: "numeral_of r n \<noteq> []"
  by (subst numeral_of.simps) simp

lemma itoa_numeral:
  assumes "2 \<le> r" and "r \<le> 36" and "0 \<le> n \<or> r = 10" and "- (2 ^ 31) < n" and "n < 2 ^ 31"
  shows "itoa n (int r) = Inr (Some ((if n < 0 then [0x2D] else []) @ numeral_of r (nat \<bar>n\<bar>)))"
proof -
  consider "n = 0" | "0 < n" | "n < 0" by linarith
  then show ?thesis
  proof cases
    case 1
    then show ?thesis using assms by (simp add: itoa_def numeral_of.simps digit_def)
  next
    case 2
    then have "itoa_digits (int r) n [] = Inr (rev (numeral_of r (nat n)))"
      using itoa_digits_spec [OF assms(1), of "nat n" "[]"] by simp
    then show ?thesis using 2 assms swap_loop_rev [of "rev (numeral_of r (nat n))" "[]"] by (simp add: itoa_def)
  next
    case 3
    have "s32 (- n) = - n" using 3 assms by (simp add: s32_id)
    moreover have "itoa_digits 10 (- n) [0x2D] = Inr (0x2D # rev (numeral_of 10 (nat (- n))))"
      using itoa_digits_spec [of 10 "nat (- n)" "[0x2D]"] 3 by simp
    ultimately show ?thesis using 3 assms swap_loop_rev [of "rev (numeral_of 10 (nat (- n)))" "[0x2D]"]
      by (simp add: itoa_def)
  qed
qed

text \<open>Reading a numeral back.\<close>

definition digit_value :: "byte \<Rightarrow> nat" where
  "digit_value b = (if b \<le> 0x39 then unat b - 0x30 else unat b - 0x37)"

definition number_of :: "nat \<Rightarrow> byte list \<Rightarrow> nat" where
  "number_of r ds = foldl (\<lambda>v d. v * r + digit_value d) 0 ds"

lemma digit_value_digit: "d < 36 \<Longrightarrow> digit_value (digit ! d) = d"
proof -
  have "list_all (\<lambda>d. digit_value (digit ! d) = d) [0..<36]" by code_simp
  then show "d < 36 \<Longrightarrow> ?thesis" by (simp add: list_all_iff)
qed

lemma number_of_numeral: "2 \<le> r \<Longrightarrow> r \<le> 36 \<Longrightarrow> number_of r (numeral_of r n) = n"
proof (induction n rule: less_induct)
  case (less n)
  show ?case
  proof (cases "n < r")
    case True
    then show ?thesis using less.prems by (subst numeral_of.simps) (simp add: number_of_def digit_value_digit)
  next
    case False
    have "n div r < n" using False less.prems by simp
    then have "number_of r (numeral_of r (n div r)) = n div r" using less by simp
    moreover have "n mod r < 36" using less.prems by (meson dual_order.strict_trans1 less_le_trans mod_less_divisor zero_less_numeral)
    ultimately show ?thesis using False less.prems
      by (subst numeral_of.simps) (simp add: number_of_def digit_value_digit)
  qed
qed

lemma length_numeral: "2 \<le> r \<Longrightarrow> 0 < k \<Longrightarrow> n < r ^ k \<Longrightarrow> length (numeral_of r n) \<le> k"
proof (induction n arbitrary: k rule: less_induct)
  case (less n)
  show ?case
  proof (cases "n < r")
    case True
    then show ?thesis using less.prems by (subst numeral_of.simps) simp
  next
    case False
    then obtain j where k: "k = Suc j" "0 < j" using less.prems by (cases k; cases "k - 1") auto
    have "n div r < r ^ j" using less.prems k by (simp add: less_mult_imp_div_less mult.commute)
    moreover have "n div r < n" using False less.prems by simp
    ultimately have "length (numeral_of r (n div r)) \<le> j" using less.IH less.prems(1) k(2) by blast
    then show ?thesis using False less.prems k by (subst numeral_of.simps) simp
  qed
qed

text \<open>
  \<open>itoa\<close> writes the numeral of its argument in every base from 2 to 36, with a minus sign in base
  10; reading the digits back gives the number, and in base 10 the result and its terminator fit
  the 16 bytes \<open>vfprintf\<close> provides. The smallest 32-bit number is the exception: its negation
  overflows, and the remainder indexes the digits in front of their array.
\<close>

theorem itoa_correct:
  "(2 \<le> r \<and> r \<le> 36 \<and> (0 \<le> n \<or> r = 10) \<and> - (2 ^ 31) < n \<and> n < 2 ^ 31 \<longrightarrow>
     (\<exists>ds. itoa n (int r) = Inr (Some ((if n < 0 then [0x2D] else []) @ ds)) \<and> ds = numeral_of r (nat \<bar>n\<bar>)
        \<and> int (number_of r ds) = \<bar>n\<bar> \<and> (r = 10 \<longrightarrow> length ds + 2 \<le> 16)))
   \<and> itoa (- (2 ^ 31)) 10 = Inl OutOfBounds"
proof (intro conjI impI)
  assume a: "2 \<le> r \<and> r \<le> 36 \<and> (0 \<le> n \<or> r = 10) \<and> - (2 ^ 31) < n \<and> n < 2 ^ 31"
  have "length (numeral_of 10 (nat \<bar>n\<bar>)) \<le> 10" by (rule length_numeral) (use a in auto)
  then show "\<exists>ds. itoa n (int r) = Inr (Some ((if n < 0 then [0x2D] else []) @ ds)) \<and> ds = numeral_of r (nat \<bar>n\<bar>)
        \<and> int (number_of r ds) = \<bar>n\<bar> \<and> (r = 10 \<longrightarrow> length ds + 2 \<le> 16)"
    using itoa_numeral [of r n] number_of_numeral [of r "nat \<bar>n\<bar>"] a by auto
next
  have "s32 (2 ^ 31) = - (2 ^ 31)" by (simp add: s32_def)
  moreover have "itoa_digits 10 (- (2 ^ 31)) [0x2D] = Inl OutOfBounds"
    by (subst itoa_digits.simps) (simp add: signed_modulo_int_def signed_divide_int_def)
  ultimately show "itoa (- (2 ^ 31)) 10 = Inl OutOfBounds" by (simp add: itoa_def)
qed

theorem itoa_correct_witness:
  "\<exists>ds. itoa (- 42) (int 10) = Inr (Some (0x2D # ds)) \<and> number_of 10 ds = 42"
  using itoa_correct [of 10 "- 42"] by auto

section \<open>strcmp and fopen\<close>

lemma strcmp_loop_zero:
  "strcmp_loop xs ys = 0 \<longleftrightarrow> take (length ys) xs = take (length xs) ys"
  by (induction xs ys rule: strcmp_loop.induct) (auto simp: Let_def word_uint_eq_iff)

lemma strcmp_zero: "strcmp xs ys = 0 \<longleftrightarrow> take (length ys) xs = take (length xs) ys"
  using strcmp_loop_zero [of xs ys] by (auto simp: strcmp_def Let_def)

text \<open>
  \<open>strcmp\<close> reports equal strings as equal, but also every string and each of its beginnings, since the
  loop stops at the first end without comparing it. Therefore \<open>fopen\<close> takes mode \<open>w\<close> for \<open>w+\<close> and
  mode \<open>r\<close> for \<open>r+\<close>: a file opened for reading is created when it does not exist, and one opened
  for writing is opened for reading too.
\<close>

theorem fopen_confuses_modes:
  "(strcmp xs ys = 0 \<longleftrightarrow> take (length ys) xs = take (length xs) ys)
   \<and> fopen sys name [0x72] s = sys 5 [SStr name, SInt O_CREAT, SInt 448] s
   \<and> fopen sys name [0x77] s = sys 5 [SStr name, SInt (O_RDWR + O_CREAT + O_TRUNC), SInt 448] s
   \<and> fopen sys name [0x72, 0x2B] s = fopen sys name [0x72] s \<and> fopen sys name [] s = fopen sys name [0x72] s"
  by (simp add: strcmp_zero fopen_def fopen_flags_def sys_open_def O_RDONLY_def)

section \<open>printf\<close>

text \<open>What the format and the arguments call for.\<close>

definition decimal :: "int \<Rightarrow> byte list" where
  "decimal n = (if n < 0 then [0x2D] else []) @ numeral_of 10 (nat \<bar>n\<bar>)"

fun format_spec :: "cstring \<Rightarrow> bool \<Rightarrow> va_arg list \<Rightarrow> byte list option" where
  "format_spec [] translating args = Some []"
| "format_spec (p # ps) translating args =
     (if p = 0x25 \<and> \<not> translating then format_spec ps True args
      else if p = 0x64 \<and> translating
      then (case args of AInt n # args \<Rightarrow>
              if - (2 ^ 31) < n \<and> n < 2 ^ 31 then map_option (append (decimal n)) (format_spec ps False args) else None
            | _ \<Rightarrow> None)
      else if p = 0x73 \<and> translating
      then (case args of AStr str # args \<Rightarrow> map_option (append str) (format_spec ps False args) | _ \<Rightarrow> None)
      else map_option (Cons p) (format_spec ps False args))"

text \<open>A stream on which every \<open>write\<close> writes everything.\<close>

definition writes_all :: "'s kernel \<Rightarrow> int \<Rightarrow> ('s \<Rightarrow> byte list) \<Rightarrow> bool" where
  "writes_all sys fd out \<longleftrightarrow> (\<forall>bs s. length bs < 2 ^ 31 \<longrightarrow>
     (\<exists>s'. sys 4 [SInt fd, SBuf bs, SInt (int (length bs))] s = (int (length bs), s') \<and> out s' = out s @ bs))"

lemma strlen_loop: "0 \<le> k \<Longrightarrow> k + int (length cs) < 2 ^ 31 \<Longrightarrow> strlen_loop cs k = k + int (length cs)"
  by (induction cs k rule: strlen_loop.induct) (simp_all add: s32_id)

lemma strlen_length: "length cs < 2 ^ 31 \<Longrightarrow> strlen (Some cs) = int (length cs)"
  using strlen_loop [of 0 cs] by (simp add: strlen_def u32_id)

lemma fputs_ok:
  assumes "writes_all sys fd out" and "length cs < 2 ^ 31"
  obtains s' where "fputs sys cs fd s = (int (length cs), s')" and "out s' = out s @ cs"
proof -
  have l: "s32 (int (length cs)) = int (length cs)" "u32 (int (length cs)) = int (length cs)"
    using assms(2) by (simp_all add: s32_id u32_id)
  obtain s' where "sys 4 [SInt fd, SBuf cs, SInt (int (length cs))] s = (int (length cs), s')" "out s' = out s @ cs"
    using assms unfolding writes_all_def by blast
  then show thesis using that l by (simp add: fputs_def strlen_length [OF assms(2)] fwrite_def sys_write_def)
qed

lemma fputc_writes:
  assumes "writes_all sys fd out"
  obtains s' where "fputc sys c fd s = (sint c, s')" and "out s' = out s @ [c]"
proof -
  have "length [c] < 2 ^ 31" by simp
  then obtain s' where "sys 4 [SInt fd, SBuf [c], SInt (int (length [c]))] s = (int (length [c]), s')" "out s' = out s @ [c]"
    using assms unfolding writes_all_def by blast
  then show thesis using that by (simp add: fputc_def fwrite_def sys_write_def u32_id)
qed

lemma sint_ascii: "0 \<le> sint (c :: byte) \<longleftrightarrow> c < 0x80"
proof -
  have c: "0 \<le> uint c" "uint c < 256" using uint_bounded [of c] by simp_all
  have "0 \<le> sint c \<longleftrightarrow> even (uint c div 128)"
    by (simp add: sint_uint signed_take_bit_nonnegative_iff bit_iff_odd)
  also have "\<dots> \<longleftrightarrow> uint c < 128"
  proof (cases "uint c < 128")
    case False
    then have "uint c div 128 = 1" using c by linarith
    then show ?thesis using False by simp
  qed (use c in simp)
  finally show ?thesis by (simp add: word_less_def)
qed

lemma vfprintf_loop_spec:
  assumes "writes_all sys fd out" and "list_all (\<lambda>b. b < 0x80) fmt" and "format_spec fmt tr args = Some bs"
    and "0 \<le> ret" and "ret + int (length bs) < 2 ^ 31"
  shows "\<exists>s'. vfprintf_loop sys fd fmt tr ret args s = (Inr (ret + int (length bs)), s') \<and> out s' = out s @ bs"
  using assms(2-5)
proof (induction fmt arbitrary: tr ret args s bs)
  case Nil
  then show ?case by simp
next
  case (Cons p ps)
  have sub: "\<exists>s2. vfprintf_loop sys fd ps False (s32 (ret + int (length w))) args' s1 = (Inr (ret + int (length bs)), s2) \<and> out s2 = out s @ bs"
    if w: "map_option (append w) (format_spec ps False args') = Some bs" "out s1 = out s @ w" for w args' s1
  proof -
    obtain bs' where bs: "format_spec ps False args' = Some bs'" "bs = w @ bs'" using w(1) by auto
    have "s32 (ret + int (length w)) = ret + int (length w)" using Cons.prems(3,4) bs by (simp add: s32_id)
    then show ?thesis using Cons.IH [OF _ bs(1), of "ret + int (length w)" s1] Cons.prems bs w(2) by (simp add: add.assoc)
  qed
  have asc: "p < 0x80" using Cons.prems(1) by simp
  have char: ?case if c: "map_option (Cons p) (format_spec ps False args) = Some bs"
    and v: "vfprintf_loop sys fd (p # ps) tr ret args s = (case fputc sys p fd s of (r, s) \<Rightarrow>
              if r < 0 then (Inr EOF, s) else vfprintf_loop sys fd ps False (s32 (ret + 1)) args s)"
  proof -
    obtain s1 where s1: "fputc sys p fd s = (sint p, s1)" "out s1 = out s @ [p]" by (rule fputc_writes [OF assms(1)])
    have "\<not> sint p < 0" using sint_ascii [of p] asc by simp
    then show ?thesis unfolding v using s1 sub [of "[p]" args s1] c by simp
  qed
  consider (start) "p = 0x25" "\<not> tr" | (pct) "p = 0x25" "tr" | (d) "p = 0x64" "tr" | (str) "p = 0x73" "tr"
    | (other) "p \<noteq> 0x25" "\<not> ((p = 0x64 \<or> p = 0x73) \<and> tr)" by blast
  then show ?case
  proof cases
    case start
    then show ?thesis using Cons.IH [of True args bs ret s] Cons.prems by simp
  next
    case pct
    show ?thesis by (rule char) (use pct Cons.prems in simp_all)
  next
    case other
    show ?thesis by (rule char) (use other Cons.prems in \<open>auto\<close>)
  next
    case d
    then obtain n args' where a: "args = AInt n # args'" "- (2 ^ 31) < n" "n < 2 ^ 31"
      "map_option (append (decimal n)) (format_spec ps False args') = Some bs"
      using Cons.prems(2) by (auto split: list.splits va_arg.splits if_splits)
    have i: "itoa n 10 = Inr (Some (decimal n))" using itoa_numeral [of 10 n] a by (simp add: decimal_def)
    have l: "length (decimal n) < 2 ^ 31" using a(4) Cons.prems(3,4) by auto
    obtain s1 where "fputs sys (decimal n) fd s = (int (length (decimal n)), s1)" "out s1 = out s @ decimal n"
      by (rule fputs_ok [OF assms(1) l])
    then show ?thesis using d a(1) i sub [OF a(4)] by (simp add: strlen_length [OF l])
  next
    case str
    then obtain w args' where a: "args = AStr w # args'" "map_option (append w) (format_spec ps False args') = Some bs"
      using Cons.prems(2) by (auto split: list.splits va_arg.splits)
    have l: "length w < 2 ^ 31" using a(2) Cons.prems(3,4) by auto
    obtain s1 where "fputs sys w fd s = (int (length w), s1)" "out s1 = out s @ w"
      by (rule fputs_ok [OF assms(1) l])
    then show ?thesis using str a(1) sub [OF a(2)] by (simp add: strlen_length [OF l])
  qed
qed

text \<open>
  C20: On a stream that takes what is written to it, \<open>fprintf\<close> writes exactly the text its format and
  arguments call for, \<open>%d\<close> in decimal, \<open>%s\<close> copied, \<open>%%\<close> a percent sign and any other character
  itself, and returns its length, for every format of ASCII characters and arguments other than \<open>INT_MIN\<close>.
\<close>

theorem fprintf_correct:
  assumes "writes_all sys fd out" and "list_all (\<lambda>b. b < 0x80) fmt" and "format_spec fmt False args = Some bs"
    and "length bs < 2 ^ 31"
  shows "\<exists>s'. fprintf sys fd fmt args s = (Inr (int (length bs)), s') \<and> out s' = out s @ bs"
  using vfprintf_loop_spec [OF assms(1-3), of 0 s] assms(4) by (simp add: fprintf_def vfprintf_def)

text \<open>A kernel with one stream that takes everything.\<close>

definition console :: "byte list kernel" where
  "console nr args s = (case args of [SInt fd, SBuf bs, SInt n] \<Rightarrow> (n, s @ take (nat n) bs) | _ \<Rightarrow> (- 1, s))"

lemma console_writes_all: "writes_all console fd id"
  by (simp add: writes_all_def console_def)

theorem fprintf_correct_witness:
  "\<exists>s'. fprintf console 1 [0x25, 0x64, 0x21] [AInt 7] [] = (Inr 2, s') \<and> s' = [0x37, 0x21]"
proof -
  have "format_spec [0x25, 0x64, 0x21] False [AInt 7] = Some [0x37, 0x21]"
    by (simp add: decimal_def numeral_of.simps digit_def)
  then show ?thesis using fprintf_correct [OF console_writes_all, of "[0x25, 0x64, 0x21]" "[AInt 7]" "[0x37, 0x21]" 1 "[]"]
    by simp
qed

text \<open>
  A character of the format outside ASCII is written and then taken for an error: \<open>fputc\<close> returns it as
  a signed \<open>char\<close>, which is negative, and \<open>fprintf\<close> stops with \<open>EOF\<close>.
\<close>

theorem fprintf_high_byte:
  assumes "writes_all sys fd out" and "0x80 \<le> b"
  shows "\<exists>s'. fprintf sys fd (b # fmt) args s = (Inr EOF, s') \<and> out s' = out s @ [b]"
proof -
  obtain s1 where s1: "fputc sys b fd s = (sint b, s1)" "out s1 = out s @ [b]" by (rule fputc_writes [OF assms(1)])
  have "sint b < 0" using sint_ascii [of b] assms(2) by (simp add: not_less [symmetric])
  moreover have "b \<noteq> 0x25" "b \<noteq> 0x64" "b \<noteq> 0x73" using assms(2) by auto
  ultimately show ?thesis using s1 by (simp add: fprintf_def vfprintf_def)
qed

theorem fprintf_high_byte_witness:
  "\<exists>s'. fprintf console 1 [0xE4, 0x41] [] [] = (Inr EOF, s') \<and> s' = [0xE4]"
  using fprintf_high_byte [OF console_writes_all, of "0xE4" 1 "[0x41]" "[]" "[]"] by simp

section \<open>strcpy\<close>

lemma strcpy_loop_spec:
  "i \<le> length buf \<Longrightarrow> strcpy_loop buf i cs =
     (if i + length cs < length buf then Inr (take i buf @ cs @ [0] @ drop (i + length cs + 1) buf) else Inl OutOfBounds)"
proof (induction cs arbitrary: buf i)
  case Nil
  then show ?case by (auto simp: upd_conv_take_nth_drop)
next
  case (Cons c cs)
  show ?case
  proof (cases "i < length buf")
    case True
    then have "take (Suc i) (buf[i := c]) = take i buf @ [c]" by (simp add: take_Suc_conv_app_nth)
    then show ?thesis using Cons.IH [of "Suc i" "buf[i := c]"] True by simp
  next
    case False
    then show ?thesis using Cons.prems by simp
  qed
qed

text \<open>A copy fits the buffer exactly when its terminator does, and \<open>strlen\<close> then measures it.\<close>

lemma strcpy_spec:
  "strcpy dst src = (if length src < length dst then Inr (src @ [0] @ drop (length src + 1) dst) else Inl OutOfBounds)"
  using strcpy_loop_spec [of 0 dst src] by (simp add: strcpy_def)

end
