(* ===== verification/Timer_List.thy ===== *)
theory Timer_List
  imports Prelude
begin

text \<open>
  The list of connection timers of the server in \<open>high_perf_linux_server_prog/code/timer/container\<close>,
  \<open>timer_list.h\<close>: a doubly linked list of timers that is meant to be sorted by the time they expire.
  The store maps the address of each timer that exists to its fields; reading through \<open>NULL\<close> or a
  deleted timer is a fault. The callbacks that \<open>tick\<close> makes are recorded in the order of the calls.
\<close>

section \<open>Data\<close>

record util_timer =
  expire :: int
  user_data :: int
  t_prev :: "nat option"
  t_next :: "nat option"

type_synonym store = "nat \<Rightarrow> util_timer option"

record sort_timer_lst =
  lst_store :: store
  lst_head :: "nat option"
  lst_tail :: "nat option"

section \<open>Memory accesses\<close>

definition deref :: "store \<Rightarrow> nat option \<Rightarrow> fault + util_timer" where
  "deref st p = (case p of None \<Rightarrow> Inl NullDeref
     | Some a \<Rightarrow> (case st a of None \<Rightarrow> Inl OutOfBounds | Some n \<Rightarrow> Inr n))"

definition assign :: "nat option \<Rightarrow> (util_timer \<Rightarrow> util_timer) \<Rightarrow> store \<Rightarrow> fault + store" where
  "assign p f st = (case p of None \<Rightarrow> Inl NullDeref
     | Some a \<Rightarrow> (case st a of None \<Rightarrow> Inl OutOfBounds | Some n \<Rightarrow> Inr (st(a \<mapsto> f n))))"

lemma deref_simps [simp]:
  "deref st None = Inl NullDeref" "st a = Some n \<Longrightarrow> deref st (Some a) = Inr n"
  by (simp_all add: deref_def)

lemma assign_simps [simp]:
  "assign None f st = Inl NullDeref" "st a = Some n \<Longrightarrow> assign (Some a) f st = Inr (st(a \<mapsto> f n))"
  by (simp_all add: assign_def)

section \<open>add_timer\<close>

text \<open>
  The private \<open>add_timer(timer, header)\<close>, which ignores \<open>header\<close> and starts at \<open>head\<close>. The loop moves
  along the list; \<open>None\<close> stands for a loop that never ends.
\<close>

partial_function (option) add_loop :: "store \<Rightarrow> nat option \<Rightarrow> nat \<Rightarrow> nat option \<Rightarrow> (fault + nat option) option" where
  "add_loop st tail timer tmp =
     (if tmp = tail then Some (Inr tmp)
      else case deref st tmp of
             Inl e \<Rightarrow> Some (Inl e)
           | Inr n \<Rightarrow>
               (case deref st (Some timer) of
                  Inl e \<Rightarrow> Some (Inl e)
                | Inr t \<Rightarrow>
                    if \<not> expire n < expire t then Some (Inr tmp)
                    else (case deref st (t_next n) of
                            Inl e \<Rightarrow> Some (Inl e)
                          | Inr nn \<Rightarrow> if expire nn \<ge> expire t then add_loop st tail timer (t_next n) else Some (Inr tmp))))"

definition insert_after :: "nat option \<Rightarrow> nat \<Rightarrow> store \<Rightarrow> fault + store" where
  "insert_after tmp timer st =
     bindE (deref st tmp) (\<lambda>n.
     bindE (assign (Some timer) (\<lambda>t. t\<lparr>t_next := t_next n, t_prev := tmp\<rparr>) st) (\<lambda>st.
     bindE (assign tmp (\<lambda>n. n\<lparr>t_next := Some timer\<rparr>) st) (\<lambda>st.
     bindE (deref st (Some timer)) (\<lambda>t.
     assign (t_next t) (\<lambda>n. n\<lparr>t_prev := Some timer\<rparr>) st))))"

definition add_timer_from :: "nat \<Rightarrow> sort_timer_lst \<Rightarrow> (fault + sort_timer_lst) option" where
  "add_timer_from timer l =
     (case add_loop (lst_store l) (lst_tail l) timer (lst_head l) of
        None \<Rightarrow> None
      | Some r \<Rightarrow> Some (bindE r (\<lambda>tmp. bindE (insert_after tmp timer (lst_store l)) (\<lambda>st. Inr (l\<lparr>lst_store := st\<rparr>)))))"

text \<open>The public \<open>add_timer\<close>; the timer is not \<open>NULL\<close> unless the argument is \<open>None\<close>.\<close>

definition add_timer :: "nat option \<Rightarrow> sort_timer_lst \<Rightarrow> (fault + sort_timer_lst) option" where
  "add_timer timer l =
     (case timer of
        None \<Rightarrow> Some (Inr l)
      | Some a \<Rightarrow>
          (case lst_head l of
             None \<Rightarrow> Some (Inr (l\<lparr>lst_head := timer, lst_tail := timer\<rparr>))
           | Some h \<Rightarrow>
               (case (deref (lst_store l) timer, deref (lst_store l) (Some h)) of
                  (Inr t, Inr n) \<Rightarrow>
                    if expire t < expire n
                    then Some (bindE (assign timer (\<lambda>t. t\<lparr>t_next := Some h\<rparr>) (lst_store l)) (\<lambda>st.
                               bindE (assign (Some h) (\<lambda>n. n\<lparr>t_prev := timer\<rparr>) st) (\<lambda>st.
                               Inr (l\<lparr>lst_store := st, lst_head := timer\<rparr>))))
                    else add_timer_from a l
                | _ \<Rightarrow> Some (Inl OutOfBounds))))"

section \<open>adjust_timer, del_timer and tick\<close>

definition adjust_timer :: "nat option \<Rightarrow> sort_timer_lst \<Rightarrow> (fault + sort_timer_lst) option" where
  "adjust_timer timer l =
     (case timer of
        None \<Rightarrow> Some (Inr l)
      | Some a \<Rightarrow>
          (case deref (lst_store l) timer of
             Inl e \<Rightarrow> Some (Inl e)
           | Inr t \<Rightarrow>
               if t_next t = None then Some (Inr l)
               else (case deref (lst_store l) (t_next t) of
                       Inl e \<Rightarrow> Some (Inl e)
                     | Inr tmp \<Rightarrow>
                         if expire t < expire tmp then Some (Inr l)
                         else if timer = lst_head l
                         then (case bindE (assign (t_next t) (\<lambda>n. n\<lparr>t_prev := None\<rparr>) (lst_store l))
                                          (assign timer (\<lambda>n. n\<lparr>t_next := None\<rparr>)) of
                                 Inl e \<Rightarrow> Some (Inl e)
                               | Inr st \<Rightarrow> add_timer_from a (l\<lparr>lst_store := st, lst_head := t_next t\<rparr>))
                         else (case bindE (assign (t_prev t) (\<lambda>n. n\<lparr>t_next := t_next t\<rparr>) (lst_store l))
                                          (assign (t_next t) (\<lambda>n. n\<lparr>t_prev := t_prev t\<rparr>)) of
                                 Inl e \<Rightarrow> Some (Inl e)
                               | Inr st \<Rightarrow> add_timer_from a (l\<lparr>lst_store := st\<rparr>)))))"

definition del_timer :: "nat option \<Rightarrow> sort_timer_lst \<Rightarrow> fault + sort_timer_lst" where
  "del_timer timer l =
     (case timer of
        None \<Rightarrow> Inr l
      | Some a \<Rightarrow>
          if timer = lst_head l \<and> timer = lst_tail l
          then Inr (l\<lparr>lst_store := (lst_store l)(a := None), lst_head := None, lst_tail := None\<rparr>)
          else if timer = lst_head l
          then bindE (deref (lst_store l) timer) (\<lambda>t.
               bindE (assign (t_next t) (\<lambda>n. n\<lparr>t_prev := None\<rparr>) (lst_store l)) (\<lambda>st.
               Inr (l\<lparr>lst_store := st(a := None), lst_head := t_next t\<rparr>)))
          else if timer = lst_tail l
          then bindE (deref (lst_store l) timer) (\<lambda>t.
               bindE (assign (t_prev t) (\<lambda>n. n\<lparr>t_next := None\<rparr>) (lst_store l)) (\<lambda>st.
               Inr (l\<lparr>lst_store := st(a := None), lst_tail := t_prev t\<rparr>)))
          else bindE (deref (lst_store l) timer) (\<lambda>t.
               bindE (assign (t_prev t) (\<lambda>n. n\<lparr>t_next := t_next t\<rparr>) (lst_store l)) (\<lambda>st.
               bindE (assign (t_next t) (\<lambda>n. n\<lparr>t_prev := t_prev t\<rparr>) st) (\<lambda>st.
               Inr (l\<lparr>lst_store := st(a := None)\<rparr>)))))"

text \<open>The loop of \<open>tick\<close>; each round deletes the head, so the list is consumed. The result has the callbacks made.\<close>

partial_function (option) tick_loop :: "int \<Rightarrow> sort_timer_lst \<Rightarrow> int list \<Rightarrow> (fault + sort_timer_lst \<times> int list) option" where
  "tick_loop cur l fired =
     (case lst_head l of
        None \<Rightarrow> Some (Inr (l, fired))
      | Some a \<Rightarrow>
          (case lst_store l a of
             None \<Rightarrow> Some (Inl OutOfBounds)
           | Some tmp \<Rightarrow>
               if cur < expire tmp then Some (Inr (l, fired))
               else (case (if t_next tmp = None then Inr (lst_store l)
                           else assign (t_next tmp) (\<lambda>n. n\<lparr>t_prev := None\<rparr>) (lst_store l)) of
                       Inl e \<Rightarrow> Some (Inl e)
                     | Inr st \<Rightarrow> tick_loop cur (l\<lparr>lst_store := st(a := None), lst_head := t_next tmp\<rparr>)
                                           (fired @ [user_data tmp]))))"

definition tick :: "int \<Rightarrow> sort_timer_lst \<Rightarrow> (fault + sort_timer_lst \<times> int list) option" where
  "tick cur l = tick_loop cur l []"

text \<open>The destructor deletes every timer.\<close>

partial_function (option) delete_all :: "sort_timer_lst \<Rightarrow> (fault + sort_timer_lst) option" where
  "delete_all l =
     (case lst_head l of
        None \<Rightarrow> Some (Inr l)
      | Some a \<Rightarrow>
          (case lst_store l a of
             None \<Rightarrow> Some (Inl OutOfBounds)
           | Some tmp \<Rightarrow> delete_all (l\<lparr>lst_store := (lst_store l)(a := None), lst_head := t_next tmp\<rparr>)))"

section \<open>Well-formed lists\<close>

fun dll :: "store \<Rightarrow> nat option \<Rightarrow> nat list \<Rightarrow> nat option \<Rightarrow> bool" where
  "dll st p [] z = True"
| "dll st p (x # xs) z =
     (case st x of None \<Rightarrow> False
      | Some n \<Rightarrow> t_prev n = p \<and> t_next n = (case xs of [] \<Rightarrow> z | y # _ \<Rightarrow> Some y) \<and> dll st (Some x) xs z)"

definition well_formed :: "sort_timer_lst \<Rightarrow> nat list \<Rightarrow> bool" where
  "well_formed l xs \<longleftrightarrow> distinct xs \<and> dll (lst_store l) None xs None
     \<and> lst_head l = (if xs = [] then None else Some (hd xs)) \<and> (xs = [] \<or> lst_tail l = Some (last xs))"

abbreviation expires :: "sort_timer_lst \<Rightarrow> nat \<Rightarrow> int" where
  "expires l a \<equiv> expire (the (lst_store l a))"

text \<open>The fields that are not links.\<close>

definition payload_of :: "store \<Rightarrow> nat \<Rightarrow> (int \<times> int) option" where
  "payload_of st a = map_option (\<lambda>n. (expire n, user_data n)) (st a)"

lemma dll_append:
  "dll st p (xs @ ys) z \<longleftrightarrow> dll st p xs (if ys = [] then z else Some (hd ys))
     \<and> dll st (if xs = [] then p else Some (last xs)) ys z"
proof (induction xs arbitrary: p)
  case (Cons x xs)
  then show ?case by (cases xs; cases ys) (auto split: option.splits list.splits)
qed simp

lemma dll_cong: "dll st p xs z \<Longrightarrow> (\<And>x. x \<in> set xs \<Longrightarrow> st' x = st x) \<Longrightarrow> dll st' p xs z"
  by (induction st p xs z rule: dll.induct) (auto split: option.splits)

lemma dll_upd [simp]: "x \<notin> set xs \<Longrightarrow> dll (st(x := v)) p xs z \<longleftrightarrow> dll st p xs z"
  by (induction st p xs z rule: dll.induct) (auto split: option.splits)

lemma dll_set_prev:
  "dll st p (x # xs) z \<Longrightarrow> st x = Some n \<Longrightarrow> x \<notin> set xs \<Longrightarrow> dll (st(x \<mapsto> n\<lparr>t_prev := q\<rparr>)) q (x # xs) z"
  by simp

lemma dll_set_next:
  "dll st p (xs @ [x]) z \<Longrightarrow> st x = Some n \<Longrightarrow> x \<notin> set xs \<Longrightarrow> dll (st(x \<mapsto> n\<lparr>t_next := w\<rparr>)) p (xs @ [x]) w"
  by (simp add: dll_append)

lemma dll_some: "dll st p xs z \<Longrightarrow> x \<in> set xs \<Longrightarrow> \<exists>n. st x = Some n"
  by (induction st p xs z rule: dll.induct) (auto split: option.splits)

section \<open>tick\<close>

text \<open>The node behind the head forgets it.\<close>

lemma unlink_next:
  assumes "dll st (Some x) xs None" and "distinct (x # xs)" and "nx = (case xs of [] \<Rightarrow> None | y # _ \<Rightarrow> Some y)"
  obtains st' where "(if nx = None then Inr st else assign nx (\<lambda>n. n\<lparr>t_prev := None\<rparr>) st) = Inr st'" "dll st' None xs None"
    "\<And>a. payload_of st' a = payload_of st a"
proof (cases xs)
  case Nil
  then show thesis using that [of st] assms by simp
next
  case (Cons y ys)
  obtain k where k: "st y = Some k" using dll_some [OF assms(1)] Cons by auto
  have "dll (st(y \<mapsto> k\<lparr>t_prev := None\<rparr>)) None xs None"
    using dll_set_prev [OF assms(1) [unfolded Cons] k] assms(2) Cons by simp
  then show thesis using that [of "st(y \<mapsto> k\<lparr>t_prev := None\<rparr>)"] assms(3) k Cons by (auto simp: payload_of_def)
qed

lemma same_payload:
  assumes "payload_of st' a = payload_of st a" and "\<exists>k. st a = Some k"
  shows "expire (the (st' a)) = expire (the (st a)) \<and> user_data (the (st' a)) = user_data (the (st a))"
  using assms by (auto simp: payload_of_def split: option.splits)

lemma tick_loop_spec:
  assumes "well_formed l xs"
  shows "\<exists>l'. tick_loop cur l fired = Some (Inr (l', fired @ map (\<lambda>a. user_data (the (lst_store l a)))
        (takeWhile (\<lambda>a. expires l a \<le> cur) xs)))
    \<and> well_formed l' (dropWhile (\<lambda>a. expires l a \<le> cur) xs)
    \<and> (\<forall>a. payload_of (lst_store l') a = (if a \<in> set (takeWhile (\<lambda>a. expires l a \<le> cur) xs) then None
         else payload_of (lst_store l) a))"
  using assms
proof (induction xs arbitrary: l fired)
  case Nil
  then show ?case by (subst tick_loop.simps) (simp add: well_formed_def)
next
  case (Cons x xs)
  have wf: "distinct (x # xs)" "dll (lst_store l) None (x # xs) None" "lst_head l = Some x" "lst_tail l = Some (last (x # xs))"
    using Cons.prems by (simp_all add: well_formed_def)
  obtain n where n: "lst_store l x = Some n" "t_next n = (case xs of [] \<Rightarrow> None | y # _ \<Rightarrow> Some y)"
    "dll (lst_store l) (Some x) xs None" using wf(2) by (auto split: option.splits)
  show ?case
  proof (cases "cur < expire n")
    case True
    then show ?thesis using wf n(1) Cons.prems by (subst tick_loop.simps) simp
  next
    case False
    obtain st where st: "(if t_next n = None then Inr (lst_store l)
        else assign (t_next n) (\<lambda>n. n\<lparr>t_prev := None\<rparr>) (lst_store l)) = Inr st" "dll st None xs None"
      "\<And>a. payload_of st a = payload_of (lst_store l) a" using unlink_next [OF n(3) wf(1) n(2)] by blast
    define l1 where "l1 = l\<lparr>lst_store := st(x := None), lst_head := t_next n\<rparr>"
    have "t_next n = (if xs = [] then None else Some (hd xs))" using n(2) by (cases xs) simp_all
    then have "well_formed l1 xs" using wf st(2) by (auto simp: well_formed_def l1_def)
    from Cons.IH [OF this, of "fired @ [user_data n]"] obtain l' where l':
      "tick_loop cur l1 (fired @ [user_data n]) = Some (Inr (l', (fired @ [user_data n]) @ map (\<lambda>a. user_data (the (lst_store l1 a)))
        (takeWhile (\<lambda>a. expires l1 a \<le> cur) xs)))"
      "well_formed l' (dropWhile (\<lambda>a. expires l1 a \<le> cur) xs)"
      "\<And>a. payload_of (lst_store l') a = (if a \<in> set (takeWhile (\<lambda>a. expires l1 a \<le> cur) xs) then None
         else payload_of (lst_store l1) a)" by blast
    have same: "expires l1 a = expires l a \<and> user_data (the (lst_store l1 a)) = user_data (the (lst_store l a))" if a: "a \<in> set xs" for a
    proof -
      have "a \<noteq> x" using a wf(1) by auto
      then show ?thesis using same_payload [OF st(3) dll_some [OF n(3) a]] by (simp add: l1_def)
    qed
    have "tick_loop cur l fired = tick_loop cur l1 (fired @ [user_data n])"
      using wf(3) n(1) False st(1) by (subst tick_loop.simps) (simp add: l1_def)
    moreover have "takeWhile (\<lambda>a. expires l1 a \<le> cur) xs = takeWhile (\<lambda>a. expires l a \<le> cur) xs"
      "dropWhile (\<lambda>a. expires l1 a \<le> cur) xs = dropWhile (\<lambda>a. expires l a \<le> cur) xs"
      using same by (auto intro: takeWhile_cong dropWhile_cong)
    moreover have "map (\<lambda>a. user_data (the (lst_store l1 a))) (takeWhile (\<lambda>a. expires l a \<le> cur) xs)
        = map (\<lambda>a. user_data (the (lst_store l a))) (takeWhile (\<lambda>a. expires l a \<le> cur) xs)"
      using same by (auto dest: set_takeWhileD)
    moreover have "payload_of (lst_store l1) a = (if a = x then None else payload_of (lst_store l) a)" for a
      using st(3) [of a] by (simp add: l1_def payload_of_def)
    ultimately show ?thesis using l' False n(1) by auto
  qed
qed

lemma sorted_takeWhile:
  fixes f :: "'a \<Rightarrow> int"
  shows "sorted (map f xs) \<Longrightarrow> takeWhile (\<lambda>a. f a \<le> c) xs = filter (\<lambda>a. f a \<le> c) xs
    \<and> dropWhile (\<lambda>a. f a \<le> c) xs = filter (\<lambda>a. c < f a) xs"
proof (induction xs)
  case (Cons x xs)
  have "filter (\<lambda>a. f a \<le> c) xs = []" "filter (\<lambda>a. c < f a) xs = xs" if "c < f x"
    using that Cons.prems by (auto simp: filter_empty_conv filter_id_conv)
  then show ?case using Cons by (cases "f x \<le> c") simp_all
qed simp

text \<open>
  On a list sorted by expiry \<open>tick\<close> ends, calls back exactly the timers whose time has come, in their
  order, deletes these and no other, and leaves a well-formed list of the rest.
\<close>

theorem tick_fires_expired:
  assumes "well_formed l xs" and "sorted (map (expires l) xs)"
  shows "\<exists>l'. tick cur l = Some (Inr (l', map (\<lambda>a. user_data (the (lst_store l a))) (filter (\<lambda>a. expires l a \<le> cur) xs)))
    \<and> well_formed l' (filter (\<lambda>a. cur < expires l a) xs)
    \<and> (\<forall>a. payload_of (lst_store l') a = (if a \<in> set xs \<and> expires l a \<le> cur then None else payload_of (lst_store l) a))"
  using tick_loop_spec [OF assms(1), of cur "[]"] sorted_takeWhile [OF assms(2), of cur] by (simp add: tick_def)

definition two_timers :: sort_timer_lst where
  "two_timers = \<lparr>lst_store = [1 \<mapsto> \<lparr>expire = 5, user_data = 11, t_prev = None, t_next = Some 2\<rparr>,
                              2 \<mapsto> \<lparr>expire = 9, user_data = 12, t_prev = Some 1, t_next = None\<rparr>],
                 lst_head = Some 1, lst_tail = Some 2\<rparr>"

lemma two_timers_wf: "well_formed two_timers [1, 2]"
  by (simp add: well_formed_def two_timers_def)

theorem tick_fires_expired_witness:
  "\<exists>l'. tick 7 two_timers = Some (Inr (l', [11])) \<and> well_formed l' [2]"
  using tick_fires_expired [OF two_timers_wf, of 7] by (auto simp: two_timers_def)

section \<open>del_timer\<close>

text \<open>
  Deleting a timer of a well-formed list takes that timer out, wherever it stands, frees it, keeps
  the order of the others and changes none of their times or client data.
\<close>

theorem del_timer_removes:
  assumes "well_formed l (xs @ a # ys)"
  shows "\<exists>l'. del_timer (Some a) l = Inr l' \<and> well_formed l' (xs @ ys) \<and> lst_store l' a = None
    \<and> (\<forall>b. b \<noteq> a \<longrightarrow> payload_of (lst_store l') b = payload_of (lst_store l) b)"
proof -
  let ?st = "lst_store l"
  have wf: "distinct (xs @ a # ys)" "dll ?st None xs (Some a)" "dll ?st (if xs = [] then None else Some (last xs)) (a # ys) None"
    "lst_head l = Some (hd (xs @ [a]))" "lst_tail l = Some (last (a # ys))"
    using assms by (auto simp: well_formed_def dll_append hd_append)
  obtain n where n: "?st a = Some n" "t_prev n = (if xs = [] then None else Some (last xs))"
    "t_next n = (case ys of [] \<Rightarrow> None | y # _ \<Rightarrow> Some y)" "dll ?st (Some a) ys None"
    using wf(3) by (auto split: option.splits)
  have hd: "lst_head l = Some a \<longleftrightarrow> xs = []" "lst_tail l = Some a \<longleftrightarrow> ys = []"
    using wf(1,4,5) by (cases xs; cases ys; auto)+
  show ?thesis
  proof (cases xs rule: rev_cases)
    case Nil
    show ?thesis
    proof (cases ys)
      case Nil
      then show ?thesis using \<open>xs = []\<close> hd by (simp add: del_timer_def well_formed_def payload_of_def)
    next
      case (Cons y ys')
      obtain k where k: "?st y = Some k" using dll_some [OF n(4)] Cons by auto
      have "dll (?st(y \<mapsto> k\<lparr>t_prev := None\<rparr>)) None ys None"
        using dll_set_prev [OF n(4) [unfolded Cons] k] wf(1) Cons by simp
      then show ?thesis using \<open>xs = []\<close> Cons hd n k wf(1,5)
        by (auto simp: del_timer_def well_formed_def payload_of_def simp del: dll.simps)
    qed
  next
    case (snoc xs' x)
    obtain j where j: "?st x = Some j" using dll_some [OF wf(2)] snoc by auto
    have d1: "dll (?st(x \<mapsto> j\<lparr>t_next := w\<rparr>)) None xs w" for w
      using dll_set_next [OF wf(2) [unfolded snoc] j] wf(1) snoc by simp
    show ?thesis
    proof (cases ys)
      case Nil
      then show ?thesis using snoc hd n j wf(1,4) d1 [of None]
        by (auto simp: del_timer_def well_formed_def payload_of_def hd_append simp del: dll.simps)
    next
      case (Cons y ys')
      obtain k where k: "?st y = Some k" using dll_some [OF n(4)] Cons by auto
      let ?st' = "?st(x \<mapsto> j\<lparr>t_next := Some y\<rparr>, y \<mapsto> k\<lparr>t_prev := Some x\<rparr>)"
      have "y \<noteq> x" "y \<noteq> a" "x \<noteq> a" using wf(1) snoc Cons by auto
      have "dll ?st' (Some x) ys None" using dll_set_prev [OF n(4) [unfolded Cons] k, of "Some x"] wf(1) snoc Cons
        by (simp add: fun_upd_twist [of x y] del: dll.simps) 
      moreover have "dll ?st' None xs (Some y)" using d1 [of "Some y"] wf(1) Cons by (simp del: dll.simps)
      moreover have "xs \<noteq> []" "last xs = x" "ys \<noteq> []" "hd ys = y" using snoc Cons by simp_all
      ultimately have "dll (?st'(a := None)) None (xs @ ys) None"
        using wf(1) unfolding dll_append by (simp del: dll.simps)
      then show ?thesis using snoc Cons hd n j k wf(1,4,5) \<open>y \<noteq> x\<close> \<open>y \<noteq> a\<close> \<open>x \<noteq> a\<close>
        by (auto simp: del_timer_def well_formed_def payload_of_def hd_append simp del: dll.simps)
    qed
  qed
qed

theorem del_timer_removes_witness:
  "\<exists>l'. del_timer (Some 1) two_timers = Inr l' \<and> well_formed l' [2]"
  using del_timer_removes [of two_timers "[]" 1 "[2]"] two_timers_wf by auto

section \<open>add_timer\<close>

lemma add_front:
  assumes "well_formed l (h # xs)" and "lst_store l a = Some t" and "a \<notin> set (h # xs)" and "t_prev t = None"
    and "expire t < expires l h"
  shows "\<exists>l'. add_timer (Some a) l = Some (Inr l') \<and> well_formed l' (a # h # xs)"
proof -
  obtain n where n: "lst_store l h = Some n" "t_next n = (case xs of [] \<Rightarrow> None | y # _ \<Rightarrow> Some y)"
    "dll (lst_store l) (Some h) xs None" "lst_head l = Some h" "lst_tail l = Some (last (h # xs))" "h \<notin> set xs"
    "distinct xs" using assms(1) by (auto simp: well_formed_def split: option.splits)
  let ?st = "(lst_store l)(a \<mapsto> t\<lparr>t_next := Some h\<rparr>, h \<mapsto> n\<lparr>t_prev := Some a\<rparr>)"
  have "dll ?st None (a # h # xs) None" using n assms by simp
  then show ?thesis using assms n by (auto simp: add_timer_def well_formed_def)
qed

lemma add_second_crashes:
  assumes "well_formed l [h]" and "lst_store l a = Some t" and "a \<noteq> h" and "expires l h \<le> expire t"
  shows "add_timer (Some a) l = Some (Inl NullDeref)"
proof -
  obtain n where n: "lst_store l h = Some n" "t_next n = None" "lst_head l = Some h" "lst_tail l = Some h"
    using assms(1) by (auto simp: well_formed_def split: option.splits)
  have "add_loop (lst_store l) (Some h) a (Some h) = Some (Inr (Some h))" by (subst add_loop.simps) simp
  then show ?thesis using assms n by (simp add: add_timer_def add_timer_from_def insert_after_def)
qed

lemma add_out_of_order:
  assumes "well_formed l (h # m # ys)" and "lst_store l a = Some t" and "a \<notin> set (h # m # ys)"
    and "expires l h < expire t" and "expires l m < expire t"
  shows "\<exists>l'. add_timer (Some a) l = Some (Inr l') \<and> well_formed l' (h # a # m # ys)
    \<and> (\<forall>b. payload_of (lst_store l') b = payload_of (lst_store l) b)"
proof -
  obtain n k where n: "lst_store l h = Some n" "t_prev n = None" "t_next n = Some m" "lst_store l m = Some k"
    "dll (lst_store l) (Some h) (m # ys) None" "lst_head l = Some h" "lst_tail l = Some (last (m # ys))"
    "distinct (h # m # ys)" using assms(1) by (auto simp: well_formed_def split: option.splits)
  have "Some h \<noteq> lst_tail l" using n(7,8) by (metis last_in_set list.discI distinct.simps(2) option.inject)
  then have loop: "add_loop (lst_store l) (lst_tail l) a (Some h) = Some (Inr (Some h))"
    using n assms by (subst add_loop.simps) simp
  have neq: "a \<noteq> h" "a \<noteq> m" "h \<noteq> m" "m \<notin> set ys" "h \<notin> set ys" "a \<notin> set ys" using assms(3) n(8) by auto
  let ?st = "(lst_store l)(a \<mapsto> t\<lparr>t_next := Some m, t_prev := Some h\<rparr>, h \<mapsto> n\<lparr>t_next := Some a\<rparr>, m \<mapsto> k\<lparr>t_prev := Some a\<rparr>)"
  have ins: "insert_after (Some h) a (lst_store l) = Inr ?st"
    using n assms(2) neq by (simp add: insert_after_def)
  have "dll ?st None (h # a # m # ys) None" using n neq by simp
  then have "well_formed (l\<lparr>lst_store := ?st\<rparr>) (h # a # m # ys)" using n neq by (auto simp: well_formed_def)
  moreover have "payload_of ?st b = payload_of (lst_store l) b" for b using n assms(2) by (simp add: payload_of_def)
  moreover have "add_timer (Some a) l = Some (Inr (l\<lparr>lst_store := ?st\<rparr>))"
    using loop ins n assms(2,4) by (simp add: add_timer_def add_timer_from_def)
  ultimately show ?thesis by auto
qed

text \<open>
  Adding a timer is right only at the front. A timer that expires before all others becomes the head.
  A second timer that does not expire before the first one ends the program: behind the last timer
  the link back is written through \<open>NULL\<close>. In a longer list a timer that expires after the first
  two is put between them, so that the list is no longer sorted.
\<close>

theorem add_timer_misplaces:
  assumes "well_formed l (h # xs)" and "lst_store l a = Some t" and "a \<notin> set (h # xs)" and "t_prev t = None"
  shows "(expire t < expires l h \<longrightarrow> (\<exists>l'. add_timer (Some a) l = Some (Inr l') \<and> well_formed l' (a # h # xs)))
    \<and> (expires l h \<le> expire t \<and> xs = [] \<longrightarrow> add_timer (Some a) l = Some (Inl NullDeref))
    \<and> (\<forall>m ys. xs = m # ys \<and> expires l h < expire t \<and> expires l m < expire t \<longrightarrow>
         (\<exists>l'. add_timer (Some a) l = Some (Inr l') \<and> well_formed l' (h # a # m # ys)
            \<and> \<not> sorted (map (expires l') (h # a # m # ys))))"
proof (intro conjI allI impI)
  assume "expire t < expires l h"
  then show "\<exists>l'. add_timer (Some a) l = Some (Inr l') \<and> well_formed l' (a # h # xs)"
    by (rule add_front [OF assms])
next
  assume "expires l h \<le> expire t \<and> xs = []"
  then show "add_timer (Some a) l = Some (Inl NullDeref)" using add_second_crashes [of l h a t] assms by simp
next
  fix m ys
  assume m: "xs = m # ys \<and> expires l h < expire t \<and> expires l m < expire t"
  then obtain l' where l': "add_timer (Some a) l = Some (Inr l')" "well_formed l' (h # a # m # ys)"
    "\<And>b. payload_of (lst_store l') b = payload_of (lst_store l) b"
    using add_out_of_order [of l h m ys a t] assms by auto
  obtain x y k where "lst_store l' a = Some x" "lst_store l' m = Some y" "lst_store l m = Some k"
    using l'(2) dll_some [of "lst_store l'" None "h # a # m # ys" None a] dll_some [of "lst_store l'" None "h # a # m # ys" None m]
      assms(1) dll_some [of "lst_store l" None "h # xs" None m] m by (auto simp: well_formed_def simp del: dll.simps)
  then have "expires l' a = expire t" "expires l' m = expires l m"
    using l'(3) [of a] l'(3) [of m] assms(2) by (simp_all add: payload_of_def)
  then show "\<exists>l'. add_timer (Some a) l = Some (Inr l') \<and> well_formed l' (h # a # m # ys)
            \<and> \<not> sorted (map (expires l') (h # a # m # ys))" using l'(1,2) m by auto
qed

definition one_timer :: sort_timer_lst where
  "one_timer = \<lparr>lst_store = [1 \<mapsto> \<lparr>expire = 5, user_data = 11, t_prev = None, t_next = None\<rparr>,
                             2 \<mapsto> \<lparr>expire = 6, user_data = 12, t_prev = None, t_next = None\<rparr>],
                lst_head = Some 1, lst_tail = Some 1\<rparr>"

theorem add_timer_misplaces_witness:
  "well_formed one_timer [1] \<and> add_timer (Some 2) one_timer = Some (Inl NullDeref)"
proof -
  have wf: "well_formed one_timer [1]" by (simp add: well_formed_def one_timer_def)
  then show ?thesis using add_timer_misplaces [OF wf, of 2 "\<lparr>expire = 6, user_data = 12, t_prev = None, t_next = None\<rparr>"]
    by (simp add: one_timer_def)
qed

section \<open>The destructor\<close>

lemma delete_all_spec:
  assumes "well_formed l xs"
  shows "\<exists>l'. delete_all l = Some (Inr l') \<and> lst_head l' = None \<and> (\<forall>a. lst_store l' a = (if a \<in> set xs then None else lst_store l a))"
proof -
  have "\<exists>l'. delete_all l = Some (Inr l') \<and> lst_head l' = None \<and> (\<forall>a. lst_store l' a = (if a \<in> set xs then None else lst_store l a))"
    if "distinct xs" "dll (lst_store l) p xs None" "lst_head l = (if xs = [] then None else Some (hd xs))" for p l
    using that
  proof (induction xs arbitrary: l p)
    case Nil
    then show ?case by (subst delete_all.simps) simp
  next
    case (Cons x xs)
    obtain n where n: "lst_store l x = Some n" "t_next n = (if xs = [] then None else Some (hd xs))" "dll (lst_store l) (Some x) xs None"
      using Cons.prems(2) by (cases xs) (auto split: option.splits)
    let ?l = "l\<lparr>lst_store := (lst_store l)(x := None), lst_head := t_next n\<rparr>"
    have "delete_all l = delete_all ?l" using Cons.prems(3) n(1) by (subst delete_all.simps) simp
    moreover have "dll (lst_store ?l) (Some x) xs None" using n(3) Cons.prems(1) by simp
    moreover obtain l' where "delete_all ?l = Some (Inr l')" "lst_head l' = None"
      "\<And>a. lst_store l' a = (if a \<in> set xs then None else lst_store ?l a)"
      using Cons.IH [of ?l "Some x", OF _ calculation(2)] Cons.prems(1) n(2) by auto
    ultimately show ?case by auto
  qed
  then show ?thesis using assms unfolding well_formed_def by blast
qed

end
