(* ===== verification/Timer_Server.thy ===== *)
theory Timer_Server
  imports Timer_List
begin

text \<open>
  The event loop of the server that closes idle connections, \<open>timer/container/server.cpp\<close>, on top of
  the timer list. What the system calls return is part of the event: the new connection and the
  time of day for \<open>accept\<close>, the bytes read from the signal pipe, the outcome of \<open>recv\<close>. The array
  \<open>users\<close> is reduced to the timer of each connection, and the connections closed are recorded.
\<close>

section \<open>State and events\<close>

definition TIMESLOT :: int where "TIMESLOT = 5"
definition SIGALRM :: int where "SIGALRM = 14"
definition SIGTERM :: int where "SIGTERM = 15"

record server =
  srv_lst :: sort_timer_lst
  srv_users :: "int \<Rightarrow> nat option"
  srv_closed :: "int list"
  srv_fresh :: nat
  srv_timeout :: bool
  srv_stop :: bool

datatype recv_result = RecvError int | RecvClosed | RecvBytes

datatype event =
    Connect int int
  | SignalPipe "int list option"
  | Readable int recv_result int
  | Unexpected

section \<open>Handlers\<close>

definition cb_func :: "int \<Rightarrow> server \<Rightarrow> server" where
  "cb_func sockfd s = s\<lparr>srv_closed := srv_closed s @ [sockfd]\<rparr>"

text \<open>\<open>alarm(TIMESLOT)\<close> asks for the next signal; when it arrives is up to the events.\<close>

definition timer_handler :: "int \<Rightarrow> server \<Rightarrow> (fault + server) option" where
  "timer_handler now s =
     (case tick now (srv_lst s) of
        None \<Rightarrow> None
      | Some (Inl e) \<Rightarrow> Some (Inl e)
      | Some (Inr (l, fired)) \<Rightarrow> Some (Inr (fold cb_func fired (s\<lparr>srv_lst := l\<rparr>))))"

definition with_list :: "server \<Rightarrow> (fault + sort_timer_lst) option \<Rightarrow> (fault + server) option" where
  "with_list s r = (case r of None \<Rightarrow> None | Some (Inl e) \<Rightarrow> Some (Inl e) | Some (Inr l) \<Rightarrow> Some (Inr (s\<lparr>srv_lst := l\<rparr>)))"

text \<open>\<open>new util_timer\<close> followed by the assignments to its fields; the result of \<open>accept\<close> is not tested.\<close>

definition on_connect :: "int \<Rightarrow> int \<Rightarrow> server \<Rightarrow> (fault + server) option" where
  "on_connect connfd cur s =
     (if connfd < 0 then Some (Inl OutOfBounds)
      else (let a = srv_fresh s;
                t = \<lparr>expire = cur + 3 * TIMESLOT, user_data = connfd, t_prev = None, t_next = None\<rparr>;
                l = (srv_lst s)\<lparr>lst_store := (lst_store (srv_lst s))(a \<mapsto> t)\<rparr>;
                s = s\<lparr>srv_lst := l, srv_fresh := Suc a, srv_users := (srv_users s)(connfd \<mapsto> a)\<rparr>
            in with_list s (add_timer (Some a) l)))"

fun on_signals :: "int list \<Rightarrow> server \<Rightarrow> server" where
  "on_signals [] s = s"
| "on_signals (g # gs) s =
     on_signals gs (if g = SIGALRM then s\<lparr>srv_timeout := True\<rparr>
                    else if g = SIGTERM then s\<lparr>srv_stop := True\<rparr> else s)"

definition close_client :: "int \<Rightarrow> server \<Rightarrow> (fault + server) option" where
  "close_client sockfd s =
     (let s = cb_func sockfd s
      in if srv_users s sockfd \<noteq> None then with_list s (Some (del_timer (srv_users s sockfd) (srv_lst s)))
         else Some (Inr s))"

definition on_readable :: "int \<Rightarrow> recv_result \<Rightarrow> int \<Rightarrow> server \<Rightarrow> (fault + server) option" where
  "on_readable sockfd r cur s =
     (case r of
        RecvError errno \<Rightarrow> if errno \<noteq> EAGAIN then close_client sockfd s else Some (Inr s)
      | RecvClosed \<Rightarrow> close_client sockfd s
      | RecvBytes \<Rightarrow>
          (case srv_users s sockfd of
             None \<Rightarrow> Some (Inr s)
           | Some a \<Rightarrow>
               (case assign (Some a) (\<lambda>t. t\<lparr>expire := cur + 3 * TIMESLOT\<rparr>) (lst_store (srv_lst s)) of
                  Inl e \<Rightarrow> Some (Inl e)
                | Inr st \<Rightarrow> with_list s (adjust_timer (Some a) ((srv_lst s)\<lparr>lst_store := st\<rparr>)))))"

definition handle_event :: "event \<Rightarrow> server \<Rightarrow> (fault + server) option" where
  "handle_event ev s =
     (case ev of
        Connect connfd cur \<Rightarrow> on_connect connfd cur s
      | SignalPipe None \<Rightarrow> Some (Inr s)
      | SignalPipe (Some gs) \<Rightarrow> Some (Inr (on_signals gs s))
      | Readable sockfd r cur \<Rightarrow> on_readable sockfd r cur s
      | Unexpected \<Rightarrow> Some (Inr s))"

fun handle_events :: "event list \<Rightarrow> server \<Rightarrow> (fault + server) option" where
  "handle_events [] s = Some (Inr s)"
| "handle_events (ev # evs) s =
     (case handle_event ev s of Some (Inr s) \<Rightarrow> handle_events evs s | r \<Rightarrow> r)"

text \<open>One round of the loop: the events \<open>epoll_wait\<close> reported, then the timers if the alarm went off.\<close>

definition serve_round :: "event list \<Rightarrow> int \<Rightarrow> server \<Rightarrow> (fault + server) option" where
  "serve_round evs now s =
     (case handle_events evs s of
        Some (Inr s) \<Rightarrow>
          if srv_timeout s
          then (case timer_handler now s of
                  Some (Inr s) \<Rightarrow> Some (Inr (s\<lparr>srv_timeout := False\<rparr>))
                | r \<Rightarrow> r)
          else Some (Inr s)
      | r \<Rightarrow> r)"

fun serve :: "(event list \<times> int) list \<Rightarrow> server \<Rightarrow> (fault + server) option" where
  "serve [] s = Some (Inr s)"
| "serve ((evs, now) # rounds) s =
     (if srv_stop s then Some (Inr s)
      else (case serve_round evs now s of Some (Inr s) \<Rightarrow> serve rounds s | r \<Rightarrow> r))"

definition start :: server where
  "start = \<lparr>srv_lst = \<lparr>lst_store = Map.empty, lst_head = None, lst_tail = None\<rparr>, srv_users = Map.empty,
     srv_closed = [], srv_fresh = 0, srv_timeout = False, srv_stop = False\<rparr>"

section \<open>One client\<close>

text \<open>The states in which \<open>fd\<close> is the only connection and expires at \<open>e\<close>.\<close>

definition single :: "int \<Rightarrow> int \<Rightarrow> server \<Rightarrow> bool" where
  "single fd e s \<longleftrightarrow> (\<exists>a. well_formed (srv_lst s) [a] \<and> srv_users s fd = Some a \<and> a < srv_fresh s
     \<and> payload_of (lst_store (srv_lst s)) a = Some (e, fd))"

lemma connect_first:
  assumes "0 \<le> fd"
  shows "\<exists>s'. on_connect fd cur start = Some (Inr s') \<and> single fd (cur + 15) s' \<and> srv_closed s' = [] \<and> \<not> srv_timeout s' \<and> \<not> srv_stop s'"
  using assms by (simp add: on_connect_def start_def add_timer_def with_list_def single_def well_formed_def
      payload_of_def TIMESLOT_def)

lemma readable_single:
  assumes "single fd e s"
  shows "\<exists>s'. on_readable fd RecvBytes cur s = Some (Inr s') \<and> single fd (cur + 15) s'
    \<and> srv_closed s' = srv_closed s \<and> srv_timeout s' = srv_timeout s \<and> srv_stop s' = srv_stop s"
proof -
  obtain a n where a: "well_formed (srv_lst s) [a]" "srv_users s fd = Some a" "lst_store (srv_lst s) a = Some n"
    "user_data n = fd" "t_next n = None" "t_prev n = None" "a < srv_fresh s"
    using assms by (auto simp: single_def payload_of_def well_formed_def split: option.splits)
  then show ?thesis by (simp add: on_readable_def adjust_timer_def with_list_def single_def well_formed_def
      payload_of_def TIMESLOT_def)
qed

lemma timer_single:
  assumes "single fd e s"
  shows "\<exists>s'. timer_handler now s = Some (Inr s') \<and> srv_stop s' = srv_stop s
    \<and> (if e \<le> now then srv_closed s' = srv_closed s @ [fd] \<and> lst_head (srv_lst s') = None
       else srv_closed s' = srv_closed s \<and> single fd e s')"
proof -
  obtain a n where a: "well_formed (srv_lst s) [a]" "srv_users s fd = Some a" "lst_store (srv_lst s) a = Some n"
    "user_data n = fd" "expire n = e" "a < srv_fresh s"
    using assms by (auto simp: single_def payload_of_def well_formed_def split: option.splits)
  obtain l' where l': "tick now (srv_lst s) = Some (Inr (l', map (\<lambda>a. user_data (the (lst_store (srv_lst s) a)))
        (takeWhile (\<lambda>a. expires (srv_lst s) a \<le> now) [a])))"
    "well_formed l' (dropWhile (\<lambda>a. expires (srv_lst s) a \<le> now) [a])"
    "\<And>b. payload_of (lst_store l') b = (if b \<in> set (takeWhile (\<lambda>a. expires (srv_lst s) a \<le> now) [a]) then None
         else payload_of (lst_store (srv_lst s)) b)"
    using tick_loop_spec [OF a(1), of now "[]"] by (auto simp: tick_def)
  show ?thesis
  proof (cases "e \<le> now")
    case True
    then show ?thesis using l' a by (simp add: timer_handler_def cb_func_def well_formed_def)
  next
    case False
    then have "payload_of (lst_store l') a = Some (e, fd)" using l'(3) [of a] a by (simp add: payload_of_def)
    then show ?thesis using l'(1,2) a False by (simp add: timer_handler_def single_def)
  qed
qed

lemma readables_single:
  assumes "single fd e s"
  shows "\<exists>s'. handle_events (map (\<lambda>t. Readable fd RecvBytes t) ts @ evs) s = handle_events evs s'
    \<and> single fd (last (e # map (\<lambda>t. t + 15) ts)) s' \<and> srv_closed s' = srv_closed s
    \<and> srv_timeout s' = srv_timeout s \<and> srv_stop s' = srv_stop s"
  using assms
proof (induction ts arbitrary: e s)
  case (Cons t ts)
  obtain s1 where s1: "on_readable fd RecvBytes t s = Some (Inr s1)" "single fd (t + 15) s1"
    "srv_closed s1 = srv_closed s" "srv_timeout s1 = srv_timeout s" "srv_stop s1 = srv_stop s"
    using readable_single [OF Cons.prems(1), of t] by auto
  then show ?case using Cons.IH [OF s1(2)] by (simp add: handle_event_def)
qed auto

text \<open>
  The rounds of the loop while \<open>fd\<close> is the only client: the times at which bytes of it are read, whether the alarm
  is delivered in the round, and the time at the end of the round.
\<close>

type_synonym client_rounds = "(int list \<times> bool \<times> int) list"

definition round_events :: "int \<Rightarrow> int list \<times> bool \<times> int \<Rightarrow> event list \<times> int" where
  "round_events fd r = (case r of (ts, alarm, now) \<Rightarrow>
     (map (\<lambda>t. Readable fd RecvBytes t) ts @ (if alarm then [SignalPipe (Some [SIGALRM])] else []), now))"

text \<open>The alarm of round \<open>i\<close> finds the client idle for fifteen seconds.\<close>

definition idle_at :: "int \<Rightarrow> client_rounds \<Rightarrow> nat \<Rightarrow> bool" where
  "idle_at t0 rounds i = (case rounds ! i of (ts, alarm, now) \<Rightarrow>
     alarm \<and> last (t0 # concat (map fst (take (Suc i) rounds))) + 15 \<le> now)"

lemma idle_at_Cons:
  "idle_at t0 ((ts, alarm, now) # rounds) 0 = (alarm \<and> last (t0 # ts) + 15 \<le> now)"
  "idle_at t0 ((ts, alarm, now) # rounds) (Suc i) = idle_at (last (t0 # ts)) rounds i"
proof -
  have "last (t0 # ts @ xs) = last (last (t0 # ts) # xs)" for xs by simp
  then show "idle_at t0 ((ts, alarm, now) # rounds) 0 = (alarm \<and> last (t0 # ts) + 15 \<le> now)"
    "idle_at t0 ((ts, alarm, now) # rounds) (Suc i) = idle_at (last (t0 # ts)) rounds i"
    by (simp_all add: idle_at_def)
qed

text \<open>A round with the client connected, and rounds after it was closed.\<close>

lemma open_round:
  assumes "single fd (t0 + 15) s" and "\<not> srv_timeout s" and "\<not> srv_stop s"
  shows "\<exists>s'. serve (round_events fd (ts, alarm, now) # rounds) s = serve rounds s' \<and> \<not> srv_timeout s' \<and> \<not> srv_stop s'
    \<and> (if alarm \<and> last (t0 # ts) + 15 \<le> now then srv_closed s' = srv_closed s @ [fd] \<and> lst_head (srv_lst s') = None
       else srv_closed s' = srv_closed s \<and> single fd (last (t0 # ts) + 15) s')"
proof -
  define e where "e = last (t0 # ts) + 15"
  let ?sig = "if alarm then [SignalPipe (Some [SIGALRM])] else []"
  obtain s1 where s1: "handle_events (map (\<lambda>t. Readable fd RecvBytes t) ts @ ?sig) s = handle_events ?sig s1"
    "single fd e s1" "srv_closed s1 = srv_closed s" "\<not> srv_timeout s1" "\<not> srv_stop s1"
    using readables_single [OF assms(1), of ts ?sig] assms(2,3) by (auto simp: e_def last_map split: if_splits)
  have "\<exists>s'. serve (round_events fd (ts, alarm, now) # rounds) s = serve rounds s' \<and> \<not> srv_timeout s' \<and> \<not> srv_stop s'
    \<and> (if alarm \<and> e \<le> now then srv_closed s' = srv_closed s @ [fd] \<and> lst_head (srv_lst s') = None
       else srv_closed s' = srv_closed s \<and> single fd e s')"
  proof (cases alarm)
    case True
    have "single fd e (s1\<lparr>srv_timeout := True\<rparr>)" using s1(2) by (simp add: single_def)
    from timer_single [OF this, of now] obtain s2 where s2: "timer_handler now (s1\<lparr>srv_timeout := True\<rparr>) = Some (Inr s2)"
      "\<not> srv_stop s2" "if e \<le> now then srv_closed s2 = srv_closed s1 @ [fd] \<and> lst_head (srv_lst s2) = None
         else srv_closed s2 = srv_closed s1 \<and> single fd e s2"
      using s1(5) by auto
    have "single fd x (s2\<lparr>srv_timeout := False\<rparr>) = single fd x s2" for x by (simp add: single_def)
    moreover have "serve (round_events fd (ts, alarm, now) # rounds) s = serve rounds (s2\<lparr>srv_timeout := False\<rparr>)"
      using s1(1) s2(1) True assms(3) by (simp add: round_events_def serve_round_def handle_event_def)
    ultimately show ?thesis using True s1(3) s2(2,3)
      by (intro exI [of _ "s2\<lparr>srv_timeout := False\<rparr>"], cases "e \<le> now") simp_all
  next
    case False
    then have "serve (round_events fd (ts, alarm, now) # rounds) s = serve rounds s1"
      using s1(1,4) assms(3) by (simp add: round_events_def serve_round_def)
    then show ?thesis using s1 False by auto
  qed
  then show ?thesis unfolding e_def .
qed

lemma closed_rounds:
  assumes "lst_head (srv_lst s) = None" and "\<not> srv_timeout s" and "\<not> srv_stop s" and "\<forall>r\<in>set rounds. fst r = []"
  shows "\<exists>s'. serve (map (round_events fd) rounds) s = Some (Inr s') \<and> srv_closed s' = srv_closed s"
  using assms
proof (induction rounds arbitrary: s)
  case (Cons r rounds)
  obtain alarm now where r: "r = ([], alarm, now)" using Cons.prems(4) by (cases r) auto
  have t: "timer_handler now s' = Some (Inr s')" if "lst_head (srv_lst s') = None" for s'
    using that by (simp add: timer_handler_def tick_def tick_loop.simps [of now])
  have "serve_round (fst (round_events fd r)) now s = Some (Inr s)"
    using Cons.prems(1,2) t [of "s\<lparr>srv_timeout := True\<rparr>"]
    by (cases alarm) (simp_all add: r round_events_def serve_round_def handle_event_def)
  then show ?case using Cons by (simp add: r round_events_def)
qed simp

lemma rounds_single:
  assumes "single fd (t0 + 15) s" and "\<not> srv_timeout s" and "\<not> srv_stop s"
    and "\<forall>i<length rounds. \<forall>j<length rounds. idle_at t0 rounds i \<and> i < j \<longrightarrow> fst (rounds ! j) = []"
  shows "\<exists>s'. serve (map (round_events fd) rounds) s = Some (Inr s')
    \<and> srv_closed s' = srv_closed s @ (if \<exists>i<length rounds. idle_at t0 rounds i then [fd] else [])"
  using assms
proof (induction rounds arbitrary: t0 s)
  case (Cons r rounds)
  obtain ts alarm now where r: "r = (ts, alarm, now)" by (cases r)
  obtain s1 where s1: "serve (map (round_events fd) (r # rounds)) s = serve (map (round_events fd) rounds) s1"
    "\<not> srv_timeout s1" "\<not> srv_stop s1"
    "if alarm \<and> last (t0 # ts) + 15 \<le> now then srv_closed s1 = srv_closed s @ [fd] \<and> lst_head (srv_lst s1) = None
       else srv_closed s1 = srv_closed s \<and> single fd (last (t0 # ts) + 15) s1"
    using open_round [OF Cons.prems(1-3), of ts alarm now "map (round_events fd) rounds"] r by auto
  show ?case
  proof (cases "alarm \<and> last (t0 # ts) + 15 \<le> now")
    case True
    then have "idle_at t0 (r # rounds) 0" by (simp add: r idle_at_Cons)
    moreover from this have "fst (rounds ! j) = []" if "j < length rounds" for j
      using Cons.prems(4) [rule_format, of 0 "Suc j"] that by simp
    ultimately have "\<forall>r\<in>set rounds. fst r = []" "\<exists>i<length (r # rounds). idle_at t0 (r # rounds) i"
      by (metis in_set_conv_nth, intro exI [of _ 0], simp)
    then show ?thesis using closed_rounds [of s1 rounds fd] s1 True by auto
  next
    case False
    have ex: "(\<exists>i<length (r # rounds). idle_at t0 (r # rounds) i) = (\<exists>i<length rounds. idle_at (last (t0 # ts)) rounds i)"
      using False by (auto simp: r idle_at_Cons Ex_less_Suc2)
    have "\<forall>i<length rounds. \<forall>j<length rounds. idle_at (last (t0 # ts)) rounds i \<and> i < j \<longrightarrow> fst (rounds ! j) = []"
    proof (intro allI impI)
      fix i j assume "i < length rounds" "j < length rounds" "idle_at (last (t0 # ts)) rounds i \<and> i < j"
      then show "fst (rounds ! j) = []"
        using Cons.prems(4) [rule_format, of "Suc i" "Suc j"] by (simp add: r idle_at_Cons)
    qed
    moreover have "single fd (last (t0 # ts) + 15) s1" "srv_closed s1 = srv_closed s" using s1(4) False by (simp_all only: if_False)
    ultimately show ?thesis using Cons.IH [of "last (t0 # ts)" s1] s1(1-3) unfolding ex by (simp only: simp_thms)
  qed
qed simp

text \<open>
  C24: With a single client the server keeps its promise, over any number of rounds and alarms: whatever the
  times at which the client connects and sends, its connection is closed at the first alarm that comes
  fifteen seconds or more after its last sign of life, and not before; the later alarms, while nothing more is
  read from the connection that was closed, do not close it again.
\<close>

theorem idle_client_closed:
  assumes "0 \<le> fd"
    and "\<forall>i<length rounds. \<forall>j<length rounds. idle_at t0 rounds i \<and> i < j \<longrightarrow> fst (rounds ! j) = []"
  shows "\<exists>s'. serve (([Connect fd t0], t0) # map (round_events fd) rounds) start = Some (Inr s')
    \<and> srv_closed s' = (if \<exists>i<length rounds. idle_at t0 rounds i then [fd] else [])"
proof -
  obtain s1 where s1: "on_connect fd t0 start = Some (Inr s1)" "single fd (t0 + 15) s1" "srv_closed s1 = []"
    "\<not> srv_timeout s1" "\<not> srv_stop s1"
    using connect_first [OF assms(1), of t0] by blast
  then have "serve (([Connect fd t0], t0) # map (round_events fd) rounds) start = serve (map (round_events fd) rounds) s1"
    by (simp add: serve_round_def handle_event_def start_def)
  then show ?thesis using rounds_single [OF s1(2,4,5) assms(2)] s1(3) by auto
qed

theorem idle_client_closed_witness:
  "\<exists>s'. serve (([Connect 7 100], 100) # map (round_events 7) [([], True, 105), ([108], True, 110), ([], True, 115), ([], True, 120),
        ([], True, 125), ([], True, 130)]) start = Some (Inr s') \<and> srv_closed s' = [7]"
proof -
  let ?rs = "[([], True, 105), ([108], True, 110), ([], True, 115), ([], True, 120), ([], True, 125), ([], True, 130)] :: client_rounds"
  have at: "idle_at 100 ?rs 0 = False" "idle_at 100 ?rs 1 = False" "idle_at 100 ?rs 2 = False" "idle_at 100 ?rs 3 = False"
    "idle_at 100 ?rs 4 = True" by (simp_all add: idle_at_def numeral_eq_Suc)
  have "fst (?rs ! j) = []" if "i < length ?rs" "j < length ?rs" "idle_at 100 ?rs i" "i < j" for i j
  proof -
    have "i \<noteq> 0" using that(3) at(1) by metis
    then have "j \<in> {2, 3, 4, 5}" using that(2,4) by auto
    then show ?thesis by auto
  qed
  then have "\<forall>i<length ?rs. \<forall>j<length ?rs. idle_at 100 ?rs i \<and> i < j \<longrightarrow> fst (?rs ! j) = []" by blast
  moreover have "\<exists>i<length ?rs. idle_at 100 ?rs i" using at(5) by (intro exI [of _ 4]) simp
  ultimately show ?thesis using idle_client_closed [of 7 ?rs 100] by (simp only: if_True)
qed

text \<open>
  A second client ends the server. Since the clock does not run backwards its timer expires no earlier
  than that of the first, and adding it writes through \<open>NULL\<close>.
\<close>

theorem second_client_crashes:
  assumes "0 \<le> fd" and "0 \<le> fd'" and "t0 \<le> t1"
  shows "serve [([Connect fd t0], t0), ([Connect fd' t1], t1)] start = Some (Inl NullDeref)"
proof -
  obtain s1 where s1: "on_connect fd t0 start = Some (Inr s1)" "single fd (t0 + 15) s1" "\<not> srv_timeout s1" "\<not> srv_stop s1"
    using connect_first [OF assms(1), of t0] by blast
  obtain a n where a: "well_formed (srv_lst s1) [a]" "lst_store (srv_lst s1) a = Some n" "expire n = t0 + 15" "a < srv_fresh s1"
    using s1(2) by (auto simp: single_def payload_of_def well_formed_def split: option.splits)
  define t where "t = \<lparr>expire = t1 + 15, user_data = fd', t_prev = None, t_next = None\<rparr>"
  define l where "l = (srv_lst s1)\<lparr>lst_store := (lst_store (srv_lst s1))(srv_fresh s1 \<mapsto> t)\<rparr>"
  have "well_formed l [a]" using a(1,2,4) by (simp add: well_formed_def l_def)
  moreover have "lst_store l (srv_fresh s1) = Some t" "expires l a \<le> expire t"
    using a assms(3) by (simp_all add: l_def t_def)
  ultimately have "add_timer (Some (srv_fresh s1)) l = Some (Inl NullDeref)"
    using add_second_crashes [of l a "srv_fresh s1" t] a(4) by simp
  then have "on_connect fd' t1 s1 = Some (Inl NullDeref)" using assms(2)
    by (simp add: on_connect_def Let_def TIMESLOT_def t_def [symmetric] l_def [symmetric] with_list_def)
  then show ?thesis using s1 by (simp add: serve_round_def handle_event_def start_def)
qed

theorem second_client_crashes_witness:
  "serve [([Connect 7 100], 100), ([Connect 8 101], 101)] start = Some (Inl NullDeref)"
  using second_client_crashes [of 7 8 100 101] by simp

end
