(* ===== verification/Thread_Pool.thy ===== *)
theory Thread_Pool
  imports Prelude
begin

text \<open>
  The thread pool \<open>high_perf_linux_server_prog/code/thread_pool\<close>, \<open>tpool.h\<close> and \<open>tpool.cpp\<close>. What a
  thread does between taking and giving back the mutex is one step; \<open>pthread_cond_wait\<close> gives the
  mutex back, and the thread goes on with another step once it is woken. The schedule, including
  which waiting thread a signal wakes and threads that wake without one, is a sequence of
  operations. The linked list of work items is a list.
\<close>

section \<open>State\<close>

text \<open>Where a worker is: before the lock, in \<open>pthread_cond_wait\<close>, in a task, or gone.\<close>

datatype 'w worker = AtLock | Waiting | Running 'w | Exited

record 'w tpool =
  tp_shutdown :: bool
  tp_threads :: "'w worker list"
  tp_queue :: "'w list"
  tp_finished :: "'w list"
  tp_broadcast :: bool
  tp_destroyed :: bool

section \<open>create_tpool\<close>

text \<open>
  The outcome of each call that may fail, in order: the two allocations, the mutex, the condition
  variable, the threads. The process exits at the first that does.
\<close>

record tpool_calls =
  malloc_pool :: bool
  malloc_threads :: bool
  mutex_init :: bool
  cond_init :: bool
  thread_create :: "nat \<Rightarrow> bool"

definition create_tpool :: "tpool_calls \<Rightarrow> nat \<Rightarrow> 'w tpool option" where
  "create_tpool calls max_thread_num =
     (if \<not> malloc_pool calls then None
      else if \<not> malloc_threads calls then None
      else if \<not> mutex_init calls then None
      else if \<not> cond_init calls then None
      else if \<not> list_all (thread_create calls) [0..<max_thread_num] then None
      else Some \<lparr>tp_shutdown = False, tp_threads = replicate max_thread_num AtLock, tp_queue = [],
                 tp_finished = [], tp_broadcast = False, tp_destroyed = False\<rparr>)"

section \<open>thread_start\<close>

text \<open>From \<open>pthread_mutex_lock\<close>, or from waking up inside the wait, to the next unlock or wait.\<close>

definition worker_locked :: "nat \<Rightarrow> 'w tpool \<Rightarrow> 'w tpool" where
  "worker_locked i p =
     (case tp_queue p of
        [] \<Rightarrow> if \<not> tp_shutdown p then p\<lparr>tp_threads := (tp_threads p)[i := Waiting]\<rparr>
              else p\<lparr>tp_threads := (tp_threads p)[i := Exited]\<rparr>
      | w # ws \<Rightarrow> if tp_shutdown p then p\<lparr>tp_threads := (tp_threads p)[i := Exited]\<rparr>
                  else p\<lparr>tp_queue := ws, tp_threads := (tp_threads p)[i := Running w]\<rparr>)"

definition worker_done :: "nat \<Rightarrow> 'w \<Rightarrow> 'w tpool \<Rightarrow> 'w tpool" where
  "worker_done i w p = p\<lparr>tp_threads := (tp_threads p)[i := AtLock], tp_finished := tp_finished p @ [w]\<rparr>"

section \<open>add_task_2_tpool\<close>

definition is_waiting :: "'w worker \<Rightarrow> bool" where
  "is_waiting t = (case t of Waiting \<Rightarrow> True | _ \<Rightarrow> False)"

fun first_waiting :: "'w worker list \<Rightarrow> nat option" where
  "first_waiting [] = None"
| "first_waiting (t # ts) = (if is_waiting t then Some 0 else map_option Suc (first_waiting ts))"

text \<open>\<open>pthread_cond_signal\<close> wakes a waiting thread if there is one: number \<open>k\<close> if that one waits, else the first.\<close>

definition cond_signal :: "nat \<Rightarrow> 'w worker list \<Rightarrow> 'w worker list" where
  "cond_signal k ts =
     (if k < length ts \<and> is_waiting (ts ! k) then ts[k := AtLock]
      else (case first_waiting ts of None \<Rightarrow> ts | Some j \<Rightarrow> ts[j := AtLock]))"

text \<open>The walk to the last item and the link there: \<open>None\<close> is a null routine, after which the process exits.\<close>

fun append_work :: "'w list \<Rightarrow> 'w \<Rightarrow> 'w list" where
  "append_work [] w = [w]"
| "append_work (last_work # ws) w = last_work # append_work ws w"

definition add_task_2_tpool :: "nat \<Rightarrow> 'w option \<Rightarrow> bool \<Rightarrow> 'w tpool \<Rightarrow> 'w tpool option" where
  "add_task_2_tpool k routine malloc_ok p =
     (case routine of
        None \<Rightarrow> None
      | Some w \<Rightarrow>
          if \<not> malloc_ok then None
          else Some (p\<lparr>tp_queue := append_work (tp_queue p) w, tp_threads := cond_signal k (tp_threads p)\<rparr>))"

section \<open>destroy_tpool\<close>

text \<open>Three steps: the flag, the broadcast under the lock, and, when all threads have exited, the rest.\<close>

definition set_shutdown :: "'w tpool \<Rightarrow> 'w tpool" where
  "set_shutdown p = p\<lparr>tp_shutdown := True\<rparr>"

definition cond_broadcast :: "'w tpool \<Rightarrow> 'w tpool" where
  "cond_broadcast p =
     p\<lparr>tp_threads := map (\<lambda>t. if is_waiting t then AtLock else t) (tp_threads p), tp_broadcast := True\<rparr>"

definition is_exited :: "'w worker \<Rightarrow> bool" where
  "is_exited t = (case t of Exited \<Rightarrow> True | _ \<Rightarrow> False)"

definition destroy_rest :: "'w tpool \<Rightarrow> 'w tpool" where
  "destroy_rest p = p\<lparr>tp_threads := [], tp_queue := [], tp_destroyed := True\<rparr>"

section \<open>Schedules\<close>

datatype 'w tp_op = Act nat | Add nat 'w | Shutdown | Broadcast | Join

definition tp_step :: "'w tp_op \<Rightarrow> 'w tpool \<Rightarrow> 'w tpool" where
  "tp_step x p =
     (case x of
        Act i \<Rightarrow>
          if i < length (tp_threads p)
          then (case tp_threads p ! i of
                  Running w \<Rightarrow> worker_done i w p
                | Exited \<Rightarrow> p
                | _ \<Rightarrow> worker_locked i p)
          else p
      | Add k w \<Rightarrow> if tp_destroyed p then p
                    else (case add_task_2_tpool k (Some w) True p of None \<Rightarrow> p | Some p \<Rightarrow> p)
      | Shutdown \<Rightarrow> if tp_shutdown p then p else set_shutdown p
      | Broadcast \<Rightarrow> if tp_shutdown p \<and> \<not> tp_broadcast p then cond_broadcast p else p
      | Join \<Rightarrow> if tp_broadcast p \<and> list_all is_exited (tp_threads p) \<and> \<not> tp_destroyed p then destroy_rest p else p)"

section \<open>Invariant\<close>

text \<open>
  No wake-up is lost: while work is queued not all threads wait, and after the broadcast none does.
\<close>

definition tp_inv :: "'w tpool \<Rightarrow> bool" where
  "tp_inv p \<longleftrightarrow> (tp_queue p \<noteq> [] \<and> tp_threads p \<noteq> [] \<longrightarrow> \<not> list_all is_waiting (tp_threads p))
     \<and> (tp_broadcast p \<longrightarrow> tp_shutdown p \<and> list_all (\<lambda>t. \<not> is_waiting t) (tp_threads p))
     \<and> (\<not> tp_shutdown p \<longrightarrow> list_all (\<lambda>t. \<not> is_exited t) (tp_threads p))"

lemma append_work_eq [simp]: "append_work ws w = ws @ [w]"
  by (induction ws) simp_all

lemma first_waiting_None: "first_waiting ts = None \<longleftrightarrow> list_all (\<lambda>t. \<not> is_waiting t) ts"
  by (induction ts) auto

lemma first_waiting_Some: "first_waiting ts = Some j \<Longrightarrow> j < length ts \<and> is_waiting (ts ! j)"
  by (induction ts arbitrary: j) (auto split: if_splits)

lemma worker_simps [simp]:
  "is_waiting Waiting" "\<not> is_waiting AtLock" "\<not> is_waiting (Running w)" "\<not> is_waiting Exited"
  "is_exited Exited" "\<not> is_exited AtLock" "\<not> is_exited (Running w)" "\<not> is_exited Waiting"
  by (simp_all add: is_waiting_def is_exited_def)

lemma list_all_update: "list_all P xs \<Longrightarrow> P x \<Longrightarrow> list_all P (xs[i := x])"
  by (auto simp: list_all_iff dest!: set_update_subset_insert [THEN subsetD])

lemma not_all_update: "i < length xs \<Longrightarrow> \<not> P x \<Longrightarrow> \<not> list_all P (xs[i := x])"
  by (auto simp: list_all_length)

lemma cond_signal_props:
  "ts \<noteq> [] \<Longrightarrow> \<not> list_all is_waiting (cond_signal k ts)"
  "list_all (\<lambda>t. \<not> is_waiting t) ts \<Longrightarrow> list_all (\<lambda>t. \<not> is_waiting t) (cond_signal k ts)"
  "list_all (\<lambda>t. \<not> is_exited t) ts \<Longrightarrow> list_all (\<lambda>t. \<not> is_exited t) (cond_signal k ts)"
  "length (cond_signal k ts) = length ts"
proof -
  show "\<not> list_all is_waiting (cond_signal k ts)" if "ts \<noteq> []"
  proof (cases "first_waiting ts")
    case None
    then have n: "list_all (\<lambda>t. \<not> is_waiting t) ts" by (simp add: first_waiting_None)
    then have "cond_signal k ts = ts" using None by (auto simp: cond_signal_def list_all_length)
    then show ?thesis using n that by (cases ts) auto
  next
    case (Some j)
    then show ?thesis using first_waiting_Some [OF Some] by (auto simp: cond_signal_def not_all_update)
  qed
qed (auto simp: cond_signal_def list_all_update split: option.split)

lemma cond_signal_Nil [simp]: "cond_signal k ts = [] \<longleftrightarrow> ts = []"
  using cond_signal_props(4) [of k ts] by (metis length_0_conv)

lemma tp_inv_step:
  assumes inv: "tp_inv p"
  shows "tp_inv (tp_step x p)"
proof (cases x)
  case (Act i)
  show ?thesis
  proof (cases "i < length (tp_threads p) \<and> \<not> is_exited (tp_threads p ! i)")
    case False
    then show ?thesis using inv Act by (cases "tp_threads p ! i") (auto simp: tp_step_def)
  next
    case True
    show ?thesis
    proof (cases "tp_threads p ! i")
      case (Running w)
      then show ?thesis using inv Act True
        by (auto simp: tp_step_def worker_done_def tp_inv_def list_all_update not_all_update)
    next
      case Exited
      then show ?thesis using True by simp
    qed (use inv Act True in \<open>auto simp: tp_step_def worker_locked_def tp_inv_def list_all_update not_all_update
        split: list.split\<close>)
  qed
next
  case (Add k w)
  then show ?thesis using inv cond_signal_props [where ts = "tp_threads p" and k = k]
    by (auto simp: tp_step_def add_task_2_tpool_def tp_inv_def)
next
  case Shutdown
  then show ?thesis using inv by (auto simp: tp_step_def set_shutdown_def tp_inv_def)
next
  case Broadcast
  have "list_all (\<lambda>t. \<not> is_waiting t) (map (\<lambda>t. if is_waiting t then AtLock else t) ts)" for ts :: "'a worker list"
    by (auto simp: list_all_iff)
  moreover have "\<not> list_all is_waiting (map (\<lambda>t. if is_waiting t then AtLock else t) ts)" if "ts \<noteq> []" for ts :: "'a worker list"
    using that by (cases ts) auto
  ultimately show ?thesis using inv Broadcast by (auto simp: tp_step_def cond_broadcast_def tp_inv_def)
next
  case Join
  then show ?thesis using inv by (auto simp: tp_step_def destroy_rest_def tp_inv_def)
qed

text \<open>The work that a step appends, and the work that it takes off the queue, to run it or to free it.\<close>

definition tp_pushed :: "'w tp_op \<Rightarrow> 'w tpool \<Rightarrow> 'w list" where
  "tp_pushed x p = (case x of Add k w \<Rightarrow> if tp_destroyed p then [] else [w] | _ \<Rightarrow> [])"

definition tp_popped :: "'w tp_op \<Rightarrow> 'w tpool \<Rightarrow> 'w list" where
  "tp_popped x p =
     (case x of
        Act i \<Rightarrow> if i < length (tp_threads p) \<and> \<not> tp_shutdown p \<and> tp_queue p \<noteq> []
                     \<and> (is_waiting (tp_threads p ! i) \<or> (case tp_threads p ! i of AtLock \<Rightarrow> True | _ \<Rightarrow> False))
                  then [hd (tp_queue p)] else []
      | Join \<Rightarrow> if tp_destroyed (tp_step Join p) \<and> \<not> tp_destroyed p then tp_queue p else []
      | _ \<Rightarrow> [])"

interpretation tpool: queue tp_step tp_inv tp_queue tp_pushed tp_popped
proof
  fix p :: "'a tpool" and x
  assume "tp_inv p"
  then show "tp_inv (tp_step x p)" by (rule tp_inv_step)
  show "tp_popped x p @ tp_queue (tp_step x p) = tp_queue p @ tp_pushed x p"
    by (cases x) (auto simp: tp_step_def tp_popped_def tp_pushed_def worker_locked_def worker_done_def
        add_task_2_tpool_def set_shutdown_def cond_broadcast_def destroy_rest_def
        split: list.splits worker.splits)
qed

lemma create_tpool_inv: "create_tpool calls n = Some p \<Longrightarrow> tp_inv p \<and> tp_queue p = []"
  by (auto simp: create_tpool_def tp_inv_def list_all_iff split: if_splits)


definition calls_ok :: tpool_calls where
  "calls_ok = \<lparr>malloc_pool = True, malloc_threads = True, mutex_init = True, cond_init = True, thread_create = (\<lambda>_. True)\<rparr>"

definition pool2 :: "nat tpool" where
  "pool2 = \<lparr>tp_shutdown = False, tp_threads = [AtLock, AtLock], tp_queue = [], tp_finished = [],
     tp_broadcast = False, tp_destroyed = False\<rparr>"

lemma create_pool2: "create_tpool calls_ok 2 = Some pool2"
  by (simp add: create_tpool_def calls_ok_def pool2_def numeral_2_eq_2)


text \<open>Two steps of a thread that does not wait end it once the pool shuts down.\<close>

lemma act_twice:
  assumes "tp_shutdown p" and "i < length (tp_threads p)" and "\<not> is_waiting (tp_threads p ! i)"
  shows "tp_threads (tp_step (Act i) (tp_step (Act i) p)) = (tp_threads p)[i := Exited]
    \<and> tp_shutdown (tp_step (Act i) (tp_step (Act i) p)) \<and> tp_broadcast (tp_step (Act i) (tp_step (Act i) p)) = tp_broadcast p"
  using assms list_update_id [of "tp_threads p" i] by (cases "tp_threads p ! i")
    (simp_all add: tp_step_def worker_locked_def worker_done_def split: list.split)

lemma acts_exit:
  assumes "tp_shutdown p" and "tp_broadcast p" and "list_all (\<lambda>t. \<not> is_waiting t) (tp_threads p)" and "m \<le> length (tp_threads p)"
  shows "list_all is_exited (take m (tp_threads (run_ops tp_step (concat (map (\<lambda>i. [Act i, Act i]) [0..<m])) p)))
    \<and> (let p' = run_ops tp_step (concat (map (\<lambda>i. [Act i, Act i]) [0..<m])) p in
        tp_shutdown p' \<and> tp_broadcast p' \<and> list_all (\<lambda>t. \<not> is_waiting t) (tp_threads p') \<and> length (tp_threads p') = length (tp_threads p))"
  using assms(4)
proof (induction m)
  case 0
  then show ?case using assms by simp
next
  case (Suc m)
  define p' where "p' = run_ops tp_step (concat (map (\<lambda>i. [Act i, Act i]) [0..<m])) p"
  have run: "run_ops tp_step (xs @ ys) q = run_ops tp_step ys (run_ops tp_step xs q)" for xs ys and q :: "'a tpool"
    by (induction xs arbitrary: q) simp_all
  have IH: "list_all is_exited (take m (tp_threads p'))" "tp_shutdown p'" "tp_broadcast p'"
    "list_all (\<lambda>t. \<not> is_waiting t) (tp_threads p')" "length (tp_threads p') = length (tp_threads p)"
    using Suc by (simp_all add: p'_def Let_def)
  have m: "m < length (tp_threads p')" "\<not> is_waiting (tp_threads p' ! m)" using IH Suc.prems by (auto simp: list_all_length)
  have r: "run_ops tp_step (concat (map (\<lambda>i. [Act i, Act i]) [0..<Suc m])) p = tp_step (Act m) (tp_step (Act m) p')"
    by (simp add: run p'_def)
  have "take (Suc m) ((tp_threads p')[m := Exited]) = take m (tp_threads p') @ [Exited]"
    using m(1) by (simp add: take_Suc_conv_app_nth)
  then show ?case unfolding r using act_twice [OF IH(2) m] IH m by (simp add: Let_def list_all_update)
qed

text \<open>
  C25: No thread sleeps through work or through the end. Along every schedule, while work is queued and the
  pool runs, some thread is not waiting and has not exited; and once \<open>destroy_tpool\<close> has broadcast,
  no thread waits, and when every thread has been scheduled twice more all have exited, so that the
  joins return.
\<close>

theorem tpool_progress:
  assumes "create_tpool calls n = Some p0" and "p = run_ops tp_step xs p0"
  shows "(tp_queue p \<noteq> [] \<and> \<not> tp_shutdown p \<and> tp_threads p \<noteq> [] \<longrightarrow>
           (\<exists>i<length (tp_threads p). \<not> is_waiting (tp_threads p ! i) \<and> \<not> is_exited (tp_threads p ! i)))
    \<and> (tp_broadcast p \<longrightarrow>
         list_all is_exited (tp_threads (run_ops tp_step
           (concat (map (\<lambda>i. [Act i, Act i]) [0..<length (tp_threads p)])) p)))"
proof -
  have inv: "tp_inv p" using tpool.inv_run create_tpool_inv [OF assms(1)] assms(2) by blast
  have "\<exists>i<length (tp_threads p). \<not> is_waiting (tp_threads p ! i) \<and> \<not> is_exited (tp_threads p ! i)"
    if "tp_queue p \<noteq> []" "\<not> tp_shutdown p" "tp_threads p \<noteq> []"
    using inv that by (auto simp: tp_inv_def list_all_length)
  moreover have "list_all is_exited (tp_threads (run_ops tp_step
           (concat (map (\<lambda>i. [Act i, Act i]) [0..<length (tp_threads p)])) p))" if "tp_broadcast p"
    using acts_exit [of p "length (tp_threads p)"] inv that by (auto simp: tp_inv_def Let_def)
  ultimately show ?thesis by blast
qed

theorem tpool_progress_witness:
  "list_all is_exited (tp_threads (run_ops tp_step [Act 0, Act 0, Act 1, Act 1]
     (run_ops tp_step [Act 0, Act 1, Shutdown, Broadcast] pool2)))"
proof -
  let ?p = "run_ops tp_step [Act 0, Act 1, Shutdown, Broadcast] pool2"
  have "tp_broadcast ?p" "length (tp_threads ?p) = 2"
    by (simp_all add: tp_step_def worker_locked_def set_shutdown_def cond_broadcast_def pool2_def)
  then show ?thesis using tpool_progress [OF create_pool2 refl, of "[Act 0, Act 1, Shutdown, Broadcast]"]
    by (simp add: numeral_2_eq_2)
qed

end
