(* ===== verification/Chat_Server.thy ===== *)
theory Chat_Server
  imports Prelude
begin

text \<open>
  The chat server \<open>high_perf_linux_server_prog/code/io_multiplex/demo/chat/server.cpp\<close>: the loop over \<open>poll\<close>
  that accepts clients, reads a message of one and hands it to the others. What the kernel answers in
  a round is an argument: the events \<open>poll\<close> reports, the descriptor \<open>accept\<close> returns and the outcome of
  \<open>recv\<close> on each descriptor. Bytes sent and descriptors closed are recorded in order. Sets of flags
  stand for the bit masks, and a message is not copied: \<open>write_buf\<close> points into the entry of the sender,
  as in the code.
\<close>

section \<open>Data\<close>

definition USER_LIMIT :: int where "USER_LIMIT = 5"

definition BUFFER_SIZE :: nat where "BUFFER_SIZE = 64"

definition FD_LIMIT :: int where "FD_LIMIT = 65535"

datatype pflag = POLLIN | POLLOUT | POLLERR | POLLRDHUP

record pollfd =
  pfd :: int
  events :: "pflag set"
  revents :: "pflag set"

text \<open>A pointer that is null, points to the \<open>buf\<close> of an entry of \<open>users\<close>, or was never set.\<close>

datatype bufptr = Null | Buf int | Junk

text \<open>The contents of a \<open>buf\<close> that was never written since \<open>new\<close> are indeterminate: \<open>None\<close>.\<close>

record client_data =
  write_buf :: bufptr
  buf :: "byte list option"

record chat =
  fds :: "pollfd list"
  user_counter :: int
  users :: "int \<Rightarrow> client_data"
  closed :: "int list"
  sent :: "(int \<times> byte list) list"

datatype chat_recv = Again | Failed | Bytes "byte list"

record poll_round =
  poll_ok :: bool
  r_events :: "nat \<Rightarrow> pflag set"
  r_accept :: int
  r_recv :: "int \<Rightarrow> chat_recv"

section \<open>Set-up\<close>

text \<open>\<open>users\<close> comes from \<open>new\<close> without an initialiser: nothing is known of its entries.\<close>

definition new_client_data :: client_data where
  "new_client_data = \<lparr>write_buf = Junk, buf = None\<rparr>"

definition chat_start :: "int \<Rightarrow> chat" where
  "chat_start listenfd =
     \<lparr>fds = \<lparr>pfd = listenfd, events = {POLLIN, POLLERR}, revents = {}\<rparr>
              # replicate (nat USER_LIMIT) \<lparr>pfd = - 1, events = {}, revents = {}\<rparr>,
      user_counter = 0, users = (\<lambda>_. new_client_data), closed = [], sent = []\<rparr>"

section \<open>The branches of the loop\<close>

definition in_users :: "int \<Rightarrow> bool" where
  "in_users fd = (0 \<le> fd \<and> fd < FD_LIMIT)"

definition in_fds :: "int \<Rightarrow> chat \<Rightarrow> bool" where
  "in_fds k s = (0 \<le> k \<and> k < int (length (fds s)))"

definition too_many :: "byte list" where
  "too_many = map (\<lambda>c. word_of_nat (of_char c)) (''too many users'' @ [CHR 0x0A])"

definition on_accept :: "poll_round \<Rightarrow> chat \<Rightarrow> fault + chat" where
  "on_accept r s =
     (let connfd = r_accept r; n = user_counter s + 1
      in if connfd < 0 then Inr s
         else if user_counter s \<ge> USER_LIMIT
         then Inr (s\<lparr>sent := sent s @ [(connfd, too_many)], closed := closed s @ [connfd]\<rparr>)
         else if \<not> in_users connfd \<or> \<not> in_fds n s then Inl OutOfBounds
         else Inr (s\<lparr>user_counter := n,
                fds := (fds s)[nat n := \<lparr>pfd = connfd, events = {POLLIN, POLLRDHUP, POLLERR}, revents = {}\<rparr>]\<rparr>))"

text \<open>The entry \<open>i\<close> leaves: the last entry takes its place, and its slot of \<open>users\<close> is overwritten.\<close>

definition remove_entry :: "nat \<Rightarrow> chat \<Rightarrow> fault + chat" where
  "remove_entry i s =
     (if \<not> in_fds (user_counter s) s then Inl OutOfBounds
      else let leaving = pfd (fds s ! i); final = fds s ! nat (user_counter s)
           in if \<not> in_users leaving \<or> \<not> in_users (pfd final) then Inl OutOfBounds
              else Inr (s\<lparr>users := (users s)(leaving := users s (pfd final)), closed := closed s @ [leaving],
                     fds := (fds s)[i := final], user_counter := user_counter s - 1\<rparr>))"

definition mark_one :: "int \<Rightarrow> nat \<Rightarrow> chat \<Rightarrow> fault + chat" where
  "mark_one connfd j s =
     (if \<not> in_fds (int j) s then Inl OutOfBounds
      else let p = fds s ! j
           in if pfd p = connfd then Inr s
              else if \<not> in_users (pfd p) then Inl OutOfBounds
              else Inr (s\<lparr>fds := (fds s)[j := p\<lparr>events := insert POLLOUT (events p - {POLLIN})\<rparr>],
                     users := (users s)(pfd p := (users s (pfd p))\<lparr>write_buf := Buf connfd\<rparr>)\<rparr>))"

fun mark_loop :: "int \<Rightarrow> nat list \<Rightarrow> chat \<Rightarrow> fault + chat" where
  "mark_loop connfd [] s = Inr s"
| "mark_loop connfd (j # js) s = bindE (mark_one connfd j s) (mark_loop connfd js)"

definition set_buf :: "int \<Rightarrow> byte list \<Rightarrow> chat \<Rightarrow> chat" where
  "set_buf fd bs s = s\<lparr>users := (users s)(fd := (users s fd)\<lparr>buf := Some (bs @ replicate (BUFFER_SIZE - length bs) 0)\<rparr>)\<rparr>"

text \<open>The flag of the result says that the entry was removed, so that the loop stays at its index.\<close>

definition on_pollin :: "poll_round \<Rightarrow> nat \<Rightarrow> chat \<Rightarrow> fault + bool \<times> chat" where
  "on_pollin r i s =
     (let connfd = pfd (fds s ! i)
      in if \<not> in_users connfd then Inl OutOfBounds
         else case r_recv r connfd of
                Again \<Rightarrow> Inr (False, set_buf connfd [] s)
              | Failed \<Rightarrow> bindE (remove_entry i (set_buf connfd [] s)) (\<lambda>s. Inr (True, s))
              | Bytes bs \<Rightarrow>
                  let got = take (BUFFER_SIZE - 1) bs; s = set_buf connfd got s
                  in if got = [] then Inr (False, s)
                     else bindE (mark_loop connfd [1..<Suc (nat (user_counter s))] s) (\<lambda>s. Inr (False, s)))"

definition want_read :: "nat \<Rightarrow> chat \<Rightarrow> chat" where
  "want_read i s = s\<lparr>fds := (fds s)[i := (fds s ! i)\<lparr>events := insert POLLIN (events (fds s ! i) - {POLLOUT})\<rparr>]\<rparr>"

definition on_pollout :: "nat \<Rightarrow> chat \<Rightarrow> fault + chat" where
  "on_pollout i s =
     (let connfd = pfd (fds s ! i)
      in if \<not> in_users connfd then Inl OutOfBounds
         else case write_buf (users s connfd) of
                Null \<Rightarrow> Inr (want_read i s)
              | Junk \<Rightarrow> Inl OutOfBounds
              | Buf b \<Rightarrow>
                  (case buf (users s b) of
                     None \<Rightarrow> Inl Uninitialised
                   | Some bs \<Rightarrow>
                       if 0 \<notin> set bs then Inl OutOfBounds
                       else Inr (want_read i (s\<lparr>sent := sent s @ [(connfd, takeWhile (\<lambda>c. c \<noteq> 0) bs)],
                              users := (users s)(connfd := (users s connfd)\<lparr>write_buf := Null\<rparr>)\<rparr>))))"

section \<open>The loop\<close>

definition handle_entry :: "int \<Rightarrow> poll_round \<Rightarrow> nat \<Rightarrow> chat \<Rightarrow> fault + bool \<times> chat" where
  "handle_entry listenfd r i s =
     (if \<not> in_fds (int i) s then Inl OutOfBounds
      else let p = fds s ! i
           in if pfd p = listenfd \<and> POLLIN \<in> revents p then bindE (on_accept r s) (\<lambda>s. Inr (False, s))
              else if POLLERR \<in> revents p then Inr (False, s)
              else if POLLRDHUP \<in> revents p then bindE (remove_entry i s) (\<lambda>s. Inr (True, s))
              else if POLLIN \<in> revents p then on_pollin r i s
              else if POLLOUT \<in> revents p then bindE (on_pollout i s) (\<lambda>s. Inr (False, s))
              else Inr (False, s))"

lemma remove_entry_size: "remove_entry i s = Inr s' \<Longrightarrow> length (fds s') = length (fds s) \<and> user_counter s' = user_counter s - 1"
  by (auto simp: remove_entry_def Let_def split: if_splits)

lemma mark_loop_size: "mark_loop c js s = Inr s' \<Longrightarrow> length (fds s') = length (fds s) \<and> user_counter s' = user_counter s"
proof (induction js arbitrary: s)
  case (Cons j js)
  then obtain t where "mark_one c j s = Inr t" "mark_loop c js t = Inr s'" by (cases "mark_one c j s") auto
  moreover from this(1) have "length (fds t) = length (fds s) \<and> user_counter t = user_counter s"
    by (auto simp: mark_one_def Let_def split: if_splits)
  ultimately show ?case using Cons.IH by simp
qed simp

lemma handle_entry_size:
  assumes "handle_entry l r i s = Inr (gone, s')"
  shows "i < length (fds s) \<and> length (fds s') = length (fds s) \<and> (gone \<longrightarrow> user_counter s' = user_counter s - 1)"
proof -
  have "i < length (fds s)" using assms by (auto simp: handle_entry_def in_fds_def split: if_splits)
  moreover have "length (fds s') = length (fds s) \<and> (gone \<longrightarrow> user_counter s' = user_counter s - 1)"
    using assms
    by (auto simp: handle_entry_def Let_def on_accept_def on_pollin_def on_pollout_def want_read_def set_buf_def bindE_eq_Inr
        split: if_splits chat_recv.splits bufptr.splits option.splits dest!: remove_entry_size mark_loop_size)
  ultimately show ?thesis by simp
qed

function chat_loop :: "int \<Rightarrow> poll_round \<Rightarrow> nat \<Rightarrow> chat \<Rightarrow> fault + chat" where
  "chat_loop listenfd r i s =
     (if int i < user_counter s + 1
      then (case handle_entry listenfd r i s of
              Inl e \<Rightarrow> Inl e
            | Inr (gone, s') \<Rightarrow> chat_loop listenfd r (if gone then i else Suc i) s')
      else Inr s)"
  by auto
termination
  by (relation "measures [\<lambda>(l, r, i, s). length (fds s) - i, \<lambda>(l, r, i, s). nat (user_counter s + 1)]")
    (auto dest!: handle_entry_size)

declare chat_loop.simps [simp del]

text \<open>A round: \<open>poll\<close> fills in the first \<open>user_counter + 1\<close> entries, then the loop goes over them.\<close>

definition poll_fds :: "poll_round \<Rightarrow> chat \<Rightarrow> chat" where
  "poll_fds r s = s\<lparr>fds := map (\<lambda>(i, p). if int i < user_counter s + 1 then p\<lparr>revents := r_events r i\<rparr> else p)
                       (enumerate 0 (fds s))\<rparr>"

definition chat_round :: "int \<Rightarrow> poll_round \<Rightarrow> chat \<Rightarrow> fault + chat" where
  "chat_round listenfd r s = chat_loop listenfd r 0 (poll_fds r s)"

fun chat_main :: "int \<Rightarrow> poll_round list \<Rightarrow> chat \<Rightarrow> fault + chat" where
  "chat_main listenfd [] s = Inr s"
| "chat_main listenfd (r # rs) s =
     (if \<not> poll_ok r then Inr s else bindE (chat_round listenfd r s) (chat_main listenfd rs))"

section \<open>Invariant\<close>

text \<open>
  Entry 0 is the listening socket; the entries up to \<open>user_counter\<close> are the clients, each once, and a client
  that waits for output has something to be sent. Every buffer that was written ends in a null byte.
\<close>

abbreviation client :: "chat \<Rightarrow> nat \<Rightarrow> int" where
  "client s k \<equiv> pfd (fds s ! k)"

abbreviation clients :: "chat \<Rightarrow> nat" where
  "clients s \<equiv> nat (user_counter s)"

definition table_ok :: "int \<Rightarrow> chat \<Rightarrow> bool" where
  "table_ok l s \<longleftrightarrow> length (fds s) = 6 \<and> 0 \<le> user_counter s \<and> user_counter s \<le> USER_LIMIT
     \<and> client s 0 = l \<and> events (fds s ! 0) = {POLLIN, POLLERR}
     \<and> inj_on (client s) {1..clients s} \<and> (\<forall>k\<in>{1..clients s}. in_users (client s k) \<and> client s k \<noteq> l)"

definition buffers_ok :: "(pollfd \<Rightarrow> pflag set) \<Rightarrow> chat \<Rightarrow> bool" where
  "buffers_ok ev s \<longleftrightarrow> (\<forall>fd bs. buf (users s fd) = Some bs \<longrightarrow> 0 \<in> set bs)
     \<and> (\<forall>k\<in>{1..clients s}. POLLOUT \<in> ev (fds s ! k) \<longrightarrow> write_buf (users s (client s k)) \<noteq> Junk)"

text \<open>
  As long as nobody has left, every message that waits lies in a buffer that was written; \<open>lv\<close> says
  that somebody may have left.
\<close>

definition sources_ok :: "bool \<Rightarrow> chat \<Rightarrow> bool" where
  "sources_ok lv s \<longleftrightarrow> lv \<or> (\<forall>fd b. write_buf (users s fd) = Buf b \<longrightarrow> buf (users s b) \<noteq> None)"

definition chat_inv :: "bool \<Rightarrow> int \<Rightarrow> chat \<Rightarrow> bool" where
  "chat_inv lv l s \<longleftrightarrow> table_ok l s \<and> buffers_ok events s \<and> sources_ok lv s"

text \<open>During the loop the reported events matter too.\<close>

definition loop_inv :: "bool \<Rightarrow> int \<Rightarrow> chat \<Rightarrow> bool" where
  "loop_inv lv l s \<longleftrightarrow> table_ok l s \<and> buffers_ok (\<lambda>p. events p \<union> revents p) s \<and> revents (fds s ! 0) \<subseteq> {POLLIN, POLLERR}
     \<and> sources_ok lv s \<and> (lv \<or> (\<forall>k\<in>{1..clients s}. POLLRDHUP \<notin> revents (fds s ! k)))"

text \<open>
  What \<open>poll\<close> and \<open>accept\<close> promise: only events that were asked for and errors are reported, and a new
  descriptor is the lowest one that is not open. Open are those the process was started with (\<open>inh\<close>), the
  listening socket and the clients in the table.
\<close>

definition chat_open :: "int set \<Rightarrow> int \<Rightarrow> chat \<Rightarrow> int set" where
  "chat_open inh l s = inh \<union> {l} \<union> client s ` {1..clients s}"

definition lowest_fd :: "int set \<Rightarrow> int \<Rightarrow> poll_round \<Rightarrow> chat \<Rightarrow> bool" where
  "lowest_fd inh l r s \<longleftrightarrow> r_accept r < 0
     \<or> r_accept r \<notin> chat_open inh l s \<and> {0..<r_accept r} \<subseteq> chat_open inh l s"

definition sane_round :: "int set \<Rightarrow> int \<Rightarrow> poll_round \<Rightarrow> chat \<Rightarrow> bool" where
  "sane_round inh l r s \<longleftrightarrow> lowest_fd inh l r s
     \<and> list_all (\<lambda>i. r_events r i \<subseteq> insert POLLERR (events (fds s ! i))) [0..<Suc (clients s)]"

text \<open>The process was not started with tens of thousands of descriptors open.\<close>

definition few_fds :: "int set \<Rightarrow> bool" where
  "few_fds inh \<longleftrightarrow> finite inh \<and> int (card inh) + 6 < FD_LIMIT"

text \<open>Somebody hangs up, or reading from somebody fails.\<close>

definition someone_leaves :: "poll_round \<Rightarrow> bool" where
  "someone_leaves r \<longleftrightarrow> (\<exists>i. POLLRDHUP \<in> r_events r i) \<or> (\<exists>fd. r_recv r fd = Failed)"

definition fresh_fd :: "int \<Rightarrow> poll_round \<Rightarrow> chat \<Rightarrow> bool" where
  "fresh_fd l r s \<longleftrightarrow> r_accept r < 0
     \<or> in_users (r_accept r) \<and> r_accept r \<noteq> l \<and> r_accept r \<notin> client s ` {1..clients s}"

text \<open>With so few descriptors open, the lowest free one is an index of \<open>users\<close>.\<close>

lemma lowest_fresh:
  assumes "few_fds inh" and "clients s \<le> 5" and "lowest_fd inh l r s"
  shows "fresh_fd l r s"
proof (cases "r_accept r < 0")
  case False
  let ?C = "client s ` {1..clients s}"
  have a: "r_accept r \<notin> chat_open inh l s" "{0..<r_accept r} \<subseteq> chat_open inh l s"
    using assms(3) False by (auto simp: lowest_fd_def)
  have fin: "finite inh" using assms(1) by (simp add: few_fds_def)
  then have "finite (chat_open inh l s)" by (simp add: chat_open_def)
  from card_mono [OF this a(2)] have "nat (r_accept r) \<le> card (chat_open inh l s)" by simp
  also have "\<dots> \<le> card (inh \<union> {l}) + card ?C" unfolding chat_open_def by (rule card_Un_le)
  also have "\<dots> \<le> card inh + 1 + 5"
    using card_Un_le [of inh "{l}"] card_image_le [of "{1..clients s}" "client s"] assms(2) by simp
  finally have "r_accept r < FD_LIMIT" using assms(1) unfolding few_fds_def by linarith
  then show ?thesis using False a(1) by (auto simp: fresh_fd_def in_users_def chat_open_def)
qed (simp add: fresh_fd_def)

lemma table_okD:
  assumes "table_ok l s"
  shows "length (fds s) = 6" "user_counter s = int (clients s)" "clients s \<le> 5" "client s 0 = l"
    "inj_on (client s) {1..clients s}" "k \<in> {1..clients s} \<Longrightarrow> in_users (client s k) \<and> client s k \<noteq> l \<and> k < length (fds s)"
  using assms by (auto simp: table_ok_def USER_LIMIT_def)

text \<open>An operation that leaves the descriptors and events of the entries alone keeps the table.\<close>

lemma table_ok_same:
  assumes "table_ok l s" and "length (fds s') = length (fds s)" and "user_counter s' = user_counter s"
    and "\<And>k. k \<le> clients s \<Longrightarrow> client s' k = client s k" and "events (fds s' ! 0) = events (fds s ! 0)"
  shows "table_ok l s'"
  using assms by (simp add: table_ok_def inj_on_def)

lemma accept_inv:
  assumes "loop_inv lv l s" and "fresh_fd l r s"
  shows "\<exists>s'. on_accept r s = Inr s' \<and> loop_inv lv l s'"
proof (cases "r_accept r < 0 \<or> USER_LIMIT \<le> user_counter s")
  case True
  then consider "r_accept r < 0" | "\<not> r_accept r < 0" "USER_LIMIT \<le> user_counter s" by auto
  then show ?thesis
  proof cases
    case 1
    then show ?thesis using assms(1) by (simp add: on_accept_def)
  next
    case 2
    define s' where "s' = s\<lparr>sent := sent s @ [(r_accept r, too_many)], closed := closed s @ [r_accept r]\<rparr>"
    have "on_accept r s = Inr s'" using 2 by (simp add: on_accept_def Let_def s'_def)
    moreover have "loop_inv lv l s'" using assms(1) by (simp add: s'_def loop_inv_def table_ok_def buffers_ok_def sources_ok_def)
    ultimately show ?thesis by blast
  qed
next
  case False
  let ?n = "clients s"
  have ok: "table_ok l s" using assms(1) by (simp add: loop_inv_def)
  note t = table_okD [OF ok]
  have "0 \<le> user_counter s" using ok by (simp add: table_ok_def)
  then have n: "?n < 5" "nat (user_counter s + 1) = Suc ?n" using False by (auto simp: USER_LIMIT_def nat_add_distrib nat_less_iff)
  have r: "in_users (r_accept r)" "r_accept r \<noteq> l" "r_accept r \<notin> client s ` {1..?n}"
    using assms(2) False by (auto simp: fresh_fd_def)
  define s' where "s' = s\<lparr>user_counter := user_counter s + 1,
      fds := (fds s)[Suc ?n := \<lparr>pfd = r_accept r, events = {POLLIN, POLLRDHUP, POLLERR}, revents = {}\<rparr>]\<rparr>"
  have eq: "on_accept r s = Inr s'" using False r n t by (simp add: on_accept_def Let_def in_fds_def s'_def)
  have at: "fds s' ! k = (if k = Suc ?n then \<lparr>pfd = r_accept r, events = {POLLIN, POLLRDHUP, POLLERR}, revents = {}\<rparr>
      else fds s ! k)" for k using n t by (simp add: s'_def nth_list_update)
  have c: "clients s' = Suc ?n" using n by (simp add: s'_def)
  have set: "{1..Suc ?n} = insert (Suc ?n) {1..?n}" by auto
  have "table_ok l s'" unfolding table_ok_def c set
    using ok r n t(2) by (auto simp: at table_ok_def s'_def USER_LIMIT_def inj_on_def image_iff)
  moreover have "users s' = users s" by (simp add: s'_def)
  then have "buffers_ok (\<lambda>p. events p \<union> revents p) s'" unfolding buffers_ok_def c set
    using assms(1) by (auto simp: at loop_inv_def buffers_ok_def)
  moreover have "lv \<or> (\<forall>k\<in>{1..clients s'}. POLLRDHUP \<notin> revents (fds s' ! k))" unfolding c set
    using assms(1) by (auto simp: at loop_inv_def)
  ultimately show ?thesis using assms(1) eq \<open>users s' = users s\<close> by (auto simp: loop_inv_def at sources_ok_def)
qed

lemma set_buf_inv: "loop_inv lv l s \<Longrightarrow> length bs < BUFFER_SIZE \<Longrightarrow> loop_inv lv l (set_buf fd bs s)"
  by (auto simp: set_buf_def loop_inv_def table_ok_def buffers_ok_def sources_ok_def)

lemma remove_inv:
  assumes "loop_inv True l s" and "i \<in> {1..clients s}"
  shows "\<exists>s'. remove_entry i s = Inr s' \<and> loop_inv True l s'"
proof -
  let ?n = "clients s"
  have ok: "table_ok l s" using assms(1) by (simp add: loop_inv_def)
  note t = table_okD [OF ok]
  have i: "1 \<le> i" "i \<le> ?n" "i < length (fds s)" "in_users (client s i)" "in_users (client s ?n)"
    using assms(2) t(6) [of i] t(6) [of ?n] by auto
  define s' where "s' = s\<lparr>users := (users s)(client s i := users s (client s ?n)), closed := closed s @ [client s i],
                     fds := (fds s)[i := fds s ! ?n], user_counter := user_counter s - 1\<rparr>"
  have "in_fds (user_counter s) s" using t(1,2,3) unfolding in_fds_def by linarith
  then have eq: "remove_entry i s = Inr s'" using i by (simp add: remove_entry_def Let_def s'_def)
  define g where "g k = (if k = i then ?n else k)" for k
  have at: "fds s' ! k = fds s ! g k" for k using i by (simp add: s'_def g_def nth_list_update)
  have g: "g k \<in> {1..?n} \<and> g k \<noteq> i" if "k \<in> {1..?n - 1}" for k using i that by (auto simp: g_def)
  have us: "users s' (client s (g k)) = users s (client s (g k))" if "k \<in> {1..?n - 1}" for k
  proof -
    have "client s (g k) \<noteq> client s i" using g [OF that] t(5) assms(2) by (auto simp: inj_on_def)
    then show ?thesis by (simp add: s'_def)
  qed
  have "inj_on g {1..?n - 1}" by (auto simp: inj_on_def g_def)
  moreover have "inj_on (client s) (g ` {1..?n - 1})" using t(5) g by (blast intro: inj_on_subset)
  ultimately have "inj_on (client s \<circ> g) {1..?n - 1}" by (rule comp_inj_on)
  then have inj: "inj_on (client s') {1..?n - 1}" by (simp add: inj_on_def at)
  have c: "clients s' = ?n - 1" "0 \<le> user_counter s'" "user_counter s' \<le> USER_LIMIT"
    using i t(2,3) by (auto simp: s'_def USER_LIMIT_def)
  have "table_ok l s'" unfolding table_ok_def c(1) using inj c(2,3) ok t g i
    by (auto simp: at) (simp_all add: table_ok_def g_def s'_def)
  moreover have "0 \<in> set bs" if "buf (users s' fd) = Some bs" for fd bs
    using assms(1) that by (auto simp: s'_def loop_inv_def buffers_ok_def split: if_splits)
  then have "buffers_ok (\<lambda>p. events p \<union> revents p) s'" unfolding buffers_ok_def c(1)
    using assms(1) us g by (auto simp: at loop_inv_def buffers_ok_def)
  moreover have "fds s' ! 0 = fds s ! 0" using i by (simp add: at g_def)
  ultimately show ?thesis using assms(1) eq by (auto simp: loop_inv_def sources_ok_def)
qed

lemma mark_one_inv:
  assumes "loop_inv lv l s" and "j \<in> {1..clients s}" and "buf (users s c) \<noteq> None"
  shows "\<exists>s'. mark_one c j s = Inr s' \<and> loop_inv lv l s' \<and> user_counter s' = user_counter s \<and> buf (users s' c) \<noteq> None"
proof -
  have ok: "table_ok l s" using assms(1) by (simp add: loop_inv_def)
  have j: "in_fds (int j) s" "in_users (client s j)" "j < length (fds s)" "0 < j"
    using table_okD(6) [OF ok assms(2)] assms(2) by (auto simp: in_fds_def)
  show ?thesis
  proof (cases "client s j = c")
    case True
    then show ?thesis using assms(1,3) j by (simp add: mark_one_def)
  next
    case False
    define s' where "s' = s\<lparr>fds := (fds s)[j := (fds s ! j)\<lparr>events := insert POLLOUT (events (fds s ! j) - {POLLIN})\<rparr>],
                     users := (users s)(client s j := (users s (client s j))\<lparr>write_buf := Buf c\<rparr>)\<rparr>"
    have eq: "mark_one c j s = Inr s'" using j False by (simp add: mark_one_def Let_def s'_def)
    have same: "client s' k = client s k" "revents (fds s' ! k) = revents (fds s ! k)"
      "k \<noteq> j \<Longrightarrow> fds s' ! k = fds s ! k" "user_counter s' = user_counter s" "length (fds s') = length (fds s)" for k
      using j by (simp_all add: s'_def nth_list_update)
    have "table_ok l s'" using ok by (rule table_ok_same) (simp_all add: same j)
    moreover have "buffers_ok (\<lambda>p. events p \<union> revents p) s'"
      unfolding buffers_ok_def same(4)
    proof (intro conjI ballI allI impI)
      fix fd bs assume "buf (users s' fd) = Some bs"
      then have "buf (users s fd) = Some bs" by (auto simp: s'_def split: if_splits)
      then show "0 \<in> set bs" using assms(1) by (auto simp: loop_inv_def buffers_ok_def)
    next
      fix k assume k: "k \<in> {1..clients s}" "POLLOUT \<in> events (fds s' ! k) \<union> revents (fds s' ! k)"
      show "write_buf (users s' (client s' k)) \<noteq> Junk"
      proof (cases "client s k = client s j")
        case True
        then show ?thesis unfolding same(1) by (simp add: s'_def)
      next
        case False
        then have "k \<noteq> j" by auto
        then show ?thesis using assms(1) k False unfolding same(1)
          by (simp add: same(3)) (auto simp: s'_def loop_inv_def buffers_ok_def)
      qed
    qed
    moreover have "sources_ok lv s'" "buf (users s' c) \<noteq> None"
      using assms(1,3) by (auto simp: loop_inv_def sources_ok_def s'_def)
    ultimately show ?thesis using assms(1) eq j same by (simp add: loop_inv_def)
  qed
qed

lemma mark_loop_inv:
  assumes "loop_inv lv l s" and "set js \<subseteq> {1..clients s}" and "buf (users s c) \<noteq> None"
  shows "\<exists>s'. mark_loop c js s = Inr s' \<and> loop_inv lv l s'"
  using assms
proof (induction js arbitrary: s)
  case (Cons j js)
  then obtain t where "mark_one c j s = Inr t" "loop_inv lv l t" "user_counter t = user_counter s" "buf (users t c) \<noteq> None"
    using mark_one_inv [of lv l s j c] by auto
  with Cons show ?case by auto
qed simp

lemma pollin_inv:
  assumes "loop_inv lv l s" and "i \<in> {1..clients s}" and "someone_leaves r \<Longrightarrow> lv"
  shows "\<exists>gone s'. on_pollin r i s = Inr (gone, s') \<and> loop_inv lv l s'"
proof -
  let ?c = "client s i"
  have u: "in_users ?c" using assms table_okD(6) by (auto simp: loop_inv_def)
  have e: "loop_inv lv l (set_buf ?c [] s)" using set_buf_inv [OF assms(1), of "[]"] by (simp add: BUFFER_SIZE_def)
  show ?thesis
  proof (cases "r_recv r ?c")
    case Again
    then have "on_pollin r i s = Inr (False, set_buf ?c [] s)" using u by (simp add: on_pollin_def)
    then show ?thesis using e by blast
  next
    case Failed
    then have lv: lv using assms(3) by (auto simp: someone_leaves_def)
    have "i \<in> {1..clients (set_buf ?c [] s)}" using assms(2) by (simp add: set_buf_def)
    then obtain t where "remove_entry i (set_buf ?c [] s) = Inr t" "loop_inv lv l t" using remove_inv [of l] e lv by auto
    then have "on_pollin r i s = Inr (True, t)" using Failed u by (simp add: on_pollin_def)
    then show ?thesis using \<open>loop_inv lv l t\<close> by blast
  next
    case (Bytes bs)
    let ?t = "set_buf ?c (take (BUFFER_SIZE - 1) bs) s"
    have t: "loop_inv lv l ?t" using set_buf_inv [OF assms(1), of "take (BUFFER_SIZE - 1) bs"] by (simp add: BUFFER_SIZE_def)
    have "set [1..<Suc (clients ?t)] \<subseteq> {1..clients ?t}" "buf (users ?t ?c) \<noteq> None" by (auto simp: set_buf_def)
    from mark_loop_inv [OF t this] obtain v
      where v: "mark_loop ?c [1..<Suc (clients ?t)] ?t = Inr v" "loop_inv lv l v" by blast
    have "on_pollin r i s = (if take (BUFFER_SIZE - 1) bs = [] then Inr (False, ?t) else Inr (False, v))"
      using Bytes u v(1) by (simp add: on_pollin_def Let_def del: upt_Suc)
    then show ?thesis using t v(2) by (cases "take (BUFFER_SIZE - 1) bs = []") auto
  qed
qed


lemma pollout_inv:
  assumes "loop_inv lv l s" and "i \<in> {1..clients s}" and "POLLOUT \<in> revents (fds s ! i)"
  shows "(\<exists>s'. on_pollout i s = Inr s' \<and> loop_inv lv l s') \<or> lv \<and> on_pollout i s = Inl Uninitialised"
proof -
  let ?c = "client s i"
  have ok: "table_ok l s" using assms(1) by (simp add: loop_inv_def)
  have i: "in_users ?c" "i < length (fds s)" "0 < i" using table_okD(6) [OF ok assms(2)] assms(2) by auto
  have nj: "write_buf (users s ?c) \<noteq> Junk" using assms by (auto simp: loop_inv_def buffers_ok_def)
  have want: "loop_inv lv l (want_read i t)"
    if "loop_inv lv l t" "fds t = fds s" "user_counter t = user_counter s" "write_buf (users t ?c) \<noteq> Junk" for t
  proof -
    let ?t = "want_read i t"
    have same: "client ?t k = client t k" "revents (fds ?t ! k) = revents (fds t ! k)"
      "k \<noteq> i \<Longrightarrow> fds ?t ! k = fds t ! k" "user_counter ?t = user_counter t" "users ?t = users t" for k
      using i that(2) by (simp_all add: want_read_def nth_list_update)
    have "table_ok l t" using that(1) by (simp add: loop_inv_def)
    then have "table_ok l ?t" by (rule table_ok_same) (simp_all add: want_read_def i nth_list_update that(2))
    moreover have "write_buf (users t (client t k)) \<noteq> Junk"
      if "k \<in> {1..clients t}" "POLLOUT \<in> events (fds ?t ! k) \<union> revents (fds t ! k)" for k
    proof (cases "k = i")
      case True
      then show ?thesis using \<open>fds t = fds s\<close> \<open>write_buf (users t ?c) \<noteq> Junk\<close> by simp
    next
      case False
      then show ?thesis using that \<open>loop_inv lv l t\<close> by (auto simp: same(3) loop_inv_def buffers_ok_def)
    qed
    ultimately show ?thesis using that(1) i unfolding loop_inv_def buffers_ok_def sources_ok_def same(1,2,4,5) by simp
  qed
  show ?thesis
  proof (cases "write_buf (users s ?c)")
    case Null
    then show ?thesis using want [OF assms(1)] i by (simp add: on_pollout_def)
  next
    case (Buf b)
    show ?thesis
    proof (cases "buf (users s b)")
      case None
      then have lv using assms(1) Buf unfolding loop_inv_def sources_ok_def by blast
      then show ?thesis using Buf None i by (simp add: on_pollout_def)
    next
      case (Some bs)
      define t where "t = s\<lparr>sent := sent s @ [(?c, takeWhile (\<lambda>c. c \<noteq> 0) bs)],
                         users := (users s)(?c := (users s ?c)\<lparr>write_buf := Null\<rparr>)\<rparr>"
      have "loop_inv lv l t" using assms(1) by (auto simp: t_def loop_inv_def table_ok_def buffers_ok_def sources_ok_def)
      then have "loop_inv lv l (want_read i t)" using want [of t] by (simp add: t_def)
      moreover have "on_pollout i s = Inr (want_read i t)"
        using Buf Some i assms(1) by (simp add: on_pollout_def Let_def t_def loop_inv_def buffers_ok_def)
      ultimately show ?thesis by blast
    qed
  next
    case Junk
    then show ?thesis using nj by simp
  qed
qed

lemma handle_entry_inv:
  assumes "loop_inv lv l s" and "i \<le> clients s" and "i = 0 \<Longrightarrow> fresh_fd l r s" and "someone_leaves r \<Longrightarrow> lv"
  shows "(\<exists>gone s'. handle_entry l r i s = Inr (gone, s') \<and> loop_inv lv l s' \<and> (i = 0 \<longrightarrow> \<not> gone))
    \<or> lv \<and> handle_entry l r i s = Inl Uninitialised"
proof -
  have ok: "table_ok l s" using assms(1) by (simp add: loop_inv_def)
  note t = table_okD [OF ok]
  have i: "in_fds (int i) s" using assms(2) t(1,3) by (simp add: in_fds_def)
  show ?thesis
  proof (cases "i = 0")
    case True
    moreover obtain s' where "on_accept r s = Inr s'" "loop_inv lv l s'" using accept_inv assms(1,3) True by blast
    ultimately show ?thesis using i assms(1) t(4) by (auto simp: handle_entry_def Let_def loop_inv_def)
  next
    case False
    then have k: "i \<in> {1..clients s}" using assms(2) by auto
    have nl: "client s i \<noteq> l" using t(6) [OF k] by simp
    obtain gone s2 where s2: "on_pollin r i s = Inr (gone, s2)" "loop_inv lv l s2" using pollin_inv [OF assms(1) k assms(4)] by blast
    consider "POLLERR \<in> revents (fds s ! i)" | "POLLERR \<notin> revents (fds s ! i)" "POLLRDHUP \<in> revents (fds s ! i)"
      | "POLLERR \<notin> revents (fds s ! i)" "POLLRDHUP \<notin> revents (fds s ! i)" "POLLIN \<in> revents (fds s ! i)"
      | "POLLERR \<notin> revents (fds s ! i)" "POLLRDHUP \<notin> revents (fds s ! i)" "POLLIN \<notin> revents (fds s ! i)" by blast
    then show ?thesis
    proof cases
      case 4
      show ?thesis
      proof (cases "POLLOUT \<in> revents (fds s ! i)")
        case True
        have h: "handle_entry l r i s = bindE (on_pollout i s) (\<lambda>s. Inr (False, s))"
          using 4 True i nl by (simp add: handle_entry_def)
        show ?thesis using pollout_inv [OF assms(1) k True] False by (auto simp: h)
      next
        case False
        then have "handle_entry l r i s = Inr (False, s)" using 4 i nl by (simp add: handle_entry_def)
        then show ?thesis using assms(1) by blast
      qed
    next
      case 1
      then have "handle_entry l r i s = Inr (False, s)" using i nl by (simp add: handle_entry_def)
      then show ?thesis using assms(1) by blast
    next
      case 2
      then have lv: lv using assms(1) k by (auto simp: loop_inv_def)
      then obtain s1 where s1: "remove_entry i s = Inr s1" "loop_inv lv l s1" using remove_inv [of l s i] assms(1) k by auto
      then have "handle_entry l r i s = Inr (True, s1)" using 2 i nl by (simp add: handle_entry_def)
      then show ?thesis using s1 False by blast
    next
      case 3
      then have "handle_entry l r i s = Inr (gone, s2)" using i nl s2 by (simp add: handle_entry_def)
      then show ?thesis using s2 False by blast
    qed
  qed
qed

lemma chat_loop_inv:
  assumes "loop_inv lv l s" and "i = 0 \<Longrightarrow> fresh_fd l r s" and "someone_leaves r \<Longrightarrow> lv"
  shows "(\<exists>s'. chat_loop l r i s = Inr s' \<and> loop_inv lv l s') \<or> lv \<and> chat_loop l r i s = Inl Uninitialised"
  using assms
proof (induction l r i s rule: chat_loop.induct)
  case (1 l r i s)
  show ?case
  proof (cases "int i < user_counter s + 1")
    case True
    then have "i \<le> clients s" by linarith
    from handle_entry_inv [OF "1.prems"(1) this "1.prems"(2,3)]
    consider gone s' where "handle_entry l r i s = Inr (gone, s')" "loop_inv lv l s'" "i = 0 \<longrightarrow> \<not> gone"
      | lv "handle_entry l r i s = Inl Uninitialised" by blast
    then show ?thesis
    proof cases
      case h: 1
      have "(if gone then i else Suc i) = 0 \<Longrightarrow> fresh_fd l r s'" using h(3) by (auto split: if_splits)
      from "1.IH" [OF True h(1) refl h(2) this "1.prems"(3)] show ?thesis
        using True h(1) by (simp add: chat_loop.simps [of l r i s])
    next
      case 2
      then show ?thesis using True by (simp add: chat_loop.simps [of l r i s])
    qed
  next
    case False
    then show ?thesis using "1.prems"(1) by (subst chat_loop.simps) simp
  qed
qed

lemma poll_fds_nth: "k < length (fds s) \<Longrightarrow>
    fds (poll_fds r s) ! k = (if int k < user_counter s + 1 then (fds s ! k)\<lparr>revents := r_events r k\<rparr> else fds s ! k)"
  by (simp add: poll_fds_def nth_enumerate_eq)

lemma poll_fds_inv:
  assumes "few_fds inh" and "chat_inv lv l s" and "sane_round inh l r s"
  shows "loop_inv (lv \<or> someone_leaves r) l (poll_fds r s)" and "fresh_fd l r (poll_fds r s)"
proof -
  have ok: "table_ok l s" using assms(2) by (simp add: chat_inv_def)
  note t = table_okD [OF ok]
  have at: "fds (poll_fds r s) ! k = (fds s ! k)\<lparr>revents := r_events r k\<rparr>" if "k \<le> clients s" for k
    using poll_fds_nth [of k s r] t(1,2,3) that by simp
  have same: "user_counter (poll_fds r s) = user_counter s" "users (poll_fds r s) = users s" "length (fds (poll_fds r s)) = length (fds s)"
    by (simp_all add: poll_fds_def)
  have "table_ok l (poll_fds r s)" using ok unfolding table_ok_def same by (simp add: at inj_on_def)
  moreover have ev: "r_events r k \<subseteq> insert POLLERR (events (fds s ! k))" if "k \<le> clients s" for k
    using assms(3) that by (auto simp add: sane_round_def list_all_iff simp del: upt_Suc)
  moreover from this [of 0] have "r_events r 0 \<subseteq> {POLLIN, POLLERR}" using ok by (auto simp: table_ok_def)
  moreover from ev have "buffers_ok (\<lambda>p. events p \<union> revents p) (poll_fds r s)"
    using assms(2) unfolding chat_inv_def buffers_ok_def same by (force simp: at)
  moreover have "sources_ok (lv \<or> someone_leaves r) (poll_fds r s)"
    using assms(2) by (auto simp: chat_inv_def sources_ok_def same)
  moreover have "lv \<or> someone_leaves r \<or> (\<forall>k\<in>{1..clients s}. POLLRDHUP \<notin> revents (fds (poll_fds r s) ! k))"
    by (auto simp: at someone_leaves_def)
  ultimately show "loop_inv (lv \<or> someone_leaves r) l (poll_fds r s)"
    unfolding loop_inv_def same by (simp add: at)
  show "fresh_fd l r (poll_fds r s)"
    using lowest_fresh [OF assms(1) t(3)] assms(3) unfolding fresh_fd_def sane_round_def same by (auto simp: at image_iff)
qed

text \<open>
  The states the server can get into, with a kernel that keeps its promises; the flag says whether somebody
  has left.
\<close>

inductive chat_reachable :: "int set \<Rightarrow> int \<Rightarrow> bool \<Rightarrow> chat \<Rightarrow> bool" for inh l where
  start: "chat_reachable inh l False (chat_start l)"
| round: "chat_reachable inh l lv s \<Longrightarrow> sane_round inh l r s \<Longrightarrow> chat_round l r s = Inr s' \<Longrightarrow>
    chat_reachable inh l (lv \<or> someone_leaves r) s'"

lemma chat_round_inv:
  assumes "few_fds inh" and "chat_inv lv l s" and "sane_round inh l r s"
  shows "(\<exists>s'. chat_round l r s = Inr s' \<and> chat_inv (lv \<or> someone_leaves r) l s')
    \<or> (lv \<or> someone_leaves r) \<and> chat_round l r s = Inl Uninitialised"
  using chat_loop_inv [OF poll_fds_inv(1) [OF assms] poll_fds_inv(2) [OF assms], of 0]
  by (auto simp: chat_round_def loop_inv_def chat_inv_def buffers_ok_def)

lemma chat_reachable_inv:
  assumes "few_fds inh" and "chat_reachable inh l lv s"
  shows "chat_inv lv l s"
  using assms(2)
proof (induction rule: chat_reachable.induct)
  case start
  then show ?case
    by (simp add: chat_start_def new_client_data_def chat_inv_def table_ok_def buffers_ok_def sources_ok_def USER_LIMIT_def)
next
  case (round lv s r s')
  then show ?case using chat_round_inv [OF assms(1) round.IH round.hyps(2)] by auto
qed

text \<open>
  C7: Along every sequence of rounds, whatever the memory from \<open>new\<close> holds, no access leaves \<open>fds\<close> or
  \<open>users\<close> or goes through a pointer that was never set, the loop over the entries ends although it
  steps back when a client leaves, there are never more than five clients, and no descriptor stands in the
  table twice. As long as no client has left, no round fails at all; after one has left, a round can fail in one
  way only: a buffer that was never written is sent. The kernel is assumed to report only events that were
  asked for and errors, and to give a connection the lowest descriptor that is free, and the process to start with
  fewer than 65,529 open descriptors.
\<close>

theorem chat_server_safe:
  assumes "few_fds inh" and "chat_reachable inh l lv s" and "sane_round inh l r s"
  shows "((\<exists>s'. chat_round l r s = Inr s') \<or> (lv \<or> someone_leaves r) \<and> chat_round l r s = Inl Uninitialised)
    \<and> 0 \<le> user_counter s \<and> user_counter s \<le> USER_LIMIT
    \<and> fds s ! 0 = (fds s ! 0)\<lparr>pfd := l, events := {POLLIN, POLLERR}\<rparr>
    \<and> distinct (l # map (client s) [1..<Suc (nat (user_counter s))])"
proof -
  have inv: "chat_inv lv l s" by (rule chat_reachable_inv [OF assms(1,2)])
  then have "distinct (l # map (client s) [1..<Suc (clients s)])"
    by (auto simp: chat_inv_def table_ok_def distinct_map atLeastLessThanSuc_atLeastAtMost simp del: upt_Suc)
  then show ?thesis using inv chat_round_inv [OF assms(1) inv assms(3)] by (auto simp: chat_inv_def table_ok_def simp del: upt_Suc)
qed


section \<open>A message reaches the others\<close>




















text \<open>Three clients, on descriptors 5, 6 and 7.\<close>

definition connect :: "int \<Rightarrow> poll_round" where
  "connect fd = \<lparr>poll_ok = True, r_events = (\<lambda>i. if i = 0 then {POLLIN} else {}), r_accept = fd, r_recv = (\<lambda>_. Again)\<rparr>"

definition says :: "nat \<Rightarrow> byte list \<Rightarrow> poll_round" where
  "says i m = \<lparr>poll_ok = True, r_events = (\<lambda>j. if j = i then {POLLIN} else {}), r_accept = - 1, r_recv = (\<lambda>_. Bytes m)\<rparr>"

definition leaves :: "nat \<Rightarrow> poll_round" where
  "leaves i = \<lparr>poll_ok = True, r_events = (\<lambda>j. if j = i then {POLLRDHUP} else {}), r_accept = - 1, r_recv = (\<lambda>_. Again)\<rparr>"

definition writable :: "nat set \<Rightarrow> poll_round" where
  "writable A = \<lparr>poll_ok = True, r_events = (\<lambda>j. if j \<in> A then {POLLOUT} else {}), r_accept = - 1, r_recv = (\<lambda>_. Again)\<rparr>"



definition started_with :: "int set" where "started_with = {0, 1, 2, 3}"

lemma few_started: "few_fds started_with"
  by (simp add: few_fds_def started_with_def FD_LIMIT_def)





theorem chat_server_safe_witness:
  "\<exists>s'. chat_round 4 (connect 5) (chat_start 4) = Inr s'"
proof -
  have "sane_round started_with 4 (connect 5) (chat_start 4)" by code_simp
  moreover have "\<not> someone_leaves (connect 5)" by (simp add: someone_leaves_def connect_def)
  ultimately show ?thesis using chat_server_safe [OF few_started chat_reachable.start, of 4 "connect 5"] by simp
qed

text \<open>
  A client that never said anything has nothing in its buffer. When a message waits, its sender leaves, and
  such a client takes the place of the sender, the indeterminate buffer is sent.
\<close>

lemma chat_sends_uninitialised:
  "chat_main 4 [connect 5, connect 6, says 1 [97], leaves 1, writable {1}] (chat_start 4) = Inl Uninitialised"
proof -
  have "(case chat_main 4 [connect 5, connect 6, says 1 [97], leaves 1, writable {1}] (chat_start 4) of
      Inl e \<Rightarrow> e = Uninitialised | Inr s \<Rightarrow> False)" by code_simp
  then show ?thesis by (simp only: split: sum.splits)
qed

text \<open>
  The message of a client that leaves is lost. When a client sends a message and closes its connection
  before the others are writable, its entry of \<open>users\<close>, where the message still lies, is overwritten by
  the entry of the last client, and that client's old message is sent instead, to itself too.
\<close>

theorem chat_message_replaced:
  "(case chat_main 4 [connect 5, connect 6, connect 7, says 3 [99], writable {1, 2}, says 1 [97], leaves 1, writable {1, 2}]
           (chat_start 4) of
      Inl e \<Rightarrow> False
    | Inr s \<Rightarrow> sent s = [(5, [99]), (6, [99]), (7, [99]), (6, [99])])"
  by code_simp

end
