(* ===== verification/Epoll_Servers.thy ===== *)
theory Epoll_Servers
  imports Prelude
begin

text \<open>
  Two servers around \<open>epoll\<close> from \<open>high_perf_linux_server_prog/code\<close>: the echo server for TCP and UDP,
  \<open>io_multiplex/demo/tcp_udp/server.cpp\<close>, and the server that gets its signals through a pipe,
  \<open>signal/io_handler/server.cpp\<close>. The kernel's side of a connection is the bytes that have arrived and
  not been read, whether the peer has closed, and whether the descriptor is open; bytes of a connection
  count as arrived once it is accepted. How much each \<open>send\<close> takes, nothing when it fails, is an argument: the
  sockets are non-blocking, and the server does not look at the result.
\<close>

section \<open>The echo server: sockets\<close>

definition TCP_BUFFER_SIZE :: nat where "TCP_BUFFER_SIZE = 512"

definition UDP_BUFFER_SIZE :: nat where "UDP_BUFFER_SIZE = 1024"

record conn =
  inbox :: "byte list"
  peer_closed :: bool
  is_open :: bool

record echo =
  conns :: "int \<Rightarrow> conn"
  backlog :: "int list"
  watched :: "int list"
  handed :: "(int \<times> byte list) list"
  echoed :: "(int \<times> byte list) list"
  datagrams :: "(int \<times> byte list) list"

datatype received = RecvError int | Received "byte list"

abbreviation (input) EBADF :: int where "EBADF \<equiv> 9"

text \<open>\<open>recv\<close> on a non-blocking stream socket; an empty result is the end of the stream.\<close>

definition recv :: "int \<Rightarrow> nat \<Rightarrow> echo \<Rightarrow> received \<times> echo" where
  "recv fd n s =
     (let c = conns s fd
      in if \<not> is_open c then (RecvError EBADF, s)
         else if inbox c \<noteq> [] then (Received (take n (inbox c)), s\<lparr>conns := (conns s)(fd := c\<lparr>inbox := drop n (inbox c)\<rparr>)\<rparr>)
         else if peer_closed c then (Received [], s)
         else (RecvError EAGAIN, s))"

definition close_fd :: "int \<Rightarrow> echo \<Rightarrow> echo" where
  "close_fd fd s = s\<lparr>conns := (conns s)(fd := (conns s fd)\<lparr>is_open := False\<rparr>), watched := removeAll fd (watched s)\<rparr>"

text \<open>\<open>takes k bs\<close> is what the \<open>k\<close>th call of \<open>send\<close> takes of the bytes \<open>bs\<close> it is handed.\<close>

type_synonym sends = "nat \<Rightarrow> byte list \<Rightarrow> nat"

definition send_bytes :: "sends \<Rightarrow> int \<Rightarrow> byte list \<Rightarrow> echo \<Rightarrow> echo" where
  "send_bytes takes fd bs s =
     s\<lparr>handed := handed s @ [(fd, bs)], echoed := echoed s @ [(fd, take (takes (length (handed s)) bs) bs)]\<rparr>"

section \<open>The echo server: the events\<close>

text \<open>
  The loop over \<open>recv\<close>. The condition after an error is \<open>(errno = EAGAIN) || \<dots>\<close>, an assignment, which is
  always true: the loop ends and the descriptor is never closed there. After the end of the stream the
  descriptor is closed and the loop goes on, to an error.
\<close>

function echo_loop :: "sends \<Rightarrow> int \<Rightarrow> echo \<Rightarrow> echo" where
  "echo_loop takes sockfd s =
     (case recv sockfd (TCP_BUFFER_SIZE - 1) s of
        (RecvError errno, s') \<Rightarrow> s'
      | (Received bs, s') \<Rightarrow>
          if bs = [] then echo_loop takes sockfd (close_fd sockfd s')
          else echo_loop takes sockfd (send_bytes takes sockfd bs s'))"
  by auto
termination
  by (relation "measure (\<lambda>(takes, fd, s). length (inbox (conns s fd)) + (if is_open (conns s fd) then 1 else 0))")
    (auto simp: recv_def Let_def close_fd_def send_bytes_def TCP_BUFFER_SIZE_def split: if_splits)

declare echo_loop.simps [simp del]

text \<open>An edge-triggered event of the listening socket is answered by one \<open>accept\<close>.\<close>

definition on_listen :: "echo \<Rightarrow> echo" where
  "on_listen s =
     (case backlog s of
        [] \<Rightarrow> s
      | connfd # rest \<Rightarrow>
          s\<lparr>backlog := rest, watched := watched s @ [connfd],
            conns := (conns s)(connfd := \<lparr>inbox = [], peer_closed = False, is_open = True\<rparr>)\<rparr>)"

definition on_datagram :: "int \<Rightarrow> byte list \<Rightarrow> echo \<Rightarrow> echo" where
  "on_datagram client bs s =
     (let buf = take (UDP_BUFFER_SIZE - 1) bs @ replicate (UDP_BUFFER_SIZE - length (take (UDP_BUFFER_SIZE - 1) bs)) 0
      in if take (UDP_BUFFER_SIZE - 1) bs = [] then s
         else s\<lparr>datagrams := datagrams s @ [(client, take (UDP_BUFFER_SIZE - 1) buf)]\<rparr>)"

text \<open>
  What can happen: bytes arrive, a peer closes, a connection waits to be accepted on a descriptor that is
  not in use, and the events \<open>epoll_wait\<close> reports.
\<close>

datatype echo_op = Arrive int "byte list" | PeerCloses int | Connects int
  | ListenEvent | Readable int | Datagram int "byte list"

definition free_fd :: "int \<Rightarrow> echo \<Rightarrow> bool" where
  "free_fd fd s = (\<not> is_open (conns s fd) \<and> fd \<notin> set (backlog s))"

fun echo_step :: "sends \<Rightarrow> echo_op \<Rightarrow> echo \<Rightarrow> echo" where
  "echo_step takes (Arrive fd bs) s =
     (let c = conns s fd
      in if is_open c \<and> \<not> peer_closed c then s\<lparr>conns := (conns s)(fd := c\<lparr>inbox := inbox c @ bs\<rparr>)\<rparr> else s)"
| "echo_step takes (PeerCloses fd) s = s\<lparr>conns := (conns s)(fd := (conns s fd)\<lparr>peer_closed := True\<rparr>)\<rparr>"
| "echo_step takes (Connects fd) s = (if free_fd fd s then s\<lparr>backlog := backlog s @ [fd]\<rparr> else s)"
| "echo_step takes ListenEvent s = on_listen s"
| "echo_step takes (Readable fd) s = (if fd \<in> set (watched s) then echo_loop takes fd s else s)"
| "echo_step takes (Datagram client bs) s = on_datagram client bs s"

definition echo_start :: echo where
  "echo_start = \<lparr>conns = (\<lambda>_. \<lparr>inbox = [], peer_closed = False, is_open = False\<rparr>), backlog = [], watched = [], handed = [], echoed = [],
     datagrams = []\<rparr>"

section \<open>The loop drains the connection\<close>

text \<open>The pieces in which a connection is read.\<close>

function pieces :: "nat \<Rightarrow> 'a list \<Rightarrow> 'a list list" where
  "pieces n xs = (if n = 0 \<or> xs = [] then [] else take n xs # pieces n (drop n xs))"
  by auto
termination by (relation "measure (\<lambda>(n, xs). length xs)") auto

declare pieces.simps [simp del]

lemma concat_pieces: "0 < n \<Longrightarrow> concat (pieces n xs) = xs"
  by (induction n xs rule: pieces.induct) (subst pieces.simps, simp)

text \<open>What \<open>send\<close> takes of the pieces it is handed, from the \<open>k\<close>th call on.\<close>

definition taken :: "sends \<Rightarrow> nat \<Rightarrow> (int \<times> byte list) list \<Rightarrow> (int \<times> byte list) list" where
  "taken takes k hs = map (\<lambda>(j, fd, bs). (fd, take (takes j bs) bs)) (enumerate k hs)"

lemma taken_append: "taken takes k (hs @ hs') = taken takes k hs @ taken takes (k + length hs) hs'"
  by (simp add: taken_def enumerate_append_eq)

lemma taken_simps [simp]: "taken takes k [] = []"
  "taken takes k ((fd, bs) # hs) = (fd, take (takes k bs) bs) # taken takes (Suc k) hs"
  by (simp_all add: taken_def)

definition drained :: "int \<Rightarrow> conn \<Rightarrow> conn" where
  "drained fd c = c\<lparr>inbox := [], is_open := is_open c \<and> \<not> peer_closed c\<rparr>"

lemma echo_loop_drains:
  assumes "is_open (conns s fd)"
  shows "echo_loop takes fd s =
    (let new = map (Pair fd) (pieces (TCP_BUFFER_SIZE - 1) (inbox (conns s fd)))
     in s\<lparr>conns := (conns s)(fd := drained fd (conns s fd)),
       watched := (if peer_closed (conns s fd) then removeAll fd (watched s) else watched s),
       handed := handed s @ new, echoed := echoed s @ taken takes (length (handed s)) new\<rparr>)"
  using assms
proof (induction "length (inbox (conns s fd))" arbitrary: s rule: less_induct)
  case less
  let ?c = "conns s fd" and ?n = "TCP_BUFFER_SIZE - 1"
  show ?case
  proof (cases "inbox ?c = []")
    case True
    show ?thesis
    proof (cases "peer_closed ?c")
      case True
      have "echo_loop takes fd (close_fd fd s) = close_fd fd s"
        by (subst echo_loop.simps) (simp add: recv_def close_fd_def)
      moreover have "drained fd ?c = ?c\<lparr>is_open := False\<rparr>"
        using \<open>inbox ?c = []\<close> True by (cases ?c) (simp add: drained_def)
      ultimately show ?thesis using \<open>inbox ?c = []\<close> True less.prems
        by (subst echo_loop.simps) (simp add: recv_def close_fd_def pieces.simps)
    next
      case False
      have "drained fd ?c = ?c" using \<open>inbox ?c = []\<close> less.prems False by (cases ?c) (simp add: drained_def)
      then show ?thesis using \<open>inbox ?c = []\<close> False less.prems
        by (subst echo_loop.simps) (simp add: recv_def pieces.simps)
    qed
  next
    case False
    define s' where "s' = send_bytes takes fd (take ?n (inbox ?c)) (s\<lparr>conns := (conns s)(fd := ?c\<lparr>inbox := drop ?n (inbox ?c)\<rparr>)\<rparr>)"
    have "echo_loop takes fd s = echo_loop takes fd s'" using False less.prems
      by (subst echo_loop.simps) (simp add: recv_def Let_def s'_def TCP_BUFFER_SIZE_def)
    also have "\<dots> = (let new = map (Pair fd) (pieces ?n (inbox (conns s' fd)))
     in s'\<lparr>conns := (conns s')(fd := drained fd (conns s' fd)),
       watched := (if peer_closed (conns s' fd) then removeAll fd (watched s') else watched s'),
       handed := handed s' @ new, echoed := echoed s' @ taken takes (length (handed s')) new\<rparr>)"
      using False less.prems by (intro less.hyps) (simp_all add: s'_def send_bytes_def TCP_BUFFER_SIZE_def)
    finally have "echo_loop takes fd s = \<dots>" .
    moreover have "pieces ?n (inbox ?c) = take ?n (inbox ?c) # pieces ?n (drop ?n (inbox ?c))"
      using False by (subst pieces.simps) (simp add: TCP_BUFFER_SIZE_def)
    ultimately show ?thesis by (simp add: s'_def send_bytes_def drained_def Let_def)
  qed
qed

section \<open>The echo, as a queue\<close>

definition echo_inv :: "echo \<Rightarrow> bool" where
  "echo_inv s \<longleftrightarrow> (\<forall>fd. \<not> is_open (conns s fd) \<longrightarrow> inbox (conns s fd) = [])
     \<and> (\<forall>fd\<in>set (backlog s). \<not> is_open (conns s fd)) \<and> (\<forall>fd\<in>set (watched s). is_open (conns s fd)) \<and> distinct (backlog s)"

text \<open>Only \<open>send\<close> adds to what was handed over, and the kernel's answers decide what of it was echoed.\<close>

definition sends_inv :: "sends \<Rightarrow> echo \<Rightarrow> bool" where
  "sends_inv takes s \<longleftrightarrow> echoed s = taken takes 0 (handed s)"

text \<open>The bytes an event takes in from a connection and those it hands over to be sent back on it.\<close>

fun echo_in :: "int \<Rightarrow> echo_op \<Rightarrow> echo \<Rightarrow> byte list" where
  "echo_in fd (Arrive fd' bs) s = (if fd' = fd \<and> is_open (conns s fd) \<and> \<not> peer_closed (conns s fd) then bs else [])"
| "echo_in fd _ s = []"

definition sent_on :: "int \<Rightarrow> (int \<times> byte list) list \<Rightarrow> byte list" where
  "sent_on fd out = concat (map snd (filter (\<lambda>p. fst p = fd) out))"

definition echo_out :: "sends \<Rightarrow> int \<Rightarrow> echo_op \<Rightarrow> echo \<Rightarrow> byte list" where
  "echo_out takes fd x s = sent_on fd (drop (length (handed s)) (handed (echo_step takes x s)))"

lemma sent_on_simps [simp]: "sent_on fd [] = []" "sent_on fd (xs @ ys) = sent_on fd xs @ sent_on fd ys"
  by (simp_all add: sent_on_def)

lemma sent_on_pieces: "0 < n \<Longrightarrow> sent_on fd (map (Pair fd') (pieces n xs)) = (if fd = fd' then xs else [])"
  by (auto simp: sent_on_def filter_map comp_def concat_pieces)

lemma echo_step_inv:
  assumes "echo_inv s"
  shows "echo_inv (echo_step takes x s)"
proof (cases x)
  case (Readable fd')
  then show ?thesis using assms by (auto simp: echo_inv_def echo_loop_drains drained_def Let_def)
next
  case ListenEvent
  then show ?thesis using assms by (auto simp: echo_inv_def on_listen_def split: list.split)
qed (use assms in \<open>auto simp: echo_inv_def free_fd_def on_datagram_def Let_def\<close>)

text \<open>Every event appends to what was handed over, and what the kernel took of it to what was echoed.\<close>

lemma echo_step_hands:
  assumes "echo_inv s"
  shows "\<exists>new. handed (echo_step takes x s) = handed s @ new
    \<and> echoed (echo_step takes x s) = echoed s @ taken takes (length (handed s)) new"
proof (cases x)
  case (Readable fd')
  then show ?thesis using assms by (auto simp: echo_inv_def echo_loop_drains Let_def intro!: exI [of _ "[]"])
next
  case ListenEvent
  then show ?thesis by (auto simp: on_listen_def split: list.split)
qed (auto simp: on_datagram_def Let_def)

interpretation echo: queue "echo_step takes" echo_inv "\<lambda>s. inbox (conns s fd)" "echo_in fd" "echo_out takes fd" for takes fd
proof
  fix s x
  assume inv: "echo_inv s"
  then show "echo_inv (echo_step takes x s)" by (rule echo_step_inv)
  show "echo_out takes fd x s @ inbox (conns (echo_step takes x s) fd) = inbox (conns s fd) @ echo_in fd x s"
  proof (cases x)
    case (Readable fd')
    then show ?thesis using inv sent_on_pieces [of "TCP_BUFFER_SIZE - 1" fd fd']
      by (auto simp: echo_inv_def echo_out_def echo_loop_drains drained_def TCP_BUFFER_SIZE_def Let_def)
  next
    case ListenEvent
    then show ?thesis using inv by (auto simp: echo_inv_def echo_out_def on_listen_def split: list.split)
  qed (auto simp: echo_out_def on_datagram_def Let_def)
qed

lemma run_sends:
  assumes "echo_inv s" and "sends_inv takes s"
  shows "sends_inv takes (run_ops (echo_step takes) xs s)
    \<and> sent_on fd (handed (run_ops (echo_step takes) xs s)) = sent_on fd (handed s) @ out_ops (echo_step takes) (echo_out takes fd) xs s"
  using assms
proof (induction xs arbitrary: s)
  case (Cons x xs)
  obtain new where new: "handed (echo_step takes x s) = handed s @ new"
    "echoed (echo_step takes x s) = echoed s @ taken takes (length (handed s)) new"
    using echo_step_hands [OF Cons.prems(1)] by blast
  then have "sends_inv takes (echo_step takes x s)" "echo_out takes fd x s = sent_on fd new"
    using Cons.prems(2) by (simp_all add: sends_inv_def taken_append echo_out_def)
  then show ?case using Cons.IH [OF echo_step_inv [OF Cons.prems(1)]] new(1) by simp
qed simp

lemma taken_all: "taken takes k hs = hs \<longleftrightarrow> (\<forall>j<length hs. length (snd (hs ! j)) \<le> takes (k + j) (snd (hs ! j)))"
proof (induction hs arbitrary: k)
  case (Cons h hs)
  have "(take n xs = xs) = (length xs \<le> n)" for n and xs :: "byte list" by (metis length_take min_def nle_le take_all)
  then show ?case using Cons by (cases h) (simp add: All_less_Suc2)
qed simp

text \<open>
  C39: What the server hands to \<open>send\<close> on a connection is what came in on it, whatever the kernel takes of it. Along
  every order of arrivals, connections, closings and events, the bytes handed over on a descriptor,
  followed by those that wait to be read, are the bytes that arrived on it, in order. What is echoed is, of
  each piece that was handed over, the part the kernel took: everything comes back exactly when no call of
  \<open>send\<close> falls short, since the server never offers the rest of a piece again.
\<close>

theorem echo_in_order:
  "let s = run_ops (echo_step takes) xs echo_start
   in sent_on fd (handed s) @ inbox (conns s fd) = out_ops (echo_step takes) (echo_in fd) xs echo_start
    \<and> echoed s = map (\<lambda>(k, fd, bs). (fd, take (takes k bs) bs)) (enumerate 0 (handed s))
    \<and> (echoed s = handed s \<longleftrightarrow> (\<forall>k<length (handed s). length (snd (handed s ! k)) \<le> takes k (snd (handed s ! k))))"
proof -
  have inv: "echo_inv echo_start" by (simp add: echo_inv_def echo_start_def)
  have "sends_inv takes echo_start" by (simp add: sends_inv_def echo_start_def)
  note r = run_sends [OF inv this, of xs fd]
  then have "echoed (run_ops (echo_step takes) xs echo_start) = taken takes 0 (handed (run_ops (echo_step takes) xs echo_start))"
    by (simp add: sends_inv_def)
  moreover note taken_all [of takes 0 "handed (run_ops (echo_step takes) xs echo_start)"]
  ultimately show ?thesis using r echo.run_order [OF inv, of takes fd xs] by (simp add: Let_def taken_def echo_start_def)
qed

theorem echo_in_order_witness:
  "let s = run_ops (echo_step (\<lambda>k bs. length bs)) [Connects 5, ListenEvent, Arrive 5 [104, 105], Readable 5] echo_start
   in sent_on 5 (handed s) @ inbox (conns s 5) = [104, 105] \<and> echoed s = handed s"
proof -
  let ?xs = "[Connects 5, ListenEvent, Arrive 5 [104, 105], Readable 5]"
  have i: "out_ops (echo_step (\<lambda>k bs. length bs)) (echo_in 5) ?xs echo_start = [104, 105]"
    by (simp add: echo_start_def free_fd_def on_listen_def)
  show ?thesis using echo_in_order [of "\<lambda>k bs. length bs" ?xs 5] unfolding Let_def i by blast
qed

text \<open>When \<open>send\<close> takes one byte of two, the other is never sent.\<close>

lemma short_send_loses:
  "echoed (run_ops (echo_step (\<lambda>k bs. 1)) [Connects 5, ListenEvent, Arrive 5 [104, 105], Readable 5] echo_start) = [(5, [104])]"
  by (simp add: Let_def echo_start_def free_fd_def on_listen_def echo_loop_drains pieces.simps TCP_BUFFER_SIZE_def)

text \<open>
  One event is enough to read a connection empty, whatever has arrived, and to close it once the peer has:
  the loop ends, nothing is left unread, and the descriptor is closed exactly when the peer's end was.
\<close>

theorem echo_event_drains:
  assumes "is_open (conns s fd)" and "fd \<in> set (watched s)"
  shows "let s' = echo_step takes (Readable fd) s
    in inbox (conns s' fd) = [] \<and> sent_on fd (drop (length (handed s)) (handed s')) = inbox (conns s fd)
       \<and> (is_open (conns s' fd) \<longleftrightarrow> \<not> peer_closed (conns s fd)) \<and> (fd \<in> set (watched s') \<longleftrightarrow> is_open (conns s' fd))
       \<and> (\<forall>fd'. fd' \<noteq> fd \<longrightarrow> conns s' fd' = conns s fd')"
  using assms sent_on_pieces [of "TCP_BUFFER_SIZE - 1" fd fd] by (simp add: echo_loop_drains drained_def TCP_BUFFER_SIZE_def Let_def)

theorem echo_event_drains_witness:
  "inbox (conns (echo_step (\<lambda>k bs. 1) (Readable 5) (echo_start\<lparr>conns := (\<lambda>_. \<lparr>inbox = [104, 105], peer_closed = False, is_open = True\<rparr>),
      watched := [5]\<rparr>)) 5) = []"
  using echo_event_drains [of "echo_start\<lparr>conns := (\<lambda>_. \<lparr>inbox = [104, 105], peer_closed = False, is_open = True\<rparr>), watched := [5]\<rparr>" 5 "\<lambda>k bs. 1"]
  by (simp add: Let_def)

text \<open>
  An edge of the listening socket that stands for two new connections is answered by one \<open>accept\<close>: the
  second client waits until a third one connects.
\<close>

lemma second_connection_waits:
  "run_ops (echo_step takes) [Connects 5, Connects 6, ListenEvent] echo_start
   = echo_start\<lparr>backlog := [6], watched := [5], conns := (conns echo_start)(5 := \<lparr>inbox = [], peer_closed = False, is_open = True\<rparr>)\<rparr>"
  by (simp add: echo_start_def free_fd_def on_listen_def)

text \<open>A datagram is answered by 1023 bytes, the message and zeros, however short it was.\<close>

lemma datagram_padded:
  assumes "bs \<noteq> []" and "length bs \<le> 1023"
  shows "datagrams (on_datagram client bs s) = datagrams s @ [(client, bs @ replicate (1023 - length bs) 0)]"
  using assms by (simp add: on_datagram_def UDP_BUFFER_SIZE_def Let_def)

section \<open>Signals through a pipe\<close>

text \<open>
  \<open>sig_handler\<close> writes the number of the signal into a pipe as one byte; the loop reads the bytes and
  acts on them. The pipe holds the signals that came and were not read.
\<close>

definition SIGHUP :: int where "SIGHUP = 1"
definition SIGINT :: int where "SIGINT = 2"
definition SIGTERM :: int where "SIGTERM = 15"
definition SIGCHLD :: int where "SIGCHLD = 17"

record sigserver =
  sig_pipe :: "int list"
  sig_fds :: "int list"
  stop_server :: bool

definition sig_handler :: "int \<Rightarrow> sigserver \<Rightarrow> sigserver" where
  "sig_handler sig s = s\<lparr>sig_pipe := sig_pipe s @ [sig]\<rparr>"

fun act_on_signals :: "int list \<Rightarrow> sigserver \<Rightarrow> sigserver" where
  "act_on_signals [] s = s"
| "act_on_signals (sig # sigs) s =
     act_on_signals sigs
       (if sig = SIGCHLD \<or> sig = SIGHUP then s
        else if sig = SIGTERM \<or> sig = SIGINT then s\<lparr>stop_server := True\<rparr> else s)"

datatype sig_event = NewClient int | PipeReadable | OtherEvent

fun sig_event_step :: "sig_event \<Rightarrow> sigserver \<Rightarrow> sigserver" where
  "sig_event_step (NewClient connfd) s = s\<lparr>sig_fds := sig_fds s @ [connfd]\<rparr>"
| "sig_event_step PipeReadable s =
     (let signals = take 1024 (sig_pipe s)
      in act_on_signals signals (s\<lparr>sig_pipe := drop 1024 (sig_pipe s)\<rparr>))"
| "sig_event_step OtherEvent s = s"

text \<open>Each round of the loop: the signals that arrive while it waits, and the events it is told of.\<close>

fun sig_serve :: "(int list \<times> sig_event list) list \<Rightarrow> sigserver \<Rightarrow> sigserver" where
  "sig_serve [] s = s"
| "sig_serve ((sigs, events) # rounds) s =
     (if stop_server s then s else sig_serve rounds (fold sig_event_step events (fold sig_handler sigs s)))"

lemma act_on_signals_stop:
  "stop_server (act_on_signals sigs s) \<longleftrightarrow> stop_server s \<or> SIGTERM \<in> set sigs \<or> SIGINT \<in> set sigs"
  "sig_pipe (act_on_signals sigs s) = sig_pipe s" "sig_fds (act_on_signals sigs s) = sig_fds s"
  by (induction sigs arbitrary: s) (auto simp: SIGTERM_def SIGINT_def SIGCHLD_def SIGHUP_def)

lemma fold_sig_handler: "fold sig_handler sigs s = s\<lparr>sig_pipe := sig_pipe s @ sigs\<rparr>"
  by (induction sigs arbitrary: s) (simp_all add: sig_handler_def)

lemma fold_new_client: "stop_server (fold sig_event_step (map NewClient cs) s) = stop_server s"
  by (induction cs arbitrary: s) simp_all

text \<open>
  A signal is acted on in the round in which the pipe becomes readable and not before: the server stops
  after a round exactly when it was told to by \<open>SIGTERM\<close> or \<open>SIGINT\<close>, among at most 1024 signals that
  came since the last read; hang-ups and ends of children do not stop it, and none is left in the pipe.
\<close>

theorem signals_stop_server:
  assumes "\<not> stop_server s" and "sig_pipe s = []" and "length sigs \<le> 1024"
  shows "(stop_server (sig_serve [(sigs, [PipeReadable])] s) \<longleftrightarrow> SIGTERM \<in> set sigs \<or> SIGINT \<in> set sigs)
    \<and> sig_pipe (sig_serve [(sigs, [PipeReadable])] s) = []
    \<and> \<not> stop_server (sig_serve [(sigs, map NewClient cs)] s)"
  using assms by (simp add: fold_sig_handler act_on_signals_stop fold_new_client)

end
