(* ===== verification/Io_Multiplex.thy ===== *)
theory Io_Multiplex
  imports Prelude
begin

text \<open>
  Servers that read ordinary and urgent data from one connection, with \<open>select\<close>, with \<open>poll\<close>, with
  \<open>epoll\<close> and with a signal handler: \<open>io_multiplex/select\<close>, \<open>io_multiplex/poll\<close>, \<open>io_multiplex/epoll\<close>
  and \<open>signal/urgent\<close> of \<open>high_perf_linux_server_prog/code\<close>; and connecting with a time limit, the
  client of \<open>io_multiplex/demo/nonblock_connect\<close>, and the client of the chat server. What the kernel answers is an argument, what the
  programs print is a list of notices.
\<close>

section \<open>Reading what has arrived\<close>

definition BUF_SIZE :: nat where "BUF_SIZE = 1024"

text \<open>\<open>recv\<close> fails, or it gives some bytes; no bytes mean that the other side has closed.\<close>

datatype rcv_result = Rcv_error | Rcv "byte list"

datatype notice =
    Wait_failed | No_event | Events | Normal "byte list" | Oob "byte list"
  | Normal_failed | Oob_failed | Closed | Stopped

record io_round =
  io_ret :: int
  io_in :: bool
  io_pri :: bool
  io_recv :: rcv_result
  io_recv_oob :: rcv_result

text \<open>The result of handling an event: what is printed, and whether the loop goes on.\<close>

definition read_normal :: "rcv_result \<Rightarrow> notice list \<times> bool" where
  "read_normal r =
     (case r of
        Rcv_error \<Rightarrow> ([Normal_failed], False)
      | Rcv bs \<Rightarrow> if bs = [] then ([Closed], False) else ([Normal (take (BUF_SIZE - 1) bs)], True))"

definition read_oob :: "rcv_result \<Rightarrow> notice list \<times> bool" where
  "read_oob r =
     (case r of
        Rcv_error \<Rightarrow> ([Oob_failed], False)
      | Rcv bs \<Rightarrow> if bs = [] then ([Oob_failed], False) else ([Oob (take (BUF_SIZE - 1) bs)], True))"

definition and_then :: "notice list \<times> bool \<Rightarrow> (notice list \<times> bool) \<Rightarrow> notice list \<times> bool" where
  "and_then a b = (if snd a then (fst a @ fst b, snd b) else a)"

section \<open>The servers\<close>

text \<open>
  Each server takes a list of rounds, the answers of the kernel as long as it asks. The result is
  what it prints and whether it has stopped.
\<close>

definition select_round :: "io_round \<Rightarrow> notice list \<times> bool" where
  "select_round r =
     (if io_ret r < 0 then ([Wait_failed], False)
      else and_then ([Events], True)
             (and_then (if io_in r then read_normal (io_recv r) else ([], True))
                       (if io_pri r then read_oob (io_recv_oob r) else ([], True))))"

fun select_server :: "io_round list \<Rightarrow> notice list \<times> bool" where
  "select_server [] = ([], False)"
| "select_server (r # rs) =
     (case select_round r of
        (out, True) \<Rightarrow> (case select_server rs of (out', stopped) \<Rightarrow> (out @ out', stopped))
      | (out, False) \<Rightarrow> (out @ [Stopped], True))"

text \<open>\<open>poll\<close> leaves the events in \<open>revents\<close>, which the server reads as it goes.\<close>

definition pollfd_round :: "io_round \<Rightarrow> notice list \<times> bool" where
  "pollfd_round r =
     (if io_ret r < 0 then ([Wait_failed], False)
      else
        (let normal = (if io_in r then read_normal (io_recv r) else ([], True))
         in if \<not> snd normal then (Events # fst normal, False)
            else if io_pri r then (Events # fst normal @ fst (read_oob (io_recv_oob r)), snd (read_oob (io_recv_oob r)))
            else (Events # fst normal, True)))"

fun poll_server :: "io_round list \<Rightarrow> notice list \<times> bool" where
  "poll_server [] = ([], False)"
| "poll_server (r # rs) =
     (case pollfd_round r of
        (out, True) \<Rightarrow> (case poll_server rs of (out', stopped) \<Rightarrow> (out @ out', stopped))
      | (out, False) \<Rightarrow> (out @ [Stopped], True))"

text \<open>
  With \<open>epoll\<close> the urgent data is read first, and an error of \<open>recv\<close> leaves the loop over the events but
  not the server. One descriptor is registered, so there is at most one event. The result is what
  is printed and the variable \<open>stop\<close>.
\<close>

definition epoll_event :: "io_round \<Rightarrow> notice list \<times> bool" where
  "epoll_event r =
     (let oob = (if io_pri r then read_oob (io_recv_oob r) else ([], True))
      in if \<not> snd oob then (fst oob, True)
         else if io_in r
         then (fst oob @ fst (read_normal (io_recv r)), io_recv r = Rcv [])
         else (fst oob, False))"

fun epoll_server :: "io_round list \<Rightarrow> notice list \<times> bool" where
  "epoll_server [] = ([], False)"
| "epoll_server (r # rs) =
     (if io_ret r < 0 then ([Wait_failed, Stopped], True)
      else if io_ret r = 0 then (case epoll_server rs of (out, stopped) \<Rightarrow> (No_event # out, stopped))
      else
        (case epoll_event r of
           (out, stop) \<Rightarrow>
             if stop then (Events # out @ [Stopped], True)
             else (case epoll_server rs of (out', stopped) \<Rightarrow> (Events # out @ out', stopped))))"

text \<open>
  The server with the signal handler: the handler reads urgent data whenever \<open>SIGURG\<close> comes, and puts
  \<open>errno\<close> back; the main loop reads ordinary data.
\<close>

datatype urg_event = Sigurg rcv_result | Data rcv_result

definition sig_urg :: "rcv_result \<Rightarrow> notice list" where
  "sig_urg r = (case r of Rcv_error \<Rightarrow> [Oob []] | Rcv bs \<Rightarrow> [Oob (take (BUF_SIZE - 1) bs)])"

fun urgent_server :: "urg_event list \<Rightarrow> notice list \<times> bool" where
  "urgent_server [] = ([], False)"
| "urgent_server (Sigurg r # es) = (case urgent_server es of (out, stopped) \<Rightarrow> (sig_urg r @ out, stopped))"
| "urgent_server (Data r # es) =
     (case read_normal r of
        (out, True) \<Rightarrow> (case urgent_server es of (out', stopped) \<Rightarrow> (out @ out', stopped))
      | (out, False) \<Rightarrow> (out @ [Stopped], True))"

section \<open>What the servers have in common\<close>

definition normal_of :: "notice list \<Rightarrow> byte list" where
  "normal_of out = concat (map (\<lambda>n. case n of Normal bs \<Rightarrow> bs | _ \<Rightarrow> []) out)"

definition oob_of :: "notice list \<Rightarrow> byte list" where
  "oob_of out = concat (map (\<lambda>n. case n of Oob bs \<Rightarrow> bs | _ \<Rightarrow> []) out)"

text \<open>
  An event that was reported can be read, though the other side may have closed; \<open>epoll_wait\<close> without a time
  limit fails or reports an event.
\<close>

definition round_ok :: "io_round \<Rightarrow> bool" where
  "round_ok r \<longleftrightarrow> (io_in r \<longrightarrow> io_recv r \<noteq> Rcv_error) \<and> (io_pri r \<longrightarrow> (\<exists>b bs. io_recv_oob r = Rcv (b # bs)))
     \<and> (0 < io_ret r \<or> io_ret r < 0)"

text \<open>The urgent bytes that are reported together with the end of the stream.\<close>

fun final_oob :: "io_round list \<Rightarrow> byte list" where
  "final_oob [] = []"
| "final_oob (r # rs) =
     (if io_ret r < 0 then []
      else if io_in r \<and> io_recv r = Rcv []
      then (if io_pri r then (case io_recv_oob r of Rcv bs \<Rightarrow> take (BUF_SIZE - 1) bs | Rcv_error \<Rightarrow> []) else [])
      else final_oob rs)"

lemma select_poll_round: "select_round r = pollfd_round r"
  by (auto simp: select_round_def pollfd_round_def and_then_def Let_def)

lemma select_poll: "select_server rs = poll_server rs"
  by (induction rs) (simp_all add: select_poll_round)

lemma of_append [simp]:
  "normal_of (xs @ ys) = normal_of xs @ normal_of ys" "oob_of (xs @ ys) = oob_of xs @ oob_of ys"
  by (simp_all add: normal_of_def oob_of_def)

lemma of_simps [simp]:
  "normal_of [] = []" "oob_of [] = []"
  "normal_of (n # out) = (case n of Normal bs \<Rightarrow> bs | _ \<Rightarrow> []) @ normal_of out"
  "oob_of (n # out) = (case n of Oob bs \<Rightarrow> bs | _ \<Rightarrow> []) @ oob_of out"
  by (simp_all add: normal_of_def oob_of_def)

lemma epoll_round:
  assumes "round_ok r" and "0 \<le> io_ret r" and "select_round r = (out, go)"
  obtains out' where "epoll_event r = (out', \<not> go)" "normal_of out' = normal_of out" "0 < io_ret r"
    "go \<longleftrightarrow> \<not> (io_in r \<and> io_recv r = Rcv [])" "oob_of out' = oob_of out @ (if go then [] else final_oob [r])"
proof -
  have ok: "io_in r \<Longrightarrow> io_recv r \<noteq> Rcv_error" "io_pri r \<Longrightarrow> \<exists>b bs. io_recv_oob r = Rcv (b # bs)" "0 < io_ret r"
    using assms(1,2) by (auto simp: round_ok_def)
  note defs = select_round_def epoll_event_def and_then_def Let_def read_normal_def read_oob_def
  have "snd (epoll_event r) = (\<not> go) \<and> normal_of (fst (epoll_event r)) = normal_of out
    \<and> (go \<longleftrightarrow> \<not> (io_in r \<and> io_recv r = Rcv [])) \<and> oob_of (fst (epoll_event r)) = oob_of out @ (if go then [] else final_oob [r])"
  proof (cases "io_pri r")
    case True
    then obtain b bs where "io_recv_oob r = Rcv (b # bs)" using ok(2) by blast
    then show ?thesis using assms(3) ok(1,3) True by (cases "io_in r"; cases "io_recv r") (auto simp: defs split: if_splits)
  next
    case False
    then show ?thesis using assms(3) ok(1,3) by (cases "io_in r"; cases "io_recv r") (auto simp: defs split: if_splits)
  qed
  then show ?thesis using that [of "fst (epoll_event r)"] ok(3) by (cases "epoll_event r") auto
qed

lemma select_epoll:
  "\<forall>r \<in> set rs. round_ok r \<Longrightarrow> snd (epoll_server rs) = snd (select_server rs)
     \<and> normal_of (fst (epoll_server rs)) = normal_of (fst (select_server rs))
     \<and> oob_of (fst (epoll_server rs)) = oob_of (fst (select_server rs)) @ final_oob rs"
proof (induction rs)
  case (Cons r rs)
  show ?case
  proof (cases "io_ret r < 0")
    case True
    then show ?thesis by (simp add: select_round_def)
  next
    case False
    obtain out go where s: "select_round r = (out, go)" by force
    then obtain out' where o: "epoll_event r = (out', \<not> go)" "normal_of out' = normal_of out" "0 < io_ret r"
      "go \<longleftrightarrow> \<not> (io_in r \<and> io_recv r = Rcv [])" "oob_of out' = oob_of out @ (if go then [] else final_oob [r])"
      using epoll_round [of r out go] Cons.prems False by force
    then have f: "final_oob (r # rs) = (if go then final_oob rs else final_oob [r])" by simp
    show ?thesis
      using Cons s False o(1-3,5) unfolding f by (cases go) (auto simp del: final_oob.simps split: prod.splits)
  qed
qed simp

text \<open>
  C36: As long as what is reported can be read, the three servers do the same up to one case: \<open>select\<close> and
  \<open>poll\<close> print the same notices, and \<open>epoll\<close>, which reads urgent data first, the same ordinary bytes, and
  it stops in the same round. It prints the same urgent bytes too, followed by those that are reported together
  with the end of the stream, which the other two never read.
\<close>

theorem servers_agree:
  assumes "\<forall>r \<in> set rs. round_ok r"
  shows "select_server rs = poll_server rs \<and> snd (epoll_server rs) = snd (poll_server rs)
    \<and> normal_of (fst (epoll_server rs)) = normal_of (fst (poll_server rs))
    \<and> oob_of (fst (epoll_server rs)) = oob_of (fst (poll_server rs)) @ final_oob rs"
  using select_poll [of rs] select_epoll [OF assms] by simp

definition sample_rounds :: "io_round list" where
  "sample_rounds =
     [\<lparr>io_ret = 1, io_in = True, io_pri = True, io_recv = Rcv [1, 2], io_recv_oob = Rcv [9]\<rparr>,
      \<lparr>io_ret = 1, io_in = True, io_pri = True, io_recv = Rcv [], io_recv_oob = Rcv [7]\<rparr>]"

theorem servers_agree_witness:
  "select_server sample_rounds = ([Events, Normal [1, 2], Oob [9], Events, Closed, Stopped], True)
   \<and> normal_of (fst (epoll_server sample_rounds)) = [1, 2] \<and> oob_of (fst (epoll_server sample_rounds)) = [9, 7]
   \<and> snd (epoll_server sample_rounds)"
proof -
  have "\<forall>r \<in> set sample_rounds. round_ok r" by (simp add: sample_rounds_def round_ok_def)
  moreover have "poll_server sample_rounds = ([Events, Normal [1, 2], Oob [9], Events, Closed, Stopped], True)" by code_simp
  moreover have "final_oob sample_rounds = [7]" by (simp add: sample_rounds_def BUF_SIZE_def)
  ultimately show ?thesis using servers_agree [of sample_rounds] by simp
qed

text \<open>
  An error of \<open>recv\<close> stops the servers with \<open>select\<close> and \<open>poll\<close> but not the one with \<open>epoll\<close>, which reports it
  again in every round.
\<close>

lemma epoll_ignores_errors:
  assumes "\<forall>r \<in> set rs. 0 < io_ret r \<and> io_in r \<and> \<not> io_pri r \<and> io_recv r = Rcv_error"
  shows "epoll_server rs = (concat (replicate (length rs) [Events, Normal_failed]), False)"
    and "rs \<noteq> [] \<Longrightarrow> select_server rs = ([Events, Normal_failed, Stopped], True)"
  using assms
  by (induction rs) (simp_all add: epoll_event_def read_normal_def select_round_def and_then_def Let_def)

section \<open>Connecting with a time limit\<close>

text \<open>The answers of the kernel, and the socket as far as the program changes it.\<close>

record connect_env =
  ce_socket :: int
  ce_connect :: int
  ce_errno :: int
  ce_select :: int
  ce_writable :: bool
  ce_getsockopt :: int
  ce_so_error :: int

record sock =
  sk_open :: bool
  sk_nonblocking :: bool

definition EINPROGRESS :: int where "EINPROGRESS = 115"

definition setnonblocking :: "sock \<Rightarrow> bool \<times> sock" where
  "setnonblocking s = (sk_nonblocking s, s\<lparr>sk_nonblocking := True\<rparr>)"

definition close_sock :: "sock \<Rightarrow> sock" where
  "close_sock s = s\<lparr>sk_open := False\<rparr>"

definition unblock_connect :: "connect_env \<Rightarrow> int \<times> sock" where
  "unblock_connect e =
     (let (fdopt, s) = setnonblocking \<lparr>sk_open = True, sk_nonblocking = False\<rparr>
      in if ce_connect e = 0 then (ce_socket e, s\<lparr>sk_nonblocking := fdopt\<rparr>)
         else if ce_errno e \<noteq> EINPROGRESS then (- 1, s)
         else if ce_select e \<le> 0 then (- 1, close_sock s)
         else if \<not> ce_writable e then (- 1, close_sock s)
         else if ce_getsockopt e < 0 then (- 1, close_sock s)
         else if ce_so_error e \<noteq> 0 then (- 1, close_sock s)
         else (ce_socket e, s\<lparr>sk_nonblocking := fdopt\<rparr>))"

definition connect_thread :: "connect_env \<Rightarrow> bool \<times> sock" where
  "connect_thread e =
     (case unblock_connect e of
        (sockfd, s) \<Rightarrow> if sockfd < 0 then (False, s) else (True, close_sock s))"

definition connected :: "connect_env \<Rightarrow> bool" where
  "connected e \<longleftrightarrow> ce_connect e = 0
     \<or> ce_errno e = EINPROGRESS \<and> 0 < ce_select e \<and> ce_writable e \<and> 0 \<le> ce_getsockopt e \<and> ce_so_error e = 0"

text \<open>
  A descriptor is returned exactly when the connection stands, at once or within the time limit; it is then open
  and blocking again, as it was before. Otherwise the result is -1 and the socket is closed, with one
  exception: an error of \<open>connect\<close> other than \<open>EINPROGRESS\<close> leaves it open, and nobody closes it.
\<close>

theorem unblock_connect_correct:
  assumes "0 \<le> ce_socket e"
  shows "unblock_connect e =
      (if connected e then (ce_socket e, \<lparr>sk_open = True, sk_nonblocking = False\<rparr>)
       else (- 1, \<lparr>sk_open = ce_connect e \<noteq> 0 \<and> ce_errno e \<noteq> EINPROGRESS, sk_nonblocking = True\<rparr>))
    \<and> fst (connect_thread e) = connected e
    \<and> sk_open (snd (connect_thread e)) = (ce_connect e \<noteq> 0 \<and> ce_errno e \<noteq> EINPROGRESS)"
  using assms by (auto simp: unblock_connect_def setnonblocking_def close_sock_def connected_def connect_thread_def)

theorem unblock_connect_correct_witness:
  "unblock_connect \<lparr>ce_socket = 4, ce_connect = - 1, ce_errno = 111, ce_select = 0, ce_writable = False,
       ce_getsockopt = 0, ce_so_error = 0\<rparr> = (- 1, \<lparr>sk_open = True, sk_nonblocking = True\<rparr>)"
  using unblock_connect_correct [of "\<lparr>ce_socket = 4, ce_connect = - 1, ce_errno = 111, ce_select = 0,
       ce_writable = False, ce_getsockopt = 0, ce_so_error = 0\<rparr>"]
  by (simp add: connected_def EINPROGRESS_def)

section \<open>The client of the chat server\<close>

text \<open>
  What is typed goes through a pipe to the socket by two calls of \<open>splice\<close>, of which the second may
  move less than there is. A round has the events that \<open>poll\<close> reports, what can be read from the
  socket and from the terminal, and how many bytes the second \<open>splice\<close> moves.
\<close>

definition CLIENT_BUFFER_SIZE :: nat where "CLIENT_BUFFER_SIZE = 100"

record client_round =
  cr_poll :: int
  cr_rdhup :: bool
  cr_in :: bool
  cr_data :: "byte list"
  cr_stdin :: bool
  cr_typed :: "byte list"
  cr_moved :: nat

record chat_client =
  cc_running :: bool
  cc_pipe :: "byte list"
  cc_sent :: "byte list"
  cc_printed :: "byte list list"

definition show_message :: "client_round \<Rightarrow> chat_client \<Rightarrow> chat_client" where
  "show_message r s =
     s\<lparr>cc_printed := cc_printed s @ [takeWhile (\<lambda>b. b \<noteq> 0) (take (CLIENT_BUFFER_SIZE - 1) (cr_data r))]\<rparr>"

definition send_typed :: "client_round \<Rightarrow> chat_client \<Rightarrow> chat_client" where
  "send_typed r s =
     (let buf = cc_pipe s @ take 32768 (cr_typed r); n = min (cr_moved r) 32768
      in s\<lparr>cc_pipe := drop n buf, cc_sent := cc_sent s @ take n buf\<rparr>)"

definition client_step :: "client_round \<Rightarrow> chat_client \<Rightarrow> chat_client" where
  "client_step r s =
     (if \<not> cc_running s then s
      else if cr_poll r < 0 then s\<lparr>cc_running := False\<rparr>
      else if cr_rdhup r then s\<lparr>cc_running := False\<rparr>
      else
        (let s = (if cr_in r then show_message r s else s)
         in if cr_stdin r then send_typed r s else s))"

definition client_start :: chat_client where
  "client_start = \<lparr>cc_running = True, cc_pipe = [], cc_sent = [], cc_printed = []\<rparr>"

definition client_takes :: "client_round \<Rightarrow> chat_client \<Rightarrow> bool" where
  "client_takes r s \<longleftrightarrow> cc_running s \<and> 0 \<le> cr_poll r \<and> \<not> cr_rdhup r \<and> cr_stdin r"

definition client_in :: "client_round \<Rightarrow> chat_client \<Rightarrow> byte list" where
  "client_in r s = (if client_takes r s then take 32768 (cr_typed r) else [])"

definition client_out :: "client_round \<Rightarrow> chat_client \<Rightarrow> byte list" where
  "client_out r s =
     (if client_takes r s then take (min (cr_moved r) 32768) (cc_pipe s @ take 32768 (cr_typed r)) else [])"

lemma client_pipe: "client_out r s @ cc_pipe (client_step r s) = cc_pipe s @ client_in r s"
proof (cases "client_takes r s")
  case True
  then have "cc_pipe (client_step r s) = drop (min (cr_moved r) 32768) (cc_pipe s @ take 32768 (cr_typed r))"
    by (auto simp: client_takes_def client_step_def send_typed_def show_message_def Let_def simp del: drop_append)
  then show ?thesis using True unfolding client_out_def client_in_def by (simp only: if_True append_take_drop_id)
next
  case False
  then show ?thesis
    by (auto simp: client_takes_def client_step_def show_message_def client_out_def client_in_def Let_def)
qed

interpretation client: queue client_step "\<lambda>_. True" cc_pipe client_in client_out
  by unfold_locales (simp_all add: client_pipe)

lemma client_sent: "cc_sent (run_ops client_step rs s) = cc_sent s @ out_ops client_step client_out rs s"
proof (induction rs arbitrary: s)
  case (Cons r rs)
  have "cc_sent (client_step r s) = cc_sent s @ client_out r s"
    by (auto simp: client_step_def client_out_def client_takes_def send_typed_def show_message_def Let_def)
  then show ?case using Cons by simp
qed simp

text \<open>The client loses and reorders nothing: what it has sent, followed by what is still in its pipe, is what it took from the terminal.\<close>

lemma client_in_order:
  "cc_sent (run_ops client_step rs client_start) @ cc_pipe (run_ops client_step rs client_start)
     = out_ops client_step client_in rs client_start"
  using client.run_order [of rs client_start] by (simp add: client_sent) (simp add: client_start_def)

end
