(* ===== verification/Udp_Pair.thy ===== *)
theory Udp_Pair
  imports Prelude
begin

unbundle bit_operations_syntax

text \<open>
  The server and the client of \<open>operating_systems_three_easy_pieces/code/udp\<close>: one datagram each way. What the
  system calls answer is an argument.
\<close>

section \<open>Addresses\<close>

record sockaddr_in =
  sin_addr :: "byte list"
  sin_port :: "16 word"

datatype udp_line = Host "byte list" "16 word" | From_client string | From_server string | Hello_sent | Perror string

text \<open>The two bytes of a port are swapped between the network's order and the machine's.\<close>

definition htons :: "16 word \<Rightarrow> 16 word" where
  "htons p = push_bit 8 p OR drop_bit 8 p"

definition print_ipv4 :: "sockaddr_in \<Rightarrow> udp_line" where
  "print_ipv4 s = Host (sin_addr s) (htons (sin_port s))"

definition servaddr :: sockaddr_in where
  "servaddr = \<lparr>sin_addr = [0, 0, 0, 0], sin_port = htons 8080\<rparr>"

section \<open>The buffer\<close>

definition MAXLINE :: nat where
  "MAXLINE = 1024"

text \<open>
  \<open>recvfrom\<close> puts at most \<open>MAXLINE\<close> bytes of a datagram into the buffer and returns their number, or fails with
  \<open>-1\<close>; then \<open>buffer[n]\<close> is set to zero, and what stands before the first zero is printed.
\<close>

definition recvfrom :: "string option \<Rightarrow> string \<Rightarrow> int \<times> string" where
  "recvfrom answer buffer =
     (case answer of
        None \<Rightarrow> (-1, buffer)
      | Some d \<Rightarrow> (let n = min (length d) MAXLINE in (int n, take n d @ drop n buffer)))"

definition put_char :: "string \<Rightarrow> int \<Rightarrow> char \<Rightarrow> fault + string" where
  "put_char buffer n c = (if 0 \<le> n \<and> n < int (length buffer) then Inr (buffer[nat n := c]) else Inl OutOfBounds)"

definition c_string :: "string \<Rightarrow> string" where
  "c_string b = takeWhile (\<lambda>c. c \<noteq> CHR 0x00) b"

definition receive_line :: "string option \<Rightarrow> string \<Rightarrow> fault + string" where
  "receive_line answer buffer =
     (case recvfrom answer buffer of (n, b) \<Rightarrow> bindE (put_char b n (CHR 0x00)) (\<lambda>b. Inr (c_string b)))"

section \<open>The programs\<close>

record udp_run =
  udp_out :: "udp_line list"
  udp_sent :: "(string \<times> sockaddr_in) list"
  udp_status :: int

definition udp_server_main :: "int \<Rightarrow> int \<Rightarrow> (string \<times> sockaddr_in) option \<Rightarrow> string \<Rightarrow> fault + udp_run" where
  "udp_server_main sockfd bound answer buffer =
     (if sockfd < 0 then Inr \<lparr>udp_out = [Perror ''socket creation failed''], udp_sent = [], udp_status = 1\<rparr>
      else if bound < 0
      then Inr \<lparr>udp_out = [print_ipv4 servaddr, Perror ''bind failed''], udp_sent = [], udp_status = 1\<rparr>
      else bindE (receive_line (map_option fst answer) buffer) (\<lambda>text.
             let cliaddr = (case answer of None \<Rightarrow> \<lparr>sin_addr = [0, 0, 0, 0], sin_port = 0\<rparr> | Some (d, a) \<Rightarrow> a)
             in Inr \<lparr>udp_out = [print_ipv4 servaddr, From_client text, print_ipv4 cliaddr, Hello_sent, print_ipv4 cliaddr],
                     udp_sent = [(''Hello from server'', cliaddr)], udp_status = 0\<rparr>))"

text \<open>
  The client passes \<open>recvfrom\<close> a length of the address that it never sets; the answer of the kernel may therefore be
  a failure, or leave the address as it was.
\<close>

definition udp_client_main :: "int \<Rightarrow> (string \<times> sockaddr_in) option \<Rightarrow> string \<Rightarrow> fault + udp_run" where
  "udp_client_main sockfd answer buffer =
     (if sockfd < 0 then Inr \<lparr>udp_out = [Perror ''socket creation failed''], udp_sent = [], udp_status = 1\<rparr>
      else bindE (receive_line (map_option fst answer) buffer) (\<lambda>text.
             let addr = (case answer of None \<Rightarrow> servaddr | Some (d, a) \<Rightarrow> a)
             in Inr \<lparr>udp_out = [print_ipv4 servaddr, Hello_sent, print_ipv4 servaddr, From_server text, print_ipv4 addr],
                     udp_sent = [(''Hello from client'', servaddr)], udp_status = 0\<rparr>))"

section \<open>What they do\<close>

lemma htons_htons [simp]: "htons (htons p) = p"
  by (rule bit_word_eqI) (auto simp: htons_def bit_simps)

lemma c_string_zero: "c_string (xs @ CHR 0x00 # ys) = c_string xs"
  unfolding c_string_def by (induction xs) auto

lemma c_string_take:
  assumes "n < length b"
  shows "c_string (b[n := CHR 0x00]) = c_string (take n b)"
  using assms by (simp add: upd_conv_take_nth_drop c_string_zero)

text \<open>Receiving a line works exactly for datagrams that leave room for the zero.\<close>

lemma receive_line_spec:
  assumes "length buffer = MAXLINE"
  shows "receive_line answer buffer =
    (case answer of None \<Rightarrow> Inl OutOfBounds | Some d \<Rightarrow> if length d < MAXLINE then Inr (c_string d) else Inl OutOfBounds)"
proof (cases answer)
  case (Some d)
  have l: "length (take n d @ drop n buffer) = MAXLINE" if "n = min (length d) MAXLINE" for n using that assms by simp
  show ?thesis
  proof (cases "length d < MAXLINE")
    case True
    then have "c_string ((d @ drop (length d) buffer)[length d := CHR 0x00]) = c_string d"
      using assms by (subst c_string_take) simp_all
    then show ?thesis using Some True assms by (simp add: receive_line_def recvfrom_def put_char_def Let_def)
  qed (use Some assms in \<open>simp add: receive_line_def recvfrom_def put_char_def Let_def\<close>)
qed (simp add: receive_line_def recvfrom_def put_char_def)

text \<open>
  A datagram of \<open>MAXLINE\<close> bytes or more, or a failed \<open>recvfrom\<close>, makes server and client write outside of the buffer,
  before it or behind it. Every other datagram is printed up to its first zero and answered to its sender.
\<close>

theorem udp_long_datagram:
  assumes "length buffer = MAXLINE" "0 \<le> sockfd" "0 \<le> bound"
  shows "udp_server_main sockfd bound answer buffer =
    (case answer of
       None \<Rightarrow> Inl OutOfBounds
     | Some (d, a) \<Rightarrow>
         if MAXLINE \<le> length d then Inl OutOfBounds
         else Inr \<lparr>udp_out = [Host [0, 0, 0, 0] 8080, From_client (c_string d), print_ipv4 a, Hello_sent, print_ipv4 a],
                   udp_sent = [(''Hello from server'', a)], udp_status = 0\<rparr>)"
  using assms
  by (auto simp: udp_server_main_def receive_line_spec print_ipv4_def servaddr_def Let_def split: option.splits)

theorem udp_long_datagram_witness:
  "udp_server_main 3 0 (Some (replicate 1024 CHR ''x'', servaddr)) (replicate 1024 CHR 0x00) = Inl OutOfBounds"
  using udp_long_datagram [of "replicate 1024 CHR 0x00" 3 0 "Some (replicate 1024 CHR ''x'', servaddr)"]
  by (simp add: MAXLINE_def)

text \<open>
  Each program on its own sends what the other one expects: when the network delivers both datagrams, the server prints
  the client's greeting and the client the server's.
\<close>

lemma udp_exchange:
  assumes "length b = MAXLINE" "length b' = MAXLINE" "0 \<le> fd" "0 \<le> fd'" "0 \<le> bound"
  shows "\<exists>r r'. udp_client_main fd (Some (''Hello from server'', servaddr)) b = Inr r
    \<and> udp_server_main fd' bound (Some (fst (hd (udp_sent r)), a)) b' = Inr r'
    \<and> udp_sent r' = [(''Hello from server'', a)]
    \<and> From_client ''Hello from client'' \<in> set (udp_out r') \<and> From_server ''Hello from server'' \<in> set (udp_out r)"
  using assms
  by (simp add: udp_client_main_def udp_server_main_def receive_line_spec Let_def MAXLINE_def c_string_def)

end
