(* ===== verification/Sys_Calls.thy ===== *)
theory Sys_Calls
  imports Udp_Pair
begin

text \<open>
  What the network programs of \<open>high_perf_linux_server_prog/code\<close> have in common: reading an address from the command
  line, and a program as a tree of system calls, each continued with what the kernel answers. Running such
  a program against a kernel, an argument, gives how it ends and everything it did on the way.
\<close>

section \<open>Numbers and addresses as text\<close>

definition dec_digit :: "nat \<Rightarrow> char" where
  "dec_digit n = char_of (48 + n)"

fun decimal :: "nat \<Rightarrow> string" where
  "decimal n = (if n < 10 then [dec_digit n] else decimal (n div 10) @ [dec_digit (n mod 10)])"

declare decimal.simps [simp del]

definition dec_int :: "int \<Rightarrow> string" where
  "dec_int i = (if i < 0 then CHR ''-'' # decimal (nat (- i)) else decimal (nat i))"

definition is_digit :: "char \<Rightarrow> bool" where
  "is_digit c \<longleftrightarrow> 48 \<le> (of_char c :: nat) \<and> (of_char c :: nat) \<le> 57"

definition dec_value :: "char \<Rightarrow> nat" where
  "dec_value c = of_char c - 48"

definition value_of :: "string \<Rightarrow> nat" where
  "value_of ds = fold (\<lambda>c n. 10 * n + dec_value c) ds 0"

definition is_space :: "char \<Rightarrow> bool" where
  "is_space c \<longleftrightarrow> c \<in> {CHR '' '', CHR 0x09, CHR 0x0A, CHR 0x0B, CHR 0x0C, CHR 0x0D}"

text \<open>\<open>atoi\<close> reads a number and converts it to \<open>int\<close>; what follows the digits is ignored, and no digits are zero.\<close>

definition atoi :: "string \<Rightarrow> int" where
  "atoi s =
     (case dropWhile is_space s of
        [] \<Rightarrow> 0
      | c # cs \<Rightarrow>
          if c = CHR ''-'' then s32 (- int (value_of (takeWhile is_digit cs)))
          else if c = CHR ''+'' then s32 (int (value_of (takeWhile is_digit cs)))
          else s32 (int (value_of (takeWhile is_digit (c # cs)))))"

text \<open>\<open>inet_pton\<close> takes four numbers up to 255 without leading zeros, and \<open>inet_ntop\<close> prints them.\<close>

fun split_dots :: "string \<Rightarrow> string list" where
  "split_dots [] = [[]]"
| "split_dots (c # cs) =
     (if c = CHR ''.'' then [] # split_dots cs else (c # hd (split_dots cs)) # tl (split_dots cs))"

definition octet_ok :: "string \<Rightarrow> bool" where
  "octet_ok p \<longleftrightarrow> p \<noteq> [] \<and> list_all is_digit p \<and> value_of p \<le> 255 \<and> (hd p = dec_digit 0 \<longrightarrow> length p = 1)"

definition inet_pton :: "string \<Rightarrow> byte list option" where
  "inet_pton s =
     (let ps = split_dots s
      in if length ps = 4 \<and> list_all octet_ok ps then Some (map (\<lambda>p. of_nat (value_of p)) ps) else None)"

definition inet_ntop :: "byte list \<Rightarrow> string" where
  "inet_ntop bs = concat (decimal (unat (hd bs)) # map (\<lambda>b. CHR ''.'' # decimal (unat b)) (tl bs))"

text \<open>
  How all programs fill an address: zero, then what \<open>inet_pton\<close> makes of the text, whose result they do not look at.
\<close>

definition fill_address :: "string \<Rightarrow> string \<Rightarrow> sockaddr_in" where
  "fill_address ip port =
     \<lparr>sin_addr = (case inet_pton ip of None \<Rightarrow> [0, 0, 0, 0] | Some a \<Rightarrow> a), sin_port = htons (word_of_int (atoi port))\<rparr>"

text \<open>\<open>basename\<close> of a path without a trailing slash.\<close>

definition base_name :: "string \<Rightarrow> string" where
  "base_name path = rev (takeWhile (\<lambda>c. c \<noteq> CHR ''/'') (rev path))"

lemma digit_simps [simp]:
  "n < 10 \<Longrightarrow> is_digit (dec_digit n)" "n < 10 \<Longrightarrow> dec_value (dec_digit n) = n"
  by (simp_all add: is_digit_def dec_digit_def dec_value_def)

lemma dec_digit_zero: "dec_digit 0 = CHR ''0''"
  by code_simp

lemma dec_digits: "list_all is_digit (decimal n)" "decimal n \<noteq> []"
  by (induction n rule: decimal.induct) (subst decimal.simps; simp)+

lemma value_of_snoc: "value_of (ds @ [c]) = 10 * value_of ds + dec_value c"
  by (simp add: value_of_def)

lemma value_of_dec [simp]: "value_of (decimal n) = n"
proof (induction n rule: decimal.induct)
  case (1 n)
  show ?case
  proof (cases "n < 10")
    case True
    then show ?thesis by (subst decimal.simps) (simp add: value_of_def)
  next
    case False
    then show ?thesis using 1 by (subst decimal.simps) (simp add: value_of_snoc)
  qed
qed

lemma digit_not_sign: "is_digit c \<Longrightarrow> \<not> is_space c \<and> c \<noteq> CHR ''-'' \<and> c \<noteq> CHR ''+'' \<and> c \<noteq> CHR ''.''"
  by (auto simp: is_digit_def is_space_def)

lemma takeWhile_digits: "list_all is_digit ds \<Longrightarrow> takeWhile is_digit ds = ds"
  by (induction ds) auto

lemma atoi_digits:
  assumes "list_all is_digit ds" "ds \<noteq> []"
  shows "atoi ds = s32 (int (value_of ds))"
proof -
  obtain c cs where ds: "ds = c # cs" using assms(2) by (cases ds) auto
  then have c: "is_digit c" using assms(1) by simp
  have "dropWhile is_space ds = c # cs" using ds digit_not_sign [OF c] by simp
  then show ?thesis using assms(1) ds digit_not_sign [OF c] by (simp add: atoi_def takeWhile_digits)
qed

lemma atoi_dec: "int n < 2 ^ 31 \<Longrightarrow> atoi (decimal n) = int n"
  using atoi_digits [OF dec_digits [of n]] by (simp add: s32_id)

lemma split_dots_digits: "list_all is_digit ds \<Longrightarrow> split_dots ds = [ds]"
  by (induction ds) (use digit_not_sign in auto)

lemma split_dots_cons: "list_all is_digit ds \<Longrightarrow> split_dots (ds @ CHR ''.'' # cs) = ds # split_dots cs"
  by (induction ds) (use digit_not_sign in auto)

lemma dec_no_zero: "0 < n \<Longrightarrow> hd (decimal n) \<noteq> dec_digit 0"
proof (induction n rule: decimal.induct)
  case (1 n)
  show ?case
  proof (cases "n < 10")
    case True
    then have "dec_value (dec_digit n) \<noteq> dec_value (dec_digit 0)" using 1 by simp
    then have "dec_digit n \<noteq> dec_digit 0" by metis
    then show ?thesis using True by (subst decimal.simps) simp
  next
    case False
    then show ?thesis using 1 dec_digits(2) [of "n div 10"] by (subst decimal.simps) simp
  qed
qed

lemma octet_dec: "n \<le> 255 \<Longrightarrow> octet_ok (decimal n)"
  using dec_digits [of n] dec_no_zero [of n] value_of_dec [of n] by (cases "n = 0") (simp_all add: octet_ok_def decimal.simps [of 0])

lemma unat_lt_8: "unat (x :: byte) < 256"
proof -
  have "unat x < 2 ^ LENGTH(8)" by (rule unsigned_less)
  then show ?thesis by simp
qed

lemma pton_ntop:
  assumes "length bs = 4"
  shows "inet_pton (inet_ntop bs) = Some bs"
proof -
  obtain a b c d where bs: "bs = [a, b, c, d]" using assms by (auto simp: numeral_eq_Suc length_Suc_conv)
  have "split_dots (inet_ntop bs) = [decimal (unat a), decimal (unat b), decimal (unat c), decimal (unat d)]"
    by (simp add: bs inet_ntop_def split_dots_cons split_dots_digits dec_digits)
  moreover have "unat x \<le> 255" for x :: byte using unat_lt_8 [of x] by simp
  ultimately show ?thesis by (simp add: inet_pton_def octet_dec bs)
qed

section \<open>Programs as trees of system calls\<close>

datatype sock_type = Stream | Datagram

datatype syscall =
    Socket sock_type | Reuse_addr int | Set_option int string int | Get_option int string | Bind int sockaddr_in
  | Listen int int | Accept int | Connect int sockaddr_in | Send int string bool | Recv int nat | Close int
  | Epoll_create | Epoll_add int int bool | Epoll_wait int | Get_flags int | Set_nonblock int int
  | Socket_pair | Pipe | Sig_action int | Set_owner int | Open_file string | File_size int | Send_file int int int
  | Splice int int nat | Sleep int | Send_timeout int int

text \<open>
  What a call returns: the value, \<open>errno\<close>, a pair of descriptors for the calls that make two, the descriptors with
  events for \<open>epoll_wait\<close>, and the address of the peer for \<open>accept\<close>.
\<close>

record answer =
  ret :: int
  err :: int
  two :: "int \<times> int"
  ready :: "int list"
  peer :: sockaddr_in

datatype sys_event = Did syscall answer | Printed string

type_synonym kernel_answers = "sys_event list \<Rightarrow> syscall \<Rightarrow> answer"

text \<open>
  \<open>Abort\<close> is a failed \<open>assert\<close>, \<open>Crash\<close> the use of a null pointer, \<open>Exit\<close> the end of \<open>main\<close>, and \<open>Enter\<close> that the program goes on
  from here with the value given, such as the descriptors it has set up.
\<close>

datatype 'a prog = Call syscall "answer \<Rightarrow> 'a prog" | Say string "'a prog" | Abort | Crash | Exit int | Enter 'a

datatype 'a outcome = Aborted | Crashed | Exited int | Entered 'a

primrec run :: "kernel_answers \<Rightarrow> 'a prog \<Rightarrow> sys_event list \<Rightarrow> 'a outcome \<times> sys_event list" where
  "run K (Call c f) h = run K (f (K h c)) (h @ [Did c (K h c)])"
| "run K (Say s p) h = run K p (h @ [Printed s])"
| "run K Abort h = (Aborted, h)"
| "run K Crash h = (Crashed, h)"
| "run K (Exit n) h = (Exited n, h)"
| "run K (Enter x) h = (Entered x, h)"

primrec followed_by :: "'a prog \<Rightarrow> ('a \<Rightarrow> 'b prog) \<Rightarrow> 'b prog" where
  "followed_by (Call c f) g = Call c (\<lambda>a. followed_by (f a) g)"
| "followed_by (Say s p) g = Say s (followed_by p g)"
| "followed_by Abort g = Abort"
| "followed_by Crash g = Crash"
| "followed_by (Exit n) g = Exit n"
| "followed_by (Enter x) g = g x"

definition sys :: "syscall \<Rightarrow> (int \<Rightarrow> 'a prog) \<Rightarrow> 'a prog" where
  "sys c k = Call c (\<lambda>a. k (ret a))"

definition do_call :: "syscall \<Rightarrow> 'a prog \<Rightarrow> 'a prog" where
  "do_call c p = Call c (\<lambda>a. p)"

definition check :: "bool \<Rightarrow> 'a prog \<Rightarrow> 'a prog" where
  "check b p = (if b then p else Abort)"

text \<open>A call followed by \<open>assert(ret != -1)\<close>.\<close>

definition must :: "syscall \<Rightarrow> 'a prog \<Rightarrow> 'a prog" where
  "must c p = sys c (\<lambda>r. check (r \<noteq> -1) p)"

lemma run_simps [simp]:
  "run K (sys c k) h = run K (k (ret (K h c))) (h @ [Did c (K h c)])"
  "run K (do_call c p) h = run K p (h @ [Did c (K h c)])"
  "run K (check b p) h = (if b then run K p h else (Aborted, h))"
  "run K (must c p) h = (if ret (K h c) \<noteq> -1 then run K p (h @ [Did c (K h c)]) else (Aborted, h @ [Did c (K h c)]))"
  by (simp_all add: sys_def do_call_def check_def must_def)

lemma run_followed_by:
  "run K (followed_by p g) h =
     (case run K p h of
        (Entered x, h') \<Rightarrow> run K (g x) h'
      | (Aborted, h') \<Rightarrow> (Aborted, h') | (Crashed, h') \<Rightarrow> (Crashed, h') | (Exited n, h') \<Rightarrow> (Exited n, h'))"
  by (induction p arbitrary: h) simp_all

text \<open>A program only ever adds to its history.\<close>

lemma run_extends: "\<exists>e. snd (run K p h) = h @ e"
proof (induction p arbitrary: h)
  case (Call c f)
  then show ?case by (metis append.assoc rangeI run.simps(1))
next
  case (Say s p)
  then show ?case by (metis append.assoc run.simps(2))
qed simp_all

lemma run_answers:
  assumes "\<forall>c a. Did c a \<in> set h \<longrightarrow> (\<exists>g. a = K g c)"
  shows "Did c a \<in> set (snd (run K p h)) \<Longrightarrow> \<exists>g. a = K g c"
  using assms
proof (induction p arbitrary: h)
  case (Call d f)
  show ?case using Call.IH [OF rangeI Call.prems(1) [simplified]] Call.prems(2) by auto
next
  case (Say s p)
  show ?case using Say.IH [OF Say.prems(1) [simplified]] Say.prems(2) by auto
qed auto

section \<open>Descriptors\<close>

text \<open>The descriptors a history leaves open.\<close>

fun gives :: "syscall \<Rightarrow> answer \<Rightarrow> int list" where
  "gives (Socket t) a = [ret a]"
| "gives (Accept fd) a = [ret a]"
| "gives Epoll_create a = [ret a]"
| "gives (Open_file f) a = [ret a]"
| "gives Socket_pair a = (if ret a = -1 then [] else [fst (two a), snd (two a)])"
| "gives Pipe a = (if ret a = -1 then [] else [fst (two a), snd (two a)])"
| "gives _ a = []"

fun fd_event :: "sys_event \<Rightarrow> int set \<Rightarrow> int set" where
  "fd_event (Did (Close fd) a) A = A - {fd}"
| "fd_event (Did c a) A = A \<union> set (filter (\<lambda>fd. 0 \<le> fd) (gives c a))"
| "fd_event (Printed s) A = A"

definition open_fds :: "sys_event list \<Rightarrow> int set" where
  "open_fds h = fold fd_event h {}"

lemma open_fds_simps [simp]:
  "open_fds [] = {}" "open_fds (h @ [e]) = fd_event e (open_fds h)"
  by (simp_all add: open_fds_def)

text \<open>
  What is documented of the kernel: a failed call returns \<open>-1\<close>, a new descriptor is not one that is open, and the two of
  a pair are descriptors that differ.
\<close>

definition answer_ok :: "sys_event list \<Rightarrow> syscall \<Rightarrow> answer \<Rightarrow> bool" where
  "answer_ok h c a \<longleftrightarrow> -1 \<le> ret a \<and> distinct (gives c a) \<and> set (gives c a) \<inter> open_fds h = {}
     \<and> (c \<in> {Socket_pair, Pipe} \<longrightarrow> ret a \<noteq> -1 \<longrightarrow> 0 \<le> fst (two a) \<and> 0 \<le> snd (two a))"

definition posix :: "kernel_answers \<Rightarrow> bool" where
  "posix K \<longleftrightarrow> (\<forall>h c. answer_ok h c (K h c))"

text \<open>A property of every way a program can end, whatever such a kernel answers.\<close>

primrec ends_in :: "('a outcome \<Rightarrow> sys_event list \<Rightarrow> bool) \<Rightarrow> 'a prog \<Rightarrow> sys_event list \<Rightarrow> bool" where
  "ends_in Q (Call c f) h = (\<forall>a. answer_ok h c a \<longrightarrow> ends_in Q (f a) (h @ [Did c a]))"
| "ends_in Q (Say s p) h = ends_in Q p (h @ [Printed s])"
| "ends_in Q Abort h = Q Aborted h"
| "ends_in Q Crash h = Q Crashed h"
| "ends_in Q (Exit n) h = Q (Exited n) h"
| "ends_in Q (Enter x) h = Q (Entered x) h"

lemma ends_in_run: "posix K \<Longrightarrow> ends_in Q p h \<Longrightarrow> Q (fst (run K p h)) (snd (run K p h))"
  by (induction p arbitrary: h) (simp_all add: posix_def)

lemma ends_in_simps [simp]:
  "ends_in Q (sys c k) h = (\<forall>a. answer_ok h c a \<longrightarrow> ends_in Q (k (ret a)) (h @ [Did c a]))"
  "ends_in Q (do_call c p) h = (\<forall>a. answer_ok h c a \<longrightarrow> ends_in Q p (h @ [Did c a]))"
  "ends_in Q (check b p) h = (if b then ends_in Q p h else Q Aborted h)"
  "ends_in Q (must c p) h =
     (\<forall>a. answer_ok h c a \<longrightarrow> (if ret a = -1 then Q Aborted (h @ [Did c a]) else ends_in Q p (h @ [Did c a])))"
  by (auto simp: sys_def do_call_def check_def must_def)

text \<open>A kernel that grants everything, with descriptors above all that are open.\<close>

definition granting :: kernel_answers where
  "granting h c =
     (let fd = Max (insert 2 (open_fds h)) + 1
      in \<lparr>ret = (if c \<in> {Socket_pair, Pipe} \<or> gives c \<lparr>ret = fd, err = 0, two = (fd, fd), ready = [], peer = servaddr\<rparr> = []
                then 0 else fd),
          err = 0, two = (fd, fd + 1), ready = [], peer = servaddr\<rparr>)"

lemma finite_fd_event: "finite A \<Longrightarrow> finite (fd_event e A)"
  by (cases "(e, A)" rule: fd_event.cases) auto

lemma finite_open_fds [simp]: "finite (open_fds h)"
  by (induction h rule: rev_induct) (simp_all add: finite_fd_event)

lemma posix_granting: "posix granting"
proof -
  have "answer_ok h c (granting h c)" for h c
  proof -
    let ?fd = "Max (insert 2 (open_fds h)) + 1"
    have "x < ?fd" if "x \<in> open_fds h" for x
      using that Max_ge [of "insert 2 (open_fds h)" x] by simp
    then have "?fd \<notin> open_fds h" "?fd + 1 \<notin> open_fds h" by (metis less_irrefl, metis add_less_same_cancel1 not_one_less_zero)
    moreover have "2 \<le> Max (insert 2 (open_fds h))" by (rule Max_ge) simp_all
    moreover from this have "0 < ?fd" by linarith
    ultimately show ?thesis by (cases c) (simp_all add: granting_def answer_ok_def Let_def)
  qed
  then show ?thesis by (simp add: posix_def)
qed

lemma granting_ret: "0 \<le> ret (granting h c)" "ret (granting h c) \<noteq> -1" "c \<in> {Socket t, Epoll_create} \<Longrightarrow> 0 < ret (granting h c)"
proof -
  have "2 \<le> Max (insert 2 (open_fds h))" by (rule Max_ge) simp_all
  then obtain fd where fd: "Max (insert 2 (open_fds h)) + 1 = fd" "0 < fd" by simp
  then show "0 \<le> ret (granting h c)" "ret (granting h c) \<noteq> -1" by (simp_all add: granting_def Let_def del: Max_insert)
  show "0 < ret (granting h c)" if "c \<in> {Socket t, Epoll_create}"
    using that fd by (auto simp: granting_def Let_def simp del: Max_insert)
qed

end
