(* ===== verification/Server_Setup.thy ===== *)
theory Server_Setup
  imports Sys_Calls
begin

unbundle bit_operations_syntax

text \<open>
  How the servers of \<open>high_perf_linux_server_prog/code\<close> get from their command line to the descriptors they work
  with, and how they end. Their loops are modelled in Chat_Server, Timer_Server, Epoll_Servers and Io_Multiplex; here a loop
  is an argument.
\<close>

section \<open>What several programs share\<close>

definition usage :: "nat \<Rightarrow> string \<Rightarrow> string list \<Rightarrow> 'a prog \<Rightarrow> 'a prog" where
  "usage n parameters argv p =
     (if length argv \<le> n then Say (''usage: '' @ base_name (argv ! 0) @ '' '' @ parameters) (Exit 1) else p)"

definition address_of :: "string list \<Rightarrow> sockaddr_in" where
  "address_of argv = fill_address (argv ! 1) (argv ! 2)"

definition O_NONBLOCK :: int where
  "O_NONBLOCK = 2048"

definition set_nonblocking :: "int \<Rightarrow> 'a prog \<Rightarrow> 'a prog" where
  "set_nonblocking fd p = sys (Get_flags fd) (\<lambda>old. do_call (Set_nonblock fd (old OR O_NONBLOCK)) p)"

definition add_fd :: "int \<Rightarrow> int \<Rightarrow> bool \<Rightarrow> 'a prog \<Rightarrow> 'a prog" where
  "add_fd epollfd fd edge p = do_call (Epoll_add epollfd fd edge) (set_nonblocking fd p)"

text \<open>The signal server looks at the results.\<close>

definition set_nonblocking_checked :: "int \<Rightarrow> 'a prog \<Rightarrow> 'a prog" where
  "set_nonblocking_checked fd p = sys (Get_flags fd) (\<lambda>old. must (Set_nonblock fd (old OR O_NONBLOCK)) p)"

definition add_fd_checked :: "int \<Rightarrow> int \<Rightarrow> 'a prog \<Rightarrow> 'a prog" where
  "add_fd_checked epollfd fd p = must (Epoll_add epollfd fd True) (set_nonblocking_checked fd p)"

definition add_sig :: "int \<Rightarrow> 'a prog \<Rightarrow> 'a prog" where
  "add_sig sig p = must (Sig_action sig) p"

definition SIG_HUP :: int where "SIG_HUP = 1"
definition SIG_INT :: int where "SIG_INT = 2"
definition SIG_ALRM :: int where "SIG_ALRM = 14"
definition SIG_TERM :: int where "SIG_TERM = 15"
definition SIG_CHLD :: int where "SIG_CHLD = 17"
definition SIG_URG :: int where "SIG_URG = 23"

text \<open>The descriptors of a server; those it does not have are \<open>-1\<close>.\<close>

record server_fds =
  listenfd :: int
  connfd :: int
  epollfd :: int
  udpfd :: int
  pipefd :: "int \<times> int"

definition just_listening :: "int \<Rightarrow> server_fds" where
  "just_listening fd = \<lparr>listenfd = fd, connfd = -1, epollfd = -1, udpfd = -1, pipefd = (-1, -1)\<rparr>"

fun close_all :: "int list \<Rightarrow> 'a prog \<Rightarrow> 'a prog" where
  "close_all [] p = p"
| "close_all (fd # fds) p = do_call (Close fd) (close_all fds p)"

text \<open>A server: set-up, loop and clean-up.\<close>

definition server_main ::
  "(string list \<Rightarrow> server_fds prog) \<Rightarrow> (server_fds \<Rightarrow> unit prog) \<Rightarrow> (server_fds \<Rightarrow> unit prog) \<Rightarrow> string list \<Rightarrow> unit prog" where
  "server_main setup loop teardown argv =
     followed_by (setup argv) (\<lambda>fds. followed_by (loop fds) (\<lambda>_. teardown fds))"

section \<open>Servers for one connection\<close>

text \<open>From the socket to the connection, as in the servers with \<open>select\<close>, \<open>poll\<close>, \<open>epoll\<close> and \<open>SIGURG\<close>.\<close>

definition accept_one :: "string list \<Rightarrow> (server_fds \<Rightarrow> server_fds prog) \<Rightarrow> server_fds prog" where
  "accept_one argv k =
     (let address = address_of argv
      in sys (Socket Stream) (\<lambda>fd. check (0 \<le> fd)
        (must (Bind fd address)
        (must (Listen fd 5)
        (Call (Accept fd) (\<lambda>a.
           if ret a < 0 then Say (''error is: '' @ dec_int (err a)) (do_call (Close fd) (Exit 1))
           else k ((just_listening fd)\<lparr>connfd := ret a\<rparr>)))))))"

definition select_setup :: "string list \<Rightarrow> server_fds prog" where
  "select_setup argv = Say ''[Server] Test select'' (usage 2 ''ip_address port_number'' argv (accept_one argv Enter))"

definition poll_setup :: "string list \<Rightarrow> server_fds prog" where
  "poll_setup argv = Say ''[Server] Test poll'' (usage 2 ''ip_address port_number'' argv (accept_one argv Enter))"

definition epoll_setup :: "string list \<Rightarrow> server_fds prog" where
  "epoll_setup argv =
     Say ''[Server] Test epoll'' (usage 2 ''ip_address port_number'' argv (accept_one argv (\<lambda>s.
       Say (''connfd '' @ dec_int (connfd s) @ '' is connected'')
       (sys Epoll_create (\<lambda>fd. check (0 < fd)
       (must (Epoll_add fd (connfd s) False) (Enter (s\<lparr>epollfd := fd\<rparr>))))))))"

definition urgent_setup :: "string list \<Rightarrow> server_fds prog" where
  "urgent_setup argv =
     Say ''[Server] Test SIGURG'' (usage 2 ''ip_address port_number'' argv (accept_one argv (\<lambda>s.
       add_sig SIG_URG (do_call (Set_owner (connfd s)) (Enter s)))))"

definition select_teardown :: "server_fds \<Rightarrow> unit prog" where
  "select_teardown s = Say ''Stop the server'' (close_all [connfd s, listenfd s] (Exit 0))"

definition epoll_teardown :: "server_fds \<Rightarrow> unit prog" where
  "epoll_teardown s = Say ''Stop the server'' (close_all [epollfd s, connfd s, listenfd s] (Exit 0))"

section \<open>Servers for many connections\<close>

definition listen_reuse :: "string \<Rightarrow> string list \<Rightarrow> (int \<Rightarrow> server_fds prog) \<Rightarrow> server_fds prog" where
  "listen_reuse title argv k =
     Say title (usage 2 ''ip_address port_number'' argv
       (sys (Socket Stream) (\<lambda>fd.
         Say (''create listenfd '' @ dec_int fd) (check (0 \<le> fd)
         (must (Reuse_addr fd)
         (must (Bind fd (address_of argv))
         (must (Listen fd 5) (k fd))))))))"

definition chat_setup :: "string list \<Rightarrow> server_fds prog" where
  "chat_setup argv = listen_reuse ''[Server] Test demo - chat'' argv (\<lambda>fd. Enter (just_listening fd))"

definition chat_teardown :: "server_fds \<Rightarrow> unit prog" where
  "chat_teardown s = Say ''Stop the server'' (close_all [listenfd s] (Exit 0))"

definition tcp_udp_setup :: "string list \<Rightarrow> server_fds prog" where
  "tcp_udp_setup argv =
     listen_reuse ''[Server] Test demo - tcp_udp'' argv (\<lambda>fd.
       sys (Socket Datagram) (\<lambda>udp.
         Say (''create udpfd '' @ dec_int udp) (check (0 < udp)
         (must (Bind udp (address_of argv))
         (sys Epoll_create (\<lambda>ep. check (ep \<noteq> -1)
         (add_fd ep fd True
         (add_fd ep udp True
         (Enter ((just_listening fd)\<lparr>udpfd := udp, epollfd := ep\<rparr>))))))))))"

definition tcp_udp_teardown :: "server_fds \<Rightarrow> unit prog" where
  "tcp_udp_teardown s = Say ''Stop the server'' (close_all [listenfd s, udpfd s] (Exit 0))"

definition signal_setup :: "string list \<Rightarrow> server_fds prog" where
  "signal_setup argv =
     listen_reuse ''[Server] Test signal'' argv (\<lambda>fd.
       sys Epoll_create (\<lambda>ep. check (ep \<noteq> -1)
       (add_fd_checked ep fd
       (Call Pipe (\<lambda>a. check (ret a \<noteq> -1)
       (set_nonblocking_checked (snd (two a))
       (add_fd_checked ep (fst (two a))
       (add_sig SIG_HUP (add_sig SIG_CHLD (add_sig SIG_TERM (add_sig SIG_INT
       (Enter ((just_listening fd)\<lparr>epollfd := ep, pipefd := two a\<rparr>)))))))))))))"

definition signal_teardown :: "server_fds \<Rightarrow> unit prog" where
  "signal_teardown s =
     Say ''Stop the server'' (close_all [listenfd s, fst (pipefd s), snd (pipefd s)] (Exit 0))"

text \<open>The timer server reports a failure to bind and returns.\<close>

definition timer_setup :: "string list \<Rightarrow> server_fds prog" where
  "timer_setup argv =
     Say ''[Server] Test timer keepalive'' (usage 2 ''ip_address port_number'' argv
       (sys (Socket Stream) (\<lambda>fd. check (0 \<le> fd)
       (must (Reuse_addr fd)
       (Call (Bind fd (address_of argv)) (\<lambda>b.
          if ret b < 0 then Say (''bind failure, err='' @ dec_int (err b)) (Exit 1)
          else must (Listen fd 5)
       (sys Epoll_create (\<lambda>ep. check (ep \<noteq> -1)
       (add_fd ep fd False
       (Call Socket_pair (\<lambda>a. check (ret a \<noteq> -1)
       (set_nonblocking (snd (two a))
       (add_fd ep (fst (two a)) False
       (add_sig SIG_ALRM (add_sig SIG_TERM
       (Enter ((just_listening fd)\<lparr>epollfd := ep, pipefd := two a\<rparr>)))))))))))))))))"

definition timer_teardown :: "server_fds \<Rightarrow> unit prog" where
  "timer_teardown s = close_all [listenfd s, fst (pipefd s), snd (pipefd s)] (Exit 0)"

text \<open>Its handler passes the number of the signal on to the loop, as one byte.\<close>

definition timer_sig_handler :: "server_fds \<Rightarrow> int \<Rightarrow> 'a prog \<Rightarrow> 'a prog" where
  "timer_sig_handler s sig p = do_call (Send (snd (pipefd s)) [char_of sig] False) p"

definition setups :: "(string list \<Rightarrow> server_fds prog) list" where
  "setups = [select_setup, poll_setup, epoll_setup, urgent_setup, chat_setup, tcp_udp_setup, signal_setup, timer_setup]"

section \<open>What the set-up achieves\<close>

text \<open>What a history makes of each socket.\<close>

datatype sock_state = Unbound | Bound sockaddr_in | Listening sockaddr_in

fun sock_event :: "sys_event \<Rightarrow> (int \<Rightarrow> sock_state option) \<Rightarrow> int \<Rightarrow> sock_state option" where
  "sock_event (Did (Socket t) a) m = (if ret a < 0 then m else m(ret a \<mapsto> Unbound))"
| "sock_event (Did (Bind fd addr) a) m = (if ret a \<noteq> -1 \<and> m fd = Some Unbound then m(fd \<mapsto> Bound addr) else m)"
| "sock_event (Did (Listen fd n) a) m =
     (case m fd of Some (Bound addr) \<Rightarrow> if ret a \<noteq> -1 then m(fd \<mapsto> Listening addr) else m | _ \<Rightarrow> m)"
| "sock_event (Did (Close fd) a) m = m(fd := None)"
| "sock_event _ m = m"

definition sock_states :: "sys_event list \<Rightarrow> int \<Rightarrow> sock_state option" where
  "sock_states h = fold sock_event h Map.empty"

lemma sock_states_simps [simp]:
  "sock_states [] = Map.empty" "sock_states (h @ [e]) = sock_event e (sock_states h)"
  by (simp_all add: sock_states_def)

text \<open>Answers that make the programs give up; some of them do not take descriptor zero either.\<close>

fun refused :: "sys_event \<Rightarrow> bool" where
  "refused (Did c a) \<longleftrightarrow> ret a < 0 \<or> ret a = 0 \<and> c \<in> {Socket Stream, Socket Datagram, Epoll_create}"
| "refused (Printed s) \<longleftrightarrow> False"

fun is_call :: "sys_event \<Rightarrow> bool" where
  "is_call (Did c a) = True"
| "is_call (Printed s) = False"

text \<open>
  Without enough arguments nothing is called. Otherwise the server goes on with a socket that listens at the address
  asked for, or some call was refused.
\<close>

definition sets_up :: "string list \<Rightarrow> server_fds outcome \<Rightarrow> sys_event list \<Rightarrow> bool" where
  "sets_up argv out h \<longleftrightarrow>
     (if length argv \<le> 2 then out = Exited 1 \<and> filter is_call h = []
      else case out of
             Entered s \<Rightarrow> sock_states h (listenfd s) = Some (Listening (address_of argv))
           | Exited n \<Rightarrow> n = 1 \<and> list_ex refused h
           | Aborted \<Rightarrow> list_ex refused h
           | Crashed \<Rightarrow> False)"

lemmas setup_defs = accept_one_def listen_reuse_def usage_def add_fd_def add_fd_checked_def
  set_nonblocking_def set_nonblocking_checked_def add_sig_def just_listening_def Let_def

lemmas history_defs = sock_states_def open_fds_def answer_ok_def

lemma sets_up_select: "ends_in (sets_up argv) (select_setup argv) []"
  by (simp add: select_setup_def setup_defs sets_up_def history_defs)

lemma sets_up_poll: "ends_in (sets_up argv) (poll_setup argv) []"
  by (simp add: poll_setup_def setup_defs sets_up_def history_defs)

lemma sets_up_epoll: "ends_in (sets_up argv) (epoll_setup argv) []"
  by (auto simp: epoll_setup_def setup_defs sets_up_def history_defs)

lemma sets_up_urgent: "ends_in (sets_up argv) (urgent_setup argv) []"
  by (auto simp: urgent_setup_def setup_defs sets_up_def history_defs)

lemma sets_up_chat: "ends_in (sets_up argv) (chat_setup argv) []"
  by (auto simp: chat_setup_def setup_defs sets_up_def history_defs)

lemma sets_up_tcp_udp: "ends_in (sets_up argv) (tcp_udp_setup argv) []"
  by (auto simp: tcp_udp_setup_def setup_defs sets_up_def history_defs)

lemma sets_up_signal: "ends_in (sets_up argv) (signal_setup argv) []"
  by (auto simp: signal_setup_def setup_defs sets_up_def history_defs)

lemma sets_up_timer: "ends_in (sets_up argv) (timer_setup argv) []"
  by (auto simp: timer_setup_def setup_defs sets_up_def history_defs)

lemma sets_up_granted:
  assumes "sets_up argv (fst (run K p [])) (snd (run K p []))" "2 < length argv" "\<forall>h c. \<not> refused (Did c (K h c))"
  shows "\<exists>s. fst (run K p []) = Entered s"
proof -
  have "\<not> list_ex refused (snd (run K p []))"
  proof
    assume "list_ex refused (snd (run K p []))"
    then obtain e where e: "e \<in> set (snd (run K p []))" "refused e" by (auto simp: list_ex_iff)
    obtain c a where "e = Did c a" using e(2) by (cases e) auto
    then show False using e run_answers [of "[]" K c a p] assms(3) by auto
  qed
  then show ?thesis using assms(1,2) by (auto simp: sets_up_def split: outcome.splits)
qed

text \<open>
  C15: Every server, whatever the kernel answers: with too few arguments it says how it is used and calls nothing; otherwise it
  gets to its loop with a socket that listens at the address of its arguments, or it gives up after a call that was
  refused. It does get there if nothing is refused.
\<close>

theorem servers_listen:
  assumes "posix K" "setup \<in> set setups"
  shows "sets_up argv (fst (run K (setup argv) [])) (snd (run K (setup argv) []))
    \<and> (2 < length argv \<longrightarrow> (\<forall>h c. \<not> refused (Did c (K h c))) \<longrightarrow> (\<exists>s. fst (run K (setup argv) []) = Entered s))"
proof -
  have "ends_in (sets_up argv) (setup argv) []"
    using assms(2) sets_up_select sets_up_poll sets_up_epoll sets_up_urgent sets_up_chat sets_up_tcp_udp sets_up_signal
      sets_up_timer by (auto simp: setups_def)
  then have "sets_up argv (fst (run K (setup argv) [])) (snd (run K (setup argv) []))" using ends_in_run [OF assms(1)] by blast
  then show ?thesis using sets_up_granted by blast
qed

text \<open>The address is the one that was typed, for every dotted address and every port.\<close>

lemma address_typed:
  assumes "length ip = 4" "p < 65536" "argv ! 1 = inet_ntop ip" "argv ! 2 = decimal p"
  shows "address_of argv = \<lparr>sin_addr = ip, sin_port = htons (of_nat p)\<rparr>"
  using assms by (simp add: address_of_def fill_address_def pton_ntop atoi_dec)

text \<open>
  Neither part is checked: text that is no address stands for every address of the machine, and a port
  of more than 16 bits for another one.
\<close>

lemmas text_defs = atoi_def value_of_def dec_value_def is_digit_def is_space_def dec_digit_zero

lemma address_unchecked:
  "address_of [''server'', ''localhost'', ''70000''] = \<lparr>sin_addr = [0, 0, 0, 0], sin_port = htons 4464\<rparr>"
proof -
  have "inet_pton ''localhost'' = None" by (simp add: inet_pton_def Let_def)
  moreover have "atoi ''70000'' = 70000" by (simp add: text_defs s32_def)
  moreover have "htons 70000 = htons 4464" by (rule arg_cong [of _ _ htons]) simp
  ultimately show ?thesis by (simp add: address_of_def fill_address_def)
qed

theorem servers_listen_witness:
  "\<exists>s h. run granting (tcp_udp_setup [''server'', ''127.0.0.1'', ''8080'']) [] = (Entered s, h)
     \<and> sock_states h (listenfd s) = Some (Listening \<lparr>sin_addr = [127, 0, 0, 1], sin_port = htons 8080\<rparr>)"
proof -
  let ?argv = "[''server'', ''127.0.0.1'', ''8080'']"
  have g: "\<not> refused (Did c (granting h c))" for h c
    using granting_ret(1) [of h c] granting_ret(3) [of c _ h] by auto
  have t: "tcp_udp_setup \<in> set setups" by (simp add: setups_def)
  obtain s where s: "fst (run granting (tcp_udp_setup ?argv) []) = Entered s"
    using servers_listen [OF posix_granting t, of ?argv] g by auto
  moreover have "address_of ?argv = \<lparr>sin_addr = [127, 0, 0, 1], sin_port = htons 8080\<rparr>"
    by (simp add: address_of_def fill_address_def inet_pton_def octet_ok_def text_defs s32_def Let_def)
  ultimately show ?thesis
    using servers_listen [OF posix_granting t, of ?argv]
    by (intro exI [of _ s] exI [of _ "snd (run granting (tcp_udp_setup ?argv) [])"]) (auto simp: sets_up_def prod_eq_iff)
qed

section \<open>What the clean-up closes\<close>

lemma run_close_all:
  "\<exists>h'. run K (close_all fds p) h = run K p h' \<and> open_fds h' = open_fds h - set fds"
proof (induction fds arbitrary: h)
  case (Cons fd fds)
  obtain h' where "run K (close_all fds p) (h @ [Did (Close fd) (K h (Close fd))]) = run K p h'"
    "open_fds h' = open_fds (h @ [Did (Close fd) (K h (Close fd))]) - set fds" using Cons by blast
  then show ?case by (intro exI [of _ h']) auto
qed auto

lemma open_fds_say [simp]: "open_fds (h @ [Printed s]) = open_fds h"
  by simp

lemma closes:
  "\<exists>h'. run K (Say s (close_all fds (Exit 0))) h = (Exited 0, h') \<and> open_fds h' = open_fds h - set fds"
  using run_close_all [of K fds "Exit 0" "h @ [Printed s]"] by simp

text \<open>
  The servers with one connection close all they have. The other three with \<open>epoll\<close> leave its descriptor open.
\<close>

lemma one_connection_closed:
  "\<exists>h'. run K (select_teardown s) h = (Exited 0, h') \<and> open_fds h' = open_fds h - {connfd s, listenfd s}"
  "\<exists>h'. run K (epoll_teardown s) h = (Exited 0, h') \<and> open_fds h' = open_fds h - {epollfd s, connfd s, listenfd s}"
  "\<exists>h'. run K (chat_teardown s) h = (Exited 0, h') \<and> open_fds h' = open_fds h - {listenfd s}"
  using closes [of K _ "[connfd s, listenfd s]" h] closes [of K _ "[epollfd s, connfd s, listenfd s]" h]
    closes [of K _ "[listenfd s]" h]
  by (simp_all add: select_teardown_def epoll_teardown_def chat_teardown_def)

lemma epoll_left_open:
  assumes "epollfd s \<in> open_fds h" "epollfd s \<notin> {listenfd s, udpfd s, fst (pipefd s), snd (pipefd s)}"
    "teardown \<in> {tcp_udp_teardown, signal_teardown, timer_teardown}"
  shows "\<exists>h'. run K (teardown s) h = (Exited 0, h') \<and> epollfd s \<in> open_fds h'"
proof -
  have "\<exists>h'. run K (tcp_udp_teardown s) h = (Exited 0, h') \<and> epollfd s \<in> open_fds h'"
    using assms closes [of K _ "[listenfd s, udpfd s]" h] unfolding tcp_udp_teardown_def by fastforce
  moreover have "\<exists>h'. run K (signal_teardown s) h = (Exited 0, h') \<and> epollfd s \<in> open_fds h'"
    using assms closes [of K _ "[listenfd s, fst (pipefd s), snd (pipefd s)]" h] unfolding signal_teardown_def by fastforce
  moreover have "\<exists>h'. run K (timer_teardown s) h = (Exited 0, h') \<and> epollfd s \<in> open_fds h'"
    using assms run_close_all [of K "[listenfd s, fst (pipefd s), snd (pipefd s)]" "Exit 0" h] unfolding timer_teardown_def
    by fastforce
  ultimately show ?thesis using assms(3) by auto
qed

text \<open>A server whose loop ends does its clean-up then.\<close>

lemma server_main_ends:
  assumes "run K (setup argv) [] = (Entered fds, h)" "run K (loop fds) h = (Entered (), h')"
  shows "run K (server_main setup loop teardown argv) [] = run K (teardown fds) h'"
  using assms by (simp add: server_main_def run_followed_by)

end
