(* ===== verification/Net_Programs.thy ===== *)
theory Net_Programs
  imports Server_Setup
begin

text \<open>
  The smaller network programs of \<open>high_perf_linux_server_prog/code\<close>, each from its command line to its end: the ones
  under \<open>socket\<close>, \<open>io\<close> and \<open>timer/connect\<close>, the server of \<open>nonblock_connect\<close>, and the clients.
\<close>

section \<open>Servers that take one connection\<close>

text \<open>From the socket to \<open>accept\<close>, with what is done with the connection, or without one, as arguments.\<close>

definition listening_at :: "string list \<Rightarrow> int \<Rightarrow> (int \<Rightarrow> 'a prog) \<Rightarrow> 'a prog" where
  "listening_at argv backlog k =
     sys (Socket Stream) (\<lambda>sock. check (0 \<le> sock)
     (must (Bind sock (address_of argv))
     (must (Listen sock backlog) (k sock))))"

definition accept_main :: "string list \<Rightarrow> unit prog" where
  "accept_main argv =
     Say ''Test accept'' (usage 2 ''ip_address port_number'' argv (listening_at argv 5 (\<lambda>sock.
       Call (Accept sock) (\<lambda>a.
         let stop = Say ''Stop the server'' (do_call (Close sock) (Exit 0))
         in if ret a < 0 then Say (''error is: '' @ dec_int (err a)) stop
            else Say (''connected with ip: '' @ inet_ntop (sin_addr (peer a)) @ '' and port: ''
                        @ decimal (unat (htons (sin_port (peer a)))))
                 (do_call (Close (ret a)) stop)))))"

text \<open>The program that only listens, until \<open>SIGTERM\<close>, signal 15, arrives, here after \<open>n\<close> seconds.\<close>

fun sleeps :: "nat \<Rightarrow> 'a prog \<Rightarrow> 'a prog" where
  "sleeps 0 p = p"
| "sleeps (Suc n) p = do_call (Sleep 1) (sleeps n p)"

definition listen_main :: "nat \<Rightarrow> string list \<Rightarrow> unit prog" where
  "listen_main n argv =
     Say ''Test listen backlog'' (do_call (Sig_action 15) (usage 3 ''ip_address port_number backlog'' argv
       (listening_at argv (atoi (argv ! 3)) (\<lambda>sock.
         sleeps n (Say ''Stop the server'' (do_call (Close sock) (Exit 0)))))))"

text \<open>
  \<open>socket/opt\<close>: a third argument is read though only two are asked for. The server receives until there is nothing
  more, here for at most \<open>n\<close> calls; a result of \<open>-1\<close> does not end the loop.
\<close>

definition OPT_BUFFER_SIZE :: nat where
  "OPT_BUFFER_SIZE = 65537"

fun receive_all :: "nat \<Rightarrow> int \<Rightarrow> unit prog \<Rightarrow> unit prog" where
  "receive_all 0 fd p = Enter ()"
| "receive_all (Suc n) fd p = sys (Recv fd (OPT_BUFFER_SIZE - 1)) (\<lambda>r. if r = 0 then p else receive_all n fd p)"

definition opt_server_main :: "nat \<Rightarrow> string list \<Rightarrow> unit prog" where
  "opt_server_main n argv =
     Say ''[Server] Test socket option'' (usage 2 ''ip_address port_number recv_buffer_size'' argv
       (sys (Socket Stream) (\<lambda>sock. check (0 \<le> sock)
       (if length argv \<le> 3 then Crash
        else do_call (Set_option sock ''SO_SNDBUF'' (atoi (argv ! 3)))
       (sys (Get_option sock ''SO_SNDBUF'') (\<lambda>size.
       Say (''the tcp receive buffer size after setting is '' @ dec_int size)
       (must (Bind sock (address_of argv))
       (must (Listen sock 5)
       (Call (Accept sock) (\<lambda>a.
          if ret a < 0 then Say (''error is '' @ dec_int (err a)) (do_call (Close sock) (Exit 0))
          else receive_all n (ret a) (do_call (Close (ret a)) (do_call (Close sock) (Exit 0)))))))))))))"

definition opt_client_main :: "string list \<Rightarrow> unit prog" where
  "opt_client_main argv =
     Say ''[Client] Test socket option'' (usage 2 ''ip_address port_number send_buffer_size'' argv
       (sys (Socket Stream) (\<lambda>sock. check (0 \<le> sock)
       (if length argv \<le> 3 then Crash
        else do_call (Set_option sock ''SO_SNDBUF'' (atoi (argv ! 3)))
       (sys (Get_option sock ''SO_SNDBUF'') (\<lambda>size.
       Say (''the tcp send buffer size after setting is '' @ dec_int size)
       (sys (Connect sock (address_of argv)) (\<lambda>r.
          if r \<noteq> -1 then do_call (Send sock (replicate OPT_BUFFER_SIZE CHR ''a'') False) (do_call (Close sock) (Exit 0))
          else do_call (Close sock) (Exit 0)))))))))"

definition connect_server_main :: "string list \<Rightarrow> unit prog" where
  "connect_server_main argv =
     Say ''[Server] Test connect timeout'' (usage 2 ''ip_address port_number'' argv
       (sys (Socket Stream) (\<lambda>sock. check (0 \<le> sock)
       (must (Reuse_addr sock)
       (Call (Bind sock (address_of argv)) (\<lambda>b.
          if ret b < 0 then Say (''bind failure, err='' @ dec_int (err b)) (Exit 1)
          else must (Listen sock 5)
       (Call (Accept sock) (\<lambda>a.
          let finish = Say (''connfd '' @ dec_int (ret a) @ '' connected'')
                         (do_call (Close (ret a)) (do_call (Close sock) (Exit 0)))
          in if ret a < 0 then Say (''error is '' @ dec_int (err a)) finish else finish))))))))"

text \<open>\<open>io/splice\<close> sends back what comes in, through a pipe; \<open>io/sendfile\<close> sends a file.\<close>

definition splice_main :: "string list \<Rightarrow> unit prog" where
  "splice_main argv =
     Say ''Test splice'' (usage 2 ''ip_address port_number'' argv (listening_at argv 5 (\<lambda>sock.
       Call (Accept sock) (\<lambda>a.
         if ret a < 0 then Say (''errno is: '' @ dec_int (err a)) (do_call (Close sock) (Exit 0))
         else Call Pipe (\<lambda>p. check (ret p \<noteq> -1)
              (must (Splice (ret a) (snd (two p)) 32768)
              (must (Splice (fst (two p)) (ret a) 32768)
              (do_call (Close (ret a)) (do_call (Close sock) (Exit 0))))))))))"

definition sendfile_main :: "string list \<Rightarrow> unit prog" where
  "sendfile_main argv =
     Say ''Test sendfile'' (usage 3 ''ip_address port_number filename'' argv
       (sys (Open_file (argv ! 3)) (\<lambda>filefd. check (0 < filefd)
       (sys (File_size filefd) (\<lambda>st_size.
       listening_at argv 5 (\<lambda>sock.
       Call (Accept sock) (\<lambda>a.
         if ret a < 0 then Say (''error is: '' @ dec_int (err a)) (do_call (Close sock) (Exit 0))
         else do_call (Send_file (ret a) filefd st_size) (do_call (Close (ret a)) (do_call (Close sock) (Exit 0))))))))))"

section \<open>Clients\<close>

text \<open>The clients of the servers with \<open>select\<close>, \<open>poll\<close>, \<open>epoll\<close> and \<open>SIGURG\<close> differ in their title only.\<close>

definition oob_client_main :: "string \<Rightarrow> string list \<Rightarrow> unit prog" where
  "oob_client_main title argv =
     Say title (usage 2 ''ip_address port_number'' argv
       (sys (Socket Stream) (\<lambda>sockfd. check (0 \<le> sockfd)
       (must (Connect sockfd (address_of argv))
       (do_call (Send sockfd ''123'' False)
       (do_call (Send sockfd ''abc'' True)
       (do_call (Send sockfd ''123'' False)
       (Say ''Stop the client'' (do_call (Close sockfd) (Exit 0))))))))))"

definition select_client_main :: "string list \<Rightarrow> unit prog" where
  "select_client_main = oob_client_main ''[Client] Test select''"

definition poll_client_main :: "string list \<Rightarrow> unit prog" where
  "poll_client_main = oob_client_main ''[Client] Test poll''"

definition epoll_client_main :: "string list \<Rightarrow> unit prog" where
  "epoll_client_main = oob_client_main ''[Client] Test epoll''"

definition urgent_client_main :: "string list \<Rightarrow> unit prog" where
  "urgent_client_main = oob_client_main ''[Client] Test SIGURG''"

text \<open>The chat client connects and goes on with its loop, an argument that hands the program back when it ends.\<close>

definition chat_client_main :: "(int \<Rightarrow> unit prog) \<Rightarrow> string list \<Rightarrow> unit prog" where
  "chat_client_main loop argv =
     Say ''[Client] Test demo - chat'' (usage 2 ''ip_address port_number'' argv
       (sys (Socket Stream) (\<lambda>sockfd. check (0 < sockfd)
       (sys (Connect sockfd (address_of argv)) (\<lambda>r.
          if r < 0 then Say ''connection failed'' (do_call (Close sockfd) (Exit 1))
          else followed_by (loop sockfd) (\<lambda>_. Say ''client stop'' (do_call (Close sockfd) (Exit 0))))))))"

text \<open>\<open>timer/connect\<close>: a connection attempt that is given up after ten seconds.\<close>

definition E_INPROGRESS :: int where
  "E_INPROGRESS = 115"

definition timeout_connect :: "string list \<Rightarrow> int \<Rightarrow> (int \<Rightarrow> unit prog) \<Rightarrow> unit prog" where
  "timeout_connect argv time k =
     sys (Socket Stream) (\<lambda>sockfd. check (0 < sockfd)
     (must (Send_timeout sockfd time)
     (Call (Connect sockfd (address_of argv)) (\<lambda>a.
        if ret a = -1 then
          (if err a = E_INPROGRESS then Say ''connecting timeout, process timeout logic'' (k (-1))
           else Say (''error occur when connecting to server, err='' @ dec_int (err a)) (k (-1)))
        else k sockfd))))"

definition connect_client_main :: "string list \<Rightarrow> unit prog" where
  "connect_client_main argv =
     Say ''[Client] Test connect timeout'' (usage 2 ''ip_address port_number n'' argv
       (timeout_connect argv 10 (\<lambda>sock.
          if sock < 0 then Exit 1
          else Say ''client connects to server successfully'' (do_call (Close sock) (Exit 0)))))"

section \<open>The server of nonblock_connect\<close>

definition on_event :: "int \<Rightarrow> int \<Rightarrow> unit prog \<Rightarrow> unit prog" where
  "on_event fd e p =
     Say (''recevie event from file descriptor '' @ dec_int e)
       (if e = fd
        then Call (Accept fd) (\<lambda>a.
               Say (''connfd '' @ dec_int (ret a) @ '' is create for ip: '' @ inet_ntop (sin_addr (peer a)) @ '', port: ''
                      @ decimal (unat (htons (sin_port (peer a)))))
                 (do_call (Close (ret a)) p))
        else p)"

fun on_events :: "int \<Rightarrow> int list \<Rightarrow> unit prog \<Rightarrow> unit prog" where
  "on_events fd [] p = p"
| "on_events fd (e # es) p = on_event fd e (on_events fd es p)"

text \<open>\<open>n\<close> rounds of its loop, which ends only when \<open>epoll_wait\<close> fails.\<close>

fun nonblock_loop :: "nat \<Rightarrow> int \<Rightarrow> int \<Rightarrow> unit prog" where
  "nonblock_loop 0 fd ep = Enter ()"
| "nonblock_loop (Suc n) fd ep =
     Call (Epoll_wait ep) (\<lambda>a.
       if ret a < 0 then Say ''epoll failure'' (Say ''Stop the server'' (close_all [ep, fd] (Exit 0)))
       else on_events fd (ready a) (nonblock_loop n fd ep))"

definition nonblock_server_main :: "nat \<Rightarrow> string list \<Rightarrow> unit prog" where
  "nonblock_server_main n argv =
     Say ''[Server] Test demo - nonblock connect'' (usage 2 ''ip_address port_number'' argv
       (sys (Socket Stream) (\<lambda>fd. Say (''create listenfd '' @ dec_int fd) (check (0 \<le> fd)
       (must (Bind fd (address_of argv))
       (must (Listen fd 5)
       (sys Epoll_create (\<lambda>ep. check (0 < ep)
       (add_fd ep fd False (nonblock_loop n fd ep))))))))))"

section \<open>Addresses printed\<close>

text \<open>
  \<open>socket/pton\<close> reads an address and prints it. \<open>socket/addr\<close> does so twice with \<open>inet_ntoa\<close>, which returns the same
  buffer each time, and prints both at the end.
\<close>

definition pton_main :: "string list" where
  "pton_main = [''Test inet_pton and inet_ntop'', inet_ntop (the (inet_pton ''192.0.2.33''))]"

definition inet_ntoa :: "byte list \<Rightarrow> string \<Rightarrow> string" where
  "inet_ntoa a buffer = inet_ntop a"

definition addr_main :: "string list" where
  "addr_main =
     (let buffer = inet_ntoa (the (inet_pton ''1.2.3.4'')) [];
          buffer = inet_ntoa (the (inet_pton ''10.194.71.60'')) buffer
      in [''Test socket addr'', ''address 1: '' @ buffer, ''address 2: '' @ buffer])"

section \<open>What they do\<close>

text \<open>A program that ends normally has no descriptor left.\<close>

definition closes_all :: "'a outcome \<Rightarrow> sys_event list \<Rightarrow> bool" where
  "closes_all out h \<longleftrightarrow> (case out of Exited n \<Rightarrow> n = 0 \<longrightarrow> open_fds h = {} | _ \<Rightarrow> True)"

lemma closes_all_exit: "closes_all (Exited 0) h \<longleftrightarrow> open_fds h = {}"
  by (simp add: closes_all_def)

lemmas net_defs = usage_def listening_at_def Let_def closes_all_def open_fds_def answer_ok_def

lemma accept_closes: "ends_in closes_all (accept_main argv) []"
  by (auto simp: accept_main_def net_defs)

lemma opt_client_closes: "ends_in closes_all (opt_client_main argv) []"
  by (auto simp: opt_client_main_def net_defs)

lemma connect_server_closes: "ends_in closes_all (connect_server_main argv) []"
  by (auto simp: connect_server_main_def net_defs)

lemma connect_client_closes: "ends_in closes_all (connect_client_main argv) []"
  by (auto simp: connect_client_main_def timeout_connect_def net_defs)

lemma oob_client_closes: "ends_in closes_all (oob_client_main title argv) []"
  by (auto simp: oob_client_main_def net_defs)

lemma sleeps_ends_in: "(\<And>h'. open_fds h' = open_fds h \<Longrightarrow> ends_in Q p h') \<Longrightarrow> ends_in Q (sleeps n p) h"
proof (induction n arbitrary: h)
  case (Suc n)
  then show ?case by simp
qed simp

lemma listen_closes: "ends_in closes_all (listen_main n argv) []"
  by (auto simp: listen_main_def usage_def listening_at_def Let_def intro!: sleeps_ends_in)
     (auto simp: closes_all_def open_fds_def answer_ok_def)

lemma receive_all_ends_in:
  assumes "\<And>h'. open_fds h' = open_fds h \<Longrightarrow> ends_in Q p h'" "\<And>h'. Q (Entered ()) h'"
  shows "ends_in Q (receive_all n fd p) h"
  using assms(1) by (induction n arbitrary: h) (simp_all add: assms(2))

lemma opt_server_closes: "ends_in closes_all (opt_server_main n argv) []"
  by (auto simp: opt_server_main_def usage_def Let_def intro!: receive_all_ends_in)
     (auto simp: closes_all_def open_fds_def answer_ok_def)

text \<open>The other server: each connection is closed before the next sys_event, so that it only ever has two descriptors.\<close>

lemma on_events_ends_in:
  assumes "\<And>h'. open_fds h' = A \<Longrightarrow> ends_in Q p h'" "open_fds h = A"
  shows "ends_in Q (on_events fd es p) h"
  using assms(2)
proof (induction es arbitrary: h)
  case (Cons e es)
  have "open_fds (h @ [Printed r, Did (Accept fd) a, Printed s, Did (Close (ret a)) b]) = A"
    if "answer_ok (h @ [Printed r]) (Accept fd) a" for a r s b
    using that Cons.prems by (auto simp: open_fds_def answer_ok_def)
  moreover have "open_fds (h @ [Printed r]) = A" for r using Cons.prems by simp
  ultimately show ?case by (simp add: on_event_def Cons.IH)
qed (simp add: assms(1))

definition stays_small :: "unit outcome \<Rightarrow> sys_event list \<Rightarrow> bool" where
  "stays_small out h \<longleftrightarrow> closes_all out h \<and> (out = Entered () \<longrightarrow> card (open_fds h) = 2)"

lemma nonblock_loop_ends_in:
  assumes "open_fds h = {fd, ep}" "fd \<noteq> ep"
  shows "ends_in stays_small (nonblock_loop n fd ep) h"
  using assms(1)
proof (induction n arbitrary: h)
  case 0
  then show ?case using assms(2) by (simp add: stays_small_def closes_all_def)
next
  case (Suc n)
  have "open_fds (h @ [Did (Epoll_wait ep) a]) = {fd, ep}" for a using Suc.prems by simp
  moreover have "stays_small (Exited 0) (h @ [Did (Epoll_wait ep) a, Printed s, Printed t, Did (Close ep) b, Did (Close fd) c])"
    for a s t b c using Suc.prems by (auto simp: stays_small_def closes_all_def open_fds_def)
  ultimately show ?case by (auto intro!: on_events_ends_in [of "{fd, ep}"] Suc.IH)
qed

lemma nonblock_server_small: "ends_in stays_small (nonblock_server_main n argv) []"
  by (auto simp: nonblock_server_main_def usage_def add_fd_def set_nonblocking_def intro!: nonblock_loop_ends_in)
     (auto simp: stays_small_def closes_all_def open_fds_def answer_ok_def)

text \<open>\<open>splice\<close> leaves the two ends of its pipe open and \<open>sendfile\<close> its file.\<close>

lemma splice_leaves_pipe:
  "ends_in (\<lambda>out h. out = Exited 0 \<longrightarrow>
     open_fds h = {} \<or> (\<exists>a. Did Pipe a \<in> set h \<and> open_fds h = {fst (two a), snd (two a)})) (splice_main argv) []"
  by (auto simp: splice_main_def net_defs)

lemma sendfile_leaves_file:
  "ends_in (\<lambda>out h. out = Exited 0 \<longrightarrow> (\<exists>a. Did (Open_file (argv ! 3)) a \<in> set h \<and> open_fds h = {ret a})) (sendfile_main argv) []"
  by (auto simp: sendfile_main_def net_defs)

text \<open>The clients send normal data, urgent data and normal data, to the socket they connected.\<close>

fun sent_by :: "sys_event \<Rightarrow> (int \<times> string \<times> bool) list" where
  "sent_by (Did (Send fd s oob) a) = [(fd, s, oob)]"
| "sent_by _ = []"

lemma oob_client_sends:
  "ends_in (\<lambda>out h. out = Exited 0 \<longrightarrow>
     (\<exists>fd a. Did (Connect fd (address_of argv)) a \<in> set h \<and> ret a \<noteq> -1
        \<and> concat (map sent_by h) = [(fd, ''123'', False), (fd, ''abc'', True), (fd, ''123'', False)]))
     (oob_client_main title argv) []"
  by (auto simp: oob_client_main_def usage_def)

text \<open>Reading and printing an address gives it back; with \<open>inet_ntoa\<close> the second address is printed twice.\<close>

lemma pton_printed: "pton_main ! 1 = ''192.0.2.33''"
proof -
  have "''192.0.2.33'' = inet_ntop [192, 0, 2, 33]" by (simp add: inet_ntop_def decimal.simps dec_digit_def) (code_simp; simp)
  then show ?thesis using pton_ntop [of "[192, 0, 2, 33]"] by (simp add: pton_main_def)
qed

lemma addr_printed_twice: "drop (length ''address n: '') (addr_main ! 1) = drop (length ''address n: '') (addr_main ! 2)"
  by (simp add: addr_main_def Let_def)

definition programs :: "nat \<Rightarrow> string list \<Rightarrow> unit prog list" where
  "programs n argv =
     [accept_main argv, listen_main n argv, opt_server_main n argv, opt_client_main argv, connect_server_main argv,
      connect_client_main argv, nonblock_server_main n argv, select_client_main argv, poll_client_main argv,
      epoll_client_main argv, urgent_client_main argv]"

text \<open>
  C28: Whatever the kernel answers, when one of these programs ends normally it has closed every descriptor it was given. The
  server of \<open>nonblock_connect\<close> has two descriptors open after any number of connections, failed ones included.
\<close>

theorem net_programs_close:
  assumes "posix K"
  shows "(\<forall>p \<in> set (programs n argv). fst (run K p []) = Exited 0 \<longrightarrow> open_fds (snd (run K p [])) = {})
    \<and> (fst (run K (nonblock_server_main n argv) []) = Entered ()
         \<longrightarrow> card (open_fds (snd (run K (nonblock_server_main n argv) []))) = 2)"
proof -
  have s: "stays_small (fst (run K (nonblock_server_main n argv) [])) (snd (run K (nonblock_server_main n argv) []))"
    using ends_in_run [OF assms nonblock_server_small] .
  have "closes_all (fst (run K p [])) (snd (run K p []))" if "p \<in> set (programs n argv)" for p
  proof (cases "p = nonblock_server_main n argv")
    case True
    then show ?thesis using s by (simp add: stays_small_def)
  next
    case False
    then have "ends_in closes_all p []"
      using that accept_closes listen_closes opt_server_closes opt_client_closes connect_server_closes connect_client_closes
        oob_client_closes
      by (auto simp: programs_def select_client_main_def poll_client_main_def epoll_client_main_def urgent_client_main_def)
    then show ?thesis using ends_in_run [OF assms] by blast
  qed
  then show ?thesis using s by (metis closes_all_exit stays_small_def)
qed

theorem net_programs_close_witness:
  "fst (run granting (select_client_main [''client'', ''127.0.0.1'', ''8080'']) []) = Exited 0
     \<and> open_fds (snd (run granting (select_client_main [''client'', ''127.0.0.1'', ''8080'']) [])) = {}"
proof -
  let ?argv = "[''client'', ''127.0.0.1'', ''8080'']"
  have e: "fst (run granting (select_client_main ?argv) []) = Exited 0"
    by (simp add: select_client_main_def oob_client_main_def usage_def granting_ret)
  have "select_client_main ?argv \<in> set (programs 0 ?argv)" by (simp add: programs_def)
  then show ?thesis using net_programs_close [OF posix_granting, of 0 ?argv] e by blast
qed

end
