(* ===== verification/Process_Pairs.thy ===== *)
theory Process_Pairs
  imports Prelude
begin

text \<open>
  A parent and a child process that talk to each other: over a pipe and over a pair of sockets (\<open>io/pipe\<close> and
  \<open>io/socketpair\<close> of \<open>high_perf_linux_server_prog/code\<close>), by handing over an open file (\<open>multi_process/snd_fd\<close>), and
  by a semaphore (the sem_process directory). Each statement with an effect on the other process is a step of a state
  with few values, so that all runs can be explored.
\<close>

section \<open>Descriptors of two processes\<close>

text \<open>
  Both processes start with both descriptors of a pair. What has been sent and not yet received is kept for each
  direction; 9 is the normal end of a process and 8 its end by a signal.
\<close>

record procs =
  parent_pc :: nat
  child_pc :: nat
  parent_fd :: "bool \<times> bool"
  child_fd :: "bool \<times> bool"
  to_child :: string
  to_parent :: string
  parent_got :: "string list"
  child_got :: "string list"

definition forked :: procs where
  "forked = \<lparr>parent_pc = 0, child_pc = 0, parent_fd = (True, True), child_fd = (True, True), to_child = [], to_parent = [],
     parent_got = [], child_got = []\<rparr>"

definition end0_open :: "procs \<Rightarrow> bool" where
  "end0_open s \<longleftrightarrow> fst (parent_fd s) \<or> fst (child_fd s)"

definition end1_open :: "procs \<Rightarrow> bool" where
  "end1_open s \<longleftrightarrow> snd (parent_fd s) \<or> snd (child_fd s)"

definition both_ended :: "procs \<Rightarrow> bool" where
  "both_ended s \<longleftrightarrow> parent_pc s = 9 \<and> child_pc s = 9"

definition MSGSIZE :: nat where
  "MSGSIZE = 16"

definition msg1 :: string where
  "msg1 = ''hello, world #1'' @ [CHR 0x00]"

definition msg2 :: string where
  "msg2 = ''hello, world #2'' @ [CHR 0x00]"

section \<open>The pipe\<close>

text \<open>End 0 is for reading. Writing to a pipe that nobody reads kills; reading blocks while somebody may write.\<close>

definition pipe_write :: "string \<Rightarrow> nat \<Rightarrow> procs \<Rightarrow> procs list" where
  "pipe_write msg k s =
     (if end0_open s then [s\<lparr>to_child := to_child s @ msg, parent_pc := k\<rparr>]
      else [s\<lparr>parent_pc := 8, parent_fd := (False, False)\<rparr>])"

definition pipe_parent :: "procs \<Rightarrow> procs list" where
  "pipe_parent s =
     (let pc = parent_pc s in
      if pc = 0 then [s\<lparr>parent_fd := (False, snd (parent_fd s)), parent_pc := 1\<rparr>]
      else if pc = 1 then pipe_write msg1 2 s
      else if pc = 2 then pipe_write msg2 3 s
      else if pc = 3 then [s\<lparr>parent_fd := (fst (parent_fd s), False), parent_pc := 4\<rparr>]
      else if pc = 4 then (if child_pc s = 9 then [s\<lparr>parent_pc := 9\<rparr>] else [])
      else [])"

definition pipe_child :: "procs \<Rightarrow> procs list" where
  "pipe_child s =
     (let pc = child_pc s in
      if pc = 0 then [s\<lparr>child_fd := (fst (child_fd s), False), child_pc := 1\<rparr>]
      else if pc = 1 then
        (if to_child s \<noteq> []
         then [s\<lparr>child_got := child_got s @ [take MSGSIZE (to_child s)], to_child := drop MSGSIZE (to_child s)\<rparr>]
         else if end1_open s then []
         else [s\<lparr>child_pc := 2\<rparr>])
      else if pc = 2 then [s\<lparr>child_fd := (False, snd (child_fd s)), child_pc := 9\<rparr>]
      else [])"

definition pipe_succs :: "procs \<Rightarrow> procs list" where
  "pipe_succs s = pipe_parent s @ pipe_child s"

section \<open>The pair of sockets\<close>

text \<open>The parent uses end 0 and the child end 1. Data goes both ways.\<close>

definition sock_parent :: "procs \<Rightarrow> procs list" where
  "sock_parent s =
     (let pc = parent_pc s in
      if pc = 0 then [s\<lparr>parent_fd := (fst (parent_fd s), False), parent_pc := 1\<rparr>]
      else if pc = 1 then
        (if to_parent s \<noteq> []
         then [s\<lparr>parent_got := parent_got s @ [take MSGSIZE (to_parent s)], to_parent := drop MSGSIZE (to_parent s), parent_pc := 2\<rparr>]
         else if end1_open s then []
         else [s\<lparr>parent_got := parent_got s @ [[]], parent_pc := 2\<rparr>])
      else if pc = 2 then
        (if end1_open s then [s\<lparr>to_child := to_child s @ msg1, parent_pc := 3\<rparr>]
         else [s\<lparr>parent_pc := 8, parent_fd := (False, False)\<rparr>])
      else if pc = 3 then [s\<lparr>parent_fd := (False, snd (parent_fd s)), parent_pc := 4\<rparr>]
      else if pc = 4 then (if child_pc s \<in> {8, 9} then [s\<lparr>parent_pc := 9\<rparr>] else [])
      else [])"

definition sock_child :: "procs \<Rightarrow> procs list" where
  "sock_child s =
     (let pc = child_pc s in
      if pc = 0 then [s\<lparr>child_fd := (False, snd (child_fd s)), child_pc := 1\<rparr>]
      else if pc = 1 then
        (if end0_open s then [s\<lparr>to_parent := to_parent s @ msg2, child_pc := 2\<rparr>]
         else [s\<lparr>child_pc := 8, child_fd := (False, False)\<rparr>])
      else if pc = 2 then
        (if to_child s \<noteq> []
         then [s\<lparr>child_got := child_got s @ [take MSGSIZE (to_child s)], to_child := drop MSGSIZE (to_child s), child_pc := 3\<rparr>]
         else if end0_open s then []
         else [s\<lparr>child_got := child_got s @ [[]], child_pc := 3\<rparr>])
      else if pc = 3 then [s\<lparr>child_fd := (fst (child_fd s), False), child_pc := 9\<rparr>]
      else [])"

definition sock_succs :: "procs \<Rightarrow> procs list" where
  "sock_succs s = sock_parent s @ sock_child s"

section \<open>Handing over a file\<close>

text \<open>
  The pair of sockets as before, with the file: whether the child has it open, whether it is on its way in a message,
  whether the parent has it, and the position from which the parent read. \<open>open\<close> may fail; 7 is \<open>ERR_EXIT\<close>. A file stays open
  as long as a process or a message refers to it.
\<close>

record handover =
  ho_parent :: nat
  ho_child :: nat
  ho_parent_sock :: "bool \<times> bool"
  ho_child_sock :: "bool \<times> bool"
  child_file :: bool
  in_flight :: bool
  parent_file :: bool
  read_from :: "nat option"

definition ho_start :: handover where
  "ho_start = \<lparr>ho_parent = 0, ho_child = 0, ho_parent_sock = (True, True), ho_child_sock = (True, True), child_file = False,
     in_flight = False, parent_file = False, read_from = None\<rparr>"

definition recv_fd :: "handover \<Rightarrow> handover list" where
  "recv_fd s =
     (if in_flight s then [s\<lparr>in_flight := False, parent_file := True, ho_parent := 2\<rparr>]
      else if snd (ho_parent_sock s) \<or> snd (ho_child_sock s) then []
      else [s\<lparr>ho_parent := 7, ho_parent_sock := (False, False)\<rparr>])"

definition send_fd :: "handover \<Rightarrow> handover list" where
  "send_fd s =
     (if \<not> child_file s \<or> \<not> (fst (ho_parent_sock s) \<or> fst (ho_child_sock s))
      then [s\<lparr>ho_child := 7, ho_child_sock := (False, False), child_file := False\<rparr>]
      else [s\<lparr>in_flight := True, ho_child := 3\<rparr>])"

definition ho_parent_step :: "handover \<Rightarrow> handover list" where
  "ho_parent_step s =
     (let pc = ho_parent s in
      if pc = 0 then [s\<lparr>ho_parent_sock := (fst (ho_parent_sock s), False), ho_parent := 1\<rparr>]
      else if pc = 1 then recv_fd s
      else if pc = 2 then (if parent_file s then [s\<lparr>read_from := Some 0, ho_parent := 3\<rparr>] else [s\<lparr>ho_parent := 3\<rparr>])
      else if pc = 3 then [s\<lparr>parent_file := False, ho_parent_sock := (False, False), ho_parent := 9\<rparr>]
      else [])"

definition ho_child_step :: "handover \<Rightarrow> handover list" where
  "ho_child_step s =
     (let pc = ho_child s in
      if pc = 0 then [s\<lparr>ho_child_sock := (False, snd (ho_child_sock s)), ho_child := 1\<rparr>]
      else if pc = 1 then [s\<lparr>child_file := True, ho_child := 2\<rparr>, s\<lparr>ho_child := 8, ho_child_sock := (False, False)\<rparr>]
      else if pc = 2 then send_fd s
      else if pc = 3 then [s\<lparr>child_file := False, ho_child_sock := (False, False), ho_child := 9\<rparr>]
      else [])"

definition ho_succs :: "handover \<Rightarrow> handover list" where
  "ho_succs s = ho_parent_step s @ ho_child_step s"

definition ho_ended :: "handover \<Rightarrow> bool" where
  "ho_ended s \<longleftrightarrow> ho_parent s \<in> {7, 9} \<and> ho_child s \<in> {7, 8, 9}"

text \<open>What the parent prints of the file: the bytes \<open>read\<close> gave, which fill its buffer when there are 1024 of them.\<close>

definition parent_reads :: "string \<Rightarrow> nat \<Rightarrow> fault + string" where
  "parent_reads contents pos =
     (let got = take 1024 (drop pos contents)
      in if length got < 1024 \<or> CHR 0x00 \<in> set got then Inr (takeWhile (\<lambda>c. c \<noteq> CHR 0x00) got) else Inl OutOfBounds)"

section \<open>The semaphore\<close>

datatype sem_line = Fils | Pere | Fin

record sem_pair =
  sp_parent :: nat
  sp_child :: nat
  sp_sem :: nat
  sp_out :: "sem_line list"

definition sp_start :: sem_pair where
  "sp_start = \<lparr>sp_parent = 0, sp_child = 0, sp_sem = 0, sp_out = []\<rparr>"

definition sp_child_step :: "sem_pair \<Rightarrow> sem_pair list" where
  "sp_child_step s =
     (if sp_child s = 0 then [s\<lparr>sp_out := sp_out s @ [Fils], sp_child := 1\<rparr>]
      else if sp_child s = 1 then [s\<lparr>sp_sem := Suc (sp_sem s), sp_child := 9\<rparr>]
      else [])"

definition sp_parent_step :: "sem_pair \<Rightarrow> sem_pair list" where
  "sp_parent_step s =
     (if sp_parent s = 0 then (if sp_sem s = 0 then [] else [s\<lparr>sp_sem := sp_sem s - 1, sp_parent := 1\<rparr>])
      else if sp_parent s = 1 then [s\<lparr>sp_out := sp_out s @ [Pere], sp_parent := 2\<rparr>]
      else if sp_parent s = 2 then [s\<lparr>sp_out := sp_out s @ [Fin], sp_parent := 9\<rparr>]
      else [])"

definition sp_succs :: "sem_pair \<Rightarrow> sem_pair list" where
  "sp_succs s = sp_parent_step s @ sp_child_step s"

definition sp_ended :: "sem_pair \<Rightarrow> bool" where
  "sp_ended s \<longleftrightarrow> sp_parent s = 9 \<and> sp_child s = 9"

section \<open>All runs\<close>

definition pipe_states :: "procs list" where
  "pipe_states = explore 200 pipe_succs [forked] []"

definition sock_pair_states :: "procs list" where
  "sock_pair_states = explore 200 sock_succs [forked] []"

definition ho_states :: "handover list" where
  "ho_states = explore 200 ho_succs [ho_start] []"

definition sp_states :: "sem_pair list" where
  "sp_states = explore 100 sp_succs [sp_start] []"

interpretation piped: finite_program pipe_succs pipe_states forked both_ended 200
  by unfold_locales code_simp+

interpretation socks: finite_program sock_succs sock_pair_states forked both_ended 200
  by unfold_locales code_simp+

interpretation handed: finite_program ho_succs ho_states ho_start ho_ended 200
  by unfold_locales code_simp+

interpretation posted: finite_program sp_succs sp_states sp_start sp_ended 100
  by unfold_locales code_simp+

lemma pipe_all:
  "list_all (\<lambda>s. (pipe_succs s = [] \<longrightarrow> both_ended s) \<and> (both_ended s \<longrightarrow> child_got s = [msg1, msg2] \<and> to_child s = [])) pipe_states"
  by code_simp

lemma sock_all:
  "list_all (\<lambda>s. (sock_succs s = [] \<longrightarrow> both_ended s)
     \<and> (both_ended s \<longrightarrow> child_got s = [msg1] \<and> parent_got s = [msg2])) sock_pair_states"
  by code_simp

lemma ho_all:
  "list_all (\<lambda>s. (ho_succs s = [] \<longrightarrow> ho_ended s)
     \<and> (ho_ended s \<longrightarrow> (if ho_child s = 9 then ho_parent s = 9 \<and> read_from s = Some 0 else ho_parent s = 7 \<and> ho_child s = 8))
     \<and> (ho_ended s \<longrightarrow> \<not> child_file s \<and> \<not> in_flight s \<and> \<not> parent_file s)) ho_states"
  by code_simp

lemma sp_all: "list_all (\<lambda>s. (sp_succs s = [] \<longrightarrow> sp_ended s) \<and> (sp_ended s \<longrightarrow> sp_out s = [Fils, Pere, Fin])) sp_states"
  by code_simp

text \<open>
  C29: In every interleaving the two messages reach the child one by one and in order, it sees the end of the data, nobody is
  killed, and both processes can always come to their end. Over the sockets each process gets the message of the other.
\<close>

theorem messages_arrive:
  assumes "(\<lambda>s t. t \<in> set (pipe_succs s))\<^sup>*\<^sup>* forked s" and "(\<lambda>s t. t \<in> set (sock_succs s))\<^sup>*\<^sup>* forked s'"
  shows "(pipe_succs s = [] \<longrightarrow> both_ended s \<and> child_got s = [msg1, msg2])
    \<and> (sock_succs s' = [] \<longrightarrow> both_ended s' \<and> child_got s' = [msg1] \<and> parent_got s' = [msg2])
    \<and> (\<exists>t. (\<lambda>s t. t \<in> set (pipe_succs s))\<^sup>*\<^sup>* s t \<and> both_ended t)
    \<and> (\<exists>t. (\<lambda>s t. t \<in> set (sock_succs s))\<^sup>*\<^sup>* s' t \<and> both_ended t)"
  using piped.reached_in [OF assms(1)] piped.can_end [OF assms(1)] socks.reached_in [OF assms(2)] socks.can_end [OF assms(2)]
    pipe_all sock_all by (simp add: list_all_iff)

theorem messages_arrive_witness:
  "(\<exists>t. (\<lambda>s t. t \<in> set (pipe_succs s))\<^sup>*\<^sup>* forked t \<and> both_ended t)
   \<and> (\<exists>t. (\<lambda>s t. t \<in> set (sock_succs s))\<^sup>*\<^sup>* forked t \<and> both_ended t)"
  using messages_arrive [OF rtranclp.rtrancl_refl rtranclp.rtrancl_refl] by blast

text \<open>
  The file survives that the child closes it while it is on its way: the parent reads it from the start, or gives up
  when the child could not open it. In the end nobody refers to the file.
\<close>

lemma file_handed_over:
  assumes "(\<lambda>s t. t \<in> set (ho_succs s))\<^sup>*\<^sup>* ho_start s" "ho_succs s = []"
  shows "(if ho_child s = 9 then ho_parent s = 9 \<and> read_from s = Some 0 else ho_parent s = 7 \<and> ho_child s = 8)
    \<and> \<not> child_file s \<and> \<not> in_flight s \<and> \<not> parent_file s"
  using handed.reached_in [OF assms(1)] ho_all assms(2) by (simp add: list_all_iff)

text \<open>A file of 1024 bytes or more is printed beyond the end of the buffer.\<close>

lemma long_file_overrun:
  assumes "1024 \<le> length contents" "CHR 0x00 \<notin> set contents"
  shows "parent_reads contents 0 = Inl OutOfBounds"
  using assms set_take_subset [of 1024 contents] by (auto simp: parent_reads_def Let_def)

text \<open>The parent speaks after the child.\<close>

lemma sem_orders:
  assumes "(\<lambda>s t. t \<in> set (sp_succs s))\<^sup>*\<^sup>* sp_start s" "sp_succs s = []"
  shows "sp_out s = [Fils, Pere, Fin]"
  using posted.reached_in [OF assms(1)] sp_all assms(2) by (simp add: list_all_iff)

end
