(* ===== verification/File_Programs.thy ===== *)
theory File_Programs
  imports Prelude
begin

text \<open>
  Programs that work on files through descriptors: \<open>io/dup\<close>, \<open>io/dup2\<close>, \<open>io/mmap\<close>, \<open>io/tee\<close> and \<open>multi_process/fd_ref\<close> of
  \<open>high_perf_linux_server_prog/code\<close>, and \<open>persistence_io\<close> and \<open>redirect\<close> of \<open>operating_systems_three_easy_pieces/code\<close>. A
  descriptor refers to an open file with a position, which copies of the descriptor share.
\<close>

section \<open>Files, open files and descriptors\<close>

record open_file =
  of_name :: string
  of_pos :: nat
  of_append :: bool

record unix =
  disk :: "string \<Rightarrow> string option"
  open_files :: "open_file list"
  fd_table :: "nat option list"

text \<open>A program starts with the three standard descriptors, here all of one terminal.\<close>

definition boot :: "(string \<Rightarrow> string option) \<Rightarrow> unix" where
  "boot d = \<lparr>disk = d(''tty'' \<mapsto> []), open_files = [\<lparr>of_name = ''tty'', of_pos = 0, of_append = True\<rparr>],
     fd_table = [Some 0, Some 0, Some 0]\<rparr>"

fun lowest_free :: "nat option list \<Rightarrow> nat" where
  "lowest_free [] = 0"
| "lowest_free (None # t) = 0"
| "lowest_free (Some i # t) = Suc (lowest_free t)"

definition set_fd :: "nat \<Rightarrow> nat \<Rightarrow> nat option list \<Rightarrow> nat option list" where
  "set_fd fd i t = (if fd < length t then t[fd := Some i] else t @ replicate (fd - length t) None @ [Some i])"

definition file_of :: "nat \<Rightarrow> unix \<Rightarrow> nat option" where
  "file_of fd u = (if fd < length (fd_table u) then fd_table u ! fd else None)"

text \<open>\<open>open\<close> with \<open>O_CREAT\<close> for writing, appending or not, truncating or not.\<close>

definition open_write :: "string \<Rightarrow> bool \<Rightarrow> bool \<Rightarrow> unix \<Rightarrow> nat \<times> unix" where
  "open_write name app trunc u =
     (let fd = lowest_free (fd_table u);
          d = (case disk u name of None \<Rightarrow> (disk u)(name \<mapsto> []) | Some c \<Rightarrow> if trunc then (disk u)(name \<mapsto> []) else disk u)
      in (fd, u\<lparr>disk := d, open_files := open_files u @ [\<lparr>of_name = name, of_pos = 0, of_append = app\<rparr>],
               fd_table := set_fd fd (length (open_files u)) (fd_table u)\<rparr>))"

definition fd_close :: "nat \<Rightarrow> unix \<Rightarrow> unix" where
  "fd_close fd u = u\<lparr>fd_table := (fd_table u)[fd := None]\<rparr>"

definition fd_dup :: "nat \<Rightarrow> unix \<Rightarrow> nat option \<times> unix" where
  "fd_dup fd u =
     (case file_of fd u of
        None \<Rightarrow> (None, u)
      | Some i \<Rightarrow> (let new = lowest_free (fd_table u) in (Some new, u\<lparr>fd_table := set_fd new i (fd_table u)\<rparr>)))"

definition fd_dup2 :: "nat \<Rightarrow> nat \<Rightarrow> unix \<Rightarrow> unix" where
  "fd_dup2 fd new u = (case file_of fd u of None \<Rightarrow> u | Some i \<Rightarrow> u\<lparr>fd_table := set_fd new i (fd_table u)\<rparr>)"

text \<open>Writing at a position, with zeros up to it when the file is shorter.\<close>

definition put_at :: "nat \<Rightarrow> string \<Rightarrow> string \<Rightarrow> string" where
  "put_at p bytes c = take p (c @ replicate (p - length c) CHR 0x00) @ bytes @ drop (p + length bytes) c"

definition write_at :: "nat \<Rightarrow> string \<Rightarrow> unix \<Rightarrow> unix" where
  "write_at i bytes u =
     (let f = open_files u ! i;
          c = (case disk u (of_name f) of None \<Rightarrow> [] | Some c \<Rightarrow> c);
          p = (if of_append f then length c else of_pos f)
      in u\<lparr>disk := (disk u)(of_name f \<mapsto> put_at p bytes c),
           open_files := (open_files u)[i := f\<lparr>of_pos := p + length bytes\<rparr>]\<rparr>)"

definition fd_write :: "nat \<Rightarrow> string \<Rightarrow> unix \<Rightarrow> int \<times> unix" where
  "fd_write fd bytes u =
     (case file_of fd u of None \<Rightarrow> (-1, u) | Some i \<Rightarrow> (int (length bytes), write_at i bytes u))"

section \<open>dup and dup2\<close>

definition hello :: "char \<Rightarrow> string" where
  "hello c = ''hello, world #'' @ [c, CHR 0x0A]"

text \<open>\<open>MSGSIZE\<close> counts the final zero. \<open>may_open\<close> says whether the file can be opened; the result is the exit status.\<close>

definition dup_main :: "bool \<Rightarrow> unix \<Rightarrow> int \<times> unix" where
  "dup_main may_open u =
     (let u = snd (fd_write 1 (''Test dup'' @ [CHR 0x0A]) u)
      in if \<not> may_open then (1, snd (fd_write 1 (''Error opening the file'' @ [CHR 0x0A]) u))
         else
           (let (fd, u) = open_write ''dup.log'' True False u;
                (copy_fd, u) = fd_dup fd u;
                u = snd (fd_write (the copy_fd) (hello CHR ''1'' @ [CHR 0x00]) u);
                u = snd (fd_write fd (hello CHR ''2'' @ [CHR 0x00]) u)
            in (0, fd_close fd (fd_close (the copy_fd) u))))"

text \<open>
  \<open>printf\<close> collects its output: what is written to a terminal is passed on with each line, what goes elsewhere at the
  end of the program. \<open>dup2\<close> changes where descriptor 1 leads, not what has been decided about buffering.
\<close>

record stdio =
  std_lines :: bool
  std_buffer :: string

definition std_flush :: "stdio \<times> unix \<Rightarrow> stdio \<times> unix" where
  "std_flush = (\<lambda>(out, u). (out\<lparr>std_buffer := []\<rparr>, if std_buffer out = [] then u else snd (fd_write 1 (std_buffer out) u)))"

definition printf_line :: "string \<Rightarrow> stdio \<times> unix \<Rightarrow> stdio \<times> unix" where
  "printf_line text = (\<lambda>(out, u).
     let out = out\<lparr>std_buffer := std_buffer out @ text\<rparr> in if std_lines out then std_flush (out, u) else (out, u))"

definition dup2_main :: "bool \<Rightarrow> bool \<Rightarrow> unix \<Rightarrow> int \<times> unix" where
  "dup2_main may_open terminal u =
     (let (out, u) = printf_line (''Test dup2'' @ [CHR 0x0A]) (\<lparr>std_lines = terminal, std_buffer = []\<rparr>, u)
      in if \<not> may_open then (1, snd (std_flush (printf_line (''Error opening the file'' @ [CHR 0x0A]) (out, u))))
         else
           (let (fd, u) = open_write ''dup2.log'' True False u;
                u = fd_dup2 fd 1 u;
                (out, u) = printf_line (hello CHR ''1'') (out, u);
                u = snd (fd_write fd (hello CHR ''2'' @ [CHR 0x00]) u);
                u = fd_close fd (fd_close 1 u)
            in (0, snd (std_flush (out, u)))))"

section \<open>A descriptor across fork\<close>

text \<open>
  The child has a copy of the descriptor table, and the open files are shared. The parent waits for the child, so that
  the two run one after the other.
\<close>

definition child_text :: string where
  "child_text = ''write from child process'' @ [CHR 0x0A, CHR 0x00]"

definition parent_text :: string where
  "parent_text = ''write from parent process'' @ [CHR 0x0A, CHR 0x00]"

definition fd_ref_child :: "nat \<Rightarrow> unix \<Rightarrow> unix" where
  "fd_ref_child fd u = fd_close fd (snd (fd_write fd child_text u))"

definition fd_ref_main :: "unix \<Rightarrow> unix" where
  "fd_ref_main u =
     (let (fd, u) = open_write ''fd.log'' False False u;
          child = fd_ref_child fd u;
          u = u\<lparr>disk := disk child, open_files := open_files child\<rparr>;
          u = snd (fd_write fd parent_text u)
      in fd_close fd u)"

section \<open>Writing a file, redirecting output\<close>

definition io_main :: "unix \<Rightarrow> (int \<times> unix) option" where
  "io_main u =
     (let (fd, u) = open_write ''/tmp/file'' False True u;
          (rc, u) = fd_write fd (''hello world'' @ [CHR 0x0A, CHR 0x00]) u
      in if rc \<noteq> 13 then None else Some (0, fd_close fd u))"

text \<open>The child of \<open>redirect\<close> up to \<open>execvp\<close>: what the program it becomes writes to descriptor 1.\<close>

definition redirect_child :: "bool \<Rightarrow> unix \<Rightarrow> unix" where
  "redirect_child may_open u =
     (let u = fd_close 1 u in if may_open then snd (open_write ''./output.log'' False True u) else u)"

section \<open>Copying with mmap\<close>

text \<open>
  The input file is mapped, the output file made as long and mapped too, and the bytes are copied. A length of zero
  cannot be mapped. The result is the exit status and the files.
\<close>

definition mmap_main :: "string list \<Rightarrow> (string \<Rightarrow> string option) \<Rightarrow> int \<times> (string \<Rightarrow> string option)" where
  "mmap_main argv d =
     (if length argv < 3 then (1, d)
      else case d (argv ! 1) of
             None \<Rightarrow> (1, d)
           | Some _ \<Rightarrow>
               (let d = d(argv ! 2 \<mapsto> []);
                    size = (case d (argv ! 1) of None \<Rightarrow> 0 | Some src \<Rightarrow> length src)
                in if size = 0 then (1, d)
                   else
                     (let d = d(argv ! 2 \<mapsto> put_at (size - 1) [CHR 0x00] (case d (argv ! 2) of None \<Rightarrow> [] | Some c \<Rightarrow> c));
                          src = (case d (argv ! 1) of None \<Rightarrow> [] | Some c \<Rightarrow> c)
                      in (0, d(argv ! 2 \<mapsto> put_at 0 (take size src) (case d (argv ! 2) of None \<Rightarrow> [] | Some c \<Rightarrow> c))))))"

section \<open>Copying with tee\<close>

text \<open>
  One \<open>splice\<close> takes what standard input has, up to 32768 bytes; it goes into one pipe, is copied into a second, and
  from there into the file. \<open>tee\<close> does not wait: on an empty pipe it fails, and the program with it.
\<close>

definition tee_main :: "string list \<Rightarrow> string \<Rightarrow> (string \<Rightarrow> string option) \<Rightarrow> int option \<times> (string \<Rightarrow> string option)" where
  "tee_main argv input d =
     (if length argv \<noteq> 2 then (Some 1, d)
      else
        (let d = d(argv ! 1 \<mapsto> []);
             pipe_stdout = take 32768 input
         in if pipe_stdout = [] then (None, d)
            else
              (let pipe_file = take 32768 pipe_stdout
               in (Some 0, d(argv ! 1 \<mapsto> put_at 0 (take 32768 pipe_file) [])))))"

section \<open>What they do\<close>

definition old :: "string option \<Rightarrow> string" where
  "old c = (case c of None \<Rightarrow> [] | Some c \<Rightarrow> c)"

lemma put_at_end [simp]: "p = length c \<Longrightarrow> put_at p bytes c = c @ bytes"
  by (simp add: put_at_def)

lemma put_at_start: "put_at 0 bytes c = bytes @ drop (length bytes) c"
  by (simp add: put_at_def)

lemmas file_defs = boot_def open_write_def set_fd_def file_of_def fd_close_def fd_dup_def fd_dup2_def fd_write_def
  write_at_def Let_def old_def

text \<open>Both descriptors of \<open>dup\<close> append to the one file, in the order of the calls.\<close>

lemma dup_appends:
  "dup_main True (boot d) = (0, u) \<Longrightarrow>
     disk u ''dup.log'' = Some (old (d ''dup.log'') @ hello CHR ''1'' @ [CHR 0x00] @ hello CHR ''2'' @ [CHR 0x00])"
  by (auto simp: dup_main_def file_defs split: option.splits)

text \<open>
  With output to a terminal, \<open>printf\<close> after \<open>dup2\<close> goes to the file, before what is written to it directly. Otherwise the
  text is still in the buffer when descriptor 1 is closed, and both it and the title are lost.
\<close>

theorem dup2_redirects:
  "(\<exists>u. dup2_main True True (boot d) = (0, u)
     \<and> disk u ''dup2.log'' = Some (old (d ''dup2.log'') @ hello CHR ''1'' @ hello CHR ''2'' @ [CHR 0x00])
     \<and> disk u ''tty'' = Some (''Test dup2'' @ [CHR 0x0A]))
   \<and> (\<exists>u. dup2_main True False (boot d) = (0, u)
     \<and> disk u ''dup2.log'' = Some (old (d ''dup2.log'') @ hello CHR ''2'' @ [CHR 0x00])
     \<and> disk u ''tty'' = Some [])"
  by (auto simp: dup2_main_def printf_line_def std_flush_def file_defs hello_def split: option.splits)

text \<open>
  The two processes share the position: the parent writes behind the child, and over what the file had before.
\<close>

lemma fd_ref_shares:
  "disk (fd_ref_main (boot d)) ''fd.log'' = Some (child_text @ parent_text @ drop (length child_text + length parent_text) (old (d ''fd.log'')))"
  by (auto simp: fd_ref_main_def fd_ref_child_def file_defs put_at_def child_text_def parent_text_def split: option.splits)

lemma io_writes: "\<exists>u. io_main (boot d) = Some (0, u) \<and> disk u ''/tmp/file'' = Some (''hello world'' @ [CHR 0x0A, CHR 0x00])"
  by (auto simp: io_main_def file_defs put_at_def split: option.splits)

text \<open>Closing descriptor 1 makes it the one that \<open>open\<close> returns: what is written to it is in the file, and only there.\<close>

lemma redirect_works:
  "disk (snd (fd_write 1 text (redirect_child True (boot d)))) = d(''tty'' \<mapsto> [], ''./output.log'' \<mapsto> text)"
  "fd_write 1 text (redirect_child False (boot d)) = (-1, redirect_child False (boot d))"
  by (auto simp: redirect_child_def file_defs put_at_def split: option.splits)

text \<open>
  Copying works between different files with something in them. Copying a file to itself empties it.
\<close>

theorem mmap_copies:
  assumes "d from = Some src" "src \<noteq> []"
  shows "mmap_main [prog, from, to] d = (if to = from then (1, d(to \<mapsto> [])) else (0, d(to \<mapsto> src)))"
  using assms by (cases src) (simp_all add: mmap_main_def Let_def put_at_def)

theorem mmap_copies_witness:
  "mmap_main [''main'', ''a'', ''b''] [''a'' \<mapsto> ''xyz''] = (0, [''a'' \<mapsto> ''xyz'', ''b'' \<mapsto> ''xyz''])
   \<and> mmap_main [''main'', ''a'', ''a''] [''a'' \<mapsto> ''xyz''] = (1, [''a'' \<mapsto> []])"
  using mmap_copies [of "[''a'' \<mapsto> ''xyz'']" "''a''" "''xyz''" "''main''" "''b''"]
    mmap_copies [of "[''a'' \<mapsto> ''xyz'']" "''a''" "''xyz''" "''main''" "''a''"] by simp

lemma mmap_empty: "d from = Some [] \<Longrightarrow> mmap_main [prog, from, to] d = (1, d(to \<mapsto> []))"
  by (simp add: mmap_main_def Let_def)

text \<open>\<open>tee\<close> copies the first 32768 bytes to the file, and dies when there are none.\<close>

lemma tee_copies:
  "tee_main [prog, file] input d = (if input = [] then (None, d(file \<mapsto> [])) else (Some 0, d(file \<mapsto> take 32768 input)))"
  by (simp add: tee_main_def Let_def put_at_start)

end
