(* ===== verification/Ipc_Programs.thy ===== *)
theory Ipc_Programs
  imports Prelude
begin

text \<open>
  The programs of \<open>high_perf_linux_server_prog/code/multi_process\<close> with a message queue and with shared memory that
  outlives a process. Such an object may exist already when the program starts, left by a run that did not delete it.
  Whether the calls succeed is an argument where they can fail for reasons outside of the program; each parent waits
  for its child, so that the two run one after the other.
\<close>

definition hello_world :: string where
  "hello_world = ''Hello World'' @ [CHR 0x00]"

section \<open>Message queue\<close>

type_synonym mqueue = "(int \<times> string) list"

datatype ipc_line = Perror string | Message_sent | Queue_state nat nat | Read_msg string | Deleted | Size_is nat | Read_shm string

definition MAXSIZE :: nat where
  "MAXSIZE = 128"

text \<open>\<open>msgrcv\<close>: the first message of a type, if it fits into the size given; its bytes go to the start of the buffer.\<close>

definition msgrcv :: "int \<Rightarrow> nat \<Rightarrow> string \<Rightarrow> mqueue \<Rightarrow> fault + (string \<times> mqueue) option" where
  "msgrcv mtype msgsz buffer q =
     (case filter (\<lambda>(t, m). t = mtype) q of
        [] \<Rightarrow> Inr None
      | (t, m) # _ \<Rightarrow>
          if msgsz < length m then Inr None
          else if length buffer < length m then Inl OutOfBounds
          else Inr (Some (m @ drop (length m) buffer, remove1 (t, m) q)))"

definition print_text :: "string \<Rightarrow> fault + string" where
  "print_text b = (if CHR 0x00 \<in> set b then Inr (takeWhile (\<lambda>c. c \<noteq> CHR 0x00) b) else Inl OutOfBounds)"

text \<open>The child. \<open>rcvbuffer\<close> is what its uninitialised buffer holds.\<close>

definition read_msg :: "string \<Rightarrow> mqueue \<Rightarrow> fault + (ipc_line list \<times> mqueue)" where
  "read_msg rcvbuffer q =
     (let data_bytes = sum_list (map (length \<circ> snd) q)
      in bindE (msgrcv 1 data_bytes rcvbuffer q) (\<lambda>r.
           case r of
             None \<Rightarrow> Inr ([Queue_state (length q) data_bytes, Perror ''msgrcv''], q)
           | Some (b, q') \<Rightarrow> bindE (print_text b) (\<lambda>t. Inr ([Queue_state (length q) data_bytes, Read_msg t], q'))))"

text \<open>The result: exit status, what the two processes print, and the queue.\<close>

definition msg_main ::
  "bool \<Rightarrow> bool \<Rightarrow> bool \<Rightarrow> bool \<Rightarrow> string \<Rightarrow> mqueue option \<Rightarrow> fault + (int \<times> ipc_line list \<times> mqueue option)" where
  "msg_main key_ok get_ok room delete_ok rcvbuffer mq =
     (if \<not> key_ok then Inr (1, [Perror ''ftok''], mq)
      else if \<not> get_ok then Inr (1, [Perror ''msgget''], mq)
      else
        (let q = (case mq of None \<Rightarrow> [] | Some q \<Rightarrow> q)
         in if \<not> room then Inr (1, [Perror ''msgsnd''], Some q)
            else
              (let q = q @ [(1, ''hello world'' @ [CHR 0x00])]
               in bindE (read_msg rcvbuffer q) (\<lambda>(ls, q).
                    if delete_ok then Inr (0, Message_sent # ls @ [Deleted], None)
                    else Inr (1, Message_sent # ls @ [Perror ''msgctl''], Some q)))))"

section \<open>Shared memory\<close>

text \<open>\<open>shm_open\<close>: the object gets the size asked for, whatever it was, and the child deletes its name.\<close>

definition FILE_SIZE :: nat where
  "FILE_SIZE = 512"

definition resize :: "nat \<Rightarrow> string \<Rightarrow> string" where
  "resize n c = take n (c @ replicate n CHR 0x00)"

definition copy_in :: "string \<Rightarrow> string \<Rightarrow> string" where
  "copy_in bytes c = bytes @ drop (length bytes) c"

definition read_data :: "string option \<Rightarrow> fault + (ipc_line list \<times> string option)" where
  "read_data shm =
     (case shm of
        None \<Rightarrow> Inr ([Perror ''shm_open''], shm)
      | Some c \<Rightarrow> bindE (print_text c) (\<lambda>t. Inr ([Size_is (length c), Read_shm t], None)))"

definition shm_open_main :: "bool \<Rightarrow> string option \<Rightarrow> fault + (int \<times> ipc_line list \<times> string option)" where
  "shm_open_main may_open shm =
     (if \<not> may_open then Inr (1, [Perror ''shm_open''], shm)
      else
        (let c = resize FILE_SIZE (case shm of None \<Rightarrow> [] | Some c \<Rightarrow> c)
         in bindE (read_data (Some (copy_in hello_world c))) (\<lambda>(ls, shm). Inr (0, ls, shm))))"

text \<open>\<open>shmget\<close>: an existing segment keeps its size; one that is too small cannot be had.\<close>

definition SHMSZ :: nat where
  "SHMSZ = 27"

definition shmget :: "nat \<Rightarrow> string option \<Rightarrow> string option" where
  "shmget n seg =
     (case seg of None \<Rightarrow> Some (replicate n CHR 0x00) | Some c \<Rightarrow> if length c < n then None else Some c)"

definition shmget_main :: "bool \<Rightarrow> string option \<Rightarrow> int \<times> ipc_line list \<times> string option" where
  "shmget_main key_ok seg =
     (if \<not> key_ok then (1, [Perror ''ftok''], seg)
      else case shmget SHMSZ seg of None \<Rightarrow> (1, [Perror ''shmget''], seg) | Some c \<Rightarrow> (0, [], None))"

definition shmget2_main :: "bool \<Rightarrow> string option \<Rightarrow> fault + (int \<times> ipc_line list \<times> string option)" where
  "shmget2_main key_ok seg =
     (if \<not> key_ok then Inr (1, [Perror ''ftok''], seg)
      else case shmget SHMSZ seg of
             None \<Rightarrow> Inr (1, [Perror ''shmget''], seg)
           | Some c \<Rightarrow>
               (let c = copy_in hello_world c
                in bindE (print_text c) (\<lambda>t. Inr (0, [Size_is (length c), Read_shm t, Deleted], None))))"

section \<open>What they do\<close>

lemma hello_copied [simp]:
  "print_text (copy_in hello_world c) = Inr ''Hello World''"
  "12 \<le> length c \<Longrightarrow> length (copy_in hello_world c) = length c"
  by (simp_all add: print_text_def copy_in_def hello_world_def)

lemma length_resize [simp]: "length (resize n c) = n"
  by (simp add: resize_def)

text \<open>
  Through shared memory the child reads what the parent wrote, whatever the object held before, and the object is gone
  afterwards. An old segment that is too small makes the other program fail.
\<close>

lemma shm_open_reads:
  "shm_open_main True shm = Inr (0, [Size_is FILE_SIZE, Read_shm ''Hello World''], None)"
  by (simp add: shm_open_main_def read_data_def FILE_SIZE_def Let_def)

lemma shmget2_reads:
  "shmget2_main True seg =
     (case seg of
        None \<Rightarrow> Inr (0, [Size_is SHMSZ, Read_shm ''Hello World'', Deleted], None)
      | Some c \<Rightarrow>
          if length c < SHMSZ then Inr (1, [Perror ''shmget''], seg)
          else Inr (0, [Size_is (length c), Read_shm ''Hello World'', Deleted], None))"
  by (auto simp: shmget2_main_def shmget_def SHMSZ_def Let_def split: option.splits)

text \<open>The size given to \<open>msgrcv\<close> is never too small, since it is that of the whole queue.\<close>

lemma msgrcv_fits: "(t, m) \<in> set q \<Longrightarrow> length m \<le> sum_list (map (length \<circ> snd) q)"
  by (induction q) auto

lemma first_of_type:
  assumes "filter (\<lambda>(t, m). t = (1 :: int)) q = (t, m) # r"
  shows "read_msg buffer (q @ [x]) =
    (let n = sum_list (map (length \<circ> snd) (q @ [x]))
     in if length buffer < length m then Inl OutOfBounds
        else bindE (print_text (m @ drop (length m) buffer)) (\<lambda>s. Inr ([Queue_state (Suc (length q)) n, Read_msg s], remove1 (t, m) (q @ [x]))))"
proof -
  have "(t, m) \<in> set (filter (\<lambda>(t, m). t = 1) q)" using assms by simp
  then have "(t, m) \<in> set (q @ [x])" by auto
  then have "\<not> sum_list (map (length \<circ> snd) (q @ [x])) < length m" using msgrcv_fits by fastforce
  then show ?thesis using assms by (simp add: read_msg_def msgrcv_def Let_def)
qed

text \<open>
  On an empty queue the child gets the message of its parent. A message of the same type from an earlier run is read in its
  place, and the new one is deleted unread; one of more than \<open>MAXSIZE\<close> bytes does not fit the buffer.
\<close>

theorem message_received:
  assumes "length buffer = MAXSIZE"
  shows "msg_main True True True True buffer None = Inr (0, [Message_sent, Queue_state 1 12, Read_msg ''hello world'', Deleted], None)
    \<and> (\<forall>m r. MAXSIZE < length m \<longrightarrow> msg_main True True True True buffer (Some ((1, m) # r)) = Inl OutOfBounds)
    \<and> (\<forall>m r. length m < MAXSIZE \<longrightarrow> CHR 0x00 \<notin> set m \<longrightarrow>
         (\<exists>n k. msg_main True True True True buffer (Some ((1, m @ [CHR 0x00]) # r)) = Inr (0, [Message_sent, Queue_state n k, Read_msg m, Deleted], None)))"
proof (intro conjI allI impI)
  show "msg_main True True True True buffer None = Inr (0, [Message_sent, Queue_state 1 12, Read_msg ''hello world'', Deleted], None)"
    using assms by (simp add: msg_main_def read_msg_def msgrcv_def print_text_def MAXSIZE_def Let_def)
  show "msg_main True True True True buffer (Some ((1, m) # r)) = Inl OutOfBounds" if "MAXSIZE < length m" for m r
    using that assms first_of_type [of "(1, m) # r" 1 m "filter (\<lambda>(t, m). t = 1) r" buffer] by (simp add: msg_main_def Let_def)
  show "\<exists>n k. msg_main True True True True buffer (Some ((1, m @ [CHR 0x00]) # r)) = Inr (0, [Message_sent, Queue_state n k, Read_msg m, Deleted], None)"
    if m: "length m < MAXSIZE" "CHR 0x00 \<notin> set m" for m r
  proof -
    have "takeWhile (\<lambda>c. c \<noteq> CHR 0x00) (m @ CHR 0x00 # b) = m" for b using m(2) by (induction m) auto
    then show ?thesis
      using m(1) assms first_of_type [of "(1, m @ [CHR 0x00]) # r" 1 "m @ [CHR 0x00]" "filter (\<lambda>(t, m). t = 1) r" buffer]
      by (simp add: msg_main_def print_text_def Let_def)
  qed
qed

theorem message_received_witness:
  "msg_main True True True True (replicate 128 CHR ''?'') None
     = Inr (0, [Message_sent, Queue_state 1 12, Read_msg ''hello world'', Deleted], None)
   \<and> msg_main True True True True (replicate 128 CHR ''?'') (Some [(1, replicate 200 CHR ''x'')]) = Inl OutOfBounds"
  using message_received [of "replicate 128 CHR ''?''"] by (simp add: MAXSIZE_def)

end
