(* ===== verification/Shared_Mutex.thy ===== *)
theory Shared_Mutex
  imports Prelude
begin

text \<open>
  The mutex between processes of \<open>mutex_process/shared_mutex.c\<close>: a \<open>pthread_mutex_t\<close> in a named shared
  memory object. The system is the table of names, the contents of the objects, and the descriptors
  and mappings of all processes, numbered apart. Whether each call succeeds is an argument.
\<close>

section \<open>The system\<close>

text \<open>The memory of an object: zero bytes, an initialised mutex that is free or held, or a destroyed one.\<close>

datatype mutex_state = Zeroed | Unlocked | Locked | Destroyed

record system_state =
  names :: "string \<Rightarrow> nat option"
  contents :: "nat \<Rightarrow> mutex_state"
  next_obj :: nat
  descs :: "int \<Rightarrow> nat option"
  next_fd :: int
  maps :: "nat \<Rightarrow> nat option"
  next_addr :: nat
  heap_names :: int

record call_results =
  open_errno :: int
  create_ok :: bool
  ftruncate_ok :: bool
  mmap_ok :: bool
  attr_init_ok :: bool
  setpshared_ok :: bool
  mutex_init_ok :: bool
  malloc_ok :: bool
  munmap_ok :: bool
  close_ok :: bool
  mutex_destroy_ok :: bool
  unlink_ok :: bool

definition ENOENT :: int where "ENOENT = 2"

definition new_desc :: "nat \<Rightarrow> system_state \<Rightarrow> int \<times> system_state" where
  "new_desc obj w = (next_fd w, w\<lparr>descs := (descs w)(next_fd w \<mapsto> obj), next_fd := next_fd w + 1\<rparr>)"

text \<open>\<open>shm_open(name, O_RDWR)\<close>: the descriptor, \<open>errno\<close> and the system after the call.\<close>

definition shm_open :: "call_results \<Rightarrow> string \<Rightarrow> system_state \<Rightarrow> int \<times> int \<times> system_state" where
  "shm_open c name w =
     (if open_errno c \<noteq> 0 then (- 1, open_errno c, w)
      else case names w name of
             None \<Rightarrow> (- 1, ENOENT, w)
           | Some obj \<Rightarrow> (case new_desc obj w of (fd, w) \<Rightarrow> (fd, 0, w)))"

text \<open>\<open>shm_open(name, O_RDWR|O_CREAT)\<close>: an object of that name which exists by now is opened.\<close>

definition shm_create :: "call_results \<Rightarrow> string \<Rightarrow> system_state \<Rightarrow> int \<times> system_state" where
  "shm_create c name w =
     (if \<not> create_ok c then (- 1, w)
      else case names w name of
             Some obj \<Rightarrow> new_desc obj w
           | None \<Rightarrow> new_desc (next_obj w)
               (w\<lparr>names := (names w)(name \<mapsto> next_obj w), contents := (contents w)(next_obj w := Zeroed), next_obj := Suc (next_obj w)\<rparr>))"

section \<open>shared_mutex_init\<close>

record shared_mutex_t =
  m_ptr :: "nat option"
  shm_fd :: int
  m_name :: "string option"
  created :: int

text \<open>The first call of \<open>shm_open\<close>; another process may run before the second.\<close>

definition init_open :: "call_results \<Rightarrow> string \<Rightarrow> system_state \<Rightarrow> (shared_mutex_t \<times> int) \<times> system_state" where
  "init_open c name w =
     (case shm_open c name w of (fd, errno, w) \<Rightarrow> ((\<lparr>m_ptr = None, shm_fd = fd, m_name = None, created = 0\<rparr>, errno), w))"

definition init_mutex :: "call_results \<Rightarrow> nat \<Rightarrow> system_state \<Rightarrow> bool \<times> system_state" where
  "init_mutex c obj w =
     (if \<not> attr_init_ok c then (False, w)
      else if \<not> setpshared_ok c then (False, w)
      else if \<not> mutex_init_ok c then (False, w)
      else (True, w\<lparr>contents := (contents w)(obj := Unlocked)\<rparr>))"

definition init_map :: "call_results \<Rightarrow> string \<Rightarrow> shared_mutex_t \<Rightarrow> system_state \<Rightarrow> fault + shared_mutex_t \<times> system_state" where
  "init_map c name mutex w =
     (if shm_fd mutex = - 1 then Inr (mutex, w)
      else if \<not> ftruncate_ok c then Inr (mutex, w)
      else if \<not> mmap_ok c then Inr (mutex, w)
      else case descs w (shm_fd mutex) of
             None \<Rightarrow> Inl OutOfBounds
           | Some obj \<Rightarrow>
               let addr = next_addr w;
                   w = w\<lparr>maps := (maps w)(addr \<mapsto> obj), next_addr := Suc addr\<rparr>
               in case (if created mutex \<noteq> 0 then init_mutex c obj w else (True, w)) of
                    (False, w) \<Rightarrow> Inr (mutex, w)
                  | (True, w) \<Rightarrow>
                      if \<not> malloc_ok c then Inl NullDeref
                      else Inr (mutex\<lparr>m_ptr := Some addr, m_name := Some name\<rparr>, w\<lparr>heap_names := heap_names w + 1\<rparr>))"

definition init_rest :: "call_results \<Rightarrow> string \<Rightarrow> shared_mutex_t \<times> int \<Rightarrow> system_state \<Rightarrow> fault + shared_mutex_t \<times> system_state" where
  "init_rest c name me w =
     (case me of (mutex, errno) \<Rightarrow>
        (if errno = ENOENT
         then (case shm_create c name w of (fd, w) \<Rightarrow> init_map c name (mutex\<lparr>shm_fd := fd, created := 1\<rparr>) w)
         else init_map c name mutex w))"

definition shared_mutex_init :: "call_results \<Rightarrow> string \<Rightarrow> system_state \<Rightarrow> fault + shared_mutex_t \<times> system_state" where
  "shared_mutex_init c name w = (case init_open c name w of (me, w) \<Rightarrow> init_rest c name me w)"

section \<open>shared_mutex_close and shared_mutex_destroy\<close>

text \<open>\<open>munmap\<close> of \<open>NULL\<close> unmaps nothing and succeeds when the call does.\<close>

definition unmap :: "nat option \<Rightarrow> system_state \<Rightarrow> system_state" where
  "unmap p w = (case p of None \<Rightarrow> w | Some addr \<Rightarrow> w\<lparr>maps := (maps w)(addr := None)\<rparr>)"

definition free_name :: "shared_mutex_t \<Rightarrow> system_state \<Rightarrow> system_state" where
  "free_name mutex w = (case m_name mutex of None \<Rightarrow> w | Some _ \<Rightarrow> w\<lparr>heap_names := heap_names w - 1\<rparr>)"

definition shared_mutex_close :: "call_results \<Rightarrow> shared_mutex_t \<Rightarrow> system_state \<Rightarrow> int \<times> system_state" where
  "shared_mutex_close c mutex w =
     (if \<not> munmap_ok c then (- 1, w)
      else let w = unmap (m_ptr mutex) w
           in if \<not> close_ok c then (- 1, w)
              else (0, free_name mutex (w\<lparr>descs := (descs w)(shm_fd mutex := None)\<rparr>)))"

definition shared_mutex_destroy :: "call_results \<Rightarrow> shared_mutex_t \<Rightarrow> system_state \<Rightarrow> fault + int \<times> system_state" where
  "shared_mutex_destroy c mutex w =
     (case m_ptr mutex of
        None \<Rightarrow> Inl NullDeref
      | Some addr \<Rightarrow>
          (case maps w addr of
             None \<Rightarrow> Inl OutOfBounds
           | Some obj \<Rightarrow>
               if \<not> mutex_destroy_ok c then Inr (- 1, w)
               else let w = w\<lparr>contents := (contents w)(obj := Destroyed)\<rparr>
                    in if \<not> munmap_ok c then Inr (- 1, w)
                       else let w = unmap (m_ptr mutex) w
                            in if \<not> close_ok c then Inr (- 1, w)
                               else let w = w\<lparr>descs := (descs w)(shm_fd mutex := None)\<rparr>
                                    in case m_name mutex of
                                         None \<Rightarrow> Inl NullDeref
                                       | Some name \<Rightarrow>
                                           if \<not> unlink_ok c then Inr (- 1, w)
                                           else Inr (0, free_name mutex (w\<lparr>names := (names w)(name := None)\<rparr>))))"

section \<open>Systems\<close>

text \<open>Numbers not yet given out are unused.\<close>

definition system_ok :: "system_state \<Rightarrow> bool" where
  "system_ok w \<longleftrightarrow> 0 \<le> next_fd w \<and> (\<forall>fd. next_fd w \<le> fd \<longrightarrow> descs w fd = None) \<and> (\<forall>a. next_addr w \<le> a \<longrightarrow> maps w a = None)
     \<and> descs w (- 1) = None \<and> (\<forall>n obj. names w n = Some obj \<longrightarrow> obj < next_obj w)"

definition all_ok :: "call_results \<Rightarrow> bool" where
  "all_ok c \<longleftrightarrow> open_errno c = 0 \<and> create_ok c \<and> ftruncate_ok c \<and> mmap_ok c \<and> attr_init_ok c \<and> setpshared_ok c \<and> mutex_init_ok c
     \<and> malloc_ok c \<and> munmap_ok c \<and> close_ok c \<and> mutex_destroy_ok c \<and> unlink_ok c"

lemmas init_defs = shared_mutex_init_def init_open_def init_rest_def init_map_def init_mutex_def shm_open_def shm_create_def new_desc_def

text \<open>The mutex a structure points to.\<close>

definition mutex_of :: "shared_mutex_t \<Rightarrow> system_state \<Rightarrow> mutex_state option" where
  "mutex_of mutex w = (case m_ptr mutex of None \<Rightarrow> None | Some addr \<Rightarrow> map_option (contents w) (maps w addr))"

text \<open>\<open>init\<close> with a name that is in use, and with one that is not.\<close>

lemma init_existing:
  assumes "system_ok w" and "all_ok c" and "names w name = Some obj"
  shows "shared_mutex_init c name w =
    Inr (\<lparr>m_ptr = Some (next_addr w), shm_fd = next_fd w, m_name = Some name, created = 0\<rparr>,
         w\<lparr>descs := (descs w)(next_fd w \<mapsto> obj), next_fd := next_fd w + 1, maps := (maps w)(next_addr w \<mapsto> obj),
           next_addr := Suc (next_addr w), heap_names := heap_names w + 1\<rparr>)"
  using assms by (simp add: init_defs all_ok_def system_ok_def Let_def ENOENT_def)

lemma init_new:
  assumes "system_ok w" and "all_ok c" and "names w name = None"
  shows "shared_mutex_init c name w =
    Inr (\<lparr>m_ptr = Some (next_addr w), shm_fd = next_fd w, m_name = Some name, created = 1\<rparr>,
         w\<lparr>names := (names w)(name \<mapsto> next_obj w), contents := (contents w)(next_obj w := Unlocked), next_obj := Suc (next_obj w),
           descs := (descs w)(next_fd w \<mapsto> next_obj w), next_fd := next_fd w + 1, maps := (maps w)(next_addr w \<mapsto> next_obj w),
           next_addr := Suc (next_addr w), heap_names := heap_names w + 1\<rparr>)"
  using assms by (simp add: init_defs all_ok_def system_ok_def Let_def ENOENT_def)

lemma init_new_ok:
  assumes "system_ok w" and "all_ok c" and "names w name = None" and "shared_mutex_init c name w = Inr (mutex, w')"
  shows "system_ok w'"
  using assms(1,4) init_new [OF assms(1-3)] by (auto simp: system_ok_def less_SucI split: if_splits)

text \<open>
  Processes that open the same name share one mutex. When no call fails, the first \<open>shared_mutex_init\<close>
  creates and initialises it, a second one finds it and gets the same mutex, in the state the first
  process left it in, and closing one of the two leaves the other working and gives back its mapping,
  its descriptor and its copy of the name.
\<close>

theorem shared_mutex_shared:
  assumes "system_ok w" and "all_ok c" and "names w name = None"
  shows "\<exists>m1 w1 m2 w2 w3. shared_mutex_init c name w = Inr (m1, w1) \<and> created m1 = 1 \<and> mutex_of m1 w1 = Some Unlocked
    \<and> shared_mutex_init c name (w1\<lparr>contents := (contents w1)(the (maps w1 (the (m_ptr m1))) := st)\<rparr>) = Inr (m2, w2)
    \<and> created m2 = 0 \<and> m_ptr m2 \<noteq> m_ptr m1 \<and> mutex_of m2 w2 = Some st \<and> mutex_of m1 w2 = Some st
    \<and> shared_mutex_close c m1 w2 = (0, w3) \<and> mutex_of m2 w3 = Some st \<and> mutex_of m1 w3 = None
    \<and> names w3 name = names w1 name \<and> descs w3 (shm_fd m1) = None \<and> heap_names w3 = heap_names w + 1"
proof -
  define w1 where "w1 = w\<lparr>names := (names w)(name \<mapsto> next_obj w), contents := (contents w)(next_obj w := Unlocked),
           next_obj := Suc (next_obj w), descs := (descs w)(next_fd w \<mapsto> next_obj w), next_fd := next_fd w + 1,
           maps := (maps w)(next_addr w \<mapsto> next_obj w), next_addr := Suc (next_addr w), heap_names := heap_names w + 1\<rparr>"
  define m1 where "m1 = \<lparr>m_ptr = Some (next_addr w), shm_fd = next_fd w, m_name = Some name, created = 1\<rparr>"
  have i: "shared_mutex_init c name w = Inr (m1, w1)" unfolding m1_def w1_def by (rule init_new [OF assms])
  define w' where "w' = w1\<lparr>contents := (contents w1)(next_obj w := st)\<rparr>"
  have "system_ok w'" using init_new_ok [OF assms i] by (simp add: w'_def system_ok_def)
  moreover have "names w' name = Some (next_obj w)" by (simp add: w'_def w1_def)
  ultimately have j: "shared_mutex_init c name w' =
    Inr (\<lparr>m_ptr = Some (next_addr w'), shm_fd = next_fd w', m_name = Some name, created = 0\<rparr>,
         w'\<lparr>descs := (descs w')(next_fd w' \<mapsto> next_obj w), next_fd := next_fd w' + 1, maps := (maps w')(next_addr w' \<mapsto> next_obj w),
           next_addr := Suc (next_addr w'), heap_names := heap_names w' + 1\<rparr>)"
    by (rule init_existing [OF _ assms(2)])
  show ?thesis
    using i j assms(2)
    by (auto simp: m1_def w1_def w'_def mutex_of_def shared_mutex_close_def unmap_def free_name_def all_ok_def Let_def)
qed

definition ok_calls :: call_results where
  "ok_calls = \<lparr>open_errno = 0, create_ok = True, ftruncate_ok = True, mmap_ok = True, attr_init_ok = True, setpshared_ok = True,
     mutex_init_ok = True, malloc_ok = True, munmap_ok = True, close_ok = True, mutex_destroy_ok = True, unlink_ok = True\<rparr>"

definition empty_system :: system_state where
  "empty_system = \<lparr>names = (\<lambda>_. None), contents = (\<lambda>_. Zeroed), next_obj = 0, descs = (\<lambda>_. None), next_fd = 3,
     maps = (\<lambda>_. None), next_addr = 1, heap_names = 0\<rparr>"

lemma empty_system_ok: "system_ok empty_system" "all_ok ok_calls"
  by (simp_all add: system_ok_def empty_system_def all_ok_def ok_calls_def)

theorem shared_mutex_shared_witness:
  "\<exists>m1 w1. shared_mutex_init ok_calls ''/m'' empty_system = Inr (m1, w1) \<and> created m1 = 1 \<and> mutex_of m1 w1 = Some Unlocked"
  using shared_mutex_shared [OF empty_system_ok, of "''/m''" Locked] by (auto simp: empty_system_def)

text \<open>
  When the mutex of a new object cannot be initialised, \<open>shared_mutex_init\<close> returns a null \<open>ptr\<close>, as
  documented. But it leaves the object behind: the next process finds the name, takes the object for a
  mutex and returns a \<open>ptr\<close> to memory that was never initialised. The descriptor of the failed call
  stays open.
\<close>

theorem shared_mutex_init_failure:
  assumes "system_ok w" and "names w name = None" and "open_errno c = 0" and "create_ok c" and "ftruncate_ok c" and "mmap_ok c"
    and "\<not> attr_init_ok c \<or> \<not> setpshared_ok c \<or> \<not> mutex_init_ok c" and "all_ok c'"
  shows "\<exists>m1 w1 m2 w2. shared_mutex_init c name w = Inr (m1, w1) \<and> m_ptr m1 = None
    \<and> descs w1 (shm_fd m1) \<noteq> None \<and> descs w (shm_fd m1) = None
    \<and> shared_mutex_init c' name w1 = Inr (m2, w2) \<and> created m2 = 0 \<and> mutex_of m2 w2 = Some Zeroed"
proof -
  define w1 where "w1 = w\<lparr>names := (names w)(name \<mapsto> next_obj w), contents := (contents w)(next_obj w := Zeroed),
           next_obj := Suc (next_obj w), descs := (descs w)(next_fd w \<mapsto> next_obj w), next_fd := next_fd w + 1,
           maps := (maps w)(next_addr w \<mapsto> next_obj w), next_addr := Suc (next_addr w)\<rparr>"
  define m1 where "m1 = \<lparr>m_ptr = None, shm_fd = next_fd w, m_name = None, created = 1\<rparr>"
  have i: "shared_mutex_init c name w = Inr (m1, w1)"
    using assms by (auto simp: init_defs m1_def w1_def Let_def ENOENT_def system_ok_def)
  have "system_ok w1" using assms(1) by (auto simp: w1_def system_ok_def less_SucI split: if_splits)
  moreover have "names w1 name = Some (next_obj w)" by (simp add: w1_def)
  ultimately have "shared_mutex_init c' name w1 =
    Inr (\<lparr>m_ptr = Some (next_addr w1), shm_fd = next_fd w1, m_name = Some name, created = 0\<rparr>,
         w1\<lparr>descs := (descs w1)(next_fd w1 \<mapsto> next_obj w), next_fd := next_fd w1 + 1, maps := (maps w1)(next_addr w1 \<mapsto> next_obj w),
           next_addr := Suc (next_addr w1), heap_names := heap_names w1 + 1\<rparr>)" by (rule init_existing [OF _ assms(8)])
  then show ?thesis using i assms(1) by (auto simp: m1_def w1_def mutex_of_def system_ok_def)
qed

theorem shared_mutex_init_failure_witness:
  "\<exists>m1 w1 m2 w2. shared_mutex_init (ok_calls\<lparr>mutex_init_ok := False\<rparr>) ''/m'' empty_system = Inr (m1, w1)
     \<and> shared_mutex_init ok_calls ''/m'' w1 = Inr (m2, w2) \<and> mutex_of m2 w2 = Some Zeroed"
  using shared_mutex_init_failure [OF empty_system_ok(1), of "''/m''" "ok_calls\<lparr>mutex_init_ok := False\<rparr>" ok_calls] empty_system_ok(2)
  by (auto simp: empty_system_def ok_calls_def)

text \<open>
  Two processes that create the mutex at the same time, as the comment in \<open>shared_mutex.h\<close> warns: when the
  second looks for the name before the first has created it and goes on after the first has locked the
  mutex, it initialises the mutex again and finds it free.
\<close>

theorem shared_mutex_init_race:
  assumes "system_ok w" and "all_ok c" and "names w name = None" and "init_open c name w = (me, w')"
  shows "\<exists>m1 w1 m2 w2. shared_mutex_init c name w' = Inr (m1, w1)
    \<and> init_rest c name me (w1\<lparr>contents := (contents w1)(the (maps w1 (the (m_ptr m1))) := Locked)\<rparr>) = Inr (m2, w2)
    \<and> created m1 = 1 \<and> created m2 = 1 \<and> mutex_of m2 w2 = Some Unlocked \<and> mutex_of m1 w2 = Some Unlocked"
proof -
  have me: "me = (\<lparr>m_ptr = None, shm_fd = - 1, m_name = None, created = 0\<rparr>, ENOENT)" "w' = w"
    using assms(2-4) by (auto simp: init_open_def shm_open_def all_ok_def)
  show ?thesis using init_new [OF assms(1-3)] assms(1,2) unfolding me
    by (auto simp: init_rest_def init_map_def init_mutex_def shm_create_def new_desc_def all_ok_def system_ok_def mutex_of_def Let_def)
qed

theorem shared_mutex_init_race_witness:
  "\<exists>m1 w1 m2 w2. shared_mutex_init ok_calls ''/m'' (snd (init_open ok_calls ''/m'' empty_system)) = Inr (m1, w1)
     \<and> init_rest ok_calls ''/m'' (fst (init_open ok_calls ''/m'' empty_system))
         (w1\<lparr>contents := (contents w1)(the (maps w1 (the (m_ptr m1))) := Locked)\<rparr>) = Inr (m2, w2)
     \<and> mutex_of m1 w2 = Some Unlocked"
  using shared_mutex_init_race [OF empty_system_ok, of "''/m''"] by (cases "init_open ok_calls ''/m'' empty_system") (auto simp: empty_system_def)

text \<open>\<open>shared_mutex_destroy\<close> removes the name, so that the next \<open>shared_mutex_init\<close> creates a new mutex.\<close>

lemma shared_mutex_destroy_removes:
  assumes "system_ok w" and "all_ok c" and "m_ptr mutex = Some addr" and "maps w addr = Some obj" and "m_name mutex = Some name"
  shows "\<exists>w'. shared_mutex_destroy c mutex w = Inr (0, w') \<and> names w' name = None \<and> contents w' obj = Destroyed
    \<and> maps w' addr = None \<and> descs w' (shm_fd mutex) = None \<and> heap_names w' = heap_names w - 1"
  using assms by (simp add: shared_mutex_destroy_def unmap_def free_name_def all_ok_def Let_def)

end
