(* ===== verification/Ostep_Concurrency.thy ===== *)
theory Ostep_Concurrency
  imports Prelude "HOL-Library.Multiset"
begin

text \<open>
  Two multi-threaded programs of \<open>operating_systems_three_easy_pieces/code\<close>: the sloppy counter and the
  bounded buffer with condition variables. A critical section is one step, and the interleaving
  of the threads is a sequence of steps.
\<close>

section \<open>sloppy_counter/main.c\<close>

definition NUMBCPUS :: nat where "NUMBCPUS = 4"

record counter_t =
  c_global :: int
  c_local :: "int list"
  c_threshold :: int

definition init :: "int \<Rightarrow> counter_t" where
  "init threshold = \<lparr>c_global = 0, c_local = replicate NUMBCPUS 0, c_threshold = threshold\<rparr>"

definition update :: "nat \<Rightarrow> int \<Rightarrow> counter_t \<Rightarrow> counter_t" where
  "update threadID amt c =
     (let c = c\<lparr>c_local := (c_local c)[threadID := s32 (c_local c ! threadID + amt)]\<rparr>
      in if c_threshold c \<le> c_local c ! threadID
         then c\<lparr>c_global := s32 (c_global c + c_local c ! threadID), c_local := (c_local c)[threadID := 0]\<rparr>
         else c)"

definition get_counter :: "counter_t \<Rightarrow> int" where
  "get_counter c = c_global c"

text \<open>The updates of all threads in the order in which they take the lock: which counter, how much.\<close>

fun updates :: "(nat \<times> int) list \<Rightarrow> counter_t \<Rightarrow> counter_t" where
  "updates [] c = c"
| "updates ((i, amt) # us) c = updates us (update i amt c)"

text \<open>\<open>main\<close>: six threads with these numbers, each with ten million updates by one.\<close>

definition main_threads :: "nat list" where "main_threads = [0, 1, 2, 3, 2, 3]"

definition thread_updates :: "nat \<Rightarrow> (nat \<times> int) multiset" where
  "thread_updates i = replicate_mset 10000000 (i, 1)"

definition main_updates :: "(nat \<times> int) multiset" where
  "main_updates = sum_list (map thread_updates main_threads)"

text \<open>How much was added by the updates of number \<open>i\<close>.\<close>

definition amount :: "nat \<Rightarrow> (nat \<times> int) list \<Rightarrow> int" where
  "amount i us = sum_list (map snd (filter (\<lambda>u. fst u = i) us))"

definition exact :: "(nat \<times> int) list \<Rightarrow> int" where
  "exact us = sum_list (map snd us)"

definition counter_inv :: "int \<Rightarrow> int \<Rightarrow> counter_t \<Rightarrow> bool" where
  "counter_inv T tot c \<longleftrightarrow> length (c_local c) = NUMBCPUS \<and> c_threshold c = T \<and> 0 \<le> c_global c
     \<and> (\<forall>i<NUMBCPUS. 0 \<le> c_local c ! i \<and> c_local c ! i < T) \<and> c_global c + sum_list (c_local c) = tot"

lemma local_le_sum: "(\<forall>i<length xs. 0 \<le> xs ! i) \<Longrightarrow> i < length xs \<Longrightarrow> xs ! i \<le> sum_list (xs :: int list)"
  by (intro member_le_sum_list) (auto simp: in_set_conv_nth)

lemma update_inv:
  assumes inv: "counter_inv T tot c" and i: "i < NUMBCPUS" and amt: "0 \<le> amt" "tot + amt < 2 ^ 31" and T: "0 < T"
  shows "counter_inv T (tot + amt) (update i amt c)"
    and "amt = 1 \<Longrightarrow> c_local (update i amt c) = (c_local c)[i := (c_local c ! i + 1) mod T]"
proof -
  let ?l = "c_local c ! i"
  have l: "0 \<le> ?l" "?l < T" "length (c_local c) = NUMBCPUS" "0 \<le> c_global c" using inv i by (auto simp: counter_inv_def)
  have le: "?l \<le> sum_list (c_local c)" using local_le_sum [of "c_local c" i] inv i by (auto simp: counter_inv_def)
  then have le2: "c_global c + (?l + amt) \<le> tot + amt" using inv by (simp add: counter_inv_def)
  have s: "s32 (?l + amt) = ?l + amt" "s32 (c_global c + (?l + amt)) = c_global c + (?l + amt)"
    using le2 amt l by (simp_all add: s32_id)
  show "counter_inv T (tot + amt) (update i amt c)"
    using inv i amt l T s by (auto simp: counter_inv_def update_def Let_def sum_list_update_int nth_list_update)
  show "c_local (update i amt c) = (c_local c)[i := (c_local c ! i + 1) mod T]" if "amt = 1"
  proof -
    have "(?l + 1) mod T = (if T \<le> ?l + 1 then 0 else ?l + 1)"
    proof (cases "T \<le> ?l + 1")
      case True
      then have "?l + 1 = T" using l by linarith
      then show ?thesis by simp
    next
      case False
      then show ?thesis using l by simp
    qed
    then show ?thesis using that inv i l T s by (auto simp: counter_inv_def update_def Let_def)
  qed
qed

lemma updates_inv:
  assumes "counter_inv T tot c" and "0 < T" and "list_all (\<lambda>(i, a). i < NUMBCPUS \<and> 0 \<le> a) us" and "tot + exact us < 2 ^ 31"
  shows "counter_inv T (tot + exact us) (updates us c)"
  using assms(1,3,4)
proof (induction us arbitrary: tot c)
  case Nil
  then show ?case by (simp add: exact_def)
next
  case (Cons u us)
  obtain i a where u: "u = (i, a)" by (cases u)
  have "0 \<le> exact us" using Cons.prems(2) by (fastforce simp: exact_def list_all_iff intro!: sum_list_nonneg)
  then have "counter_inv T (tot + a) (update i a c)"
    using update_inv(1) [OF Cons.prems(1), of i a] Cons.prems u assms(2) by (auto simp: exact_def)
  then show ?case using Cons.IH [of "tot + a" "update i a c"] Cons.prems u by (simp add: exact_def add.assoc)
qed

lemma updates_local:
  assumes "counter_inv T tot c" and "0 < T" and "list_all (\<lambda>(i, a). i < NUMBCPUS \<and> a = 1) us" and "tot + exact us < 2 ^ 31"
    and "j < NUMBCPUS"
  shows "c_local (updates us c) ! j = (c_local c ! j + amount j us) mod T"
  using assms(1,3,4)
proof (induction us arbitrary: tot c)
  case Nil
  then show ?case using assms(5) by (auto simp: amount_def counter_inv_def)
next
  case (Cons u us)
  obtain i where u: "u = (i, 1)" "i < NUMBCPUS" using Cons.prems(2) by (cases u) auto
  have "0 \<le> exact us" using Cons.prems(2) by (fastforce simp: exact_def list_all_iff intro!: sum_list_nonneg)
  then have st: "counter_inv T (tot + 1) (update i 1 c)" "c_local (update i 1 c) = (c_local c)[i := (c_local c ! i + 1) mod T]"
    using update_inv [OF Cons.prems(1), of i 1] Cons.prems u assms(2) by (auto simp: exact_def)
  have "c_local (updates us (update i 1 c)) ! j = (c_local (update i 1 c) ! j + amount j us) mod T"
    using Cons.IH [OF st(1)] Cons.prems u by (simp add: exact_def)
  moreover have "length (c_local c) = NUMBCPUS" using Cons.prems(1) by (simp add: counter_inv_def)
  ultimately show ?case using u assms(5) st(2) by (auto simp: amount_def mod_simps add.assoc)
qed

lemma init_inv: "0 < T \<Longrightarrow> counter_inv T 0 (init T)"
  by (simp add: counter_inv_def init_def NUMBCPUS_def sum_list_replicate)

lemma all_cpus: "(\<forall>i<NUMBCPUS. P i) \<longleftrightarrow> P 0 \<and> P 1 \<and> P 2 \<and> P 3"
  by (auto simp: NUMBCPUS_def less_Suc_eq numeral_eq_Suc)

lemma sum_four: "length xs = NUMBCPUS \<Longrightarrow> sum_list (xs :: int list) = xs ! 0 + xs ! 1 + xs ! 2 + xs ! 3"
  by (auto simp: NUMBCPUS_def length_Suc_conv numeral_eq_Suc)

text \<open>
  C37: The counter is as sloppy as its threshold allows and no more. After any interleaving of updates by
  non-negative amounts that add up to less than 2 to the 31, the value read is at most the exact sum, and
  less than four thresholds below it.
\<close>

theorem sloppy_bounds:
  assumes "0 < T" and "list_all (\<lambda>(i, a). i < NUMBCPUS \<and> 0 \<le> a) us" and "exact us < 2 ^ 31"
  shows "get_counter (updates us (init T)) \<le> exact us
    \<and> exact us - 4 * (T - 1) \<le> get_counter (updates us (init T))"
proof -
  let ?c = "updates us (init T)"
  have inv: "counter_inv T (exact us) ?c" using updates_inv [OF init_inv [OF assms(1)] assms(1,2)] assms(3) by simp
  then have "sum_list (c_local ?c) = c_local ?c ! 0 + c_local ?c ! 1 + c_local ?c ! 2 + c_local ?c ! 3"
    by (intro sum_four) (simp add: counter_inv_def)
  moreover have "\<forall>i<NUMBCPUS. 0 \<le> c_local ?c ! i \<and> c_local ?c ! i \<le> T - 1" using inv by (auto simp: counter_inv_def)
  ultimately show ?thesis using inv unfolding all_cpus by (simp add: get_counter_def counter_inv_def)
qed

theorem sloppy_bounds_witness:
  "get_counter (updates [(0, 70), (1, 60), (0, 40)] (init 100)) \<le> 170
   \<and> 170 - 4 * 99 \<le> get_counter (updates [(0, 70), (1, 60), (0, 40)] (init 100))"
  using sloppy_bounds [of 100 "[(0, 70), (1, 60), (0, 40)]"] by (simp add: exact_def NUMBCPUS_def)

lemma amount_mset: "amount i us = sum_mset (image_mset snd (filter_mset (\<lambda>u. fst u = i) (mset us)))"
  by (simp add: amount_def sum_mset_sum_list mset_filter [symmetric] mset_map [symmetric] del: mset_filter mset_map)

lemma exact_mset: "exact us = sum_mset (image_mset snd (mset us))"
  by (simp add: exact_def sum_mset_sum_list mset_map [symmetric] del: mset_map)

lemma filter_replicate_mset: "filter_mset P (replicate_mset n x) = (if P x then replicate_mset n x else {#})"
  by (induction n) auto

lemma sum_replicate_mset: "sum_mset (replicate_mset n (a :: int)) = int n * a"
  by (induction n) (auto simp: algebra_simps)

text \<open>
  The program itself ends with the exact result: whatever order its six threads run in, after their ten
  million updates each the counter reads sixty million, since each local count is a multiple of the
  threshold.
\<close>

theorem sloppy_main_exact:
  assumes "mset us = main_updates"
  shows "get_counter (updates us (init 100)) = 60000000"
proof -
  have m: "main_updates = replicate_mset 10000000 (0, 1) + (replicate_mset 10000000 (1, 1) + (replicate_mset 10000000 (2, 1)
      + (replicate_mset 10000000 (3, 1) + (replicate_mset 10000000 (2, 1) + replicate_mset 10000000 (3, 1)))))"
    by (simp add: main_updates_def main_threads_def thread_updates_def)
  have am: "amount 0 us = 10000000" "amount 1 us = 10000000" "amount 2 us = 20000000" "amount 3 us = 20000000"
    "exact us = 60000000"
    unfolding amount_mset exact_mset assms m by (simp_all add: filter_replicate_mset sum_replicate_mset)
  have "set us = set_mset main_updates" using assms by (metis set_mset_mset)
  then have us: "list_all (\<lambda>(i, a). i < NUMBCPUS \<and> a = 1) us" by (auto simp: m list_all_iff NUMBCPUS_def)
  then have "list_all (\<lambda>(i, a). i < NUMBCPUS \<and> 0 \<le> a) us" by (auto simp: list_all_iff)
  then have inv: "counter_inv 100 60000000 (updates us (init 100))"
    using updates_inv [OF init_inv [of 100], of us] am(5) by simp
  have "c_local (updates us (init 100)) ! j = amount j us mod 100" if "j < NUMBCPUS" for j
    using updates_local [OF init_inv [of 100] _ us _ that] am(5) that by (simp add: init_def)
  then have "\<forall>j<NUMBCPUS. c_local (updates us (init 100)) ! j = 0"
    unfolding all_cpus using am by (simp add: NUMBCPUS_def)
  then have "sum_list (c_local (updates us (init 100))) = 0"
    using sum_four [of "c_local (updates us (init 100))"] inv unfolding all_cpus by (simp add: counter_inv_def)
  then show ?thesis using inv by (simp add: counter_inv_def get_counter_def)
qed

theorem sloppy_main_exact_witness:
  "get_counter (updates (concat (map (\<lambda>i. replicate 10000000 (i, 1)) main_threads)) (init 100)) = 60000000"
proof (rule sloppy_main_exact)
  have "mset (concat (map (\<lambda>i. replicate 10000000 (i, 1)) is)) = sum_list (map thread_updates is)" for "is" :: "nat list"
    by (induction "is") (simp_all add: thread_updates_def)
  then show "mset (concat (map (\<lambda>i. replicate 10000000 (i, 1)) main_threads)) = main_updates"
    unfolding main_updates_def .
qed

section \<open>producer_consumer/main.c\<close>

definition MAX_items :: nat where "MAX_items = 10"

record shared =
  buffer :: "int list"
  fill :: nat
  use :: nat
  cnt :: int

definition put :: "int \<Rightarrow> shared \<Rightarrow> shared" where
  "put value s = s\<lparr>buffer := (buffer s)[fill s := value], fill := (fill s + 1) mod MAX_items, cnt := cnt s + 1\<rparr>"

definition get :: "shared \<Rightarrow> int \<times> shared" where
  "get s = (buffer s ! use s, s\<lparr>use := (use s + 1) mod MAX_items, cnt := cnt s - 1\<rparr>)"

text \<open>
  Where a thread is: before the lock, waiting on its condition variable, or woken from it and about to
  go on with the mutex. The producer is at round \<open>i\<close> of its loop; a consumer has rounds left.
\<close>

datatype place = Ready | Asleep | Woken

text \<open>A thread that waits is woken.\<close>

definition wake :: "place \<Rightarrow> place" where
  "wake p = (if p = Asleep then Woken else p)"

record system =
  sh :: shared
  prod_at :: place
  prod_i :: nat
  prod_loops :: nat
  cons_at :: "place list"
  cons_left :: "nat list"
  consumed :: "int list"

text \<open>\<open>pthread_cond_signal(&fill_cond)\<close> wakes the sleeping consumer \<open>k\<close>, or the first sleeping one.\<close>

fun first_asleep :: "place list \<Rightarrow> nat option" where
  "first_asleep [] = None"
| "first_asleep (p # ps) = (if p = Asleep then Some 0 else map_option Suc (first_asleep ps))"

definition signal_fill :: "nat \<Rightarrow> place list \<Rightarrow> place list" where
  "signal_fill k ps =
     (if k < length ps \<and> ps ! k = Asleep then ps[k := Woken]
      else (case first_asleep ps of None \<Rightarrow> ps | Some j \<Rightarrow> ps[j := Woken]))"

text \<open>A round of \<open>produce\<close>, from the lock or from the wake-up, to the wait or the unlock: \<open>while (count == MAX)\<close>.\<close>

definition produce :: "nat \<Rightarrow> system \<Rightarrow> system" where
  "produce k s =
     (if prod_loops s \<le> prod_i s \<or> prod_at s = Asleep then s
      else if cnt (sh s) = int MAX_items then s\<lparr>prod_at := Asleep\<rparr>
      else s\<lparr>sh := put (int (prod_i s)) (sh s), cons_at := signal_fill k (cons_at s), prod_at := Ready, prod_i := prod_i s + 1\<rparr>)"

text \<open>A round of consumer \<open>j\<close>: \<open>if (count == 0)\<close>, so a woken consumer does not look again.\<close>

definition consume :: "nat \<Rightarrow> system \<Rightarrow> system" where
  "consume j s =
     (if length (cons_at s) \<le> j \<or> cons_left s ! j = 0 \<or> cons_at s ! j = Asleep then s
      else if cons_at s ! j = Ready \<and> cnt (sh s) = 0 then s\<lparr>cons_at := (cons_at s)[j := Asleep]\<rparr>
      else (case get (sh s) of (tmp, sh') \<Rightarrow>
              s\<lparr>sh := sh', prod_at := wake (prod_at s),
                cons_at := (cons_at s)[j := Ready], cons_left := (cons_left s)[j := cons_left s ! j - 1],
                consumed := consumed s @ [tmp]\<rparr>))"

text \<open>
  \<open>pthread_cond_wait\<close> may also return without a signal, and a signal may wake more than one thread: the
  steps \<open>Wake_producer\<close> and \<open>Wake_consumer\<close>.
\<close>

datatype pc_op = Produce nat | Consume nat | Wake_producer | Wake_consumer nat

definition pc_step :: "pc_op \<Rightarrow> system \<Rightarrow> system" where
  "pc_step x s =
     (case x of
        Produce k \<Rightarrow> produce k s
      | Consume j \<Rightarrow> consume j s
      | Wake_producer \<Rightarrow> s\<lparr>prod_at := wake (prod_at s)\<rparr>
      | Wake_consumer j \<Rightarrow> s\<lparr>cons_at := (cons_at s)[j := wake (cons_at s ! j)]\<rparr>)"

definition pc_start :: "nat \<Rightarrow> nat list \<Rightarrow> system" where
  "pc_start loops cons = \<lparr>sh = \<lparr>buffer = replicate MAX_items 0, fill = 0, use = 0, cnt = 0\<rparr>, prod_at = Ready, prod_i = 0,
     prod_loops = loops, cons_at = replicate (length cons) Ready, cons_left = cons, consumed = []\<rparr>"

text \<open>
  The two consumers of the program can empty an empty buffer. A consumer that sleeps is woken by the first
  item, the other consumer takes the item first, and the woken one, which does not test the count
  again, reads a cell that was never filled: the count becomes negative.
\<close>

theorem consumer_underflow:
  "let s = run_ops pc_step [Consume 0, Produce 0, Consume 1, Consume 0] (pc_start 100 [49, 51])
   in cnt (sh s) = - 1 \<and> length (consumed s) = 2 \<and> prod_i s = 1"
  by (simp add: pc_step_def pc_start_def produce_def consume_def put_def get_def signal_fill_def wake_def MAX_items_def Let_def)

text \<open>One consumer is enough when it wakes up without a signal.\<close>

lemma spurious_underflow:
  "cnt (sh (run_ops pc_step [Consume 0, Wake_consumer 0, Consume 0] (pc_start 100 [100]))) = - 1"
  by (simp add: pc_step_def pc_start_def consume_def get_def wake_def MAX_items_def)

section \<open>What the consumers get\<close>

text \<open>The step of a consumer that comes out of its wait and finds the buffer empty; a schedule that has one.\<close>

definition stale :: "pc_op \<Rightarrow> system \<Rightarrow> bool" where
  "stale x s = (case x of
      Consume j \<Rightarrow> j < length (cons_at s) \<and> cons_left s ! j \<noteq> 0 \<and> cons_at s ! j = Woken \<and> cnt (sh s) = 0
    | _ \<Rightarrow> False)"

fun has_stale :: "pc_op list \<Rightarrow> system \<Rightarrow> bool" where
  "has_stale [] s = False"
| "has_stale (x # xs) s = (stale x s \<or> has_stale xs (pc_step x s))"

definition ring_inv :: "shared \<Rightarrow> bool" where
  "ring_inv b \<longleftrightarrow> length (buffer b) = 10 \<and> use b < 10 \<and> 0 \<le> cnt b \<and> cnt b \<le> 10 \<and> fill b = (use b + nat (cnt b)) mod 10"

definition ring :: "shared \<Rightarrow> int list" where
  "ring b = map (\<lambda>k. buffer b ! ((use b + k) mod 10)) [0..<nat (cnt b)]"

lemma put_spec:
  assumes "ring_inv b" and "cnt b \<noteq> 10"
  shows "ring_inv (put v b) \<and> ring (put v b) = ring b @ [v] \<and> 0 < cnt (put v b)"
proof -
  define n where "n = nat (cnt b)"
  have n: "cnt b = int n" "n < 10" "length (buffer b) = 10" "use b < 10" "fill b = (use b + n) mod 10"
    using assms by (auto simp: ring_inv_def n_def)
  have "(use b + n) mod 10 \<noteq> (use b + i) mod 10" if "i < n" for i using mod_add_inj [OF that n(2)] .
  moreover have "nat (1 + int n) = Suc n" by simp
  moreover have "Suc ((use b + n) mod 10) mod 10 = (use b + Suc n) mod 10" by (simp add: mod_simps)
  ultimately show ?thesis using n by (auto simp: ring_inv_def ring_def put_def MAX_items_def add.commute [of _ 1])
qed

lemma get_spec:
  assumes "ring_inv b" and "0 < cnt b" and "get b = (x, b')"
  shows "ring_inv b' \<and> ring b = x # ring b' \<and> cnt b' = cnt b - 1"
proof -
  define n where "n = nat (cnt b) - 1"
  have n: "cnt b = int (Suc n)" "n < 10" "length (buffer b) = 10" "use b < 10" "fill b = (use b + Suc n) mod 10"
    using assms(1,2) by (auto simp: ring_inv_def n_def)
  have g: "x = buffer b ! use b" "b' = b\<lparr>use := Suc (use b) mod 10, cnt := int n\<rparr>"
    using assms(3) n(1) by (auto simp: get_def MAX_items_def)
  have w: "(Suc (use b) mod 10 + i) mod 10 = (use b + Suc i) mod 10" for i by (simp add: mod_simps)
  have "nat (cnt b) = Suc n" using n(1) by simp
  then have "ring b = x # ring b'"
    using n w by (simp add: ring_def g upt_conv_Cons map_Suc_upt [symmetric] del: upt_Suc)
  then show ?thesis using n w [of n] by (simp add: ring_inv_def g)
qed

definition pc_inv :: "system \<Rightarrow> bool" where
  "pc_inv s \<longleftrightarrow> ring_inv (sh s) \<and> consumed s @ ring (sh s) = map int [0..<prod_i s]"

lemma pc_inv_produce: "pc_inv s \<Longrightarrow> pc_inv (produce k s)"
  using put_spec [of "sh s" "int (prod_i s)"]
  by (auto simp: produce_def pc_inv_def MAX_items_def append_assoc [symmetric] simp del: append_assoc)

lemma pc_inv_consume:
  assumes "pc_inv s" and "\<not> stale (Consume j) s"
  shows "pc_inv (consume j s)"
proof (cases "length (cons_at s) \<le> j \<or> cons_left s ! j = 0 \<or> cons_at s ! j = Asleep \<or> cons_at s ! j = Ready \<and> cnt (sh s) = 0")
  case True
  then show ?thesis using assms(1) by (auto simp: consume_def pc_inv_def)
next
  case False
  obtain x b where g: "get (sh s) = (x, b)" by (cases "get (sh s)")
  have "cnt (sh s) \<noteq> 0" using False assms(2) by (cases "cons_at s ! j") (auto simp: stale_def)
  then have "0 < cnt (sh s)" using assms(1) by (simp add: pc_inv_def ring_inv_def)
  from get_spec [OF _ this g] have "ring_inv b" "ring (sh s) = x # ring b" using assms(1) by (simp_all add: pc_inv_def)
  then show ?thesis using assms(1) False g by (auto simp: consume_def pc_inv_def)
qed

lemma pc_inv_step: "pc_inv s \<Longrightarrow> \<not> stale x s \<Longrightarrow> pc_inv (pc_step x s)"
  by (cases x) (auto simp: pc_step_def pc_inv_produce pc_inv_consume, simp_all add: pc_inv_def)

lemma pc_inv_run: "pc_inv s \<Longrightarrow> \<not> has_stale xs s \<Longrightarrow> pc_inv (run_ops pc_step xs s)"
  by (induction xs arbitrary: s) (auto intro: pc_inv_step)

lemma pc_inv_start: "pc_inv (pc_start loops cons)"
  by (simp add: pc_inv_def pc_start_def ring_inv_def ring_def MAX_items_def)

text \<open>A single consumer that is woken by signals only finds an item.\<close>

definition pc_one :: "system \<Rightarrow> bool" where
  "pc_one s \<longleftrightarrow> pc_inv s \<and> length (cons_at s) = 1 \<and> (cons_at s ! 0 = Woken \<longrightarrow> 0 < cnt (sh s))"

lemma signal_fill_length [simp]: "length (signal_fill k ps) = length ps"
  by (auto simp: signal_fill_def split: option.split)

lemma pc_one_produce:
  assumes "pc_one s"
  shows "pc_one (produce k s)"
proof -
  have "pc_inv (produce k s)" using assms by (simp add: pc_one_def pc_inv_produce)
  moreover have "length (cons_at (produce k s)) = 1" using assms by (auto simp: pc_one_def produce_def)
  moreover have "cons_at (produce k s) ! 0 = Woken \<Longrightarrow> 0 < cnt (sh (produce k s))"
    using assms put_spec [of "sh s" "int (prod_i s)"] by (auto simp: pc_one_def pc_inv_def produce_def MAX_items_def split: if_splits)
  ultimately show ?thesis by (simp add: pc_one_def)
qed

lemma pc_one_not_stale: "pc_one s \<Longrightarrow> \<not> stale x s"
  by (cases x) (auto simp: pc_one_def stale_def)

lemma pc_one_consume:
  assumes "pc_one s"
  shows "pc_one (consume j s)"
proof -
  have "pc_inv (consume j s)" using assms pc_one_not_stale [OF assms] by (simp add: pc_one_def pc_inv_consume)
  moreover have "length (cons_at (consume j s)) = 1" using assms by (auto simp: pc_one_def consume_def split: prod.split)
  moreover have "cons_at (consume j s) ! 0 = Woken \<Longrightarrow> 0 < cnt (sh (consume j s))"
    using assms by (cases j) (auto simp: pc_one_def consume_def split: prod.splits if_splits)
  ultimately show ?thesis by (simp add: pc_one_def)
qed

lemma pc_one_run: "pc_one s \<Longrightarrow> \<forall>j. Wake_consumer j \<notin> set xs \<Longrightarrow> \<not> has_stale xs s"
proof (induction xs arbitrary: s)
  case (Cons x xs)
  have "pc_one (pc_step x s)" using Cons.prems
    by (cases x) (auto simp: pc_step_def pc_one_produce pc_one_consume, simp add: pc_one_def pc_inv_def)
  then show ?case using Cons pc_one_not_stale by auto
qed simp

text \<open>
  C38: The program with its consumers, spurious wake-ups included: along every schedule in which no consumer
  comes out of its wait to an empty buffer, the values taken out, followed by those in the buffer, are
  the values produced in order, and the count stays between 0 and the size of the buffer. The first
  consumer that does come out to an empty buffer makes the count negative. With one consumer this takes a
  spurious wake-up: without one it never happens.
\<close>

theorem items_in_order:
  "let s0 = pc_start loops cons; s = run_ops pc_step xs s0
   in (\<not> has_stale xs s0 \<longrightarrow>
         consumed s @ ring (sh s) = map int [0..<prod_i s] \<and> 0 \<le> cnt (sh s) \<and> cnt (sh s) \<le> int MAX_items
         \<and> (\<forall>x. stale x s \<longrightarrow> cnt (sh (pc_step x s)) < 0))
    \<and> (length cons = 1 \<and> (\<forall>j. Wake_consumer j \<notin> set xs) \<longrightarrow> \<not> has_stale xs s0)"
proof -
  let ?init = "pc_start loops cons" and ?s = "run_ops pc_step xs (pc_start loops cons)"
  have "cnt (sh (pc_step x s)) < 0" if "stale x s" for x s
    using that by (cases x) (auto simp: stale_def pc_step_def consume_def get_def)
  moreover have "pc_inv ?s" if "\<not> has_stale xs ?init" by (rule pc_inv_run [OF pc_inv_start that])
  moreover have "pc_one ?init" if "length cons = 1"
    using that pc_inv_start [of loops cons] by (simp add: pc_one_def pc_start_def)
  ultimately show ?thesis
    using pc_one_run [of ?init xs] by (auto simp: Let_def pc_inv_def ring_inv_def MAX_items_def)
qed

theorem items_in_order_witness:
  "consumed (run_ops pc_step [Consume 0, Produce 0, Wake_producer, Consume 0, Produce 1, Consume 1] (pc_start 100 [49, 51])) = [0, 1]
   \<and> \<not> has_stale [Consume 0, Produce 0, Consume 0] (pc_start 100 [100])"
proof -
  let ?xs = "[Consume 0, Produce 0, Wake_producer, Consume 0, Produce 1, Consume 1]" and ?init = "pc_start 100 [49, 51]"
  note defs = pc_step_def pc_start_def produce_def consume_def put_def get_def signal_fill_def wake_def stale_def MAX_items_def
  have ns: "\<not> has_stale ?xs ?init" and r: "ring (sh (run_ops pc_step ?xs ?init)) = []" "prod_i (run_ops pc_step ?xs ?init) = 2"
    by (simp_all add: defs ring_def)
  have "consumed (run_ops pc_step ?xs ?init) @ ring (sh (run_ops pc_step ?xs ?init)) = map int [0..<prod_i (run_ops pc_step ?xs ?init)]"
    using items_in_order [of 100 "[49, 51]" ?xs] ns unfolding Let_def by blast
  then have "consumed (run_ops pc_step ?xs ?init) = [0, 1]" unfolding r by (simp add: upt_rec)
  moreover have "\<not> has_stale [Consume 0, Produce 0, Consume 0] (pc_start 100 [100])"
    using items_in_order [of 100 "[100]" "[Consume 0, Produce 0, Consume 0]"] unfolding Let_def by simp
  ultimately show ?thesis by blast
qed

end
