(* ===== verification/Lock_Clients.thy ===== *)
theory Lock_Clients
  imports Prelude
begin

text \<open>
  Programs whose threads or processes take one lock, work, and give it back: the spin lock of
  \<open>concurrency_with_modern_c++/code/spin_lock\<close>, the POSIX and System V semaphores of
  \<open>high_perf_linux_server_prog/code/multi_thread/posix_sem\<close>, \<open>posix_sem_proc\<close> and
  \<open>multi_process/semaphore/op\<close>, and the mutex of \<open>multi_thread/mutex\<close>. The locks differ, the clients
  have one shape, so what a client may rely on is the locale \<open>lock\<close>.

  A thread is ready, inside its critical section with so many of its actions done, or has left.
  An attempt to take a lock that is not free has no effect, whether the caller spins or sleeps.
\<close>

section \<open>Clients of a lock\<close>

datatype phase = Ready | Inside nat | Gone

record ('l, 'd) clients =
  cl_lock :: 'l
  cl_data :: 'd
  cl_phase :: "nat \<Rightarrow> phase"

text \<open>\<open>n\<close> threads, of which the \<open>i\<close>-th performs the actions \<open>body i\<close> on the shared data.\<close>

inductive cl_step ::
  "('l \<Rightarrow> 'l option) \<Rightarrow> ('l \<Rightarrow> 'l) \<Rightarrow> (nat \<Rightarrow> ('d \<Rightarrow> 'd) list) \<Rightarrow> nat \<Rightarrow> ('l, 'd) clients \<Rightarrow> ('l, 'd) clients \<Rightarrow> bool"
  for acquire release body n where
  enter: "i < n \<Longrightarrow> cl_phase s i = Ready \<Longrightarrow> acquire (cl_lock s) = Some l \<Longrightarrow>
     cl_step acquire release body n s (s\<lparr>cl_lock := l, cl_phase := (cl_phase s)(i := Inside 0)\<rparr>)"
| act: "cl_phase s i = Inside k \<Longrightarrow> k < length (body i) \<Longrightarrow>
     cl_step acquire release body n s
       (s\<lparr>cl_data := (body i ! k) (cl_data s), cl_phase := (cl_phase s)(i := Inside (Suc k))\<rparr>)"
| leave: "cl_phase s i = Inside (length (body i)) \<Longrightarrow>
     cl_step acquire release body n s
       (s\<lparr>cl_lock := release (cl_lock s), cl_phase := (cl_phase s)(i := Gone)\<rparr>)"

definition cl_start :: "'l \<Rightarrow> 'd \<Rightarrow> ('l, 'd) clients" where
  "cl_start l d = \<lparr>cl_lock = l, cl_data = d, cl_phase = \<lambda>_. Ready\<rparr>"

text \<open>What the threads would compute one after the other.\<close>

definition run_body :: "('d \<Rightarrow> 'd) list \<Rightarrow> 'd \<Rightarrow> 'd" where
  "run_body fs d = fold (\<lambda>f. f) fs d"

definition serial :: "(nat \<Rightarrow> ('d \<Rightarrow> 'd) list) \<Rightarrow> nat list \<Rightarrow> 'd \<Rightarrow> 'd" where
  "serial body order d = fold (\<lambda>i. run_body (body i)) order d"

text \<open>
  \<open>order\<close> are the threads that have left. Nobody is inside, the lock is free and the data is what
  they computed; or one thread is, the lock is held, and its actions so far came on top.
\<close>

definition in_order ::
  "('l \<Rightarrow> bool) \<Rightarrow> ('l \<Rightarrow> bool) \<Rightarrow> (nat \<Rightarrow> ('d \<Rightarrow> 'd) list) \<Rightarrow> nat \<Rightarrow> 'd \<Rightarrow> nat list \<Rightarrow> ('l, 'd) clients \<Rightarrow> bool" where
  "in_order is_free is_held body n d order s \<longleftrightarrow>
     distinct order \<and> set order \<subseteq> {..<n} \<and> (\<forall>i. cl_phase s i = Gone \<longleftrightarrow> i \<in> set order)
     \<and> ((\<forall>i k. cl_phase s i \<noteq> Inside k) \<and> is_free (cl_lock s) \<and> cl_data s = serial body order d
        \<or> (\<exists>i k. i < n \<and> cl_phase s i = Inside k \<and> k \<le> length (body i) \<and> (\<forall>j k'. j \<noteq> i \<longrightarrow> cl_phase s j \<noteq> Inside k')
             \<and> is_held (cl_lock s) \<and> cl_data s = run_body (take k (body i)) (serial body order d)))"

definition cl_inv ::
  "('l \<Rightarrow> bool) \<Rightarrow> ('l \<Rightarrow> bool) \<Rightarrow> (nat \<Rightarrow> ('d \<Rightarrow> 'd) list) \<Rightarrow> nat \<Rightarrow> 'd \<Rightarrow> ('l, 'd) clients \<Rightarrow> bool" where
  "cl_inv is_free is_held body n d s \<longleftrightarrow> (\<exists>order. in_order is_free is_held body n d order s)"

fun to_do :: "nat \<Rightarrow> phase \<Rightarrow> nat" where
  "to_do b Ready = b + 2"
| "to_do b (Inside k) = b - k + 1"
| "to_do b Gone = 0"

definition cl_measure :: "(nat \<Rightarrow> ('d \<Rightarrow> 'd) list) \<Rightarrow> nat \<Rightarrow> ('l, 'd) clients \<Rightarrow> nat" where
  "cl_measure body n s = (\<Sum>i<n. to_do (length (body i)) (cl_phase s i))"

lemma in_orderE:
  assumes "in_order is_free is_held body n d order s"
  obtains (idle) "\<And>i k. cl_phase s i \<noteq> Inside k" "is_free (cl_lock s)" "cl_data s = serial body order d"
  | (busy) i k where "i < n" "cl_phase s i = Inside k" "k \<le> length (body i)" "\<And>j k'. j \<noteq> i \<Longrightarrow> cl_phase s j \<noteq> Inside k'"
      "is_held (cl_lock s)" "cl_data s = run_body (take k (body i)) (serial body order d)"
  using assms unfolding in_order_def by blast

lemma run_body_Suc: "k < length fs \<Longrightarrow> (fs ! k) (run_body (take k fs) d) = run_body (take (Suc k) fs) d"
  by (simp add: run_body_def take_Suc_conv_app_nth)

lemma serial_snoc: "run_body (body i) (serial body order d) = serial body (order @ [i]) d"
  by (simp add: serial_def)

lemma measure_update:
  assumes "i < n" and "to_do (length (body i)) p < to_do (length (body i)) (cl_phase s i)"
    and "cl_phase s' = (cl_phase s)(i := p)"
  shows "cl_measure body n s' < cl_measure body n s"
  unfolding cl_measure_def assms(3)
  using assms(1,2) by (intro sum_strict_mono_ex1) auto

lemma inside_bound:
  assumes "cl_inv is_free is_held body n d s" and "cl_phase s i = Inside k"
  shows "i < n"
  using assms unfolding cl_inv_def by (elim exE in_orderE) metis+

section \<open>The contract of a lock\<close>

text \<open>A free lock can be taken and is held then; a held lock cannot; giving it back frees it.\<close>

locale lock =
  fixes acquire :: "'l \<Rightarrow> 'l option" and release :: "'l \<Rightarrow> 'l" and is_free is_held :: "'l \<Rightarrow> bool"
  assumes acquire_free: "is_free l \<Longrightarrow> \<exists>l'. acquire l = Some l' \<and> is_held l'"
    and acquire_held: "is_held l \<Longrightarrow> acquire l = None"
    and release_held: "is_held l \<Longrightarrow> is_free (release l)"
begin

lemma order_step:
  assumes "cl_step acquire release body n s s'" and "in_order is_free is_held body n d order s"
  shows "\<exists>order'. in_order is_free is_held body n d order' s'"
  using assms(1)
proof cases
  case (enter i l)
  have "acquire l' \<noteq> None \<Longrightarrow> \<not> is_held l'" for l' using acquire_held by auto
  then have "\<And>j k. cl_phase s j \<noteq> Inside k" "is_free (cl_lock s)" "cl_data s = serial body order d"
    using in_orderE [OF assms(2)] enter by fastforce+
  moreover from this have "is_held l" using acquire_free enter by fastforce
  moreover have "i \<notin> set order" using assms(2) enter(3) unfolding in_order_def by (metis phase.distinct(3))
  ultimately have "in_order is_free is_held body n d order s'"
    using assms(2) enter by (auto simp: in_order_def run_body_def)
  then show ?thesis by blast
next
  case (act i k)
  from assms(2) have "in_order is_free is_held body n d order s'"
  proof (cases rule: in_orderE)
    case (busy j k')
    have "j = i" using busy(4) act(2) by metis
    moreover from this have "k' = k" using busy(2) act(2) by simp
    moreover have "i \<notin> set order" using assms(2) act(2) unfolding in_order_def by (metis phase.distinct(5))
    ultimately show ?thesis
      using busy act assms(2) run_body_Suc [of k "body i" "serial body order d"]
      unfolding in_order_def by (intro conjI disjI2 exI [of _ i] exI [of _ "Suc k"]) (auto split: if_splits)
  qed (use act in simp)
  then show ?thesis by blast
next
  case (leave i)
  from assms(2) have "in_order is_free is_held body n d (order @ [i]) s'"
  proof (cases rule: in_orderE)
    case (busy j k)
    have "j = i" using busy(4) leave(2) by metis
    moreover from this have "k = length (body i)" using busy(2) leave(2) by simp
    moreover have "i \<notin> set order" using assms(2) leave unfolding in_order_def by (metis phase.distinct(5))
    ultimately show ?thesis
      using busy leave assms(2) release_held serial_snoc [of body i order d] by (auto simp: in_order_def)
  qed (use leave in simp)
  then show ?thesis by blast
qed

lemma inv_step: "cl_step acquire release body n s s' \<Longrightarrow> cl_inv is_free is_held body n d s \<Longrightarrow> cl_inv is_free is_held body n d s'"
  unfolding cl_inv_def by (elim exE) (rule order_step)

lemma free_start: "is_free l \<Longrightarrow> cl_inv is_free is_held body n d (cl_start l d)"
  unfolding cl_inv_def by (rule exI [of _ "[]"]) (simp add: in_order_def cl_start_def serial_def)

end

sublocale lock \<subseteq> runs: relation_inv "cl_step acquire release body n" "cl_inv is_free is_held body n d" for body n d
  by unfold_locales (rule inv_step)

context lock
begin

lemma exclusive:
  assumes "is_free l" and "(cl_step acquire release body n)\<^sup>*\<^sup>* (cl_start l d) s"
    and "cl_phase s i = Inside j" and "cl_phase s i' = Inside j'"
  shows "i = i'"
  using runs.inv_reached [OF assms(2) free_start [OF assms(1)]] assms(3,4)
  unfolding cl_inv_def by (elim exE in_orderE) metis+

lemma serialised:
  assumes "is_free l" and "(cl_step acquire release body n)\<^sup>*\<^sup>* (cl_start l d) s" and "\<forall>i<n. cl_phase s i = Gone"
  shows "\<exists>order. distinct order \<and> set order = {..<n} \<and> cl_data s = serial body order d \<and> is_free (cl_lock s)"
proof -
  obtain order where o: "in_order is_free is_held body n d order s"
    using runs.inv_reached [OF assms(2) free_start [OF assms(1)]] by (auto simp: cl_inv_def)
  moreover from this assms(3) have "set order = {..<n}" by (auto simp: in_order_def)
  moreover from o have "cl_data s = serial body order d \<and> is_free (cl_lock s)"
    by (rule in_orderE) (use assms(3) in simp_all)
  ultimately show ?thesis by (auto simp: in_order_def)
qed

lemma step_measure:
  assumes "cl_step acquire release body n s s'" and "cl_inv is_free is_held body n d s"
  shows "cl_measure body n s' < cl_measure body n s"
  using assms(1)
proof cases
  case (enter i l)
  then show ?thesis by (intro measure_update [of i]) auto
next
  case (act i k)
  then have "i < n" using inside_bound [OF assms(2)] by blast
  then show ?thesis using act by (intro measure_update [of i]) auto
next
  case (leave i)
  then have "i < n" using inside_bound [OF assms(2)] by blast
  then show ?thesis using leave by (intro measure_update [of i]) auto
qed

lemma not_stuck:
  assumes "cl_inv is_free is_held body n d s" and "i < n" and "cl_phase s i \<noteq> Gone"
  shows "\<exists>s'. cl_step acquire release body n s s'"
proof -
  obtain order where "in_order is_free is_held body n d order s" using assms(1) by (auto simp: cl_inv_def)
  then show ?thesis
  proof (cases rule: in_orderE)
    case idle
    then have "cl_phase s i = Ready" using assms(3) by (cases "cl_phase s i") auto
    then show ?thesis using idle(2) acquire_free cl_step.enter [OF assms(2)] by metis
  next
    case (busy j k)
    then show ?thesis using cl_step.act cl_step.leave by (metis le_neq_implies_less)
  qed
qed

lemma all_leave:
  assumes "cl_inv is_free is_held body n d s"
  shows "\<exists>s'. (cl_step acquire release body n)\<^sup>*\<^sup>* s s' \<and> (\<forall>i<n. cl_phase s' i = Gone)"
  using assms
proof (induction "cl_measure body n s" arbitrary: s rule: less_induct)
  case less
  show ?case
  proof (cases "\<forall>i<n. cl_phase s i = Gone")
    case False
    then obtain s1 where s1: "cl_step acquire release body n s s1" using not_stuck [OF less.prems] by blast
    then show ?thesis
      using less.hyps [OF step_measure [OF s1 less.prems] inv_step [OF s1 less.prems]]
      by (meson converse_rtranclp_into_rtranclp)
  qed blast
qed

lemma run_length:
  assumes "(cl_step acquire release body n ^^ m) s s'" and "cl_inv is_free is_held body n d s"
  shows "m + cl_measure body n s' \<le> cl_measure body n s"
  using assms(1)
proof (induction m arbitrary: s')
  case (Suc m)
  then obtain s1 where "(cl_step acquire release body n ^^ m) s s1" "cl_step acquire release body n s1 s'" by auto
  moreover from this have "cl_inv is_free is_held body n d s1"
    using runs.inv_reached assms(2) by (metis relpowp_imp_rtranclp)
  ultimately show ?case using Suc.IH step_measure by fastforce
qed simp

end

section \<open>The locks\<close>

text \<open>\<open>SpinLock\<close>: one round of the loop in \<open>lock\<close>, which goes on while the flag was set before.\<close>

definition test_and_set :: "bool \<Rightarrow> bool \<times> bool" where
  "test_and_set flag = (flag, True)"

definition spin_lock :: "bool \<Rightarrow> bool option" where
  "spin_lock flag = (case test_and_set flag of (was_set, flag') \<Rightarrow> if was_set then None else Some flag')"

definition spin_unlock :: "bool \<Rightarrow> bool" where
  "spin_unlock flag = False"

text \<open>POSIX semaphores, by their value. A caller of \<open>sem_wait\<close> sleeps while the value is zero.\<close>

definition sem_wait :: "int \<Rightarrow> int option" where
  "sem_wait v = (if 0 < v then Some (v - 1) else None)"

definition sem_post :: "int \<Rightarrow> int" where
  "sem_post v = v + 1"

text \<open>System V semaphores: \<open>semop\<close> sleeps while its operation would make the value negative.\<close>

definition pv :: "int \<Rightarrow> int \<Rightarrow> int option" where
  "pv op val = (if val + op < 0 then None else Some (val + op))"

definition pv_release :: "int \<Rightarrow> int" where
  "pv_release val = (case pv 1 val of Some v \<Rightarrow> v | None \<Rightarrow> val)"

text \<open>A default mutex of the POSIX threads.\<close>

definition mutex_lock :: "bool \<Rightarrow> bool option" where
  "mutex_lock locked = (if locked then None else Some True)"

definition mutex_unlock :: "bool \<Rightarrow> bool" where
  "mutex_unlock locked = False"

interpretation spin: lock spin_lock spin_unlock "\<lambda>flag. \<not> flag" "\<lambda>flag. flag"
  by unfold_locales (auto simp: spin_lock_def spin_unlock_def test_and_set_def)

interpretation posix: lock sem_wait sem_post "\<lambda>v. v = 1" "\<lambda>v. v = 0"
  by unfold_locales (simp_all add: sem_wait_def sem_post_def)

interpretation sysv: lock "pv (- 1)" pv_release "\<lambda>v. v = 1" "\<lambda>v. v = 0"
  by unfold_locales (simp_all add: pv_def pv_release_def)

interpretation mutex: lock mutex_lock mutex_unlock "\<lambda>b. \<not> b" "\<lambda>b. b"
  by unfold_locales (auto simp: mutex_lock_def mutex_unlock_def)

section \<open>The programs\<close>

text \<open>
  Two threads that sleep with the spin lock taken, and with the standard mutex; threads and
  processes that announce entering and leaving under a semaphore; and threads that count and number
  their jobs under a mutex. The text printed is kept as a list.
\<close>

definition workOnResource :: "nat \<Rightarrow> (unit \<Rightarrow> unit) list" where
  "workOnResource i = [\<lambda>d. d]"

datatype sem_notice = Entered nat | Exiting nat

definition sem_thread :: "nat \<Rightarrow> (sem_notice list \<Rightarrow> sem_notice list) list" where
  "sem_thread i = [\<lambda>out. out @ [Entered i], \<lambda>out. out, \<lambda>out. out @ [Exiting i]]"

definition pv_process :: "nat \<Rightarrow> (sem_notice list \<Rightarrow> sem_notice list) list" where
  "pv_process i = [\<lambda>out. out @ [Entered i], \<lambda>out. out]"

datatype job = Started int | Finished int

text \<open>
  \<open>counter += 1\<close> is a load into a register of the thread and a store, between which other threads could come
  in. The calls of lock and unlock around the body are the steps \<open>enter\<close> and \<open>leave\<close>.
\<close>

type_synonym jobs_state = "(nat \<Rightarrow> int) \<times> int \<times> job list"

definition trythis :: "nat \<Rightarrow> (jobs_state \<Rightarrow> jobs_state) list" where
  "trythis i =
     [\<lambda>(reg, counter, out). (reg(i := counter), counter, out),
      \<lambda>(reg, counter, out). (reg, s32 (reg i + 1), out),
      \<lambda>(reg, counter, out). (reg, counter, out @ [Started counter]),
      \<lambda>(reg, counter, out). (reg, counter, out),
      \<lambda>(reg, counter, out). (reg, counter, out @ [Finished counter])]"

text \<open>
  The spin lock admits one thread at a time, whatever the number of threads and however their
  attempts interleave; every run can be continued until all threads have had their turn, and no
  run takes more than three successful steps per thread: one to get in, one for the work, one to
  get out.
\<close>

theorem spin_lock_exclusive:
  assumes "(cl_step spin_lock spin_unlock workOnResource n)\<^sup>*\<^sup>* (cl_start False ()) s"
  shows "(\<forall>i j k l. cl_phase s i = Inside k \<longrightarrow> cl_phase s j = Inside l \<longrightarrow> i = j)
    \<and> (\<exists>s'. (cl_step spin_lock spin_unlock workOnResource n)\<^sup>*\<^sup>* s s' \<and> (\<forall>i<n. cl_phase s' i = Gone))
    \<and> (\<forall>m t. (cl_step spin_lock spin_unlock workOnResource n ^^ m) (cl_start False ()) t \<longrightarrow> m \<le> 3 * n)"
proof -
  have start: "cl_inv (\<lambda>f. \<not> f) (\<lambda>f. f) workOnResource n () (cl_start False ())" by (rule spin.free_start) simp
  have "cl_measure workOnResource n (cl_start False ()) = 3 * n"
    by (simp add: cl_measure_def cl_start_def workOnResource_def)
  then have "m \<le> 3 * n" if "(cl_step spin_lock spin_unlock workOnResource n ^^ m) (cl_start False ()) t" for m t
    using spin.run_length [OF that start] by simp
  moreover have "\<exists>s'. (cl_step spin_lock spin_unlock workOnResource n)\<^sup>*\<^sup>* s s' \<and> (\<forall>i<n. cl_phase s' i = Gone)"
    by (rule spin.all_leave [OF spin.runs.inv_reached [OF assms start]])
  moreover have "\<forall>i j k l. cl_phase s i = Inside k \<longrightarrow> cl_phase s j = Inside l \<longrightarrow> i = j"
    using spin.exclusive [OF _ assms] by auto
  ultimately show ?thesis by blast
qed

theorem spin_lock_exclusive_witness:
  "\<exists>s'. (cl_step spin_lock spin_unlock workOnResource 2)\<^sup>*\<^sup>* \<lparr>cl_lock = True, cl_data = (), cl_phase = (\<lambda>_. Ready)(1 := Inside 0)\<rparr> s'
     \<and> (\<forall>i<2. cl_phase s' i = Gone)"
proof -
  have "cl_step spin_lock spin_unlock workOnResource 2 (cl_start False ())
      \<lparr>cl_lock = True, cl_data = (), cl_phase = (\<lambda>_. Ready)(1 := Inside 0)\<rparr>"
    using cl_step.enter [of 1 2 "cl_start False ()" spin_lock True spin_unlock workOnResource]
    by (simp add: cl_start_def spin_lock_def test_and_set_def)
  from spin_lock_exclusive [OF r_into_rtranclp, OF this] show ?thesis by blast
qed

lemma trythis_run:
  "snd (run_body (trythis i) (reg, c, out)) = (s32 (c + 1), out @ [Started (s32 (c + 1)), Finished (s32 (c + 1))])"
  by (simp add: run_body_def trythis_def)

primrec jobs :: "nat \<Rightarrow> job list" where
  "jobs 0 = []"
| "jobs (Suc n) = jobs n @ [Started (int (Suc n)), Finished (int (Suc n))]"

lemma trythis_serial:
  "length order < 2 ^ 31 \<Longrightarrow> snd (serial trythis order (reg, 0, [])) = (int (length order), jobs (length order))"
proof (induction order rule: rev_induct)
  case Nil
  then show ?case by (simp add: serial_def)
next
  case (snoc i order)
  then have "s32 (int (length order) + 1) = int (length order) + 1" by (intro s32_id) simp_all
  moreover obtain reg' where "serial trythis order (reg, 0, []) = (reg', int (length order), jobs (length order))"
    using snoc by (cases "serial trythis order (reg, 0, [])") simp
  ultimately show ?case by (simp add: trythis_run add.commute flip: serial_snoc)
qed

text \<open>
  C11: Threads that count under the mutex lose no update and do not mix their output: when all are done
  the counter is their number, and the jobs were started and finished one after the other under
  the numbers from one on, whichever thread came first.
\<close>

theorem jobs_in_order:
  assumes "n < 2 ^ 31" and "(cl_step mutex_lock mutex_unlock trythis n)\<^sup>*\<^sup>* (cl_start False (reg, 0, [])) s"
  shows "(\<exists>s'. (cl_step mutex_lock mutex_unlock trythis n)\<^sup>*\<^sup>* s s' \<and> (\<forall>i<n. cl_phase s' i = Gone))
    \<and> ((\<forall>i<n. cl_phase s i = Gone) \<longrightarrow> snd (cl_data s) = (int n, jobs n))"
proof -
  have "cl_inv (\<lambda>f. \<not> f) (\<lambda>f. f) trythis n (reg, 0, []) (cl_start False (reg, 0, []))" by (rule mutex.free_start) simp
  then have "\<exists>s'. (cl_step mutex_lock mutex_unlock trythis n)\<^sup>*\<^sup>* s s' \<and> (\<forall>i<n. cl_phase s' i = Gone)"
    by (rule mutex.all_leave [OF mutex.runs.inv_reached [OF assms(2)]])
  moreover have "snd (cl_data s) = (int n, jobs n)" if gone: "\<forall>i<n. cl_phase s i = Gone"
  proof -
    obtain order where o: "distinct order" "set order = {..<n}" "cl_data s = serial trythis order (reg, 0, [])"
      using mutex.serialised [OF _ assms(2) gone] by auto
    then have "length order = n" by (metis card_lessThan distinct_card)
    with o(3) trythis_serial [of order reg] assms(1) show ?thesis by simp
  qed
  ultimately show ?thesis by blast
qed

theorem jobs_in_order_witness:
  "\<exists>s. (cl_step mutex_lock mutex_unlock trythis 2)\<^sup>*\<^sup>* (cl_start False (\<lambda>_. 0, 0, [])) s
     \<and> snd (cl_data s) = (2, [Started 1, Finished 1, Started 2, Finished 2])"
proof -
  obtain s where s: "(cl_step mutex_lock mutex_unlock trythis 2)\<^sup>*\<^sup>* (cl_start False (\<lambda>_. 0, 0, [])) s" "\<forall>i<2. cl_phase s i = Gone"
    using jobs_in_order [of 2 "\<lambda>_. 0" "cl_start False (\<lambda>_. 0, 0, [])"] by auto
  moreover have "jobs 2 = [Started 1, Finished 1, Started 2, Finished 2]" by (simp add: numeral_2_eq_2)
  ultimately show ?thesis using jobs_in_order [OF _ s(1)] by auto
qed

text \<open>Under a semaphore the notices of entering and leaving come in pairs, and the semaphore ends at one.\<close>

lemma sem_thread_serial:
  "serial sem_thread order out = out @ concat (map (\<lambda>i. [Entered i, Exiting i]) order)"
  by (induction order arbitrary: out) (simp_all add: serial_def run_body_def sem_thread_def)

lemma sem_threads_paired:
  assumes "(cl_step sem_wait sem_post sem_thread n)\<^sup>*\<^sup>* (cl_start 1 []) s" and "\<forall>i<n. cl_phase s i = Gone"
  shows "\<exists>order. distinct order \<and> set order = {..<n} \<and> cl_lock s = 1
    \<and> cl_data s = concat (map (\<lambda>i. [Entered i, Exiting i]) order)"
  using posix.serialised [OF _ assms] by (auto simp: sem_thread_serial)

lemma pv_exclusive:
  assumes "(cl_step (pv (- 1)) pv_release pv_process n)\<^sup>*\<^sup>* (cl_start 1 []) s"
    and "cl_phase s i = Inside k" and "cl_phase s j = Inside l"
  shows "i = j"
  using sysv.exclusive [OF _ assms] by simp

section \<open>Two locks\<close>

text \<open>
  \<open>multi_thread/dead_lock\<close>: the parent takes mutex \<open>a\<close> and then \<open>b\<close>, the child \<open>b\<close> and then \<open>a\<close>. Each
  statement between the calls is a step; the program counter counts the steps a thread has made.
\<close>

record deadlock =
  val_a :: int
  val_b :: int
  mutex_a :: bool
  mutex_b :: bool
  pc_main :: nat
  pc_another :: nat

definition dl_main :: "deadlock \<Rightarrow> deadlock option" where
  "dl_main s =
     (if pc_main s = 0 then map_option (\<lambda>l. s\<lparr>mutex_a := l, pc_main := 1\<rparr>) (mutex_lock (mutex_a s))
      else if pc_main s = 1 then Some (s\<lparr>val_a := val_a s + 1, pc_main := 2\<rparr>)
      else if pc_main s = 2 then map_option (\<lambda>l. s\<lparr>mutex_b := l, pc_main := 3\<rparr>) (mutex_lock (mutex_b s))
      else if pc_main s = 3 then Some (s\<lparr>val_a := val_a s + val_b s, val_b := val_b s + 1, pc_main := 4\<rparr>)
      else if pc_main s = 4 then Some (s\<lparr>mutex_a := mutex_unlock (mutex_a s), pc_main := 5\<rparr>)
      else if pc_main s = 5 then Some (s\<lparr>mutex_b := mutex_unlock (mutex_b s), pc_main := 6\<rparr>)
      else None)"

definition dl_another :: "deadlock \<Rightarrow> deadlock option" where
  "dl_another s =
     (if pc_another s = 0 then map_option (\<lambda>l. s\<lparr>mutex_b := l, pc_another := 1\<rparr>) (mutex_lock (mutex_b s))
      else if pc_another s = 1 then Some (s\<lparr>val_b := val_b s + 1, pc_another := 2\<rparr>)
      else if pc_another s = 2 then map_option (\<lambda>l. s\<lparr>mutex_a := l, pc_another := 3\<rparr>) (mutex_lock (mutex_a s))
      else if pc_another s = 3 then Some (s\<lparr>val_b := val_b s + val_a s, val_a := val_a s + 1, pc_another := 4\<rparr>)
      else if pc_another s = 4 then Some (s\<lparr>mutex_a := mutex_unlock (mutex_a s), pc_another := 5\<rparr>)
      else if pc_another s = 5 then Some (s\<lparr>mutex_b := mutex_unlock (mutex_b s), pc_another := 6\<rparr>)
      else None)"

definition dl_succs :: "deadlock \<Rightarrow> deadlock list" where
  "dl_succs s = List.map_filter (\<lambda>step. step s) [dl_main, dl_another]"

definition dl_start :: deadlock where
  "dl_start = \<lparr>val_a = 0, val_b = 0, mutex_a = False, mutex_b = False, pc_main = 0, pc_another = 0\<rparr>"

text \<open>Both threads wait for the mutex the other has.\<close>

definition deadlocked :: "deadlock \<Rightarrow> bool" where
  "deadlocked s \<longleftrightarrow> pc_main s = 2 \<and> pc_another s = 2 \<and> mutex_a s \<and> mutex_b s"

definition dl_states :: "deadlock list" where
  "dl_states = explore 100 dl_succs [dl_start] []"

interpretation dl: explored dl_succs dl_states
  by unfold_locales code_simp

lemma dl_all:
  "list_all (\<lambda>s. (dl_succs s = [] \<longleftrightarrow> deadlocked s \<or> pc_main s = 6 \<and> pc_another s = 6)
     \<and> (pc_main s = 6 \<and> pc_another s = 6 \<longrightarrow> (val_a s, val_b s) = (2, 3) \<or> (val_a s, val_b s) = (3, 2))) dl_states"
  by code_simp

lemma deadlock_reached: "list_ex deadlocked dl_states"
  by code_simp

text \<open>
  The program can end in a deadlock in which each thread holds one mutex and waits for the other;
  it stops nowhere else but at its end; and if it ends, the values are those of one of the two
  orders in which the threads can run one after the other.
\<close>

theorem deadlock_exactly:
  "(\<exists>s. (\<lambda>s t. t \<in> set (dl_succs s))\<^sup>*\<^sup>* dl_start s \<and> deadlocked s)
   \<and> (\<forall>s. (\<lambda>s t. t \<in> set (dl_succs s))\<^sup>*\<^sup>* dl_start s \<longrightarrow>
        (dl_succs s = [] \<longleftrightarrow> deadlocked s \<or> pc_main s = 6 \<and> pc_another s = 6)
        \<and> (pc_main s = 6 \<and> pc_another s = 6 \<longrightarrow> (val_a s, val_b s) = (2, 3) \<or> (val_a s, val_b s) = (3, 2)))"
proof -
  have "dl_start \<in> set dl_states" by code_simp
  then have "s \<in> set dl_states" if "(\<lambda>s t. t \<in> set (dl_succs s))\<^sup>*\<^sup>* dl_start s" for s
    using dl.inv_reached [OF that] by blast
  moreover obtain s where "s \<in> set dl_states" "deadlocked s" using deadlock_reached by (auto simp: list_ex_iff)
  moreover from this have "(\<lambda>s t. t \<in> set (dl_succs s))\<^sup>*\<^sup>* dl_start s"
    using explore_reached [of s 100 dl_succs "[dl_start]" "[]"] by (simp add: dl_states_def)
  ultimately show ?thesis using dl_all unfolding list_all_iff by blast
qed

theorem deadlock_exactly_witness:
  "\<exists>s. (\<lambda>s t. t \<in> set (dl_succs s))\<^sup>*\<^sup>* dl_start s \<and> deadlocked s \<and> dl_succs s = []"
  using deadlock_exactly by blast

end
