(* ===== verification/Wait_Notify.thy ===== *)
theory Wait_Notify
  imports Prelude
begin

text \<open>
  Threads that wait for one another: \<open>thr_join\<close> of \<open>operating_systems_three_easy_pieces\<close>, the
  condition variables of \<open>high_perf_linux_server_prog/code/multi_thread/cond\<close> and of the cond_var
  directory, and the two ways to wait for data in \<open>concurrency_with_modern_c++\<close>, \<open>cv_norm\<close> and
  \<open>cv_atomic\<close>. A program is a function from a state to the states one step later, every statement
  that touches shared data being a step. All these programs have few states, so what holds in all
  of them is found out by exploring them.
\<close>

section \<open>Mutex and condition variable\<close>

text \<open>
  One mutex, the threads that sleep on one condition variable, the shared data and the program
  counter of each thread.
\<close>

record 'x monitor =
  mon_locked :: bool
  mon_waiting :: "nat list"
  mon_data :: 'x
  mon_pc :: "nat list"

definition goto :: "nat \<Rightarrow> nat \<Rightarrow> 'x monitor \<Rightarrow> 'x monitor" where
  "goto i k s = s\<lparr>mon_pc := (mon_pc s)[i := k]\<rparr>"

definition do_at :: "nat \<Rightarrow> nat \<Rightarrow> ('x \<Rightarrow> 'x) \<Rightarrow> 'x monitor \<Rightarrow> 'x monitor list" where
  "do_at i k f s = [goto i k (s\<lparr>mon_data := f (mon_data s)\<rparr>)]"

definition lock_at :: "nat \<Rightarrow> nat \<Rightarrow> 'x monitor \<Rightarrow> 'x monitor list" where
  "lock_at i k s = (if mon_locked s then [] else [goto i k (s\<lparr>mon_locked := True\<rparr>)])"

definition unlock_at :: "nat \<Rightarrow> nat \<Rightarrow> 'x monitor \<Rightarrow> 'x monitor list" where
  "unlock_at i k s = [goto i k (s\<lparr>mon_locked := False\<rparr>)]"

text \<open>Going to sleep gives the mutex back; a thread that was woken has to take it again.\<close>

definition wait_at :: "nat \<Rightarrow> nat \<Rightarrow> 'x monitor \<Rightarrow> 'x monitor list" where
  "wait_at i k s = [goto i k (s\<lparr>mon_locked := False, mon_waiting := insort i (mon_waiting s)\<rparr>)]"

definition relock_at :: "nat \<Rightarrow> nat \<Rightarrow> 'x monitor \<Rightarrow> 'x monitor list" where
  "relock_at i k s = (if i \<in> set (mon_waiting s) then [] else lock_at i k s)"

definition signal_at :: "nat \<Rightarrow> nat \<Rightarrow> 'x monitor \<Rightarrow> 'x monitor list" where
  "signal_at i k s =
     (if mon_waiting s = [] then [goto i k s]
      else map (\<lambda>j. goto i k (s\<lparr>mon_waiting := remove1 j (mon_waiting s)\<rparr>)) (mon_waiting s))"

text \<open>A sleeper may also wake up for no reason.\<close>

definition spurious :: "'x monitor \<Rightarrow> 'x monitor list" where
  "spurious s = map (\<lambda>j. s\<lparr>mon_waiting := remove1 j (mon_waiting s)\<rparr>) (mon_waiting s)"

definition all_ended :: "nat \<Rightarrow> 'x monitor \<Rightarrow> bool" where
  "all_ended k s \<longleftrightarrow> list_all (\<lambda>p. p = k) (mon_pc s)"

section \<open>Waiting for a thread to end\<close>

datatype line = Parent_begin | Child_line | Parent_end

text \<open>Thread 0 is \<open>main\<close> with \<open>thr_join\<close>, thread 1 \<open>child\<close> with \<open>thr_exit\<close>; 9 is the end of both.\<close>

record tj =
  tj_done :: int
  tj_out :: "line list"

definition tj_main :: "tj monitor \<Rightarrow> tj monitor list" where
  "tj_main s = (let pc = mon_pc s ! 0 in
     if pc = 0 then do_at 0 1 (\<lambda>d. d\<lparr>tj_out := tj_out d @ [Parent_begin]\<rparr>) s
     else if pc = 1 then [goto 0 2 (goto 1 1 s)]
     else if pc = 2 then lock_at 0 3 s
     else if pc = 3 then (if tj_done (mon_data s) = 0 then wait_at 0 4 s else [goto 0 5 s])
     else if pc = 4 then relock_at 0 3 s
     else if pc = 5 then unlock_at 0 6 s
     else if pc = 6 then do_at 0 9 (\<lambda>d. d\<lparr>tj_out := tj_out d @ [Parent_end]\<rparr>) s
     else [])"

definition tj_child :: "tj monitor \<Rightarrow> tj monitor list" where
  "tj_child s = (let pc = mon_pc s ! 1 in
     if pc = 1 then do_at 1 2 (\<lambda>d. d\<lparr>tj_out := tj_out d @ [Child_line]\<rparr>) s
     else if pc = 2 then lock_at 1 3 s
     else if pc = 3 then do_at 1 4 (\<lambda>d. d\<lparr>tj_done := 1\<rparr>) s
     else if pc = 4 then signal_at 1 5 s
     else if pc = 5 then unlock_at 1 9 s
     else [])"

definition tj_succs :: "tj monitor \<Rightarrow> tj monitor list" where
  "tj_succs s = tj_main s @ tj_child s @ spurious s"

definition tj_start :: "tj monitor" where
  "tj_start = \<lparr>mon_locked = False, mon_waiting = [], mon_data = \<lparr>tj_done = 0, tj_out = []\<rparr>, mon_pc = [0, 0]\<rparr>"

definition tj_states :: "tj monitor list" where
  "tj_states = explore 200 tj_succs [tj_start] []"

interpretation tj: finite_program tj_succs tj_states tj_start "all_ended 9" 200
  by unfold_locales code_simp+

lemma tj_all:
  "list_all (\<lambda>s. (tj_main s @ tj_child s = [] \<longrightarrow> all_ended 9 s)
     \<and> (all_ended 9 s \<longrightarrow> tj_out (mon_data s) = [Parent_begin, Child_line, Parent_end])) tj_states"
  by code_simp

text \<open>
  C34: Waiting for the child works whoever comes first: the parent never sleeps through the signal,
  every run can be continued to its end, with or without wake-ups for no reason, only the end
  stops both threads, and the parent's last line comes after the child's.
\<close>

theorem thr_join_waits:
  assumes "(\<lambda>s t. t \<in> set (tj_succs s))\<^sup>*\<^sup>* tj_start s"
  shows "(tj_main s @ tj_child s = [] \<longrightarrow> all_ended 9 s)
    \<and> (all_ended 9 s \<longrightarrow> tj_out (mon_data s) = [Parent_begin, Child_line, Parent_end])
    \<and> (\<exists>t. (\<lambda>s t. t \<in> set (tj_succs s))\<^sup>*\<^sup>* s t \<and> all_ended 9 t)"
  using tj.reached_in [OF assms] tj.can_end [OF assms] tj_all by (simp add: list_all_iff)

theorem thr_join_waits_witness:
  "tj_main tj_start @ tj_child tj_start \<noteq> [] \<and> (\<exists>t. (\<lambda>s t. t \<in> set (tj_succs s))\<^sup>*\<^sup>* tj_start t \<and> all_ended 9 t)"
proof -
  have "\<not> all_ended 9 tj_start" by code_simp
  then show ?thesis using thr_join_waits [OF rtranclp.rtrancl_refl] by blast
qed

section \<open>One waits, the other signals\<close>

text \<open>\<open>multi_thread/cond\<close>: both threads run \<open>foo\<close>; \<open>done\<close> tells the second that the first is waiting.\<close>

definition foo :: "nat \<Rightarrow> int monitor \<Rightarrow> int monitor list" where
  "foo i s = (let pc = mon_pc s ! i in
     if pc = 0 then lock_at i 1 s
     else if pc = 1 then (if mon_data s = 1 then do_at i 2 (\<lambda>_. 2) s else [goto i 4 s])
     else if pc = 2 then wait_at i 3 s
     else if pc = 3 then relock_at i 5 s
     else if pc = 4 then signal_at i 5 s
     else if pc = 5 then unlock_at i 9 s
     else [])"

definition foo_succs :: "int monitor \<Rightarrow> int monitor list" where
  "foo_succs s = foo 0 s @ foo 1 s @ spurious s"

definition foo_start :: "int monitor" where
  "foo_start = \<lparr>mon_locked = False, mon_waiting = [], mon_data = 1, mon_pc = [0, 0]\<rparr>"

definition foo_states :: "int monitor list" where
  "foo_states = explore 200 foo_succs [foo_start] []"

interpretation foo: finite_program foo_succs foo_states foo_start "all_ended 9" 200
  by unfold_locales code_simp+

lemma foo_all: "list_all (\<lambda>s. foo 0 s @ foo 1 s = [] \<longrightarrow> all_ended 9 s) foo_states"
  by code_simp

lemma foo_both_return:
  assumes "(\<lambda>s t. t \<in> set (foo_succs s))\<^sup>*\<^sup>* foo_start s"
  shows "(foo 0 s @ foo 1 s = [] \<longrightarrow> all_ended 9 s)
    \<and> (\<exists>t. (\<lambda>s t. t \<in> set (foo_succs s))\<^sup>*\<^sup>* s t \<and> all_ended 9 t)"
  using foo.reached_in [OF assms] foo.can_end [OF assms] foo_all by (simp add: list_all_iff)

section \<open>Waiting for data\<close>

text \<open>
  A vector that one thread fills and the other changes once it is told that the data is ready.
  An index outside the vector is a fault, which is kept in the state.
\<close>

record shared_work =
  mySharedWork :: "int list"
  dataReady :: bool
  work_fault :: "fault option"

definition set_work :: "nat \<Rightarrow> int \<Rightarrow> shared_work \<Rightarrow> shared_work" where
  "set_work k x d =
     (if k < length (mySharedWork d) then d\<lparr>mySharedWork := (mySharedWork d)[k := x]\<rparr>
      else d\<lparr>work_fault := Some OutOfBounds\<rparr>)"

definition cv_waitingForWork :: "shared_work monitor \<Rightarrow> shared_work monitor list" where
  "cv_waitingForWork s = (let pc = mon_pc s ! 0 in
     if pc = 0 then lock_at 0 1 s
     else if pc = 1 then (if dataReady (mon_data s) then [goto 0 3 s] else wait_at 0 2 s)
     else if pc = 2 then relock_at 0 1 s
     else if pc = 3 then do_at 0 4 (set_work 1 2) s
     else if pc = 4 then unlock_at 0 9 s
     else [])"

definition cv_setDataReady :: "shared_work monitor \<Rightarrow> shared_work monitor list" where
  "cv_setDataReady s = (let pc = mon_pc s ! 1 in
     if pc = 0 then do_at 1 1 (\<lambda>d. d\<lparr>mySharedWork := [1, 0, 3]\<rparr>) s
     else if pc = 1 then lock_at 1 2 s
     else if pc = 2 then do_at 1 3 (\<lambda>d. d\<lparr>dataReady := True\<rparr>) s
     else if pc = 3 then unlock_at 1 4 s
     else if pc = 4 then signal_at 1 9 s
     else [])"

definition cv_succs :: "shared_work monitor \<Rightarrow> shared_work monitor list" where
  "cv_succs s = cv_waitingForWork s @ cv_setDataReady s @ spurious s"

definition atomic_waitingForWork :: "shared_work monitor \<Rightarrow> shared_work monitor list" where
  "atomic_waitingForWork s = (let pc = mon_pc s ! 0 in
     if pc = 0 then (if dataReady (mon_data s) then [goto 0 1 s] else [s])
     else if pc = 1 then do_at 0 9 (set_work 1 2) s
     else [])"

definition atomic_setDataReady :: "shared_work monitor \<Rightarrow> shared_work monitor list" where
  "atomic_setDataReady s = (let pc = mon_pc s ! 1 in
     if pc = 0 then do_at 1 1 (\<lambda>d. d\<lparr>mySharedWork := [1, 0, 3]\<rparr>) s
     else if pc = 1 then do_at 1 9 (\<lambda>d. d\<lparr>dataReady := True\<rparr>) s
     else [])"

definition atomic_succs :: "shared_work monitor \<Rightarrow> shared_work monitor list" where
  "atomic_succs s = atomic_waitingForWork s @ atomic_setDataReady s"

definition work_start :: "shared_work monitor" where
  "work_start = \<lparr>mon_locked = False, mon_waiting = [],
     mon_data = \<lparr>mySharedWork = [], dataReady = False, work_fault = None\<rparr>, mon_pc = [0, 0]\<rparr>"

definition cv_states :: "shared_work monitor list" where
  "cv_states = explore 200 cv_succs [work_start] []"

definition atomic_states :: "shared_work monitor list" where
  "atomic_states = explore 200 atomic_succs [work_start] []"

interpretation cv: finite_program cv_succs cv_states work_start "all_ended 9" 200
  by unfold_locales code_simp+

interpretation atomic_flag: finite_program atomic_succs atomic_states work_start "all_ended 9" 200
  by unfold_locales code_simp+

definition work_ok :: "shared_work monitor \<Rightarrow> bool" where
  "work_ok s \<longleftrightarrow> work_fault (mon_data s) = None \<and> (all_ended 9 s \<longrightarrow> mySharedWork (mon_data s) = [1, 2, 3])"

lemma work_all: "list_all (\<lambda>s. work_ok s \<and> (cv_waitingForWork s @ cv_setDataReady s = [] \<longrightarrow> all_ended 9 s)) cv_states"
  "list_all work_ok atomic_states"
  by code_simp+

text \<open>
  With the condition variable and with the atomic flag alike, the vector is changed only when it is
  there, never outside its bounds, the program can always be brought to its end, and the
  result is 1, 2, 3.
\<close>

theorem data_ready_safe:
  assumes "(\<lambda>s t. t \<in> set (cv_succs s))\<^sup>*\<^sup>* work_start s" and "(\<lambda>s t. t \<in> set (atomic_succs s))\<^sup>*\<^sup>* work_start s'"
  shows "work_ok s \<and> work_ok s' \<and> (cv_waitingForWork s @ cv_setDataReady s = [] \<longrightarrow> all_ended 9 s)
    \<and> (\<exists>t. (\<lambda>s t. t \<in> set (cv_succs s))\<^sup>*\<^sup>* s t \<and> all_ended 9 t)
    \<and> (\<exists>t. (\<lambda>s t. t \<in> set (atomic_succs s))\<^sup>*\<^sup>* s' t \<and> all_ended 9 t)"
  using cv.reached_in [OF assms(1)] cv.can_end [OF assms(1)]
    atomic_flag.reached_in [OF assms(2)] atomic_flag.can_end [OF assms(2)] work_all
  by (simp add: list_all_iff)

theorem data_ready_safe_witness:
  "(\<exists>t. (\<lambda>s t. t \<in> set (cv_succs s))\<^sup>*\<^sup>* work_start t \<and> all_ended 9 t)
   \<and> (\<exists>t. (\<lambda>s t. t \<in> set (atomic_succs s))\<^sup>*\<^sup>* work_start t \<and> all_ended 9 t)"
  using data_ready_safe [OF rtranclp.rtrancl_refl rtranclp.rtrancl_refl] by blast

end
