(* ===== verification/Data_Race.thy ===== *)
theory Data_Race
  imports Prelude
begin

text \<open>
  Threads that change a shared variable without a lock. \<open>worker\<close> of
  \<open>operating_systems_three_easy_pieces/code/concurrency_thread\<close> and \<open>mythread\<close> of \<open>share_global\<close>
  increment a counter in a loop, where an increment is a load and a store; \<open>fetch_mult\<close> of
  \<open>concurrency_with_modern_c++/code/fetch_mult\<close> does the same with a compare-and-exchange; \<open>run1\<close>
  and \<open>run2\<close> of \<open>atomic\<close> store and load two sequentially consistent variables.
\<close>

section \<open>Unprotected increments\<close>

text \<open>A thread: the iterations it has done and, between load and store, the value it has loaded.\<close>

record counting =
  wk_i :: nat
  wk_reg :: "int option"

record race =
  counter :: int
  workers :: "bool \<Rightarrow> counting"

definition worker_load :: "bool \<Rightarrow> race \<Rightarrow> race" where
  "worker_load p s = s\<lparr>workers := (workers s)(p := (workers s p)\<lparr>wk_reg := Some (counter s)\<rparr>)\<rparr>"

definition worker_store :: "bool \<Rightarrow> int \<Rightarrow> race \<Rightarrow> race" where
  "worker_store p v s =
     s\<lparr>counter := s32 (v + 1), workers := (workers s)(p := (workers s p)\<lparr>wk_i := Suc (wk_i (workers s p)), wk_reg := None\<rparr>)\<rparr>"

inductive race_step :: "nat \<Rightarrow> race \<Rightarrow> race \<Rightarrow> bool" for loops where
  load: "wk_i (workers s p) < loops \<Longrightarrow> wk_reg (workers s p) = None \<Longrightarrow> race_step loops s (worker_load p s)"
| store: "wk_reg (workers s p) = Some v \<Longrightarrow> race_step loops s (worker_store p v s)"

definition race_start :: race where
  "race_start = \<lparr>counter = 0, workers = \<lambda>_. \<lparr>wk_i = 0, wk_reg = None\<rparr>\<rparr>"

definition race_done :: "nat \<Rightarrow> race \<Rightarrow> bool" where
  "race_done loops s \<longleftrightarrow> (\<forall>p. wk_i (workers s p) = loops \<and> wk_reg (workers s p) = None)"

definition iterations :: "race \<Rightarrow> int" where
  "iterations s = int (wk_i (workers s False)) + int (wk_i (workers s True))"

text \<open>
  The counter is at most the number of iterations done, and so is what was loaded. Once a thread
  has stored, the counter is at least one and stays so; a thread in its second iteration has loaded
  at least one.
\<close>

definition worker_ok :: "nat \<Rightarrow> int \<Rightarrow> counting \<Rightarrow> bool" where
  "worker_ok loops its w \<longleftrightarrow> wk_i w \<le> loops
     \<and> (\<forall>v. wk_reg w = Some v \<longrightarrow> wk_i w < loops \<and> 0 \<le> v \<and> v \<le> its \<and> (0 < wk_i w \<longrightarrow> 1 \<le> v))"

definition race_inv :: "nat \<Rightarrow> race \<Rightarrow> bool" where
  "race_inv loops s \<longleftrightarrow> (\<forall>p. worker_ok loops (iterations s) (workers s p))
     \<and> 0 \<le> counter s \<and> counter s \<le> iterations s \<and> (0 < iterations s \<longrightarrow> 1 \<le> counter s)
     \<and> ((\<forall>p. 2 \<le> wk_i (workers s p)) \<longrightarrow> 2 \<le> counter s)"

lemma iterations_load: "iterations (worker_load p s) = iterations s"
  by (cases p) (simp_all add: iterations_def worker_load_def)

lemma iterations_store: "iterations (worker_store p v s) = iterations s + 1"
  by (cases p) (simp_all add: iterations_def worker_store_def)

lemma worker_ok_mono: "worker_ok loops its w \<Longrightarrow> its \<le> its' \<Longrightarrow> worker_ok loops its' w"
  by (auto simp: worker_ok_def)

lemma race_inv_load:
  assumes "race_inv loops s" and "wk_i (workers s p) < loops"
  shows "race_inv loops (worker_load p s)"
proof -
  have "0 < wk_i (workers s p) \<Longrightarrow> 0 < iterations s" by (cases p) (simp_all add: iterations_def)
  then have "worker_ok loops (iterations s) (workers (worker_load p s) q)" for q
    using assms by (cases "q = p") (auto simp: race_inv_def worker_ok_def worker_load_def)
  moreover have "wk_i (workers (worker_load p s) q) = wk_i (workers s q)" "counter (worker_load p s) = counter s" for q
    by (simp_all add: worker_load_def)
  ultimately show ?thesis using assms(1) by (simp add: race_inv_def iterations_load)
qed

lemma iterations_bound:
  assumes "race_inv loops s" and "wk_reg (workers s p) = Some v"
  shows "iterations s < 2 * int loops"
proof -
  have "wk_i (workers s q) \<le> loops" for q using assms by (simp add: race_inv_def worker_ok_def)
  then have "wk_i (workers s False) \<le> loops" "wk_i (workers s True) \<le> loops" by blast+
  moreover have "wk_i (workers s p) < loops" using assms by (simp add: race_inv_def worker_ok_def)
  ultimately show ?thesis by (cases p) (simp_all add: iterations_def)
qed

lemma race_inv_store:
  assumes inv: "race_inv loops s" and v: "wk_reg (workers s p) = Some v" and "2 * int loops < 2 ^ 31"
  shows "race_inv loops (worker_store p v s)"
proof -
  have ok: "worker_ok loops (iterations s) (workers s q)" for q using inv by (simp add: race_inv_def)
  have b: "0 \<le> v" "v \<le> iterations s" "wk_i (workers s p) < loops" "0 < wk_i (workers s p) \<Longrightarrow> 1 \<le> v"
    using ok [of p] v by (simp_all add: worker_ok_def)
  then have c: "counter (worker_store p v s) = v + 1"
    using iterations_bound [OF inv v] assms(3) by (simp add: worker_store_def s32_id)
  have "worker_ok loops (iterations s + 1) (workers (worker_store p v s) q)" for q
    using worker_ok_mono [OF ok [of q], of "iterations s + 1"] b by (cases "q = p") (simp_all add: worker_store_def worker_ok_def)
  moreover have "2 \<le> v + 1" if "\<forall>q. 2 \<le> wk_i (workers (worker_store p v s) q)"
    using that [rule_format, of p] b(4) by (simp add: worker_store_def)
  ultimately show ?thesis using b by (auto simp: race_inv_def iterations_store c)
qed

lemma race_inv_step:
  assumes "2 * int loops < 2 ^ 31" and "race_step loops s s'" and "race_inv loops s"
  shows "race_inv loops s'"
  using assms(2)
proof cases
  case (load p)
  then show ?thesis using race_inv_load [OF assms(3)] by simp
next
  case (store p v)
  then show ?thesis using race_inv_store [OF assms(3) _ assms(1)] by simp
qed

interpretation race: relation_inv "race_step loops" "\<lambda>s. 2 * int loops < 2 ^ 31 \<longrightarrow> race_inv loops s" for loops
  by unfold_locales (blast intro: race_inv_step)

text \<open>Left alone, a thread adds one per iteration.\<close>

definition alone :: "bool \<Rightarrow> nat \<Rightarrow> race \<Rightarrow> race" where
  "alone p k s = s\<lparr>counter := counter s + int k, workers := (workers s)(p := (workers s p)\<lparr>wk_i := wk_i (workers s p) + k, wk_reg := None\<rparr>)\<rparr>"

lemma run_alone:
  assumes "wk_reg (workers s p) = None" and "wk_i (workers s p) + k \<le> loops" and "0 \<le> counter s"
    and "counter s + int k < 2 ^ 31"
  shows "(race_step loops)\<^sup>*\<^sup>* s (alone p k s)"
  using assms(2,4)
proof (induction k)
  case 0
  have "(workers s p)\<lparr>wk_i := wk_i (workers s p), wk_reg := None\<rparr> = workers s p" using assms(1) by (cases "workers s p") simp
  then have "alone p 0 s = s" by (simp add: alone_def)
  then show ?case by simp
next
  case (Suc k)
  have l: "race_step loops (alone p k s) (worker_load p (alone p k s))"
    using Suc.prems by (intro race_step.load) (simp_all add: alone_def)
  have st: "race_step loops (worker_load p (alone p k s)) (worker_store p (counter (alone p k s)) (worker_load p (alone p k s)))"
    by (intro race_step.store) (simp add: worker_load_def)
  have "s32 (counter s + int k + 1) = counter s + int k + 1" using Suc.prems assms(3) by (intro s32_id) simp_all
  then have "worker_store p (counter (alone p k s)) (worker_load p (alone p k s)) = alone p (Suc k) s"
    by (simp add: worker_store_def worker_load_def alone_def algebra_simps)
  with Suc l st show ?case by (simp add: rtranclp.rtrancl_into_rtrancl)
qed

text \<open>The run that loses the most: each thread overwrites what the other did with an old value.\<close>

definition worst :: "nat \<Rightarrow> race" where
  "worst n = (let s = worker_load False race_start;
                  s = worker_store False 0 (alone True n s);
                  s = worker_load True s
              in worker_store True 1 (alone False n s))"

lemma worst_reached:
  assumes "2 * int (Suc n) < 2 ^ 31"
  shows "(race_step (Suc n))\<^sup>*\<^sup>* race_start (worst n)" and "race_done (Suc n) (worst n)" and "counter (worst n) = 2"
proof -
  define s1 s2 s3 s4 s5 where "s1 = worker_load False race_start" and "s2 = alone True n s1"
    and "s3 = worker_store False 0 s2" and "s4 = worker_load True s3" and "s5 = alone False n s4"
  note defs = s1_def s2_def s3_def s4_def s5_def race_start_def worker_load_def worker_store_def alone_def
  have one: "s32 1 = 1" by (intro s32_id) simp_all
  have "race_step (Suc n) race_start s1" unfolding s1_def by (intro race_step.load) (simp_all add: race_start_def)
  moreover have "(race_step (Suc n))\<^sup>*\<^sup>* s1 s2" unfolding s2_def
    using assms by (intro run_alone) (simp_all add: defs)
  moreover have "race_step (Suc n) s2 s3" unfolding s3_def by (intro race_step.store) (simp add: defs)
  moreover have "race_step (Suc n) s3 s4" unfolding s4_def by (intro race_step.load) (simp_all add: defs)
  moreover have "(race_step (Suc n))\<^sup>*\<^sup>* s4 s5" unfolding s5_def
    using assms by (intro run_alone) (simp_all add: defs one)
  moreover have "race_step (Suc n) s5 (worker_store True 1 s5)" by (intro race_step.store) (simp add: defs one)
  moreover have w: "worst n = worker_store True 1 s5"
    by (simp add: worst_def s1_def s2_def s3_def s4_def s5_def Let_def)
  ultimately show "(race_step (Suc n))\<^sup>*\<^sup>* race_start (worst n)"
    by (metis (no_types, lifting) converse_rtranclp_into_rtranclp rtranclp.rtrancl_into_rtrancl rtranclp_trans)
  have "s32 2 = 2" by (intro s32_id) simp_all
  then show "counter (worst n) = 2" "race_done (Suc n) (worst n)"
    by (auto simp: w defs race_done_def one)
qed

text \<open>
  C35: Two threads that increment a counter \<open>loops\<close> times without a lock, at least twice each and not so often that it
  overflows, leave a value between 2 and twice \<open>loops\<close>, and both extremes occur: all but two of the increments can be
  lost.
\<close>

theorem race_bounds:
  assumes "2 \<le> loops" and "2 * int loops < 2 ^ 31"
  shows "(\<forall>s. (race_step loops)\<^sup>*\<^sup>* race_start s \<longrightarrow> race_done loops s \<longrightarrow> 2 \<le> counter s \<and> counter s \<le> 2 * int loops)
    \<and> (\<exists>s. (race_step loops)\<^sup>*\<^sup>* race_start s \<and> race_done loops s \<and> counter s = 2)
    \<and> (\<exists>s. (race_step loops)\<^sup>*\<^sup>* race_start s \<and> race_done loops s \<and> counter s = 2 * int loops)"
proof -
  have start: "race_inv loops race_start" by (simp add: race_inv_def race_start_def worker_ok_def iterations_def)
  have bounds: "2 \<le> counter s \<and> counter s \<le> 2 * int loops"
    if "(race_step loops)\<^sup>*\<^sup>* race_start s" "race_done loops s" for s
    using race.inv_reached [OF that(1)] start assms that(2) by (simp add: race_inv_def race_done_def iterations_def)
  obtain n where n: "loops = Suc n" using assms(1) by (cases loops) simp_all
  define b where "b = alone True loops (alone False loops race_start)"
  have "(race_step loops)\<^sup>*\<^sup>* race_start (alone False loops race_start)"
    "(race_step loops)\<^sup>*\<^sup>* (alone False loops race_start) b"
    unfolding b_def using assms(2) by (intro run_alone; simp add: race_start_def alone_def)+
  then have "(race_step loops)\<^sup>*\<^sup>* race_start b" by simp
  moreover have "race_done loops b" "counter b = 2 * int loops"
    by (auto simp: b_def race_done_def race_start_def alone_def)
  ultimately show ?thesis using bounds worst_reached [of n] assms(2) n by blast
qed

theorem race_bounds_witness:
  "(\<exists>s. (race_step 2)\<^sup>*\<^sup>* race_start s \<and> race_done 2 s \<and> counter s = 2)
   \<and> (\<exists>s. (race_step 2)\<^sup>*\<^sup>* race_start s \<and> race_done 2 s \<and> counter s = 4)"
  using race_bounds [of 2] by simp

section \<open>Multiplying with compare-and-exchange\<close>

text \<open>
  Where a call of \<open>fetch_mult\<close> is: before its load, in its loop with \<open>oldValue\<close>, or returned with it.
  A failed \<open>compare_exchange_strong\<close> stores the current value in its first argument.
\<close>

datatype fm_call = Fm_load | Fm_loop int | Fm_returned int

record fm =
  fm_shared :: int
  fm_calls :: "nat \<Rightarrow> fm_call"

definition compare_exchange_strong :: "int \<Rightarrow> int \<Rightarrow> int \<Rightarrow> bool \<times> int \<times> int" where
  "compare_exchange_strong shared expected desired =
     (if shared = expected then (True, desired, expected) else (False, shared, shared))"

fun fetch_mult :: "int \<Rightarrow> int \<Rightarrow> fm_call \<Rightarrow> (int \<times> fm_call) option" where
  "fetch_mult mult shared Fm_load = Some (shared, Fm_loop shared)"
| "fetch_mult mult shared (Fm_loop oldValue) =
     (case compare_exchange_strong shared oldValue (s32 (oldValue * mult)) of
        (ok, shared, oldValue) \<Rightarrow> Some (shared, if ok then Fm_returned oldValue else Fm_loop oldValue))"
| "fetch_mult mult shared (Fm_returned oldValue) = None"

inductive fm_step :: "(nat \<Rightarrow> int) \<Rightarrow> fm \<Rightarrow> fm \<Rightarrow> bool" for mult where
  "fetch_mult (mult i) (fm_shared s) (fm_calls s i) = Some (v, c) \<Longrightarrow>
     fm_step mult s (s\<lparr>fm_shared := v, fm_calls := (fm_calls s)(i := c)\<rparr>)"

definition fm_start :: "int \<Rightarrow> fm" where
  "fm_start v = \<lparr>fm_shared = v, fm_calls = \<lambda>_. Fm_load\<rparr>"

text \<open>The value after the multiplications of the calls in \<open>order\<close>, one after the other.\<close>

definition mult_all :: "(nat \<Rightarrow> int) \<Rightarrow> nat list \<Rightarrow> int \<Rightarrow> int" where
  "mult_all mult order v = fold (\<lambda>i v. s32 (v * mult i)) order v"

definition linear :: "(nat \<Rightarrow> int) \<Rightarrow> int \<Rightarrow> nat list \<Rightarrow> fm \<Rightarrow> bool" where
  "linear mult v order s \<longleftrightarrow> distinct order \<and> fm_shared s = mult_all mult order v
     \<and> (\<forall>i. (\<exists>r. fm_calls s i = Fm_returned r) \<longleftrightarrow> i \<in> set order)
     \<and> (\<forall>k < length order. fm_calls s (order ! k) = Fm_returned (mult_all mult (take k order) v))"

lemma fetch_mult_cases:
  assumes "fetch_mult m shared c = Some (v, c')"
  obtains (loops) r where "v = shared" "c' = Fm_loop r" "\<And>q. c \<noteq> Fm_returned q"
  | (returns) "c = Fm_loop shared" "v = s32 (shared * m)" "c' = Fm_returned shared"
  using assms by (cases c) (auto simp: compare_exchange_strong_def split: if_splits)

lemma linear_step:
  assumes "fm_step mult s s'" and "linear mult v order s"
  shows "\<exists>order'. linear mult v order' s'"
  using assms(1)
proof cases
  case (1 i w c)
  from 1(2) show ?thesis
  proof (cases rule: fetch_mult_cases)
    case (loops r)
    then have "i \<notin> set order" using assms(2) by (auto simp: linear_def)
    then have "linear mult v order s'"
      using assms(2) loops 1(1) by (auto simp: linear_def)
    then show ?thesis by blast
  next
    case returns
    then have i: "i \<notin> set order" using assms(2) unfolding linear_def by (metis fm_call.distinct(5))
    have "linear mult v (order @ [i]) s'"
      unfolding linear_def
    proof (intro conjI allI impI)
      show "fm_shared s' = mult_all mult (order @ [i]) v"
        using assms(2) returns 1(1) by (simp add: linear_def mult_all_def)
      show "(\<exists>r. fm_calls s' j = Fm_returned r) \<longleftrightarrow> j \<in> set (order @ [i])" for j
        using assms(2) returns 1(1) by (auto simp: linear_def)
      fix k assume "k < length (order @ [i])"
      then consider "k < length order" | "k = length order" by fastforce
      then show "fm_calls s' ((order @ [i]) ! k) = Fm_returned (mult_all mult (take k (order @ [i])) v)"
      proof cases
        case 1
        then have "order ! k \<noteq> i" using i by (metis nth_mem)
        then show ?thesis using assms(2) 1 \<open>s' = _\<close> by (simp add: linear_def nth_append)
      next
        case 2
        then show ?thesis using assms(2) returns \<open>s' = _\<close> by (simp add: linear_def)
      qed
    qed (use assms(2) i in \<open>simp add: linear_def\<close>)
    then show ?thesis by blast
  qed
qed

interpretation cas: relation_inv "fm_step mult" "\<lambda>s. \<exists>order. linear mult v order s" for mult v
  by unfold_locales (auto dest: linear_step)

text \<open>A call that is left alone returns: at once if the variable is as it saw it, after another look otherwise.\<close>

definition returns_within :: "(nat \<Rightarrow> int) \<Rightarrow> nat \<Rightarrow> nat \<Rightarrow> fm \<Rightarrow> bool" where
  "returns_within mult i n s \<longleftrightarrow> (\<exists>m \<le> n. \<exists>t r. (fm_step mult ^^ m) s t \<and> fm_calls t i = Fm_returned r)"

lemma returns_step:
  assumes "fm_step mult s s'" and "returns_within mult i n s'"
  shows "returns_within mult i (Suc n) s"
proof -
  obtain m t r where m: "m \<le> n" "(fm_step mult ^^ m) s' t" "fm_calls t i = Fm_returned r"
    using assms(2) by (auto simp: returns_within_def)
  then have "(fm_step mult ^^ Suc m) s t" using assms(1) by (blast intro: relpowp_Suc_I2)
  with m show ?thesis unfolding returns_within_def by (meson Suc_le_mono)
qed

lemma returns_mono: "returns_within mult i n s \<Longrightarrow> n \<le> n' \<Longrightarrow> returns_within mult i n' s"
  unfolding returns_within_def by (meson le_trans)

lemma returned: "fm_calls s i = Fm_returned r \<Longrightarrow> returns_within mult i n s"
  unfolding returns_within_def by (rule exI [of _ 0]) auto

lemma returns_now:
  assumes "fm_calls s i = Fm_loop (fm_shared s)"
  shows "returns_within mult i 1 s"
proof -
  have "fm_step mult s (s\<lparr>fm_shared := s32 (fm_shared s * mult i), fm_calls := (fm_calls s)(i := Fm_returned (fm_shared s))\<rparr>)"
    using assms by (intro fm_step.intros) (simp add: compare_exchange_strong_def)
  then show ?thesis using returns_step [OF _ returned, of mult s _ i _ 0] by simp
qed

lemma looks_again:
  assumes "fetch_mult (mult i) (fm_shared s) (fm_calls s i) = Some (fm_shared s, Fm_loop (fm_shared s))"
  shows "returns_within mult i 2 s"
proof -
  have "fm_step mult s (s\<lparr>fm_shared := fm_shared s, fm_calls := (fm_calls s)(i := Fm_loop (fm_shared s))\<rparr>)"
    using assms by (rule fm_step.intros)
  then show ?thesis using returns_step [OF _ returns_now, of mult s _ i] by (simp add: numeral_2_eq_2)
qed

lemma returns_alone: "returns_within mult i 2 s"
proof (cases "fm_calls s i")
  case Fm_load
  then show ?thesis by (intro looks_again) simp
next
  case (Fm_loop q)
  then show ?thesis
    using returns_mono [OF returns_now [of s i mult]] looks_again [of mult i s]
    by (cases "q = fm_shared s") (simp_all add: compare_exchange_strong_def)
qed (rule returned)

text \<open>
  C12: Concurrent calls of \<open>fetch_mult\<close> lose nothing: in every state the calls that have returned can be put
  in an order in which each returned the value its predecessors left, and the variable holds the
  product so far. A call that is left alone returns after at most two steps.
\<close>

theorem fetch_mult_atomic:
  assumes "(fm_step mult)\<^sup>*\<^sup>* (fm_start v) s"
  shows "(\<exists>order. linear mult v order s) \<and> (\<forall>i. returns_within mult i 2 s)"
proof -
  have "linear mult v [] (fm_start v)" by (simp add: linear_def fm_start_def mult_all_def)
  then show ?thesis using cas.inv_reached [OF assms] returns_alone by blast
qed

theorem fetch_mult_atomic_witness:
  "\<exists>order. linear (\<lambda>_. 5) 5 order \<lparr>fm_shared = 25, fm_calls = (\<lambda>_. Fm_load)(3 := Fm_returned 5)\<rparr>"
proof -
  have "fm_step (\<lambda>_. 5) (fm_start 5) \<lparr>fm_shared = 5, fm_calls = (\<lambda>_. Fm_load)(3 := Fm_loop 5)\<rparr>"
    using fm_step.intros [of "\<lambda>_. 5" 3 "fm_start 5" 5 "Fm_loop 5"] by (simp add: fm_start_def)
  moreover have "fm_step (\<lambda>_. 5) \<lparr>fm_shared = 5, fm_calls = (\<lambda>_. Fm_load)(3 := Fm_loop 5)\<rparr>
      \<lparr>fm_shared = 25, fm_calls = (\<lambda>_. Fm_load)(3 := Fm_returned 5)\<rparr>"
    using fm_step.intros [of "\<lambda>_. 5" 3 "\<lparr>fm_shared = 5, fm_calls = (\<lambda>_. Fm_load)(3 := Fm_loop 5)\<rparr>" 25 "Fm_returned 5"]
    by (simp add: compare_exchange_strong_def s32_def)
  ultimately have "(fm_step (\<lambda>_. 5))\<^sup>*\<^sup>* (fm_start 5) \<lparr>fm_shared = 25, fm_calls = (\<lambda>_. Fm_load)(3 := Fm_returned 5)\<rparr>"
    by (meson converse_rtranclp_into_rtranclp r_into_rtranclp)
  from fetch_mult_atomic [OF this] show ?thesis by blast
qed

section \<open>Storing and loading two variables\<close>

text \<open>\<open>run1\<close> stores \<open>x\<close> and loads \<open>y\<close>, \<open>run2\<close> stores \<open>y\<close> and loads \<open>x\<close>; the accesses of all threads have one order.\<close>

record store_load =
  sl_x :: int
  sl_y :: int
  sl_res1 :: "int option"
  sl_res2 :: "int option"
  sl_pc1 :: nat
  sl_pc2 :: nat

definition run1 :: "store_load \<Rightarrow> store_load list" where
  "run1 s = (if sl_pc1 s = 0 then [s\<lparr>sl_x := 1, sl_pc1 := 1\<rparr>]
             else if sl_pc1 s = 1 then [s\<lparr>sl_res1 := Some (sl_y s), sl_pc1 := 2\<rparr>] else [])"

definition run2 :: "store_load \<Rightarrow> store_load list" where
  "run2 s = (if sl_pc2 s = 0 then [s\<lparr>sl_y := 1, sl_pc2 := 1\<rparr>]
             else if sl_pc2 s = 1 then [s\<lparr>sl_res2 := Some (sl_x s), sl_pc2 := 2\<rparr>] else [])"

definition sl_succs :: "store_load \<Rightarrow> store_load list" where
  "sl_succs s = run1 s @ run2 s"

definition sl_start :: store_load where
  "sl_start = \<lparr>sl_x = 0, sl_y = 0, sl_res1 = None, sl_res2 = None, sl_pc1 = 0, sl_pc2 = 0\<rparr>"

definition sl_states :: "store_load list" where
  "sl_states = explore 50 sl_succs [sl_start] []"

interpretation sl: finite_program sl_succs sl_states sl_start "\<lambda>s. sl_pc1 s = 2 \<and> sl_pc2 s = 2" 50
  by unfold_locales code_simp+

lemma sl_all: "list_all (\<lambda>s. \<not> (sl_res1 s = Some 0 \<and> sl_res2 s = Some 0)) sl_states"
  by code_simp

text \<open>At least one of the threads sees the other's store.\<close>

lemma one_sees_the_other:
  assumes "(\<lambda>s t. t \<in> set (sl_succs s))\<^sup>*\<^sup>* sl_start s"
  shows "\<not> (sl_res1 s = Some 0 \<and> sl_res2 s = Some 0)"
  using sl.reached_in [OF assms] sl_all by (simp add: list_all_iff)

end
