(* ===== verification/Rw_Lock.thy ===== *)
theory Rw_Lock
  imports Prelude
begin

text \<open>
  Readers and writers: the telephone book of \<open>concurrency_with_modern_c++/code/read_write_lock\<close>, whose threads
  take a \<open>std::shared_mutex\<close> shared to look a number up and alone to enter one, and the counter of the
  rwlock directory. Each statement of the telephone book's functions is a step; \<open>sleep_for\<close> has no effect.
\<close>

section \<open>The lock\<close>

record shared_mutex =
  sm_readers :: nat
  sm_writer :: bool

definition lock_shared :: "shared_mutex \<Rightarrow> shared_mutex option" where
  "lock_shared m = (if sm_writer m then None else Some (m\<lparr>sm_readers := Suc (sm_readers m)\<rparr>))"

definition unlock_shared :: "shared_mutex \<Rightarrow> shared_mutex" where
  "unlock_shared m = m\<lparr>sm_readers := sm_readers m - 1\<rparr>"

definition lock_alone :: "shared_mutex \<Rightarrow> shared_mutex option" where
  "lock_alone m = (if sm_writer m \<or> 0 < sm_readers m then None else Some (m\<lparr>sm_writer := True\<rparr>))"

definition unlock_alone :: "shared_mutex \<Rightarrow> shared_mutex" where
  "unlock_alone m = m\<lparr>sm_writer := False\<rparr>"

section \<open>The telephone book\<close>

datatype book_job = Print_number string | Add_number string int

datatype book_line = Number string int | Not_in_book string | Starting string | Ending string

record tele_book =
  tb_book :: "string \<Rightarrow> int option"
  tb_mutex :: shared_mutex
  tb_out :: "book_line list"
  tb_pc :: "nat \<Rightarrow> nat"

text \<open>\<open>teleBook[na]\<close>: a name that is not there is entered with the number zero.\<close>

definition book_at :: "string \<Rightarrow> (string \<Rightarrow> int option) \<Rightarrow> int \<times> (string \<Rightarrow> int option)" where
  "book_at na book = (case book na of Some v \<Rightarrow> (v, book) | None \<Rightarrow> (0, book(na \<mapsto> 0)))"

definition jump :: "nat \<Rightarrow> nat \<Rightarrow> tele_book \<Rightarrow> tele_book" where
  "jump i k s = s\<lparr>tb_pc := (tb_pc s)(i := k)\<rparr>"

definition addToTeleBook :: "nat \<Rightarrow> string \<Rightarrow> int \<Rightarrow> tele_book \<Rightarrow> tele_book option" where
  "addToTeleBook i na tele s =
     (if tb_pc s i = 0 then map_option (\<lambda>m. jump i 1 (s\<lparr>tb_mutex := m\<rparr>)) (lock_alone (tb_mutex s))
      else if tb_pc s i = 1 then Some (jump i 2 (s\<lparr>tb_out := tb_out s @ [Starting na]\<rparr>))
      else if tb_pc s i = 2 then Some (jump i 3 (s\<lparr>tb_book := (tb_book s)(na \<mapsto> tele)\<rparr>))
      else if tb_pc s i = 3 then Some (jump i 4 (s\<lparr>tb_out := tb_out s @ [Ending na]\<rparr>))
      else if tb_pc s i = 4 then Some (jump i 9 (s\<lparr>tb_mutex := unlock_alone (tb_mutex s)\<rparr>))
      else None)"

definition printNumber :: "nat \<Rightarrow> string \<Rightarrow> tele_book \<Rightarrow> tele_book option" where
  "printNumber i na s =
     (if tb_pc s i = 0 then map_option (\<lambda>m. jump i 1 (s\<lparr>tb_mutex := m\<rparr>)) (lock_shared (tb_mutex s))
      else if tb_pc s i = 1 then Some (jump i (if tb_book s na \<noteq> None then 2 else 3) s)
      else if tb_pc s i = 2 then
        (case book_at na (tb_book s) of
           (v, book) \<Rightarrow> Some (jump i 4 (s\<lparr>tb_out := tb_out s @ [Number na v], tb_book := book\<rparr>)))
      else if tb_pc s i = 3 then Some (jump i 4 (s\<lparr>tb_out := tb_out s @ [Not_in_book na]\<rparr>))
      else if tb_pc s i = 4 then Some (jump i 9 (s\<lparr>tb_mutex := unlock_shared (tb_mutex s)\<rparr>))
      else None)"

fun book_thread :: "book_job \<Rightarrow> nat \<Rightarrow> tele_book \<Rightarrow> tele_book option" where
  "book_thread (Print_number na) i s = printNumber i na s"
| "book_thread (Add_number na tele) i s = addToTeleBook i na tele s"

inductive book_step :: "book_job list \<Rightarrow> tele_book \<Rightarrow> tele_book \<Rightarrow> bool" for jobs where
  book_stepI: "i < length jobs \<Longrightarrow> book_thread (jobs ! i) i s = Some s' \<Longrightarrow> book_step jobs s s'"

definition book_start :: "(string \<Rightarrow> int option) \<Rightarrow> tele_book" where
  "book_start book = \<lparr>tb_book = book, tb_mutex = \<lparr>sm_readers = 0, sm_writer = False\<rparr>, tb_out = [], tb_pc = \<lambda>_. 0\<rparr>"

definition teleBook :: "string \<Rightarrow> int option" where
  "teleBook = map_of [(''Dijkstra'', 1972), (''Scott'', 1976), (''Ritchie'', 1983)]"

definition book_main :: "book_job list" where
  "book_main =
     [Print_number ''Scott'', Print_number ''Ritchie'', Add_number ''Scott'' 1968, Print_number ''Dijkstra'',
      Print_number ''Scott'', Add_number ''Bjarne'' 1965, Print_number ''Scott'', Print_number ''Ritchie'',
      Print_number ''Scott'', Print_number ''Bjarne'']"

section \<open>What every run keeps\<close>

fun is_add :: "book_job \<Rightarrow> bool" where
  "is_add (Add_number na tele) = True"
| "is_add (Print_number na) = False"

definition inside :: "tele_book \<Rightarrow> nat \<Rightarrow> bool" where
  "inside s i \<longleftrightarrow> tb_pc s i \<in> {1, 2, 3, 4}"

definition readers :: "book_job list \<Rightarrow> tele_book \<Rightarrow> nat set" where
  "readers jobs s = {i. i < length jobs \<and> \<not> is_add (jobs ! i) \<and> inside s i}"

definition writers :: "book_job list \<Rightarrow> tele_book \<Rightarrow> nat set" where
  "writers jobs s = {i. i < length jobs \<and> is_add (jobs ! i) \<and> inside s i}"

text \<open>The numbers that threads have entered so far.\<close>

definition entered :: "book_job list \<Rightarrow> tele_book \<Rightarrow> string \<Rightarrow> int \<Rightarrow> bool" where
  "entered jobs s na v \<longleftrightarrow> (\<exists>i < length jobs. jobs ! i = Add_number na v \<and> tb_pc s i \<in> {3, 4, 9})"

definition lock_inv :: "book_job list \<Rightarrow> tele_book \<Rightarrow> bool" where
  "lock_inv jobs s \<longleftrightarrow>
     (\<forall>i < length jobs. tb_pc s i \<in> {0, 1, 2, 3, 4, 9})
     \<and> sm_readers (tb_mutex s) = card (readers jobs s)
     \<and> (if sm_writer (tb_mutex s) then readers jobs s = {} \<and> (\<exists>i. writers jobs s = {i}) else writers jobs s = {})"

definition book_inv :: "book_job list \<Rightarrow> (string \<Rightarrow> int option) \<Rightarrow> tele_book \<Rightarrow> bool" where
  "book_inv jobs book s \<longleftrightarrow>
     (\<forall>na v. tb_book s na = Some v \<longrightarrow> entered jobs s na v \<or> book na = Some v \<and> (\<forall>w. \<not> entered jobs s na w))
     \<and> (\<forall>na. (\<exists>v. book na = Some v \<or> entered jobs s na v) \<longrightarrow> tb_book s na \<noteq> None)
     \<and> (\<forall>i < length jobs. \<forall>na. jobs ! i = Print_number na \<longrightarrow>
          (tb_pc s i = 2 \<longrightarrow> tb_book s na \<noteq> None) \<and> (tb_pc s i = 3 \<longrightarrow> book na = None))"

definition all_done :: "book_job list \<Rightarrow> tele_book \<Rightarrow> bool" where
  "all_done jobs s \<longleftrightarrow> (\<forall>i < length jobs. tb_pc s i = 9)"

lemma finite_sides [simp]: "finite (readers jobs s)" "finite (writers jobs s)"
  by (simp_all add: readers_def writers_def)

text \<open>What was printed: a number that was in the book or was entered by some thread, and updates in one piece.\<close>

fun line_ok :: "book_job list \<Rightarrow> (string \<Rightarrow> int option) \<Rightarrow> book_line \<Rightarrow> bool" where
  "line_ok jobs book (Number na v) \<longleftrightarrow> book na = Some v \<or> Add_number na v \<in> set jobs"
| "line_ok jobs book (Not_in_book na) \<longleftrightarrow> book na = None"
| "line_ok jobs book _ \<longleftrightarrow> True"

fun well_paired :: "book_line list \<Rightarrow> bool" where
  "well_paired [] = True"
| "well_paired (Number na v # ls) = well_paired ls"
| "well_paired (Not_in_book na # ls) = well_paired ls"
| "well_paired (Starting na # Ending nb # ls) = (na = nb \<and> well_paired ls)"
| "well_paired (_ # ls) = False"

definition updating :: "book_job list \<Rightarrow> tele_book \<Rightarrow> string \<Rightarrow> bool" where
  "updating jobs s na \<longleftrightarrow> (\<exists>i < length jobs. \<exists>tele. jobs ! i = Add_number na tele \<and> tb_pc s i \<in> {2, 3})"

definition out_inv :: "book_job list \<Rightarrow> (string \<Rightarrow> int option) \<Rightarrow> tele_book \<Rightarrow> bool" where
  "out_inv jobs book s \<longleftrightarrow> list_all (line_ok jobs book) (tb_out s)
     \<and> (if \<exists>na. updating jobs s na then \<exists>xs na. well_paired xs \<and> updating jobs s na \<and> tb_out s = xs @ [Starting na]
        else well_paired (tb_out s))"

lemma well_paired_append: "well_paired xs \<Longrightarrow> well_paired (xs @ ys) = well_paired ys"
  by (induction xs rule: well_paired.induct) auto

lemma book_step_cases:
  assumes "book_step jobs s s'"
  obtains (enter_shared) i na where "i < length jobs" "jobs ! i = Print_number na" "tb_pc s i = 0" "\<not> sm_writer (tb_mutex s)"
      "s' = jump i 1 (s\<lparr>tb_mutex := (tb_mutex s)\<lparr>sm_readers := Suc (sm_readers (tb_mutex s))\<rparr>\<rparr>)"
  | (look) i na where "i < length jobs" "jobs ! i = Print_number na" "tb_pc s i = 1" "s' = jump i (if tb_book s na \<noteq> None then 2 else 3) s"
  | (show_number) i na where "i < length jobs" "jobs ! i = Print_number na" "tb_pc s i = 2"
      "s' = jump i 4 (s\<lparr>tb_out := tb_out s @ [Number na (fst (book_at na (tb_book s)))], tb_book := snd (book_at na (tb_book s))\<rparr>)"
  | (missing) i na where "i < length jobs" "jobs ! i = Print_number na" "tb_pc s i = 3"
      "s' = jump i 4 (s\<lparr>tb_out := tb_out s @ [Not_in_book na]\<rparr>)"
  | (leave_shared) i na where "i < length jobs" "jobs ! i = Print_number na" "tb_pc s i = 4"
      "s' = jump i 9 (s\<lparr>tb_mutex := unlock_shared (tb_mutex s)\<rparr>)"
  | (enter_alone) i na tele where "i < length jobs" "jobs ! i = Add_number na tele" "tb_pc s i = 0"
      "\<not> sm_writer (tb_mutex s)" "sm_readers (tb_mutex s) = 0" "s' = jump i 1 (s\<lparr>tb_mutex := (tb_mutex s)\<lparr>sm_writer := True\<rparr>\<rparr>)"
  | (announce) i na tele where "i < length jobs" "jobs ! i = Add_number na tele" "tb_pc s i = 1"
      "s' = jump i 2 (s\<lparr>tb_out := tb_out s @ [Starting na]\<rparr>)"
  | (store) i na tele where "i < length jobs" "jobs ! i = Add_number na tele" "tb_pc s i = 2"
      "s' = jump i 3 (s\<lparr>tb_book := (tb_book s)(na \<mapsto> tele)\<rparr>)"
  | (finish) i na tele where "i < length jobs" "jobs ! i = Add_number na tele" "tb_pc s i = 3"
      "s' = jump i 4 (s\<lparr>tb_out := tb_out s @ [Ending na]\<rparr>)"
  | (leave_alone) i na tele where "i < length jobs" "jobs ! i = Add_number na tele" "tb_pc s i = 4"
      "s' = jump i 9 (s\<lparr>tb_mutex := unlock_alone (tb_mutex s)\<rparr>)"
  using assms
proof (cases rule: book_step.cases)
  case (book_stepI i)
  show thesis
  proof (cases "jobs ! i")
    case (Print_number na)
    then have "printNumber i na s = Some s'" using book_stepI by simp
    then show thesis unfolding printNumber_def
      using book_stepI(1) Print_number enter_shared look show_number missing leave_shared
      by (auto simp: lock_shared_def split: if_splits prod.splits)
  next
    case (Add_number na tele)
    then have "addToTeleBook i na tele s = Some s'" using book_stepI by simp
    then show thesis unfolding addToTeleBook_def
      using book_stepI(1) Add_number enter_alone announce store finish leave_alone
      by (auto simp: lock_alone_def split: if_splits)
  qed
qed

lemma jump_sel [simp]:
  "tb_book (jump i k s) = tb_book s" "tb_mutex (jump i k s) = tb_mutex s" "tb_out (jump i k s) = tb_out s"
  "tb_pc (jump i k s) = (tb_pc s)(i := k)"
  by (simp_all add: jump_def)

lemma sides_jump:
  assumes "tb_pc s' = (tb_pc s)(i := k)" "i < length jobs"
  shows "readers jobs s' = (if \<not> is_add (jobs ! i) \<and> k \<in> {1, 2, 3, 4} then insert i (readers jobs s) else readers jobs s - {i})"
    "writers jobs s' = (if is_add (jobs ! i) \<and> k \<in> {1, 2, 3, 4} then insert i (writers jobs s) else writers jobs s - {i})"
  using assms by (auto simp: readers_def writers_def inside_def)

lemma sides_stay:
  assumes "tb_pc s' = (tb_pc s)(i := k)" "i < length jobs" "k \<in> {1, 2, 3, 4}" "tb_pc s i \<in> {1, 2, 3, 4}"
  shows "readers jobs s' = readers jobs s" "writers jobs s' = writers jobs s"
  using assms by (auto simp: readers_def writers_def inside_def)

lemma lock_inv_jump:
  assumes "lock_inv jobs s" "i < length jobs" "k \<in> {1, 2, 3, 4}" "tb_pc s i \<in> {1, 2, 3, 4}"
    "tb_pc t = tb_pc s" "tb_mutex t = tb_mutex s"
  shows "lock_inv jobs (jump i k t)"
  using assms sides_stay [of "jump i k t" s i k jobs] by (auto simp: lock_inv_def)

lemma outside_sides: "i \<in> readers jobs s \<or> i \<in> writers jobs s \<Longrightarrow> tb_pc s i \<in> {1, 2, 3, 4}"
  by (auto simp: readers_def writers_def inside_def)

lemma lock_inv_step:
  assumes "book_step jobs s s'" "lock_inv jobs s"
  shows "lock_inv jobs s'"
  using assms(1)
proof (cases rule: book_step_cases)
  case (enter_shared i na)
  then have "i \<notin> readers jobs s" using outside_sides [of i jobs s] by auto
  moreover have "readers jobs s' = insert i (readers jobs s)" "writers jobs s' = writers jobs s - {i}"
    using sides_jump [of s' s i 1 jobs] enter_shared by simp_all
  ultimately show ?thesis using assms(2) enter_shared by (auto simp: lock_inv_def)
next
  case (leave_shared i na)
  then have i: "i \<in> readers jobs s" by (simp add: readers_def inside_def)
  moreover have "readers jobs s' = readers jobs s - {i}" "writers jobs s' = writers jobs s - {i}"
    using sides_jump [of s' s i 9 jobs] leave_shared by simp_all
  ultimately show ?thesis using assms(2) leave_shared by (auto simp: lock_inv_def unlock_shared_def split: if_splits)
next
  case (enter_alone i na tele)
  then have "readers jobs s = {}" "writers jobs s = {}" using assms(2) by (auto simp: lock_inv_def)
  moreover have "readers jobs s' = readers jobs s - {i}" "writers jobs s' = insert i (writers jobs s)"
    using sides_jump [of s' s i 1 jobs] enter_alone by simp_all
  ultimately show ?thesis using assms(2) enter_alone by (auto simp: lock_inv_def)
next
  case (leave_alone i na tele)
  then have i: "i \<in> writers jobs s" by (simp add: writers_def inside_def)
  then have "writers jobs s = {i}" "readers jobs s = {}" using assms(2) by (auto simp: lock_inv_def split: if_splits)
  moreover have "readers jobs s' = readers jobs s - {i}" "writers jobs s' = writers jobs s - {i}"
    using sides_jump [of s' s i 9 jobs] leave_alone by simp_all
  ultimately show ?thesis using assms(2) leave_alone by (auto simp: lock_inv_def unlock_alone_def)
qed (use assms(2) in \<open>auto intro!: lock_inv_jump [of jobs s]\<close>)

lemma writer_alone:
  assumes "lock_inv jobs s" "i < length jobs" "is_add (jobs ! i)" "inside s i" "j < length jobs" "inside s j"
  shows "j = i"
proof -
  have "i \<in> writers jobs s" "j \<in> readers jobs s \<or> j \<in> writers jobs s" using assms by (auto simp: writers_def readers_def)
  then show ?thesis using assms(1) by (auto simp: lock_inv_def split: if_splits)
qed

text \<open>A step of one thread leaves what the others have entered.\<close>

lemma entered_jump:
  assumes "tb_pc s' = (tb_pc s)(i := k)" "is_add (jobs ! i) \<longrightarrow> (tb_pc s i \<in> {3, 4, 9} \<longleftrightarrow> k \<in> {3, 4, 9})"
  shows "entered jobs s' = entered jobs s"
proof -
  have "tb_pc s' j \<in> {3, 4, 9} \<longleftrightarrow> tb_pc s j \<in> {3, 4, 9}" if "jobs ! j = Add_number na v" for j na v
    using assms that by (cases "j = i") simp_all
  then show ?thesis unfolding entered_def by (intro ext) blast
qed

lemma book_inv_jump:
  assumes "book_inv jobs book s" "tb_pc s' = (tb_pc s)(i := k)" "is_add (jobs ! i) \<longrightarrow> (tb_pc s i \<in> {3, 4, 9} \<longleftrightarrow> k \<in> {3, 4, 9})"
    "tb_book s' = tb_book s" "\<And>na. jobs ! i = Print_number na \<Longrightarrow> k = 2 \<Longrightarrow> tb_book s na \<noteq> None"
    "\<And>na. jobs ! i = Print_number na \<Longrightarrow> k = 3 \<Longrightarrow> book na = None"
  shows "book_inv jobs book s'"
  using assms(1,4,5,6) unfolding book_inv_def entered_jump [OF assms(2,3)] assms(2) by auto

lemma book_inv_step:
  assumes "book_step jobs s s'" "book_inv jobs book s"
  shows "book_inv jobs book s'"
  using assms(1)
proof (cases rule: book_step_cases)
  case (show_number i na)
  then have "tb_book s na \<noteq> None" using assms(2) by (simp add: book_inv_def)
  then have "snd (book_at na (tb_book s)) = tb_book s" by (auto simp: book_at_def)
  then show ?thesis using show_number by (intro book_inv_jump [OF assms(2), of _ i 4]) simp_all
next
  case (store i na tele)
  have pc: "tb_pc s' j \<in> {3, 4, 9} \<longleftrightarrow> j = i \<or> tb_pc s j \<in> {3, 4, 9}" for j using store(4) by simp
  have "entered jobs s' mb v \<longleftrightarrow> entered jobs s mb v \<or> mb = na \<and> v = tele" for mb v
    unfolding entered_def pc using store(1,2) by auto
  then show ?thesis using assms(2) store by (auto simp: book_inv_def)
next
  case (look i na)
  then have "tb_book s na = None \<Longrightarrow> book na = None" using assms(2) by (cases "book na") (auto simp: book_inv_def)
  then show ?thesis using look by (intro book_inv_jump [OF assms(2), of _ i "if tb_book s na \<noteq> None then 2 else 3"]) (auto split: if_splits)
next
  case (enter_shared i na)
  then show ?thesis by (intro book_inv_jump [OF assms(2), of _ i 1]) simp_all
next
  case (missing i na)
  then show ?thesis by (intro book_inv_jump [OF assms(2), of _ i 4]) simp_all
next
  case (leave_shared i na)
  then show ?thesis by (intro book_inv_jump [OF assms(2), of _ i 9]) simp_all
next
  case (enter_alone i na tele)
  then show ?thesis by (intro book_inv_jump [OF assms(2), of _ i 1]) simp_all
next
  case (announce i na tele)
  then show ?thesis by (intro book_inv_jump [OF assms(2), of _ i 2]) simp_all
next
  case (finish i na tele)
  then show ?thesis by (intro book_inv_jump [OF assms(2), of _ i 4]) simp_all
next
  case (leave_alone i na tele)
  then show ?thesis by (intro book_inv_jump [OF assms(2), of _ i 9]) simp_all
qed

lemma updating_jump:
  assumes "tb_pc s' = (tb_pc s)(i := k)" "is_add (jobs ! i) \<longrightarrow> (tb_pc s i \<in> {2, 3} \<longleftrightarrow> k \<in> {2, 3})"
  shows "updating jobs s' = updating jobs s"
proof -
  have "tb_pc s' j \<in> {2, 3} \<longleftrightarrow> tb_pc s j \<in> {2, 3}" if "jobs ! j = Add_number na v" for j na v
    using assms that by (cases "j = i") simp_all
  then show ?thesis unfolding updating_def by (intro ext) blast
qed

lemma out_inv_silent:
  assumes "out_inv jobs book s" "tb_pc s' = (tb_pc s)(i := k)" "is_add (jobs ! i) \<longrightarrow> (tb_pc s i \<in> {2, 3} \<longleftrightarrow> k \<in> {2, 3})"
    "tb_out s' = tb_out s"
  shows "out_inv jobs book s'"
  using assms(1) unfolding out_inv_def updating_jump [OF assms(2,3)] assms(4) .

text \<open>A reader inside means that no update is going on.\<close>

lemma out_inv_read:
  assumes "out_inv jobs book s" "lock_inv jobs s" "i < length jobs" "jobs ! i = Print_number na" "tb_pc s i \<in> {2, 3}"
    "tb_pc s' = (tb_pc s)(i := 4)" "tb_out s' = tb_out s @ [l]" "line_ok jobs book l" "\<forall>ls. well_paired (l # ls) = well_paired ls"
  shows "out_inv jobs book s'"
proof -
  have "\<not> updating jobs s mb" for mb
  proof
    assume "updating jobs s mb"
    then obtain j tele where "j < length jobs" "jobs ! j = Add_number mb tele" "tb_pc s j \<in> {2, 3}" by (auto simp: updating_def)
    then have "i = j" using writer_alone [OF assms(2), of j i] assms(3,5) by (auto simp: inside_def)
    then show False using \<open>jobs ! j = Add_number mb tele\<close> assms(4) by simp
  qed
  moreover have "updating jobs s' = updating jobs s" using assms(4) by (intro updating_jump [OF assms(6)]) simp
  moreover have "well_paired (tb_out s) \<Longrightarrow> well_paired (tb_out s')"
    using assms(9) [rule_format, of "[]"] by (simp add: assms(7) well_paired_append)
  ultimately show ?thesis using assms(1,7,8) by (simp add: out_inv_def)
qed

lemma out_inv_step:
  assumes "book_step jobs s s'" "out_inv jobs book s" "lock_inv jobs s" "book_inv jobs book s"
  shows "out_inv jobs book s'"
  using assms(1)
proof (cases rule: book_step_cases)
  case (show_number i na)
  then have "tb_book s na \<noteq> None" using assms(4) by (simp add: book_inv_def)
  then obtain v where v: "tb_book s na = Some v" by blast
  then have "entered jobs s na v \<or> book na = Some v" using assms(4) by (auto simp: book_inv_def)
  then have "line_ok jobs book (Number na v)" unfolding entered_def by (metis line_ok.simps(1) nth_mem)
  then show ?thesis using show_number v
    by (intro out_inv_read [OF assms(2,3), of i na _ "Number na v"]) (simp_all add: book_at_def)
next
  case (missing i na)
  then have "line_ok jobs book (Not_in_book na)" using assms(4) by (simp add: book_inv_def)
  then show ?thesis using missing by (intro out_inv_read [OF assms(2,3), of i na _ "Not_in_book na"]) simp_all
next
  case (announce i na tele)
  have only: "j = i" if "j < length jobs" "inside s j" for j
    using writer_alone [OF assms(3) announce(1), of j] announce(2,3) that by (simp add: inside_def)
  have "\<not> updating jobs s mb" for mb
    using only announce(3) by (fastforce simp: updating_def inside_def)
  moreover have "updating jobs s' na" using announce by (auto simp: updating_def)
  ultimately show ?thesis using assms(2) announce(4) by (auto simp: out_inv_def)
next
  case (finish i na tele)
  have only: "j = i" if "j < length jobs" "inside s j" for j
    using writer_alone [OF assms(3) finish(1), of j] finish(2,3) that by (simp add: inside_def)
  have u: "mb = na" if "updating jobs s mb" for mb
    using only that finish(2) unfolding updating_def inside_def by fastforce
  have "updating jobs s na" using finish by (auto simp: updating_def)
  then obtain xs mb where "well_paired xs" "updating jobs s mb" "tb_out s = xs @ [Starting mb]"
    using assms(2) unfolding out_inv_def by (auto split: if_splits)
  moreover from this have "mb = na" using u by blast
  moreover have "\<not> updating jobs s' mb" for mb
  proof
    assume "updating jobs s' mb"
    then obtain j where "j < length jobs" "tb_pc s' j \<in> {2, 3}" by (auto simp: updating_def)
    moreover from this have "j \<noteq> i" using finish(4) by auto
    ultimately have "inside s j" using finish(4) by (auto simp: inside_def)
    then show False using only \<open>j < length jobs\<close> \<open>j \<noteq> i\<close> by blast
  qed
  ultimately show ?thesis using assms(2) finish(4) by (auto simp: out_inv_def well_paired_append)
next
  case (enter_shared i na)
  then show ?thesis by (intro out_inv_silent [OF assms(2), of _ i 1]) simp_all
next
  case (look i na)
  then show ?thesis by (intro out_inv_silent [OF assms(2), of _ i "if tb_book s na \<noteq> None then 2 else 3"]) simp_all
next
  case (leave_shared i na)
  then show ?thesis by (intro out_inv_silent [OF assms(2), of _ i 9]) simp_all
next
  case (enter_alone i na tele)
  then show ?thesis by (intro out_inv_silent [OF assms(2), of _ i 1]) simp_all
next
  case (store i na tele)
  then show ?thesis by (intro out_inv_silent [OF assms(2), of _ i 3]) simp_all
next
  case (leave_alone i na tele)
  then show ?thesis by (intro out_inv_silent [OF assms(2), of _ i 9]) simp_all
qed

definition tele_inv :: "book_job list \<Rightarrow> (string \<Rightarrow> int option) \<Rightarrow> tele_book \<Rightarrow> bool" where
  "tele_inv jobs book s \<longleftrightarrow> lock_inv jobs s \<and> book_inv jobs book s \<and> out_inv jobs book s"

interpretation tele: relation_inv "book_step jobs" "tele_inv jobs book" for jobs book
  by unfold_locales (auto simp: tele_inv_def intro: lock_inv_step book_inv_step out_inv_step)

lemma tele_inv_start: "tele_inv jobs book (book_start book)"
  by (auto simp: tele_inv_def lock_inv_def book_inv_def out_inv_def book_start_def readers_def writers_def inside_def
      entered_def updating_def)

section \<open>Nobody is left waiting\<close>

definition book_measure :: "book_job list \<Rightarrow> tele_book \<Rightarrow> nat" where
  "book_measure jobs s = (\<Sum>i < length jobs. 9 - tb_pc s i)"

lemma book_thread_runs:
  assumes "lock_inv jobs s" "i < length jobs" "inside s i"
  shows "\<exists>s'. book_step jobs s s'"
proof -
  have "\<exists>s'. book_thread (jobs ! i) i s = Some s'"
    using assms(3) by (cases "jobs ! i") (auto simp: inside_def printNumber_def addToTeleBook_def split: prod.split)
  then show ?thesis using assms(2) book_stepI by blast
qed

lemma book_not_stuck:
  assumes "lock_inv jobs s" "i < length jobs" "tb_pc s i \<noteq> 9"
  shows "\<exists>s'. book_step jobs s s'"
proof (cases "\<exists>j < length jobs. inside s j")
  case True
  then show ?thesis using book_thread_runs [OF assms(1)] by blast
next
  case False
  then have "readers jobs s = {}" "writers jobs s = {}" by (auto simp: readers_def writers_def)
  then have "sm_readers (tb_mutex s) = 0" "\<not> sm_writer (tb_mutex s)" using assms(1) by (auto simp: lock_inv_def)
  moreover have "tb_pc s i = 0" using False assms by (fastforce simp: lock_inv_def inside_def)
  ultimately have "\<exists>s'. book_thread (jobs ! i) i s = Some s'"
    by (cases "jobs ! i") (auto simp: printNumber_def addToTeleBook_def lock_shared_def lock_alone_def)
  then show ?thesis using assms(2) book_stepI by blast
qed

lemma book_step_measure:
  assumes "book_step jobs s s'"
  shows "book_measure jobs s' < book_measure jobs s"
proof -
  obtain i k where i: "i < length jobs" "tb_pc s' = (tb_pc s)(i := k)" "9 - k < 9 - tb_pc s i"
    using assms by (cases rule: book_step_cases) auto
  have "(\<Sum>j < length jobs. 9 - tb_pc s' j) < (\<Sum>j < length jobs. 9 - tb_pc s j)"
    using i by (intro sum_strict_mono_ex1) auto
  then show ?thesis by (simp add: book_measure_def)
qed

lemma book_can_end:
  assumes "lock_inv jobs s"
  shows "\<exists>t. (book_step jobs)\<^sup>*\<^sup>* s t \<and> all_done jobs t"
  using assms
proof (induction "book_measure jobs s" arbitrary: s rule: less_induct)
  case less
  show ?case
  proof (cases "all_done jobs s")
    case False
    then obtain s' where s': "book_step jobs s s'" using book_not_stuck [OF less.prems] by (auto simp: all_done_def)
    from less.hyps [OF book_step_measure [OF s'] lock_inv_step [OF s' less.prems]] obtain t
      where "(book_step jobs)\<^sup>*\<^sup>* s' t" "all_done jobs t" by blast
    then show ?thesis using s' converse_rtranclp_into_rtranclp by metis
  qed auto
qed

section \<open>The book in the end\<close>

definition adds :: "book_job list \<Rightarrow> (string \<times> int) list" where
  "adds jobs = concat (map (\<lambda>j. case j of Add_number na v \<Rightarrow> [(na, v)] | Print_number na \<Rightarrow> []) jobs)"

lemma in_adds: "(na, v) \<in> set (adds jobs) \<longleftrightarrow> Add_number na v \<in> set jobs"
  unfolding adds_def by (induction jobs) (auto split: book_job.splits)

lemma final_book:
  assumes "tele_inv jobs book s" "all_done jobs s" "distinct (map fst (adds jobs))"
  shows "tb_book s = book ++ map_of (adds jobs)"
proof
  fix na
  have e: "entered jobs s na v \<longleftrightarrow> Add_number na v \<in> set jobs" for v
    using assms(2) by (fastforce simp: entered_def all_done_def in_set_conv_nth)
  have m: "map_of (adds jobs) na = Some v \<longleftrightarrow> entered jobs s na v" for v
    using assms(3) by (simp add: e in_adds [symmetric])
  have i: "book_inv jobs book s" using assms(1) by (simp add: tele_inv_def)
  show "tb_book s na = (book ++ map_of (adds jobs)) na"
  proof (cases "map_of (adds jobs) na")
    case (Some v)
    then have v: "entered jobs s na v" using m by simp
    moreover obtain w where "tb_book s na = Some w" using i v by (auto simp: book_inv_def)
    moreover from this have "entered jobs s na w" using i v by (auto simp: book_inv_def)
    ultimately show ?thesis using m [of v] m [of w] by (simp add: map_add_def)
  next
    case None
    then have n: "\<not> entered jobs s na v" for v using m [of v] by simp
    have "tb_book s na = Some v \<Longrightarrow> book na = Some v" "book na = Some v \<Longrightarrow> tb_book s na \<noteq> None" for v
      using i n unfolding book_inv_def by blast+
    then show ?thesis using None by (cases "tb_book s na"; cases "book na") (auto simp: map_add_def)
  qed
qed

text \<open>
  C13: Readers and writers of the telephone book: in every run of any number of threads a thread that enters a number
  is inside alone; every number shown is one that was in the book or that some thread enters, a name is
  reported missing only if it was not there at first, and the two lines of an update are next to each other
  in the output; no look-up enters a name by accident; and every run can go on until all are done, when the book
  is the old one with all the new numbers, whatever the order (provided that each name is entered once).
\<close>

theorem telephone_book:
  assumes "(book_step jobs)\<^sup>*\<^sup>* (book_start book) s" "distinct (map fst (adds jobs))"
  shows "(\<forall>i j. i < length jobs \<longrightarrow> j < length jobs \<longrightarrow> is_add (jobs ! i) \<longrightarrow> inside s i \<longrightarrow> inside s j \<longrightarrow> j = i)
    \<and> list_all (line_ok jobs book) (tb_out s)
    \<and> (\<exists>t. (book_step jobs)\<^sup>*\<^sup>* s t \<and> all_done jobs t)
    \<and> (all_done jobs s \<longrightarrow> well_paired (tb_out s) \<and> tb_book s = book ++ map_of (adds jobs))"
proof -
  have inv: "tele_inv jobs book s" using tele.inv_reached [OF assms(1) tele_inv_start] .
  then have l: "lock_inv jobs s" and o: "out_inv jobs book s" by (simp_all add: tele_inv_def)
  have "well_paired (tb_out s)" if "all_done jobs s"
  proof -
    have "\<not> updating jobs s na" for na using that by (auto simp: updating_def all_done_def)
    then show ?thesis using o by (simp add: out_inv_def)
  qed
  then show ?thesis
    using writer_alone [OF l] o book_can_end [OF l] final_book [OF inv _ assms(2)] unfolding out_inv_def by blast
qed

theorem telephone_book_witness:
  "\<exists>t. (book_step book_main)\<^sup>*\<^sup>* (book_start teleBook) t
     \<and> tb_book t ''Scott'' = Some 1968 \<and> tb_book t ''Bjarne'' = Some 1965 \<and> tb_book t ''Ritchie'' = Some 1983"
proof -
  have d: "distinct (map fst (adds book_main))" by code_simp
  obtain t where t: "(book_step book_main)\<^sup>*\<^sup>* (book_start teleBook) t" "all_done book_main t"
    using telephone_book [OF rtranclp.rtrancl_refl d] by blast
  then have "tb_book t = teleBook ++ map_of (adds book_main)" using telephone_book [OF t(1) d] by blast
  moreover have "adds book_main = [(''Scott'', 1968), (''Bjarne'', 1965)]" by code_simp
  ultimately show ?thesis using t(1) by (intro exI [of _ t]) (simp add: teleBook_def map_add_def)
qed

section \<open>The counter\<close>

text \<open>
  \<open>ThreadSafeCounter\<close>: what its methods do with the lock held is one step each. A thread of \<open>main\<close> increments
  the counter and prints what it reads then, three times; its program counter is even before an increment.
\<close>

record safe_counter =
  sc_value :: int
  sc_pc :: "nat \<Rightarrow> nat"
  sc_printed :: "(nat \<times> int) list"

definition sc_get :: "safe_counter \<Rightarrow> int" where
  "sc_get s = sc_value s"

definition sc_increment :: "safe_counter \<Rightarrow> safe_counter" where
  "sc_increment s = s\<lparr>sc_value := u32 (sc_value s + 1)\<rparr>"

definition sc_reset :: "safe_counter \<Rightarrow> safe_counter" where
  "sc_reset s = s\<lparr>sc_value := 0\<rparr>"

definition increment_and_print :: "nat \<Rightarrow> safe_counter \<Rightarrow> safe_counter option" where
  "increment_and_print i s =
     (let k = sc_pc s i; s' = s\<lparr>sc_pc := (sc_pc s)(i := Suc k)\<rparr>
      in if 6 \<le> k then None
         else if even k then Some (sc_increment s')
         else Some (s'\<lparr>sc_printed := sc_printed s @ [(i, sc_get s)]\<rparr>))"

inductive sc_step :: "nat \<Rightarrow> safe_counter \<Rightarrow> safe_counter \<Rightarrow> bool" for n where
  "i < n \<Longrightarrow> increment_and_print i s = Some s' \<Longrightarrow> sc_step n s s'"

definition sc_start :: safe_counter where
  "sc_start = \<lparr>sc_value = 0, sc_pc = \<lambda>_. 0, sc_printed = []\<rparr>"

definition increments :: "nat \<Rightarrow> safe_counter \<Rightarrow> nat" where
  "increments n s = (\<Sum>i < n. Suc (sc_pc s i) div 2)"

definition sc_inv :: "nat \<Rightarrow> safe_counter \<Rightarrow> bool" where
  "sc_inv n s \<longleftrightarrow> (\<forall>i. sc_pc s i \<le> 6) \<and> sc_value s = int (increments n s)
     \<and> (\<forall>(i, v) \<in> set (sc_printed s). 0 < v \<and> v \<le> sc_value s)"

lemma increments_step:
  assumes "i < n" "sc_pc s' = (sc_pc s)(i := Suc (sc_pc s i))"
  shows "increments n s' = increments n s + (if even (sc_pc s i) then 1 else 0)"
proof -
  have "increments n t = Suc (sc_pc t i) div 2 + (\<Sum>j \<in> {..<n} - {i}. Suc (sc_pc t j) div 2)" for t
    unfolding increments_def using assms(1) by (subst sum.remove [of _ i]) simp_all
  moreover have "(\<Sum>j \<in> {..<n} - {i}. Suc (sc_pc s' j) div 2) = (\<Sum>j \<in> {..<n} - {i}. Suc (sc_pc s j) div 2)"
    by (rule sum.cong) (simp_all add: assms(2))
  ultimately show ?thesis using assms(2) by (simp; presburger)
qed

lemma increments_bound:
  assumes "\<forall>i. sc_pc s i \<le> 6"
  shows "increments n s \<le> 3 * n"
proof -
  have "Suc (sc_pc s i) div 2 \<le> 3" for i using assms [rule_format, of i] by linarith
  then have "increments n s \<le> (\<Sum>i < n. 3)" unfolding increments_def by (intro sum_mono) blast
  then show ?thesis by simp
qed

lemma sc_inv_step:
  assumes "sc_step n s s'" "sc_inv n s" "3 * n < 2 ^ 32"
  shows "sc_inv n s'"
  using assms(1)
proof (cases rule: sc_step.cases)
  case (1 i)
  let ?k = "sc_pc s i"
  from 1 have k: "?k < 6" and e: "s' = (if even ?k then sc_increment (s\<lparr>sc_pc := (sc_pc s)(i := Suc ?k)\<rparr>)
      else s\<lparr>sc_pc := (sc_pc s)(i := Suc ?k), sc_printed := sc_printed s @ [(i, sc_value s)]\<rparr>)"
    by (auto simp: increment_and_print_def Let_def sc_get_def split: if_splits)
  have pc: "sc_pc s' = (sc_pc s)(i := Suc ?k)" by (simp add: e sc_increment_def)
  have b: "\<forall>j. sc_pc s' j \<le> 6" using assms(2) k by (simp add: pc sc_inv_def)
  note n = increments_step [OF 1(1) pc]
  have v: "sc_value s = int (increments n s)" using assms(2) by (simp add: sc_inv_def)
  have u: "u32 (sc_value s + 1) = sc_value s + 1" if "even ?k"
    using increments_bound [OF b, of n] n that v assms(3) by (intro u32_id) simp_all
  have "0 < sc_value s" if "odd ?k"
  proof -
    have "Suc ?k div 2 \<le> increments n s" unfolding increments_def using 1(1) by (intro member_le_sum) simp_all
    moreover have "0 < Suc ?k div 2" using that by (auto elim: oddE)
    ultimately show ?thesis using v by simp
  qed
  then show ?thesis using assms(2) b n v u by (cases "even ?k") (auto simp: sc_inv_def e sc_increment_def)
qed

interpretation sc: relation_inv "sc_step n" "\<lambda>s. 3 * n < 2 ^ 32 \<longrightarrow> sc_inv n s" for n
  by unfold_locales (auto intro: sc_inv_step)

text \<open>
  No increment is lost: when \<open>n\<close> threads are done the counter is \<open>3 * n\<close>, and what they printed on the way are
  values it had.
\<close>

lemma counter_exact:
  assumes "(sc_step n)\<^sup>*\<^sup>* sc_start s" "3 * n < 2 ^ 32"
  shows "(\<forall>(i, v) \<in> set (sc_printed s). 0 < v \<and> v \<le> sc_value s) \<and> ((\<forall>i < n. sc_pc s i = 6) \<longrightarrow> sc_value s = 3 * int n)"
proof -
  have "sc_inv n sc_start" by (simp add: sc_inv_def sc_start_def increments_def)
  then have "sc_inv n s" using sc.inv_reached [OF assms(1)] assms(2) by blast
  then show ?thesis by (auto simp: sc_inv_def increments_def)
qed

end
