(* ===== verification/Cpp_Tasks.thy ===== *)
theory Cpp_Tasks
  imports Prelude
begin

text \<open>
  Two programs of \<open>concurrency_with_modern_c++/code\<close>: the generator of \<open>cpp_20/generator\<close>, a class that owns a
  coroutine and steps it in a range-based loop, and the tasks of \<open>packaged_task\<close>, which sum parts of a
  range in threads of their own.
\<close>

section \<open>The coroutine\<close>

text \<open>The frame of \<open>range\<close>: its variables, the value yielded last and the point where it is suspended.\<close>

datatype suspension = Initial_suspend | At_yield | Final_suspend

record frame =
  fr_first :: int
  fr_last :: int
  current_value :: "int option"
  fr_at :: suspension

definition get_return_object :: "int \<Rightarrow> int \<Rightarrow> frame" where
  "get_return_object first limit = \<lparr>fr_first = first, fr_last = limit, current_value = None, fr_at = Initial_suspend\<rparr>"

text \<open>The loop of \<open>range\<close> up to the next \<open>co_yield\<close>, or to its end.\<close>

definition range_body :: "frame \<Rightarrow> frame" where
  "range_body f =
     (if fr_first f < fr_last f
      then f\<lparr>current_value := Some (fr_first f), fr_first := s32 (fr_first f + 1), fr_at := At_yield\<rparr>
      else f\<lparr>fr_at := Final_suspend\<rparr>)"

text \<open>A coroutine that has ended must not be resumed; no value has been yielded before the first resumption.\<close>

definition resume :: "frame \<Rightarrow> fault + frame" where
  "resume f = (if fr_at f = Final_suspend then Inl UseAfterFree else Inr (range_body f))"

definition iter_deref :: "frame \<Rightarrow> fault + int" where
  "iter_deref f = (case current_value f of None \<Rightarrow> Inl NullDeref | Some v \<Rightarrow> Inr v)"

definition iter_done :: "frame \<Rightarrow> bool" where
  "iter_done f \<longleftrightarrow> fr_at f = Final_suspend"

text \<open>The range-based loop, from its test on. \<open>None\<close> is a loop that does not end.\<close>

partial_function (option) for_loop :: "frame \<Rightarrow> (fault + int list) option" where
  "for_loop f =
     (if iter_done f then Some (Inr [])
      else case iter_deref f of
             Inl e \<Rightarrow> Some (Inl e)
           | Inr v \<Rightarrow>
               (case resume f of
                  Inl e \<Rightarrow> Some (Inl e)
                | Inr f' \<Rightarrow> Option.bind (for_loop f') (\<lambda>r. Some (bindE r (\<lambda>vs. Inr (v # vs))))))"

definition range_loop :: "int \<Rightarrow> int \<Rightarrow> (fault + int list) option" where
  "range_loop first limit =
     (case resume (get_return_object first limit) of Inl e \<Rightarrow> Some (Inl e) | Inr f \<Rightarrow> for_loop f)"

lemma for_loop_done: "iter_done f \<Longrightarrow> for_loop f = Some (Inr [])"
  by (subst for_loop.simps) simp

lemma for_loop_yielded:
  assumes "\<not> iter_done f" "current_value f = Some v"
  shows "for_loop f = Option.bind (for_loop (range_body f)) (\<lambda>r. Some (bindE r (\<lambda>vs. Inr (v # vs))))"
  using assms by (subst for_loop.simps) (simp add: iter_deref_def resume_def iter_done_def)

lemma for_loop_from:
  assumes "fr_at f = At_yield" "current_value f = Some v" "fr_last f < 2 ^ 31" "- (2 ^ 31) \<le> fr_first f"
    "fr_first f \<le> fr_last f"
  shows "for_loop f = Some (Inr (v # [fr_first f..fr_last f - 1]))"
  using assms
proof (induction "nat (fr_last f - fr_first f)" arbitrary: f v)
  case 0
  then have "iter_done (range_body f)" by (simp add: range_body_def iter_done_def)
  then show ?case using 0 for_loop_yielded [of f v] for_loop_done by (simp add: iter_done_def)
next
  case (Suc n)
  let ?f = "range_body f"
  have l: "fr_first f < fr_last f" using Suc.hyps(2) by linarith
  have "s32 (fr_first f + 1) = fr_first f + 1" using Suc.prems l by (intro s32_id) linarith+
  then have f: "fr_at ?f = At_yield" "current_value ?f = Some (fr_first f)" "fr_first ?f = fr_first f + 1" "fr_last ?f = fr_last f"
    using l by (simp_all add: range_body_def)
  have "for_loop ?f = Some (Inr (fr_first f # [fr_first ?f..fr_last ?f - 1]))"
    using Suc.hyps(2) Suc.prems l f by (intro Suc.hyps(1)) simp_all
  then show ?case using Suc.prems(1,2) for_loop_yielded [of f v] l f by (simp add: iter_done_def upto_rec1 [of "fr_first f"])
qed

text \<open>
  The range-based loop over \<open>range first limit\<close> ends, never resumes a coroutine that has ended or reads a value
  that was not yielded, and sees the integers from \<open>first\<close> up to and without \<open>limit\<close>, in order.
\<close>

theorem range_yields:
  assumes "- (2 ^ 31) \<le> first" "limit < 2 ^ 31"
  shows "range_loop first limit = Some (Inr [first..limit - 1])"
proof (cases "first < limit")
  case True
  let ?f = "range_body (get_return_object first limit)"
  have "s32 (first + 1) = first + 1" using assms True by (intro s32_id) linarith+
  then have f: "fr_at ?f = At_yield" "current_value ?f = Some first" "fr_first ?f = first + 1" "fr_last ?f = limit"
    using True by (simp_all add: range_body_def get_return_object_def)
  have "for_loop ?f = Some (Inr (first # [fr_first ?f..fr_last ?f - 1]))"
    using assms True f by (intro for_loop_from) simp_all
  then show ?thesis using True f
    by (simp add: range_loop_def resume_def get_return_object_def upto_rec1 [of first])
next
  case False
  then have "iter_done (range_body (get_return_object first limit))"
    by (simp add: iter_done_def range_body_def get_return_object_def)
  then show ?thesis using False for_loop_done
    by (simp add: range_loop_def resume_def get_return_object_def)
qed

theorem range_yields_witness: "range_loop 1 10 = Some (Inr [1, 2, 3, 4, 5, 6, 7, 8, 9])"
proof -
  have "range_loop 1 10 = Some (Inr [1..10 - 1])" by (rule range_yields) simp_all
  then show ?thesis by (simp add: upto.simps)
qed

section \<open>Who owns the coroutine\<close>

text \<open>
  \<open>Generator\<close> objects by number: not alive, empty, or with a handle; and the frames that exist. Destroying
  a frame that does not exist is a use after free.
\<close>

record generators =
  g_objects :: "nat \<Rightarrow> nat option option"
  g_frames :: "nat set"

datatype gen_op = New_coroutine nat | New_empty nat | Move_construct nat nat | Move_assign nat nat | Destruct nat

definition destroy :: "nat option \<Rightarrow> nat set \<Rightarrow> fault + nat set" where
  "destroy h frames =
     (case h of None \<Rightarrow> Inr frames | Some a \<Rightarrow> if a \<in> frames then Inr (frames - {a}) else Inl UseAfterFree)"

text \<open>
  The address of a new frame is one that is free, given by \<open>fresh\<close>. The language admits an operation only on
  objects that are alive, and the construction only of one that is not: otherwise nothing happens here.
\<close>

fun gen_step :: "(nat set \<Rightarrow> nat) \<Rightarrow> gen_op \<Rightarrow> generators \<Rightarrow> fault + generators" where
  "gen_step fresh (New_coroutine g) s =
     (if g_objects s g \<noteq> None then Inr s
      else (let a = fresh (g_frames s)
            in Inr (s\<lparr>g_objects := (g_objects s)(g \<mapsto> Some a), g_frames := insert a (g_frames s)\<rparr>)))"
| "gen_step fresh (New_empty g) s =
     (if g_objects s g \<noteq> None then Inr s else Inr (s\<lparr>g_objects := (g_objects s)(g \<mapsto> None)\<rparr>))"
| "gen_step fresh (Move_construct g other) s =
     (case (g_objects s g, g_objects s other) of
        (None, Some h) \<Rightarrow> Inr (s\<lparr>g_objects := (g_objects s)(g \<mapsto> h, other \<mapsto> None)\<rparr>)
      | _ \<Rightarrow> Inr s)"
| "gen_step fresh (Move_assign g other) s =
     (case (g_objects s g, g_objects s other) of
        (Some mine, Some h) \<Rightarrow>
          if g = other then Inr s
          else bindE (destroy mine (g_frames s))
                 (\<lambda>frames. Inr (s\<lparr>g_frames := frames, g_objects := (g_objects s)(g \<mapsto> h, other \<mapsto> None)\<rparr>))
      | _ \<Rightarrow> Inr s)"
| "gen_step fresh (Destruct g) s =
     (case g_objects s g of
        None \<Rightarrow> Inr s
      | Some h \<Rightarrow> bindE (destroy h (g_frames s)) (\<lambda>frames. Inr (s\<lparr>g_frames := frames, g_objects := (g_objects s)(g := None)\<rparr>)))"

fun gen_run :: "(nat set \<Rightarrow> nat) \<Rightarrow> gen_op list \<Rightarrow> generators \<Rightarrow> fault + generators" where
  "gen_run fresh [] s = Inr s"
| "gen_run fresh (x # xs) s = bindE (gen_step fresh x s) (gen_run fresh xs)"

definition gen_start :: generators where
  "gen_start = \<lparr>g_objects = \<lambda>_. None, g_frames = {}\<rparr>"

definition owned :: "generators \<Rightarrow> bool" where
  "owned s \<longleftrightarrow> finite (g_frames s)
     \<and> (\<forall>a. a \<in> g_frames s \<longleftrightarrow> (\<exists>g. g_objects s g = Some (Some a)))
     \<and> (\<forall>a g h. g_objects s g = Some (Some a) \<longrightarrow> g_objects s h = Some (Some a) \<longrightarrow> g = h)"

lemma owned_frames:
  assumes "owned s"
  shows "finite (g_frames s)" "a \<in> g_frames s \<longleftrightarrow> (\<exists>g. g_objects s g = Some (Some a))"
    "g_objects s g = Some (Some a) \<Longrightarrow> g_objects s h = Some (Some a) \<Longrightarrow> g = h"
  using assms unfolding owned_def by blast+

text \<open>The owner of a live frame can destroy it, and then nobody else refers to it.\<close>

lemma owned_destroy:
  assumes "owned s" "g_objects s g = Some h"
  shows "destroy h (g_frames s) = Inr (g_frames s - {a. h = Some a})"
  using owned_frames(2) [OF assms(1)] assms(2) by (auto simp: destroy_def split: option.splits)

lemma owned_step:
  assumes "owned s" "\<forall>A. finite A \<longrightarrow> fresh A \<notin> A"
  shows "\<exists>s'. gen_step fresh x s = Inr s' \<and> owned s'"
proof (cases x)
  case (New_coroutine g)
  have "fresh (g_frames s) \<notin> g_frames s" using assms(2) owned_frames(1) [OF assms(1)] by blast
  then have "g_objects s h \<noteq> Some (Some (fresh (g_frames s)))" for h using owned_frames(2) [OF assms(1)] by blast
  then show ?thesis using assms(1) New_coroutine by (auto simp: owned_def Let_def; metis option.distinct(1))
next
  case (New_empty g)
  then show ?thesis using assms(1) by (auto simp: owned_def; metis option.distinct(1))
next
  case (Move_construct g other)
  show ?thesis
  proof (cases "g_objects s g = None \<and> (\<exists>h. g_objects s other = Some h)")
    case True
    then obtain h where h: "g_objects s g = None" "g_objects s other = Some h" by blast
    have "owned (s\<lparr>g_objects := (g_objects s)(g \<mapsto> h, other \<mapsto> None)\<rparr>)"
      using assms(1) h unfolding owned_def by (auto; metis option.distinct(1) option.sel)
    then show ?thesis using h Move_construct by simp
  qed (use Move_construct assms(1) in \<open>auto split: option.splits\<close>)
next
  case (Move_assign g other)
  show ?thesis
  proof (cases "g \<noteq> other \<and> (\<exists>h m. g_objects s g = Some m \<and> g_objects s other = Some h)")
    case True
    then obtain h m where h: "g \<noteq> other" "g_objects s g = Some m" "g_objects s other = Some h" by blast
    have "owned (s\<lparr>g_frames := g_frames s - {a. m = Some a}, g_objects := (g_objects s)(g \<mapsto> h, other \<mapsto> None)\<rparr>)"
      using assms(1) h unfolding owned_def by (auto; metis option.distinct(1) option.sel)
    then show ?thesis using h Move_assign owned_destroy [OF assms(1) h(2)] by simp
  qed (use Move_assign assms(1) in \<open>auto split: option.splits\<close>)
next
  case (Destruct g)
  show ?thesis
  proof (cases "g_objects s g")
    case (Some h)
    have "owned (s\<lparr>g_frames := g_frames s - {a. h = Some a}, g_objects := (g_objects s)(g := None)\<rparr>)"
      using assms(1) Some unfolding owned_def by (auto; metis option.distinct(1) option.sel)
    then show ?thesis using Some Destruct owned_destroy [OF assms(1) Some] by simp
  qed (use Destruct assms(1) in auto)
qed

lemma owned_run:
  assumes "owned s" "\<forall>A. finite A \<longrightarrow> fresh A \<notin> A"
  shows "\<exists>s'. gen_run fresh xs s = Inr s' \<and> owned s'"
  using assms(1)
proof (induction xs arbitrary: s)
  case (Cons x xs)
  obtain s' where "gen_step fresh x s = Inr s'" "owned s'" using owned_step [OF Cons.prems assms(2)] by blast
  then show ?case using Cons.IH by simp
qed simp

text \<open>
  C26: Moving and destroying generators in any order never destroys a frame twice, every frame keeps exactly one
  owner, and when no object is alive any more no frame is left. Allocation only has to return an address that is free.
\<close>

theorem generator_owns:
  assumes "\<forall>A. finite A \<longrightarrow> fresh A \<notin> A"
  shows "\<exists>s. gen_run fresh ops gen_start = Inr s
    \<and> (\<forall>a. (a \<in> g_frames s) = (\<exists>!g. g_objects s g = Some (Some a)))
    \<and> ((\<forall>g. g_objects s g = None) \<longrightarrow> g_frames s = {})"
proof -
  have "owned gen_start" by (simp add: owned_def gen_start_def)
  then obtain s where s: "gen_run fresh ops gen_start = Inr s" "owned s" using owned_run assms by blast
  have "(a \<in> g_frames s) = (\<exists>!g. g_objects s g = Some (Some a))" for a using owned_frames(2,3) [OF s(2)] by metis
  moreover have "g_frames s = {}" if "\<forall>g. g_objects s g = None" using that owned_frames(2) [OF s(2)] by auto
  ultimately show ?thesis using s(1) by blast
qed

theorem generator_owns_witness:
  "\<exists>s. gen_run (\<lambda>A. Suc (Max (insert 0 A))) [New_coroutine 0, New_coroutine 1, Move_construct 2 0, Move_assign 2 1, Destruct 0] gen_start
       = Inr s \<and> g_frames s = {2} \<and> g_objects s 2 = Some (Some 2)
       \<and> (\<forall>a. (a \<in> g_frames s) = (\<exists>!g. g_objects s g = Some (Some a)))"
proof -
  let ?fresh = "\<lambda>A. Suc (Max (insert 0 A))"
  let ?ops = "[New_coroutine 0, New_coroutine 1, Move_construct 2 0, Move_assign 2 1, Destruct 0]"
  have "?fresh A \<notin> A" if "finite A" for A :: "nat set"
  proof
    assume "?fresh A \<in> A"
    then have "?fresh A \<le> Max (insert 0 A)" using that by (intro Max_ge) simp_all
    then show False by simp
  qed
  then obtain s where s: "gen_run ?fresh ?ops gen_start = Inr s" "\<forall>a. (a \<in> g_frames s) = (\<exists>!g. g_objects s g = Some (Some a))"
    using generator_owns [of ?fresh ?ops] by blast
  moreover have "g_frames s = {2}" "g_objects s 2 = Some (Some 2)"
    using s(1) by (auto simp: gen_start_def destroy_def Let_def)
  ultimately show ?thesis by blast
qed

section \<open>Packaged tasks\<close>

text \<open>\<open>SumUp\<close>: the loop of the call operator, with the sum so far.\<close>

function sum_loop :: "int \<Rightarrow> int \<Rightarrow> int \<Rightarrow> int" where
  "sum_loop i limit acc = (if i < limit then sum_loop (i + 1) limit (s32 (acc + i)) else acc)"
  by pat_completeness auto
termination by (relation "measure (\<lambda>(i, limit, acc). nat (limit - i))") auto

declare sum_loop.simps [simp del]

definition SumUp :: "int \<Rightarrow> int \<Rightarrow> int" where
  "SumUp beg limit = sum_loop beg limit 0"

text \<open>
  The program: tasks that wait in the deque, by number, the bounds of the next one, the threads that have
  been started, the futures, and which futures \<open>main\<close> has yet to read into the sum. The four reads may happen in any
  order, as C++ leaves the evaluation order of the operands open.
\<close>

record packaged =
  all_tasks :: "nat list"
  pt_begin :: int
  pt_end :: int
  started :: "(nat \<times> int \<times> int) list"
  future :: "nat \<Rightarrow> int option"
  unread :: "nat list"
  pt_sum :: int

definition fire :: "int \<Rightarrow> packaged \<Rightarrow> packaged option" where
  "fire increment s =
     (case all_tasks s of
        [] \<Rightarrow> None
      | t # ts \<Rightarrow>
          Some (s\<lparr>started := (t, pt_begin s, pt_end s) # started s, all_tasks := ts, pt_begin := pt_end s,
                  pt_end := s32 (pt_end s + increment)\<rparr>))"

definition task_runs :: "nat \<times> int \<times> int \<Rightarrow> packaged \<Rightarrow> packaged option" where
  "task_runs x s =
     (if x \<notin> set (started s) then None
      else case x of (t, b, e) \<Rightarrow> Some (s\<lparr>started := remove1 x (started s), future := (future s)(t \<mapsto> SumUp b e)\<rparr>))"

definition future_get :: "nat \<Rightarrow> packaged \<Rightarrow> packaged option" where
  "future_get t s =
     (if all_tasks s \<noteq> [] \<or> t \<notin> set (unread s) then None
      else map_option (\<lambda>v. s\<lparr>unread := remove1 t (unread s), pt_sum := s32 (pt_sum s + v)\<rparr>) (future s t))"

inductive pt_step :: "int \<Rightarrow> packaged \<Rightarrow> packaged \<Rightarrow> bool" for increment where
  pt_fire: "fire increment s = Some s' \<Longrightarrow> pt_step increment s s'"
| pt_run: "task_runs x s = Some s' \<Longrightarrow> pt_step increment s s'"
| pt_get: "future_get t s = Some s' \<Longrightarrow> pt_step increment s s'"

definition pt_start :: "nat \<Rightarrow> int \<Rightarrow> int \<Rightarrow> packaged" where
  "pt_start n beg increment =
     \<lparr>all_tasks = [0..<n], pt_begin = beg, pt_end = s32 (beg + increment), started = [], future = \<lambda>_. None,
      unread = [0..<n], pt_sum = 0\<rparr>"

subsection \<open>What the tasks compute\<close>

lemma sum_loop_exact:
  assumes "0 \<le> i" "0 \<le> acc" "acc + \<Sum>{i..<limit} < 2 ^ 31"
  shows "sum_loop i limit acc = acc + \<Sum>{i..<limit}"
  using assms
proof (induction i limit acc rule: sum_loop.induct)
  case (1 i limit acc)
  show ?case
  proof (cases "i < limit")
    case True
    have e: "\<Sum>{i..<limit} = i + \<Sum>{i + 1..<limit}"
    proof -
      have "{i..<limit} = insert i {i + 1..<limit}" using True by auto
      then show ?thesis by simp
    qed
    have "0 \<le> \<Sum>{i + 1..<limit}" using "1.prems"(1) by (intro sum_nonneg) simp
    then have "s32 (acc + i) = acc + i" using "1.prems" e by (intro s32_id) simp_all
    then show ?thesis using 1 True e sum_loop.simps [of i limit acc] by simp
  qed (simp add: sum_loop.simps)
qed

definition part :: "int \<Rightarrow> int \<Rightarrow> nat \<Rightarrow> int" where
  "part beg increment t = \<Sum>{beg + int t * increment..<beg + (int t + 1) * increment}"

lemma parts_total:
  assumes "0 \<le> increment"
  shows "(\<Sum>t < n. part beg increment t) = \<Sum>{beg..<beg + int n * increment}"
proof (induction n)
  case (Suc n)
  let ?m = "beg + int n * increment"
  have "{beg..<beg + int (Suc n) * increment} = {beg..<?m} \<union> {?m..<beg + (int n + 1) * increment}"
    using assms by (subst ivl_disj_un_two(3)) (simp_all add: algebra_simps)
  moreover have "{beg..<?m} \<inter> {?m..<beg + (int n + 1) * increment} = {}" by auto
  ultimately show ?case using Suc by (simp add: part_def sum.union_disjoint)
qed simp

text \<open>The bounds under which no sum and no bound of a range overflows.\<close>

definition sums_fit :: "nat \<Rightarrow> int \<Rightarrow> int \<Rightarrow> bool" where
  "sums_fit n beg increment \<longleftrightarrow> 0 \<le> beg \<and> 0 \<le> increment \<and> beg + (int n + 1) * increment < 2 ^ 31
     \<and> \<Sum>{beg..<beg + int n * increment} < 2 ^ 31"

lemma part_nonneg:
  assumes "sums_fit n beg increment"
  shows "0 \<le> part beg increment t"
proof -
  have "0 \<le> beg + int t * increment" using assms by (simp add: sums_fit_def)
  then show ?thesis unfolding part_def by (intro sum_nonneg) (auto intro: order_trans)
qed

lemma parts_bound:
  assumes "sums_fit n beg increment" "A \<subseteq> {..<n}"
  shows "(\<Sum>t \<in> A. part beg increment t) < 2 ^ 31"
proof -
  have "(\<Sum>t \<in> A. part beg increment t) \<le> (\<Sum>t < n. part beg increment t)"
    using assms part_nonneg by (intro sum_mono2) auto
  then show ?thesis using parts_total [of increment beg n] assms(1) by (simp add: sums_fit_def)
qed

lemma SumUp_part:
  assumes "sums_fit n beg increment" "t < n"
  shows "SumUp (beg + int t * increment) (beg + (int t + 1) * increment) = part beg increment t"
proof -
  have "part beg increment t < 2 ^ 31" using parts_bound [OF assms(1), of "{t}"] assms(2) by simp
  then show ?thesis using assms(1) sum_loop_exact [of "beg + int t * increment" 0] by (simp add: SumUp_def part_def sums_fit_def)
qed

lemma bounds_fit:
  assumes "sums_fit n beg increment" "k \<le> Suc n"
  shows "s32 (beg + int k * increment) = beg + int k * increment"
proof (rule s32_id)
  have i: "0 \<le> increment" "0 \<le> beg" "beg + (int n + 1) * increment < 2 ^ 31" using assms(1) by (simp_all add: sums_fit_def)
  have "int k * increment \<le> (int n + 1) * increment" using i(1) assms(2) by (intro mult_right_mono) simp_all
  then show "beg + int k * increment < 2 ^ 31" using i by linarith
  have "0 \<le> beg + int k * increment" using i by simp
  then show "- (2 ^ 31) \<le> beg + int k * increment" by simp
qed

subsection \<open>What every run keeps\<close>

definition range_of :: "int \<Rightarrow> int \<Rightarrow> nat \<Rightarrow> nat \<times> int \<times> int" where
  "range_of beg increment t = (t, beg + int t * increment, beg + (int t + 1) * increment)"

definition pt_inv :: "nat \<Rightarrow> int \<Rightarrow> int \<Rightarrow> packaged \<Rightarrow> bool" where
  "pt_inv n beg increment s \<longleftrightarrow> (\<exists>k \<le> n. all_tasks s = [k..<n]
     \<and> pt_begin s = beg + int k * increment \<and> pt_end s = beg + (int k + 1) * increment
     \<and> set (started s) \<subseteq> range_of beg increment ` {..<k}
     \<and> (\<forall>t < k. range_of beg increment t \<in> set (started s) \<or> future s t \<noteq> None))
     \<and> (\<forall>t v. future s t = Some v \<longrightarrow> v = part beg increment t)
     \<and> distinct (unread s) \<and> set (unread s) \<subseteq> {..<n}
     \<and> pt_sum s = (\<Sum>t \<in> {..<n} - set (unread s). part beg increment t)"

lemma fire_keeps:
  assumes "fire increment s = Some s'" "pt_inv n beg increment s" "sums_fit n beg increment"
  shows "pt_inv n beg increment s'"
proof -
  obtain k where k: "k \<le> n" "all_tasks s = [k..<n]" "pt_begin s = beg + int k * increment"
    "pt_end s = beg + (int k + 1) * increment" "set (started s) \<subseteq> range_of beg increment ` {..<k}"
    "\<forall>t < k. range_of beg increment t \<in> set (started s) \<or> future s t \<noteq> None"
    using assms(2) unfolding pt_inv_def by blast
  have "k < n" using assms(1) k(2) by (cases "k < n") (simp_all add: fire_def)
  then have e: "s' = s\<lparr>started := range_of beg increment k # started s, all_tasks := [Suc k..<n],
      pt_begin := pt_end s, pt_end := s32 (pt_end s + increment)\<rparr>"
    using assms(1) k by (simp add: fire_def range_of_def upt_conv_Cons)
  have "s32 (pt_end s + increment) = beg + (int (Suc k) + 1) * increment"
    using bounds_fit [OF assms(3), of "Suc (Suc k)"] \<open>k < n\<close> k(4) by (simp add: algebra_simps)
  then have "\<exists>k \<le> n. all_tasks s' = [k..<n] \<and> pt_begin s' = beg + int k * increment \<and> pt_end s' = beg + (int k + 1) * increment
     \<and> set (started s') \<subseteq> range_of beg increment ` {..<k}
     \<and> (\<forall>t < k. range_of beg increment t \<in> set (started s') \<or> future s' t \<noteq> None)"
    using k \<open>k < n\<close> by (intro exI [of _ "Suc k"]) (auto simp: e less_Suc_eq lessThan_Suc)
  then show ?thesis using assms(2) by (simp add: pt_inv_def e)
qed

lemma task_runs_keeps:
  assumes "task_runs x s = Some s'" "pt_inv n beg increment s" "sums_fit n beg increment"
  shows "pt_inv n beg increment s'"
proof -
  obtain k where k: "k \<le> n" "all_tasks s = [k..<n]" "pt_begin s = beg + int k * increment"
    "pt_end s = beg + (int k + 1) * increment" "set (started s) \<subseteq> range_of beg increment ` {..<k}"
    "\<forall>t < k. range_of beg increment t \<in> set (started s) \<or> future s t \<noteq> None"
    using assms(2) unfolding pt_inv_def by blast
  have "x \<in> set (started s)" using assms(1) by (simp add: task_runs_def split: if_splits)
  then obtain t where t: "t < k" "x = range_of beg increment t" using k(5) by blast
  have "SumUp (beg + int t * increment) (beg + (int t + 1) * increment) = part beg increment t"
    using t(1) k(1) by (intro SumUp_part [OF assms(3)]) simp
  then have e: "s' = s\<lparr>started := remove1 x (started s), future := (future s)(t \<mapsto> part beg increment t)\<rparr>"
    using assms(1) t(2) by (simp add: task_runs_def range_of_def split: if_splits)
  have o: "range_of beg increment j \<in> set (remove1 x (started s)) \<or> j = t" if "range_of beg increment j \<in> set (started s)" for j
    using that t(2) by (auto simp: range_of_def)
  have "\<exists>k \<le> n. all_tasks s' = [k..<n] \<and> pt_begin s' = beg + int k * increment \<and> pt_end s' = beg + (int k + 1) * increment
     \<and> set (started s') \<subseteq> range_of beg increment ` {..<k}
     \<and> (\<forall>t < k. range_of beg increment t \<in> set (started s') \<or> future s' t \<noteq> None)"
    using k o set_remove1_subset [of x "started s"] by (intro exI [of _ k]) (auto simp: e)
  then show ?thesis using assms(2) by (simp add: pt_inv_def e)
qed

lemma future_get_keeps:
  assumes "future_get t s = Some s'" "pt_inv n beg increment s" "sums_fit n beg increment"
  shows "pt_inv n beg increment s'"
proof -
  obtain v where v: "future s t = Some v" "t \<in> set (unread s)" "s' = s\<lparr>unread := remove1 t (unread s), pt_sum := s32 (pt_sum s + v)\<rparr>"
    using assms(1) by (auto simp: future_get_def split: if_splits)
  have i: "v = part beg increment t" "distinct (unread s)" "set (unread s) \<subseteq> {..<n}"
    "pt_sum s = (\<Sum>t \<in> {..<n} - set (unread s). part beg increment t)"
    using assms(2) v(1) by (auto simp: pt_inv_def)
  have "{..<n} - set (unread s') = insert t ({..<n} - set (unread s))" using v i by auto
  then have "pt_sum s + v = (\<Sum>t \<in> {..<n} - set (unread s'). part beg increment t)" using v(2) i by simp
  moreover from this have "s32 (pt_sum s + v) = pt_sum s + v"
    using parts_bound [OF assms(3), of "{..<n} - set (unread s')"] part_nonneg [OF assms(3)]
    by (intro s32_id) (auto intro: order_trans [OF _ sum_nonneg])
  ultimately show ?thesis
    using assms(2) v(3) i(2,3) set_remove1_subset [of t "unread s"] unfolding pt_inv_def by (simp; blast)
qed

interpretation pt: relation_inv "pt_step increment" "\<lambda>s. pt_inv n beg increment s \<and> sums_fit n beg increment" for n beg increment
proof unfold_locales
  fix s s' assume "pt_step increment s s'" "pt_inv n beg increment s \<and> sums_fit n beg increment"
  then show "pt_inv n beg increment s' \<and> sums_fit n beg increment"
    by (cases rule: pt_step.cases) (auto intro: fire_keeps task_runs_keeps future_get_keeps)
qed

definition pt_measure :: "packaged \<Rightarrow> nat" where
  "pt_measure s = 2 * length (all_tasks s) + length (started s) + length (unread s)"

lemma pt_step_measure: "pt_step increment s s' \<Longrightarrow> pt_measure s' < pt_measure s"
  by (induction rule: pt_step.induct)
    (auto simp: pt_measure_def fire_def task_runs_def future_get_def length_remove1 intro!: diff_less length_pos_if_in_set
      split: list.splits if_splits prod.splits)

lemma pt_not_stuck:
  assumes "pt_inv n beg increment s" "unread s \<noteq> []"
  shows "\<exists>s'. pt_step increment s s'"
proof (cases "all_tasks s = []")
  case True
  show ?thesis
  proof (cases "started s")
    case Nil
    obtain t where t: "t \<in> set (unread s)" using assms(2) by (cases "unread s") auto
    have "t < n" using t assms(1) by (auto simp: pt_inv_def)
    moreover obtain k where "k \<le> n" "[k..<n] = []" "\<forall>j < k. future s j \<noteq> None"
      using assms(1) True Nil unfolding pt_inv_def by fastforce
    ultimately have "future s t \<noteq> None" by (auto simp: upt_eq_Nil_conv)
    then show ?thesis using t True pt_get [of t s] by (auto simp: future_get_def)
  next
    case (Cons x xs)
    then show ?thesis using pt_run [of x s] by (cases x) (auto simp: task_runs_def)
  qed
next
  case False
  then show ?thesis using pt_fire [of increment s] by (auto simp: fire_def neq_Nil_conv)
qed

lemma pt_can_end:
  assumes "pt_inv n beg increment s" "sums_fit n beg increment"
  shows "\<exists>t. (pt_step increment)\<^sup>*\<^sup>* s t \<and> unread t = []"
  using assms(1)
proof (induction "pt_measure s" arbitrary: s rule: less_induct)
  case less
  show ?case
  proof (cases "unread s = []")
    case False
    then obtain s' where s': "pt_step increment s s'" using pt_not_stuck [OF less.prems] by blast
    then have "pt_inv n beg increment s'" using pt.inv_rel [of increment s s' n beg] less.prems assms(2) by blast
    then obtain t where "(pt_step increment)\<^sup>*\<^sup>* s' t" "unread t = []" using less.hyps pt_step_measure [OF s'] by blast
    then show ?thesis using s' converse_rtranclp_into_rtranclp by metis
  qed auto
qed

lemma pt_inv_start:
  assumes "sums_fit n beg increment"
  shows "pt_inv n beg increment (pt_start n beg increment)"
  using bounds_fit [OF assms, of 1] unfolding pt_inv_def pt_start_def by (auto simp: lessThan_atLeast0 intro!: exI [of _ 0])

text \<open>
  The tasks may run in any order, before or after \<open>main\<close> asks for their results: \<open>main\<close> can always go on until
  it has read all of them, and has then the sum of the whole range, each number counted once.
\<close>

theorem packaged_sum:
  assumes "(pt_step increment)\<^sup>*\<^sup>* (pt_start n beg increment) s" "sums_fit n beg increment"
  shows "(\<exists>t. (pt_step increment)\<^sup>*\<^sup>* s t \<and> unread t = [])
    \<and> (unread s = [] \<longrightarrow> pt_sum s = \<Sum>{beg..<beg + int n * increment})"
proof -
  have inv: "pt_inv n beg increment s" using pt.inv_reached [OF assms(1)] pt_inv_start assms(2) by blast
  moreover have "pt_sum s = \<Sum>{beg..<beg + int n * increment}" if "unread s = []"
    using inv that assms(2) parts_total [of increment beg n] by (simp add: pt_inv_def sums_fit_def)
  ultimately show ?thesis using pt_can_end assms(2) by blast
qed

theorem packaged_sum_witness:
  "\<exists>t. (pt_step 250)\<^sup>*\<^sup>* (pt_start 4 1 250) t \<and> unread t = [] \<and> pt_sum t = 500500"
proof -
  have e: "\<Sum>{1..<1001} = (500500::int)" by code_simp
  then have f: "sums_fit 4 1 250" by (simp add: sums_fit_def)
  obtain t where t: "(pt_step 250)\<^sup>*\<^sup>* (pt_start 4 1 250) t" "unread t = []"
    using packaged_sum [OF rtranclp.rtrancl_refl f] by blast
  then show ?thesis using packaged_sum [OF t(1) f] e by auto
qed

end
