(* ===== verification/Cpp_Futures.thy ===== *)
theory Cpp_Futures
  imports Prelude "HOL-Library.Signed_Division"
begin

text \<open>
  Programs of \<open>concurrency_with_modern_c++/code\<close> in which a result is made once: promises and futures
  (\<open>promise_future\<close>, \<open>promise_future_exception\<close>, \<open>shared_future\<close>), a task that is used again (\<open>packaged_task_reuse\<close>),
  what is done by the first of several threads (\<open>call_once\<close>, \<open>call_once_singleton\<close>, \<open>static_singleton\<close>), and the
  coroutine of \<open>cpp_20/coroutine\<close>.
\<close>

section \<open>Promise and future\<close>

datatype exn = Runtime_error string

datatype 'a future_state = Pending | Ready 'a | Failed exn

text \<open>A promise is fulfilled once; doing so again is an error.\<close>

definition set_value :: "'a \<Rightarrow> 'a future_state \<Rightarrow> 'a future_state option" where
  "set_value v s = (case s of Pending \<Rightarrow> Some (Ready v) | _ \<Rightarrow> None)"

definition set_exception :: "exn \<Rightarrow> 'a future_state \<Rightarrow> 'a future_state option" where
  "set_exception e s = (case s of Pending \<Rightarrow> Some (Failed e) | _ \<Rightarrow> None)"

text \<open>The functions the threads run. Dividing the smallest number by -1, like dividing by zero, is a fault.\<close>

definition product :: "int \<Rightarrow> int \<Rightarrow> int future_state \<Rightarrow> fault + int future_state option" where
  "product a b s = Inr (set_value (s32 (a * b)) s)"

definition c_div :: "int \<Rightarrow> int \<Rightarrow> fault + int" where
  "c_div a b = (if b = 0 \<or> a = - (2 ^ 31) \<and> b = -1 then Inl DivByZero else Inr (a sdiv b))"

definition Div :: "int \<Rightarrow> int \<Rightarrow> int future_state \<Rightarrow> fault + int future_state option" where
  "Div a b s = bindE (c_div a b) (\<lambda>q. Inr (set_value q s))"

definition Div_checked :: "(int \<Rightarrow> string) \<Rightarrow> int \<Rightarrow> int \<Rightarrow> int future_state \<Rightarrow> fault + int future_state option" where
  "Div_checked to_string a b s =
     (if b = 0
      then Inr (set_exception (Runtime_error (''Illegal division by zero: '' @ to_string a @ ''/'' @ to_string b)) s)
      else Div a b s)"

section \<open>One thread sets, others get\<close>

text \<open>
  The readers print under a mutex, which a reader holds while it waits for the result, as in \<open>shared_future\<close>; with one
  reader this is \<open>executeDivision\<close>. Program counters: 0 before the mutex, 1 holding it, 2 after printing, 9 done.
\<close>

record 'a sharing =
  sh_state :: "'a future_state"
  sh_set :: bool
  sh_holder :: "nat option"
  sh_pc :: "nat \<Rightarrow> nat"
  sh_out :: "(nat \<times> 'a future_state) list"

definition sh_start :: "'a sharing" where
  "sh_start = \<lparr>sh_state = Pending, sh_set = False, sh_holder = None, sh_pc = \<lambda>_. 0, sh_out = []\<rparr>"

definition setter :: "('a future_state \<Rightarrow> fault + 'a future_state option) \<Rightarrow> 'a sharing \<Rightarrow> 'a sharing option" where
  "setter f s =
     (if sh_set s then None
      else case f (sh_state s) of
             Inr (Some r) \<Rightarrow> Some (s\<lparr>sh_state := r, sh_set := True\<rparr>)
           | _ \<Rightarrow> None)"

definition requestor :: "nat \<Rightarrow> 'a sharing \<Rightarrow> 'a sharing option" where
  "requestor i s =
     (if sh_pc s i = 0 then
        (if sh_holder s = None then Some (s\<lparr>sh_holder := Some i, sh_pc := (sh_pc s)(i := 1)\<rparr>) else None)
      else if sh_pc s i = 1 then
        (if sh_state s = Pending then None
         else Some (s\<lparr>sh_out := sh_out s @ [(i, sh_state s)], sh_pc := (sh_pc s)(i := 2)\<rparr>))
      else if sh_pc s i = 2 then Some (s\<lparr>sh_holder := None, sh_pc := (sh_pc s)(i := 9)\<rparr>)
      else None)"

inductive sh_step :: "('a future_state \<Rightarrow> fault + 'a future_state option) \<Rightarrow> nat \<Rightarrow> 'a sharing \<Rightarrow> 'a sharing \<Rightarrow> bool" for f n where
  sh_sets: "setter f s = Some s' \<Longrightarrow> sh_step f n s s'"
| sh_reads: "i < n \<Longrightarrow> requestor i s = Some s' \<Longrightarrow> sh_step f n s s'"

definition sh_done :: "nat \<Rightarrow> 'a sharing \<Rightarrow> bool" where
  "sh_done n s \<longleftrightarrow> sh_set s \<and> (\<forall>i < n. sh_pc s i = 9)"

definition sh_inv :: "'a future_state \<Rightarrow> nat \<Rightarrow> 'a sharing \<Rightarrow> bool" where
  "sh_inv r n s \<longleftrightarrow>
     sh_state s = (if sh_set s then r else Pending)
     \<and> (\<forall>i < n. sh_pc s i \<in> {0, 1, 2, 9})
     \<and> (\<forall>i. sh_holder s = Some i \<longrightarrow> i < n) \<and> (\<forall>i < n. sh_holder s = Some i \<longleftrightarrow> sh_pc s i \<in> {1, 2})
     \<and> (\<forall>(i, v) \<in> set (sh_out s). v = r)
     \<and> distinct (map fst (sh_out s)) \<and> fst ` set (sh_out s) = {i. i < n \<and> sh_pc s i \<in> {2, 9}}"

lemma sh_inv_start: "sh_inv r n sh_start"
  by (simp add: sh_inv_def sh_start_def)

lemma sh_inv_sets:
  assumes "setter f s = Some s'" "sh_inv r n s" "f Pending = Inr (Some r)"
  shows "sh_inv r n s'"
proof -
  have u: "\<not> sh_set s" using assms(1) by (simp add: setter_def split: if_splits)
  then have "sh_state s = Pending" using assms(2) by (simp add: sh_inv_def)
  then have "s' = s\<lparr>sh_state := r, sh_set := True\<rparr>" using assms(1,3) u by (simp add: setter_def)
  then show ?thesis using assms(2) by (simp add: sh_inv_def)
qed

lemma sh_inv_reads:
  assumes "requestor i s = Some s'" "sh_inv r n s" "i < n"
  shows "sh_inv r n s'"
proof -
  have k: "sh_pc s i \<in> {0, 1, 2, 9}" using assms(2,3) by (simp add: sh_inv_def)
  have h: "sh_holder s = Some j \<longleftrightarrow> sh_pc s j \<in> {1, 2}" if "j < n" for j using assms(2) that by (simp add: sh_inv_def)
  consider (0) "sh_pc s i = 0" "sh_holder s = None" "s' = s\<lparr>sh_holder := Some i, sh_pc := (sh_pc s)(i := 1)\<rparr>"
    | (1) "sh_pc s i = 1" "sh_state s \<noteq> Pending" "s' = s\<lparr>sh_out := sh_out s @ [(i, sh_state s)], sh_pc := (sh_pc s)(i := 2)\<rparr>"
    | (2) "sh_pc s i = 2" "s' = s\<lparr>sh_holder := None, sh_pc := (sh_pc s)(i := 9)\<rparr>"
    using assms(1) by (auto simp: requestor_def split: if_splits)
  then show ?thesis
  proof cases
    case 0
    then have "sh_pc s j \<notin> {1, 2}" if "j < n" for j using h [OF that] by simp
    then show ?thesis using 0 assms(2,3) by (auto simp: sh_inv_def)
  next
    case 1
    then have "i \<notin> fst ` set (sh_out s)" using assms(2) by (simp add: sh_inv_def)
    then show ?thesis using 1 assms(2,3) by (auto simp: sh_inv_def split: if_splits)
  next
    case 2
    then have "sh_holder s = Some i" using h [OF assms(3)] by simp
    then have "sh_pc s j \<notin> {1, 2}" if "j < n" "j \<noteq> i" for j using h [OF that(1)] that(2) by simp
    then show ?thesis using 2 assms(2,3) by (auto simp: sh_inv_def)
  qed
qed

interpretation sh: relation_inv "sh_step f n" "\<lambda>s. sh_inv r n s \<and> f Pending = Inr (Some r)" for f n r
proof unfold_locales
  fix s s' :: "'a sharing"
  assume "sh_step f n s s'" "sh_inv r n s \<and> f Pending = Inr (Some r)"
  then show "sh_inv r n s' \<and> f Pending = Inr (Some r)"
    by (cases rule: sh_step.cases) (auto intro: sh_inv_sets sh_inv_reads)
qed

text \<open>The mutex goes round, and the holder prints as soon as the result is there.\<close>

definition sh_measure :: "nat \<Rightarrow> 'a sharing \<Rightarrow> nat" where
  "sh_measure n s = (if sh_set s then 0 else 1) + (\<Sum>i < n. 9 - sh_pc s i)"

lemma sh_measure_reads:
  assumes "requestor i s = Some s'" "i < n"
  shows "sh_measure n s' < sh_measure n s"
proof -
  obtain k where k: "sh_pc s' = (sh_pc s)(i := k)" "sh_pc s i < k" "k \<le> 9" "sh_set s' = sh_set s"
    using assms(1) by (auto simp: requestor_def split: if_splits)
  have "(\<Sum>j < n. 9 - sh_pc s' j) < (\<Sum>j < n. 9 - sh_pc s j)"
    using assms(2) k by (intro sum_strict_mono_ex1) (auto intro!: bexI [of _ i])
  then show ?thesis using k(4) by (simp add: sh_measure_def)
qed

lemma sh_measure_step: "sh_step f n s s' \<Longrightarrow> sh_measure n s' < sh_measure n s"
proof (induction rule: sh_step.induct)
  case (sh_sets s s')
  then have "\<not> sh_set s" "sh_set s'" "sh_pc s' = sh_pc s"
    by (auto simp: setter_def split: if_splits sum.splits option.splits)
  then show ?case by (simp add: sh_measure_def)
qed (rule sh_measure_reads)

lemma sh_not_stuck:
  assumes "sh_inv r n s" "f Pending = Inr (Some r)" "r \<noteq> Pending" "\<not> sh_done n s"
  shows "\<exists>s'. sh_step f n s s'"
proof (cases "sh_set s")
  case False
  then have "\<exists>s'. setter f s = Some s'" using assms(1,2) by (simp add: setter_def sh_inv_def)
  then show ?thesis using sh_sets by blast
next
  case True
  then have v: "sh_state s = r" using assms(1) by (simp add: sh_inv_def)
  obtain i where i: "i < n" "sh_pc s i \<noteq> 9" using assms(4) True by (auto simp: sh_done_def)
  have "\<exists>j < n. requestor j s \<noteq> None"
  proof (cases "sh_holder s")
    case None
    then have "sh_pc s i = 0" using assms(1) i by (auto simp: sh_inv_def)
    then show ?thesis using i None by (auto simp: requestor_def)
  next
    case (Some j)
    then have "j < n" "sh_pc s j \<in> {1, 2}" using assms(1) by (auto simp: sh_inv_def)
    then show ?thesis using v assms(3) by (auto simp: requestor_def)
  qed
  then show ?thesis using sh_reads by blast
qed

lemma sh_can_end:
  assumes "sh_inv r n s" "f Pending = Inr (Some r)" "r \<noteq> Pending"
  shows "\<exists>t. (sh_step f n)\<^sup>*\<^sup>* s t \<and> sh_done n t"
  using assms(1)
proof (induction "sh_measure n s" arbitrary: s rule: less_induct)
  case less
  show ?case
  proof (cases "sh_done n s")
    case False
    then obtain s' where s': "sh_step f n s s'" using sh_not_stuck [of r n s f] less.prems assms(2,3) by blast
    then have "sh_inv r n s'" using sh.inv_rel [of f n s s' r] less.prems assms(2) by blast
    then obtain t where "(sh_step f n)\<^sup>*\<^sup>* s' t" "sh_done n t" using less.hyps sh_measure_step [OF s'] by blast
    then show ?thesis using s' converse_rtranclp_into_rtranclp by metis
  qed auto
qed

text \<open>
  C27: Whoever comes first, the result or the readers: no reader sees anything but what the promise was given, a
  value or an exception, and every run can be continued until each of the readers has printed exactly once.
\<close>

theorem all_get_the_result:
  assumes "(sh_step f n)\<^sup>*\<^sup>* sh_start s" "f Pending = Inr (Some r)" "r \<noteq> Pending"
  shows "(\<forall>(i, v) \<in> set (sh_out s). i < n \<and> v = r) \<and> distinct (map fst (sh_out s))
    \<and> (\<exists>t. (sh_step f n)\<^sup>*\<^sup>* s t \<and> sh_done n t)
    \<and> (sh_done n s \<longrightarrow> fst ` set (sh_out s) = {..<n})"
proof -
  have inv: "sh_inv r n s" using sh.inv_reached [OF assms(1), of r] sh_inv_start assms(2) by blast
  then have d: "distinct (map fst (sh_out s))" and v: "\<forall>(i, v) \<in> set (sh_out s). v = r"
    and o: "fst ` set (sh_out s) = {i. i < n \<and> sh_pc s i \<in> {2, 9}}" by (simp_all add: sh_inv_def)
  have "i < n" if "(i, v) \<in> set (sh_out s)" for i v
  proof -
    have "i \<in> fst ` set (sh_out s)" using that by force
    then show ?thesis using o by simp
  qed
  moreover have "fst ` set (sh_out s) = {..<n}" if "sh_done n s" using that o by (auto simp: sh_done_def)
  ultimately show ?thesis using d v sh_can_end [of r n s f, OF inv assms(2,3)] by blast
qed

theorem all_get_the_result_witness:
  "\<exists>t. (sh_step (Div 20 10) 5)\<^sup>*\<^sup>* sh_start t \<and> sh_done 5 t \<and> fst ` set (sh_out t) = {..<5}
     \<and> (\<forall>(i, v) \<in> set (sh_out t). i < 5 \<and> v = Ready 2)"
proof -
  have f: "Div 20 10 Pending = Inr (Some (Ready 2))" by (simp add: Div_def c_div_def set_value_def)
  obtain t where t: "(sh_step (Div 20 10) 5)\<^sup>*\<^sup>* sh_start t" "sh_done 5 t"
    using all_get_the_result [of "Div 20 10" 5 sh_start "Ready 2"] f by blast
  then show ?thesis using all_get_the_result [of "Div 20 10" 5 t "Ready 2"] f by blast
qed

text \<open>A checked division hands its error to the reader instead.\<close>

lemma executeDivision_results:
  "b \<noteq> 0 \<Longrightarrow> a \<noteq> - (2 ^ 31) \<Longrightarrow> Div_checked str a b Pending = Inr (Some (Ready (a sdiv b)))"
  "Div_checked str a 0 Pending = Inr (Some (Failed (Runtime_error (''Illegal division by zero: '' @ str a @ ''/'' @ str 0))))"
  "Div_checked str (- (2 ^ 31)) (-1) Pending = Inl DivByZero"
  by (simp_all add: Div_checked_def Div_def c_div_def set_value_def set_exception_def)

section \<open>Done once\<close>

text \<open>
  \<open>std::call_once\<close>, and the initialisation of a static variable in a function, which follows the same protocol: the
  first thread runs the initialisation, threads that come while it runs wait, later ones go on. A thread's program counter
  is 0 before the call, 1 while it initialises, 2 after the call, 9 at its end.
\<close>

datatype once_flag = Idle | Active | Over

record singleton =
  once :: once_flag
  s_instance :: "nat option"
  heap_top :: nat
  st_pc :: "nat \<Rightarrow> nat"
  st_out :: "nat option list"

definition st_start :: "nat \<Rightarrow> singleton" where
  "st_start brk = \<lparr>once = Idle, s_instance = None, heap_top = brk, st_pc = \<lambda>_. 0, st_out = []\<rparr>"

definition initSingleton :: "singleton \<Rightarrow> singleton" where
  "initSingleton s = s\<lparr>s_instance := Some (heap_top s), heap_top := Suc (heap_top s)\<rparr>"

definition dumpSingleton :: "nat \<Rightarrow> singleton \<Rightarrow> singleton option" where
  "dumpSingleton i s =
     (if st_pc s i = 0 then
        (case once s of
           Idle \<Rightarrow> Some (s\<lparr>once := Active, st_pc := (st_pc s)(i := 1)\<rparr>)
         | Active \<Rightarrow> None
         | Over \<Rightarrow> Some (s\<lparr>st_pc := (st_pc s)(i := 2)\<rparr>))
      else if st_pc s i = 1 then Some ((initSingleton s)\<lparr>once := Over, st_pc := (st_pc s)(i := 2)\<rparr>)
      else if st_pc s i = 2 then Some (s\<lparr>st_out := st_out s @ [s_instance s], st_pc := (st_pc s)(i := 9)\<rparr>)
      else None)"

inductive st_step :: "nat \<Rightarrow> singleton \<Rightarrow> singleton \<Rightarrow> bool" for n where
  st_stepI: "i < n \<Longrightarrow> dumpSingleton i s = Some s' \<Longrightarrow> st_step n s s'"

definition finished :: "nat \<Rightarrow> singleton \<Rightarrow> nat set" where
  "finished n s = {i. i < n \<and> st_pc s i = 9}"

definition st_inv :: "nat \<Rightarrow> nat \<Rightarrow> singleton \<Rightarrow> bool" where
  "st_inv brk n s \<longleftrightarrow>
     (case once s of
        Idle \<Rightarrow> heap_top s = brk \<and> s_instance s = None \<and> (\<forall>i < n. st_pc s i = 0)
      | Active \<Rightarrow> heap_top s = brk \<and> s_instance s = None \<and> (\<exists>i < n. st_pc s i = 1 \<and> (\<forall>j < n. j \<noteq> i \<longrightarrow> st_pc s j = 0))
      | Over \<Rightarrow> heap_top s = Suc brk \<and> s_instance s = Some brk \<and> (\<forall>i < n. st_pc s i \<in> {0, 2, 9}))
     \<and> set (st_out s) \<subseteq> {Some brk} \<and> length (st_out s) = card (finished n s)"

lemma finished_update:
  assumes "st_pc s' = (st_pc s)(i := k)" "i < n" "st_pc s i \<noteq> 9"
  shows "finished n s' = (if k = 9 then insert i (finished n s) else finished n s)" "i \<notin> finished n s"
  using assms by (auto simp: finished_def)

lemma finite_finished [simp]: "finite (finished n s)"
  by (simp add: finished_def)

lemma st_inv_step:
  assumes "st_step n s s'" "st_inv brk n s"
  shows "st_inv brk n s'"
  using assms(1)
proof (cases rule: st_step.cases)
  case (st_stepI i)
  consider (first) "st_pc s i = 0" "once s = Idle" "s' = s\<lparr>once := Active, st_pc := (st_pc s)(i := 1)\<rparr>"
    | (later) "st_pc s i = 0" "once s = Over" "s' = s\<lparr>st_pc := (st_pc s)(i := 2)\<rparr>"
    | (init) "st_pc s i = 1" "s' = (initSingleton s)\<lparr>once := Over, st_pc := (st_pc s)(i := 2)\<rparr>"
    | (dump) "st_pc s i = 2" "s' = s\<lparr>st_out := st_out s @ [s_instance s], st_pc := (st_pc s)(i := 9)\<rparr>"
    using st_stepI(2) by (auto simp: dumpSingleton_def split: if_splits once_flag.splits)
  then show ?thesis
  proof cases
    case first
    then show ?thesis using assms(2) st_stepI(1) finished_update [of s' s i 1 n] by (auto simp: st_inv_def)
  next
    case later
    then show ?thesis using assms(2) st_stepI(1) finished_update [of s' s i 2 n] by (simp add: st_inv_def)
  next
    case init
    then have o: "once s = Active" using assms(2) st_stepI(1) by (auto simp: st_inv_def split: once_flag.splits)
    have f: "finished n s' = finished n s" using init st_stepI(1) finished_update(1) [of s' s i 2 n] by simp
    have "st_pc s j = 0" if "j < n" "j \<noteq> i" for j
    proof -
      obtain k where "st_pc s k = 1" "\<forall>j < n. j \<noteq> k \<longrightarrow> st_pc s j = 0" using assms(2) o by (auto simp: st_inv_def)
      then show ?thesis using that init(1) st_stepI(1) by (cases "k = i") auto
    qed
    then show ?thesis using init o f assms(2) by (simp add: st_inv_def initSingleton_def)
  next
    case dump
    then have "once s = Over" using assms(2) st_stepI(1) by (auto simp: st_inv_def split: once_flag.splits)
    then show ?thesis using dump assms(2) st_stepI(1) finished_update [of s' s i 9 n] by (simp add: st_inv_def)
  qed
qed

interpretation st: relation_inv "st_step n" "st_inv brk n" for n brk
  by unfold_locales (rule st_inv_step)

text \<open>
  However many threads ask for the instance, one is made, nobody sees a null pointer, and all see the same; at the
  end each thread has printed.
\<close>

theorem one_instance:
  assumes "(st_step n)\<^sup>*\<^sup>* (st_start brk) s"
  shows "heap_top s \<le> Suc brk \<and> set (st_out s) \<subseteq> {Some brk}
    \<and> ((\<forall>i < n. st_pc s i = 9) \<longrightarrow> st_out s = replicate n (Some brk))
    \<and> ((\<exists>i < n. st_pc s i \<noteq> 9) \<longrightarrow> (\<exists>s'. st_step n s s'))"
proof -
  have "st_inv brk n (st_start brk)" by (simp add: st_inv_def st_start_def finished_def)
  then have inv: "st_inv brk n s" using st.inv_reached [OF assms] by blast
  have "st_out s = replicate n (Some brk)" if "\<forall>i < n. st_pc s i = 9"
  proof -
    have "finished n s = {..<n}" using that by (auto simp: finished_def)
    then have "length (st_out s) = n" "set (st_out s) \<subseteq> {Some brk}" using inv by (simp_all add: st_inv_def)
    then show ?thesis by (metis replicate_length_same subset_singletonD singletonD empty_iff insert_iff subsetD)
  qed
  moreover have "\<exists>s'. st_step n s s'" if u: "\<exists>i < n. st_pc s i \<noteq> 9"
  proof -
    obtain i where i: "i < n" "st_pc s i \<noteq> 9" using u by blast
    have "\<exists>j < n. dumpSingleton j s \<noteq> None"
    proof (cases "once s = Active")
      case True
      then obtain j where "j < n" "st_pc s j = 1" using inv by (auto simp: st_inv_def)
      then show ?thesis by (auto simp: dumpSingleton_def)
    next
      case False
      then have "st_pc s i \<in> {0, 1, 2}" "once s = Idle \<or> once s = Over" using inv i by (cases "once s"; auto simp: st_inv_def)+
      then show ?thesis using i(1) by (auto simp: dumpSingleton_def intro!: exI [of _ i])
    qed
    then show ?thesis using st_stepI by blast
  qed
  moreover have "heap_top s \<le> Suc brk" "set (st_out s) \<subseteq> {Some brk}"
    using inv by (auto simp: st_inv_def split: once_flag.splits)
  ultimately show ?thesis by blast
qed

theorem one_instance_witness: "\<exists>s'. st_step 4 (st_start 1000) s' \<and> heap_top (st_start 1000) \<le> 1001"
  using one_instance [OF rtranclp.rtrancl_refl [of "st_step 4" "st_start 1000"]] by (auto simp: st_start_def)

section \<open>A task used again\<close>

text \<open>
  A packaged task hands out its future once and runs once; \<open>reset\<close> gives it a new shared state. A future that was taken
  before keeps the old one.
\<close>

datatype future_error = Future_already_retrieved | Promise_already_satisfied

record reusable =
  rt_state :: "int future_state"
  rt_taken :: bool

definition rt_new :: reusable where
  "rt_new = \<lparr>rt_state = Pending, rt_taken = False\<rparr>"

definition rt_get_future :: "reusable \<Rightarrow> future_error + reusable" where
  "rt_get_future t = (if rt_taken t then Inl Future_already_retrieved else Inr (t\<lparr>rt_taken := True\<rparr>))"

definition rt_call :: "int \<Rightarrow> int \<Rightarrow> reusable \<Rightarrow> future_error + reusable" where
  "rt_call fir sec t =
     (case set_value (s32 (fir * sec)) (rt_state t) of
        None \<Rightarrow> Inl Promise_already_satisfied
      | Some r \<Rightarrow> Inr (t\<lparr>rt_state := r\<rparr>))"

definition rt_reset :: "reusable \<Rightarrow> reusable" where
  "rt_reset t = rt_new"

fun calcProducts :: "(int \<times> int) list \<Rightarrow> reusable \<Rightarrow> future_error + (((int \<times> int) \<times> int future_state) list \<times> reusable)" where
  "calcProducts [] t = Inr ([], t)"
| "calcProducts ((a, b) # pairs) t =
     bindE (rt_get_future t) (\<lambda>t.
     bindE (rt_call a b t) (\<lambda>t.
     bindE (calcProducts pairs (rt_reset t)) (\<lambda>(ls, t').
     Inr (((a, b), rt_state t) # ls, t'))))"

definition allPairs :: "(int \<times> int) list" where
  "allPairs = [(1, 2), (2, 3), (3, 4), (4, 5)]"

definition reuse_main :: "future_error + ((int \<times> int) \<times> int future_state) list" where
  "reuse_main =
     bindE (calcProducts allPairs rt_new) (\<lambda>(ls, t). bindE (calcProducts allPairs t) (\<lambda>(ls', t). Inr (ls @ ls')))"

text \<open>Resetting makes the task as good as new: every product comes out, for any list of pairs, as often as one likes.\<close>

lemma calcProducts_all: "calcProducts pairs rt_new = Inr (map (\<lambda>(a, b). ((a, b), Ready (s32 (a * b)))) pairs, rt_new)"
proof (induction pairs)
  case (Cons p pairs)
  then show ?case by (cases p) (simp add: rt_get_future_def rt_call_def rt_reset_def set_value_def rt_new_def)
qed simp

lemma reuse_main_prints:
  "reuse_main = Inr (map (\<lambda>(a, b). ((a, b), Ready (s32 (a * b)))) (allPairs @ allPairs))"
  by (simp add: reuse_main_def calcProducts_all)

section \<open>A coroutine that counts\<close>

text \<open>
  \<open>counter\<close> stops at its first \<open>co_await\<close>. Each \<open>resume\<close> prints the number and runs up to the next one; the number is unsigned.
\<close>

datatype co_line = In_main | Counter int

fun counter_loop :: "nat \<Rightarrow> int \<Rightarrow> co_line list \<times> int" where
  "counter_loop 0 i = ([], i)"
| "counter_loop (Suc n) i = (let (ls, j) = counter_loop n (u32 (i + 1)) in (In_main # Counter i # ls, j))"

definition coroutine_main :: "co_line list" where
  "coroutine_main = fst (counter_loop 3 0)"

lemma counter_counts:
  "0 \<le> i \<Longrightarrow> i + int n < 2 ^ 32 \<Longrightarrow>
     counter_loop n i = (concat (map (\<lambda>k. [In_main, Counter (i + int k)]) [0..<n]), i + int n)"
proof (induction n arbitrary: i)
  case (Suc n)
  have "u32 (i + 1) = i + 1" using Suc.prems by (intro u32_id) simp_all
  moreover have "[0..<Suc n] = 0 # map Suc [0..<n]" by (simp add: upt_conv_Cons map_Suc_upt del: upt_Suc)
  ultimately show ?case using Suc.IH [of "i + 1"] Suc.prems by (simp add: comp_def algebra_simps del: upt_Suc)
qed simp

end
