(* ===== verification/Calc_LL.thy ===== *)
theory Calc_LL
  imports Prelude "HOL-Library.Signed_Division"
begin

text \<open>
  The recursive descent calculator \<open>programming_language_pragmatics/code/calc_ll/main.c\<close>. The global
  \<open>token\<close> and the rest of the standard input are the state. The nesting of calls and the rounds of the
  two loops are bounded by fuel; \<open>main\<close> gives one more than the length of the input, and \<open>NoFuel\<close> is
  shown never to come out of it. Every other way of not returning a value is an outcome of its own.
  Arithmetic is that of \<open>int\<close>, and a result that does not fit is an overflow.
\<close>

section \<open>State and outcomes\<close>

datatype calc_error = NoFuel | Expected char | Error string | NoNumber | Overflow | DivideByZero

text \<open>The token; \<open>None\<close> is the end of the input, where \<open>getchar\<close> gives \<open>EOF\<close>.\<close>

type_synonym input = "char option \<times> string"

fun getchar :: "string \<Rightarrow> input" where
  "getchar [] = (None, [])"
| "getchar (c # cs) = (Some c, cs)"

definition match :: "char \<Rightarrow> input \<Rightarrow> calc_error + input" where
  "match expected inp = (if fst inp = Some expected then Inr (getchar (snd inp)) else Inl (Expected expected))"

definition isdigit :: "char \<Rightarrow> bool" where
  "isdigit c = (of_char c \<ge> (48 :: nat) \<and> of_char c \<le> (57 :: nat))"

definition calcint :: "int \<Rightarrow> calc_error + int" where
  "calcint v = (if - (2 ^ 31) \<le> v \<and> v < 2 ^ 31 then Inr v else Inl Overflow)"

section \<open>scanf("\%d")\<close>

text \<open>
  The conversion reads an optional sign and the digits that follow; without a digit it stores nothing. The
  character in front is the token put back by \<open>ungetc\<close>.
\<close>

fun read_digits :: "string \<Rightarrow> int \<Rightarrow> int \<times> string" where
  "read_digits [] v = (v, [])"
| "read_digits (c # cs) v =
     (if isdigit c then read_digits cs (10 * v + (int (of_char c) - 48)) else (v, c # cs))"

definition scan_int :: "string \<Rightarrow> (int \<times> string) option" where
  "scan_int cs =
     (let neg = (cs \<noteq> [] \<and> hd cs = CHR ''-'');
          ds = (if cs \<noteq> [] \<and> (hd cs = CHR ''-'' \<or> hd cs = CHR ''+'') then tl cs else cs)
      in if ds = [] \<or> \<not> isdigit (hd ds) then None
         else (case read_digits ds 0 of (v, rest) \<Rightarrow> Some (if neg then - v else v, rest)))"

section \<open>factor, term and expr\<close>

text \<open>
  A parser takes the state and gives a value and the state after it. The recursion goes through \<open>expr\<close>:
  \<open>factor\<close> and \<open>term\<close> take the \<open>expr\<close> they call as an argument. \<open>term_loop\<close> and \<open>expr_loop\<close> are the
  \<open>while\<close> loops, with the value so far.
\<close>

type_synonym parser = "input \<Rightarrow> calc_error + int \<times> input"

definition factor :: "parser \<Rightarrow> parser" where
  "factor ex inp =
     (case fst inp of
        None \<Rightarrow> Inl (Error ''bad factor'')
      | Some c \<Rightarrow>
          if c = CHR ''(''
          then bindE (match CHR ''('' inp) (\<lambda>inp.
               bindE (ex inp) (\<lambda>(value, inp).
               bindE (match CHR '')'' inp) (\<lambda>inp. Inr (value, inp))))
          else if isdigit c \<or> c = CHR ''+'' \<or> c = CHR ''-''
          then (case scan_int (c # snd inp) of
                  None \<Rightarrow> Inl NoNumber
                | Some (v, rest) \<Rightarrow> bindE (calcint v) (\<lambda>value. Inr (value, getchar rest)))
          else Inl (Error ''bad factor''))"

primrec term_loop :: "nat \<Rightarrow> parser \<Rightarrow> int \<Rightarrow> parser" where
  "term_loop 0 ex value inp = Inl NoFuel"
| "term_loop (Suc n) ex value inp =
     (if fst inp = Some CHR ''*''
      then bindE (match CHR ''*'' inp) (\<lambda>inp.
           bindE (factor ex inp) (\<lambda>(w, inp).
           bindE (calcint (value * w)) (\<lambda>value. term_loop n ex value inp)))
      else if fst inp = Some CHR ''/''
      then bindE (match CHR ''/'' inp) (\<lambda>inp.
           bindE (factor ex inp) (\<lambda>(w, inp).
           if w = 0 then Inl DivideByZero
           else bindE (calcint (value sdiv w)) (\<lambda>value. term_loop n ex value inp)))
      else Inr (value, inp))"

definition term_c :: "nat \<Rightarrow> parser \<Rightarrow> parser" where
  "term_c n ex inp = bindE (factor ex inp) (\<lambda>(value, inp). term_loop n ex value inp)"

primrec expr_loop :: "nat \<Rightarrow> nat \<Rightarrow> parser \<Rightarrow> int \<Rightarrow> parser" where
  "expr_loop 0 m ex value inp = Inl NoFuel"
| "expr_loop (Suc n) m ex value inp =
     (if fst inp = Some CHR ''+''
      then bindE (match CHR ''+'' inp) (\<lambda>inp.
           bindE (term_c m ex inp) (\<lambda>(w, inp).
           bindE (calcint (value + w)) (\<lambda>value. expr_loop n m ex value inp)))
      else if fst inp = Some CHR ''-''
      then bindE (match CHR ''-'' inp) (\<lambda>inp.
           bindE (term_c m ex inp) (\<lambda>(w, inp).
           bindE (calcint (value - w)) (\<lambda>value. expr_loop n m ex value inp)))
      else Inr (value, inp))"

primrec expr :: "nat \<Rightarrow> parser" where
  "expr 0 inp = Inl NoFuel"
| "expr (Suc n) inp = bindE (term_c n (expr n) inp) (\<lambda>(value, inp). expr_loop n n (expr n) value inp)"

text \<open>\<open>main\<close>: what follows the expression is not looked at.\<close>

definition calc_main :: "string \<Rightarrow> calc_error + int" where
  "calc_main stdin = bindE (expr (Suc (length stdin)) (getchar stdin)) (\<lambda>(result, inp). Inr result)"

section \<open>The grammar\<close>

text \<open>
  Syntax trees of the grammar in the comment at the top of the file. A number is any run of signs and one or
  more digits, leading zeros included: \<open>digits := {+|-} [0..9] {[0..9]}\<close>.
\<close>

datatype sign = Plus_sign | Minus_sign

datatype digit10 = D0 | D1 | D2 | D3 | D4 | D5 | D6 | D7 | D8 | D9

datatype expression = Expr trm "(bool \<times> trm) list"
  and trm = Term fac "(bool \<times> fac) list"
  and fac = Number "sign list" digit10 "digit10 list" | Paren expression

text \<open>How a tree is written.\<close>

fun sign_char :: "sign \<Rightarrow> char" where
  "sign_char Plus_sign = CHR ''+''"
| "sign_char Minus_sign = CHR ''-''"

fun digit_char :: "digit10 \<Rightarrow> char" where
  "digit_char D0 = CHR ''0''"
| "digit_char D1 = CHR ''1''"
| "digit_char D2 = CHR ''2''"
| "digit_char D3 = CHR ''3''"
| "digit_char D4 = CHR ''4''"
| "digit_char D5 = CHR ''5''"
| "digit_char D6 = CHR ''6''"
| "digit_char D7 = CHR ''7''"
| "digit_char D8 = CHR ''8''"
| "digit_char D9 = CHR ''9''"

fun show_e :: "expression \<Rightarrow> string" and show_ts :: "(bool \<times> trm) list \<Rightarrow> string"
  and show_t :: "trm \<Rightarrow> string" and show_fs :: "(bool \<times> fac) list \<Rightarrow> string" and show_f :: "fac \<Rightarrow> string" where
  "show_e (Expr t ts) = show_t t @ show_ts ts"
| "show_ts [] = []"
| "show_ts ((pls, t) # ts) = (if pls then CHR ''+'' else CHR ''-'') # show_t t @ show_ts ts"
| "show_t (Term f fs) = show_f f @ show_fs fs"
| "show_fs [] = []"
| "show_fs ((mul, f) # fs) = (if mul then CHR ''*'' else CHR ''/'') # show_f f @ show_fs fs"
| "show_f (Number ss d ds) = map sign_char ss @ digit_char d # map digit_char ds"
| "show_f (Paren e) = CHR ''('' # show_e e @ [CHR '')'']"

text \<open>
  The value of a tree, computed from left to right. A number with at most one sign has its decimal value. Of
  the numbers with more signs, which the grammar has too, \<open>scanf\<close> converts nothing: the program then goes on
  with an unset variable, which is the outcome \<open>NoNumber\<close>.
\<close>

fun digit10_value :: "digit10 \<Rightarrow> int" where
  "digit10_value D0 = 0"
| "digit10_value D1 = 1"
| "digit10_value D2 = 2"
| "digit10_value D3 = 3"
| "digit10_value D4 = 4"
| "digit10_value D5 = 5"
| "digit10_value D6 = 6"
| "digit10_value D7 = 7"
| "digit10_value D8 = 8"
| "digit10_value D9 = 9"

definition decimal_value :: "digit10 list \<Rightarrow> int" where
  "decimal_value ds = foldl (\<lambda>v d. 10 * v + digit10_value d) 0 ds"

definition number_value :: "sign list \<Rightarrow> digit10 \<Rightarrow> digit10 list \<Rightarrow> int" where
  "number_value ss d ds = (if ss = [Minus_sign] then - decimal_value (d # ds) else decimal_value (d # ds))"

fun eval_e :: "expression \<Rightarrow> calc_error + int" and eval_ts :: "int \<Rightarrow> (bool \<times> trm) list \<Rightarrow> calc_error + int"
  and eval_t :: "trm \<Rightarrow> calc_error + int" and eval_fs :: "int \<Rightarrow> (bool \<times> fac) list \<Rightarrow> calc_error + int"
  and eval_f :: "fac \<Rightarrow> calc_error + int" where
  "eval_e (Expr t ts) = bindE (eval_t t) (\<lambda>v. eval_ts v ts)"
| "eval_ts v [] = Inr v"
| "eval_ts v ((pls, t) # ts) =
     bindE (eval_t t) (\<lambda>w. bindE (calcint (if pls then v + w else v - w)) (\<lambda>v. eval_ts v ts))"
| "eval_t (Term f fs) = bindE (eval_f f) (\<lambda>v. eval_fs v fs)"
| "eval_fs v [] = Inr v"
| "eval_fs v ((mul, f) # fs) =
     bindE (eval_f f) (\<lambda>w. if mul then bindE (calcint (v * w)) (\<lambda>v. eval_fs v fs)
                           else if w = 0 then Inl DivideByZero else bindE (calcint (v sdiv w)) (\<lambda>v. eval_fs v fs))"
| "eval_f (Number ss d ds) = (if length ss \<le> 1 then calcint (number_value ss d ds) else Inl NoNumber)"
| "eval_f (Paren e) = eval_e e"

section \<open>Numbers\<close>

lemma digit_char_facts [simp]: "isdigit (digit_char d)" "int (of_char (digit_char d)) - 48 = digit10_value d"
  by (cases d; simp add: isdigit_def)+

lemma digit_char_special [simp]: "digit_char d \<noteq> CHR ''-''" "digit_char d \<noteq> CHR ''+''" "digit_char d \<noteq> CHR ''(''"
  by (cases d; simp)+

lemma read_digits_decimal:
  "read_digits (map digit_char ds @ r) v = read_digits r (foldl (\<lambda>v d. 10 * v + digit10_value d) v ds)"
  by (induction ds arbitrary: v) simp_all

text \<open>What may follow a factor, a term, an expression.\<close>

definition after_factor :: "string \<Rightarrow> bool" where
  "after_factor r \<longleftrightarrow> r = [] \<or> \<not> isdigit (hd r)"

definition after_term :: "string \<Rightarrow> bool" where
  "after_term r \<longleftrightarrow> after_factor r \<and> (r = [] \<or> hd r \<notin> {CHR ''*'', CHR ''/''})"

definition after_expr :: "string \<Rightarrow> bool" where
  "after_expr r \<longleftrightarrow> after_term r \<and> (r = [] \<or> hd r \<notin> {CHR ''+'', CHR ''-''})"

lemma not_digits [simp]: "\<not> isdigit CHR ''+''" "\<not> isdigit CHR ''-''" "\<not> isdigit CHR ''*''" "\<not> isdigit CHR ''/''"
  "\<not> isdigit CHR ''(''" "\<not> isdigit CHR '')''"
  by (simp_all add: isdigit_def)

lemma scan_int_number:
  assumes "after_factor r" and "length ss \<le> 1"
  shows "scan_int (show_f (Number ss d ds) @ r) = Some (number_value ss d ds, r)"
proof -
  have "read_digits r v = (v, r)" for v using assms(1) by (cases r) (auto simp: after_factor_def)
  then have read: "read_digits (map digit_char (d # ds) @ r) 0 = (decimal_value (d # ds), r)"
    by (simp only: read_digits_decimal decimal_value_def)
  from assms(2) consider "ss = []" | s where "ss = [s]" by (cases ss) auto
  then show ?thesis
  proof cases
    case 1
    then show ?thesis using read by (simp add: scan_int_def number_value_def)
  next
    case (2 s)
    then show ?thesis using read by (cases s) (simp_all add: scan_int_def number_value_def)
  qed
qed

text \<open>A second sign ends the conversion before any digit.\<close>

lemma scan_int_two_signs:
  assumes "\<not> length ss \<le> 1"
  shows "scan_int (show_f (Number ss d ds) @ r) = None"
proof -
  obtain s1 s2 ss' where "ss = s1 # s2 # ss'" using assms by (cases ss; cases "tl ss") auto
  then show ?thesis by (cases s1; cases s2) (simp_all add: scan_int_def)
qed

section \<open>Termination\<close>

text \<open>Every factor, term and expression that is read shortens the input.\<close>

definition left :: "input \<Rightarrow> nat" where
  "left inp = (case inp of (None, cs) \<Rightarrow> 0 | (Some c, cs) \<Rightarrow> Suc (length cs))"

lemma left_getchar [simp]: "left (getchar cs) = length cs"
  by (cases cs) (simp_all add: left_def)

lemma read_digits_length: "length (snd (read_digits cs v)) \<le> length cs"
  by (induction cs v rule: read_digits.induct) auto

lemma scan_int_length:
  assumes "scan_int cs = Some (v, rest)"
  shows "length rest < length cs"
proof -
  define ds where "ds = (if cs \<noteq> [] \<and> (hd cs = CHR ''-'' \<or> hd cs = CHR ''+'') then tl cs else cs)"
  from assms have ds: "ds \<noteq> []" "isdigit (hd ds)" "rest = snd (read_digits ds 0)"
    by (auto simp: scan_int_def Let_def ds_def split: if_splits prod.splits)
  then obtain d ds' where "ds = d # ds'" by (cases ds) auto
  with ds have "length rest < length ds" using read_digits_length [of ds'] by (auto simp: le_imp_less_Suc)
  also have "length ds \<le> length cs" by (simp add: ds_def)
  finally show ?thesis .
qed

text \<open>
  \<open>good Q x\<close>: the outcome \<open>x\<close> is not \<open>NoFuel\<close>, and a value that is returned satisfies \<open>Q\<close>. The rules go
  backwards through a sequence of calls.
\<close>

definition good :: "('a \<Rightarrow> bool) \<Rightarrow> calc_error + 'a \<Rightarrow> bool" where
  "good Q x = (case x of Inl e \<Rightarrow> e \<noteq> NoFuel | Inr v \<Rightarrow> Q v)"

lemma good_simps [simp]: "good Q (Inl e) = (e \<noteq> NoFuel)" "good Q (Inr v) = Q v"
  "good Q (bindE x f) = good (\<lambda>v. good Q (f v)) x"
  by (cases x; simp add: good_def)+

lemma good_mono: "good P x \<Longrightarrow> (\<And>v. P v \<Longrightarrow> Q v) \<Longrightarrow> good Q x"
  by (cases x) auto

lemma good_match: "(\<And>inp'. left inp' < left inp \<Longrightarrow> Q inp') \<Longrightarrow> good Q (match c inp)"
  by (cases inp) (auto simp: match_def left_def [of "(_, _)"])

lemma good_calcint: "Q v \<Longrightarrow> good Q (calcint v)"
  by (simp add: calcint_def)

text \<open>A parser that, on inputs of at most \<open>k\<close> characters, does not run out of fuel and shortens the input.\<close>

definition consumes :: "nat \<Rightarrow> parser \<Rightarrow> bool" where
  "consumes k p \<longleftrightarrow> (\<forall>inp. left inp \<le> k \<longrightarrow> good (\<lambda>(v, inp'). left inp' < left inp) (p inp))"

lemma consumes_good:
  assumes "consumes k p" and "left inp \<le> k" and "\<And>v inp'. left inp' < left inp \<Longrightarrow> Q (v, inp')"
  shows "good Q (p inp)"
proof (rule good_mono)
  show "good (\<lambda>(v, inp'). left inp' < left inp) (p inp)" using assms(1,2) by (simp only: consumes_def)
  show "Q y" if "case y of (v, inp') \<Rightarrow> left inp' < left inp" for y using assms(3) that by (cases y) simp
qed

lemma factor_consumes:
  assumes ex: "\<And>inp. left inp < k \<Longrightarrow> good (\<lambda>(v, inp'). left inp' < left inp) (ex inp)"
  shows "consumes k (factor ex)"
  unfolding consumes_def
proof (intro allI impI)
  fix inp assume k: "left inp \<le> k"
  show "good (\<lambda>(v, inp'). left inp' < left inp) (factor ex inp)"
  proof (cases "fst inp")
    case None
    then show ?thesis by (simp add: factor_def)
  next
    case (Some c)
    show ?thesis
    proof (cases "c = CHR ''(''")
      case True
      have "good (\<lambda>p. good (\<lambda>i. left i < left inp) (match CHR '')'' (snd p))) (ex i)" if "left i < left inp" for i
        using ex [of i] that k by (auto elim!: good_mono intro!: good_match)
      then show ?thesis using Some True by (auto simp: factor_def case_prod_beta intro!: good_match)
    next
      case False
      have "left inp = Suc (length (snd inp))" using Some by (cases inp) (simp add: left_def)
      then show ?thesis using Some False scan_int_length [of "c # snd inp"]
        by (auto simp: factor_def split: option.split intro!: good_calcint)
    qed
  qed
qed

text \<open>The loops.\<close>

lemma term_loop_good:
  assumes "consumes k (factor ex)" and "left inp < n" and "left inp \<le> k"
  shows "good (\<lambda>p. left (snd p) \<le> left inp) (term_loop n ex v inp)"
  using assms(2,3)
proof (induction n arbitrary: v inp)
  case 0
  then show ?case by simp
next
  case (Suc n)
  have step: "good (\<lambda>p. left (snd p) \<le> left inp) (term_loop n ex w inp')" if "left inp' < left inp" for w inp'
    using that Suc.prems by (intro good_mono [OF Suc.IH]) auto
  have arg: "good (\<lambda>p. \<forall>u. good (\<lambda>p. left (snd p) \<le> left inp) (term_loop n ex u (snd p))) (factor ex i)" if "left i < left inp" for i
    using that Suc.prems step by (intro consumes_good [OF assms(1)]) auto
  show ?case
    by (auto simp: case_prod_beta intro!: good_match good_calcint good_mono [OF arg])
qed

lemma term_consumes:
  assumes "consumes k (factor ex)" and "k \<le> n"
  shows "consumes k (term_c n ex)"
  unfolding consumes_def
proof (intro allI impI)
  fix inp assume k: "left inp \<le> k"
  have "good (\<lambda>(v, i). left i < left inp) (term_loop n ex u inp')" if "left inp' < left inp" for u inp'
    using that k assms(2) by (intro good_mono [OF term_loop_good [OF assms(1)]]) auto
  then show "good (\<lambda>(v, inp'). left inp' < left inp) (term_c n ex inp)"
    using k by (auto simp: term_c_def intro!: consumes_good [OF assms(1)])
qed

lemma expr_loop_good:
  assumes "consumes k (term_c m ex)" and "left inp < n" and "left inp \<le> k"
  shows "good (\<lambda>p. left (snd p) \<le> left inp) (expr_loop n m ex v inp)"
  using assms(2,3)
proof (induction n arbitrary: v inp)
  case 0
  then show ?case by simp
next
  case (Suc n)
  have step: "good (\<lambda>p. left (snd p) \<le> left inp) (expr_loop n m ex w inp')" if "left inp' < left inp" for w inp'
    using that Suc.prems by (intro good_mono [OF Suc.IH]) auto
  have arg: "good (\<lambda>p. \<forall>u. good (\<lambda>p. left (snd p) \<le> left inp) (expr_loop n m ex u (snd p))) (term_c m ex i)" if "left i < left inp" for i
    using that Suc.prems step by (intro consumes_good [OF assms(1)]) auto
  show ?case
    by (auto simp: case_prod_beta intro!: good_match good_calcint good_mono [OF arg])
qed

lemma expr_good: "left inp < n \<Longrightarrow> good (\<lambda>(v, inp'). left inp' < left inp) (expr n inp)"
proof (induction n arbitrary: inp)
  case 0
  then show ?case by simp
next
  case (Suc n)
  have f: "consumes n (factor (expr n))" using Suc.IH by (rule factor_consumes)
  then have t: "consumes n (term_c n (expr n))" by (rule term_consumes) simp
  have "good (\<lambda>(v, i). left i < left inp) (expr_loop n n (expr n) u inp')" if "left inp' < left inp" for u inp'
    using that Suc.prems by (intro good_mono [OF expr_loop_good [OF t]]) auto
  then show ?case using Suc.prems by (auto intro!: consumes_good [OF t])
qed

text \<open>
  C33: The calculator ends on every input: it prints a result or stops with one of the errors, however the
  parentheses and operators are nested.
\<close>

theorem calc_terminates: "calc_main stdin \<noteq> Inl NoFuel"
proof -
  have "good (\<lambda>_. True) (calc_main stdin)"
    by (auto simp: calc_main_def simp del: expr.simps intro!: good_mono [OF expr_good])
  then show ?thesis by auto
qed

section \<open>Correctness\<close>

text \<open>The loops on a token that ends them, and one round of each.\<close>

lemma after_simps [simp]: "after_factor (c # r) = (\<not> isdigit c)" "after_factor []"
  "after_term (c # r) = (\<not> isdigit c \<and> c \<noteq> CHR ''*'' \<and> c \<noteq> CHR ''/'')" "after_term []"
  "after_expr (c # r) = (\<not> isdigit c \<and> c \<noteq> CHR ''*'' \<and> c \<noteq> CHR ''/'' \<and> c \<noteq> CHR ''+'' \<and> c \<noteq> CHR ''-'')" "after_expr []"
  by (auto simp: after_factor_def after_term_def after_expr_def)

lemma loop_ends:
  "after_term r \<Longrightarrow> 0 < n \<Longrightarrow> term_loop n ex v (getchar r) = Inr (v, getchar r)"
  "after_expr r \<Longrightarrow> 0 < n \<Longrightarrow> expr_loop n m ex v (getchar r) = Inr (v, getchar r)"
  by (cases r; cases n; simp)+

lemma number_head:
  "\<exists>c cs. show_f (Number ss d ds) @ r = c # cs \<and> c \<noteq> CHR ''('' \<and> (isdigit c \<or> c = CHR ''+'' \<or> c = CHR ''-'')"
proof (cases ss)
  case (Cons s ss')
  then show ?thesis by (cases s) auto
qed simp

lemma factor_number:
  assumes "after_factor r"
  shows "factor ex (getchar (show_f (Number ss d ds) @ r)) =
    bindE (eval_f (Number ss d ds)) (\<lambda>v. Inr (v, getchar r))"
proof -
  obtain c cs where "show_f (Number ss d ds) @ r = c # cs" "c \<noteq> CHR ''(''" "isdigit c \<or> c = CHR ''+'' \<or> c = CHR ''-''"
    using number_head by blast
  then have "factor ex (getchar (show_f (Number ss d ds) @ r)) =
    (case scan_int (show_f (Number ss d ds) @ r) of
       None \<Rightarrow> Inl NoNumber
     | Some (v, rest) \<Rightarrow> bindE (calcint v) (\<lambda>value. Inr (value, getchar rest)))"
    by (auto simp: factor_def)
  then show ?thesis
    using scan_int_number [OF assms, of ss d ds] scan_int_two_signs [of ss d ds r] by (cases "length ss \<le> 1") auto
qed

lemma follows: "after_factor (show_fs fs @ r)" if "after_term r" for fs r
  using that by (cases fs rule: show_fs.cases) (auto simp: after_term_def)

lemma follows_term: "after_term (show_ts ts @ r)" if "after_expr r" for ts r
  using that by (cases ts rule: show_ts.cases) (auto simp: after_expr_def)

lemma show_nonempty_f: "1 \<le> length (show_f f)"
  by (cases f) auto

lemma show_nonempty: "1 \<le> length (show_t t)"
proof (cases t)
  case (Term f fs)
  then show ?thesis using show_nonempty_f [of f] by simp
qed

text \<open>Each nonterminal, on a tree of its own followed by something that may follow it.\<close>

lemma parse_show:
  "after_expr r \<Longrightarrow> length (show_e e @ r) < n \<Longrightarrow> expr n (getchar (show_e e @ r)) = bindE (eval_e e) (\<lambda>v. Inr (v, getchar r))"
  "after_expr r \<Longrightarrow> length (show_ts ts @ r) < n \<Longrightarrow> length (show_ts ts @ r) \<le> m \<Longrightarrow>
     expr_loop n m (expr m) v (getchar (show_ts ts @ r)) = bindE (eval_ts v ts) (\<lambda>v. Inr (v, getchar r))"
  "after_term r \<Longrightarrow> length (show_t t @ r) \<le> m \<Longrightarrow>
     term_c m (expr m) (getchar (show_t t @ r)) = bindE (eval_t t) (\<lambda>v. Inr (v, getchar r))"
  "after_term r \<Longrightarrow> length (show_fs fs @ r) < n \<Longrightarrow> length (show_fs fs @ r) \<le> m \<Longrightarrow>
     term_loop n (expr m) v (getchar (show_fs fs @ r)) = bindE (eval_fs v fs) (\<lambda>v. Inr (v, getchar r))"
  "after_factor r \<Longrightarrow> length (show_f f @ r) \<le> m \<Longrightarrow>
     factor (expr m) (getchar (show_f f @ r)) = bindE (eval_f f) (\<lambda>v. Inr (v, getchar r))"
proof (induction e and ts and t and fs and f arbitrary: r n and r n m v and r m and r n m v and r m
    rule: show_e_show_ts_show_t_show_fs_show_f.induct)
  case (1 t ts)
  from "1.prems" obtain n' where n: "n = Suc n'" by (cases n) auto
  have "length (show_ts ts @ r) < n'" "length (show_t t @ show_ts ts @ r) \<le> n'"
    using "1.prems" show_nonempty [of t] unfolding n by simp_all
  with "1.prems" show ?case
    using "1.IH"(1) [of "show_ts ts @ r" n'] "1.IH"(2) [of r n' n'] by (simp add: n follows_term)
next
  case 2
  then show ?case by (simp add: loop_ends)
next
  case (3 pls t ts)
  from "3.prems" obtain n' where n: "n = Suc n'" by (cases n) auto
  have "length (show_ts ts @ r) < n'" "length (show_ts ts @ r) \<le> m" "length (show_t t @ show_ts ts @ r) \<le> m"
    using "3.prems" by (auto simp: n)
  with "3.prems" show ?case
    using "3.IH"(1) [of "show_ts ts @ r" m] "3.IH"(2) [of r n' m] by (simp add: n follows_term match_def)
next
  case (4 f fs)
  have "length (show_fs fs @ r) < m" "length (show_f f @ show_fs fs @ r) \<le> m"
    using "4.prems" show_nonempty_f [of f] by simp_all
  with "4.prems" show ?case
    using "4.IH"(1) [of "show_fs fs @ r" m] "4.IH"(2) [of r m m] by (simp add: term_c_def follows)
next
  case 5
  then show ?case by (simp add: loop_ends)
next
  case (6 mul f fs)
  from "6.prems" obtain n' where n: "n = Suc n'" by (cases n) auto
  have "length (show_fs fs @ r) < n'" "length (show_fs fs @ r) \<le> m" "length (show_f f @ show_fs fs @ r) \<le> m"
    using "6.prems" by (auto simp: n)
  with "6.prems" show ?case
    using "6.IH"(1) [of "show_fs fs @ r" m] "6.IH"(2) [of r n' m]
    by (auto simp: n follows match_def intro!: arg_cong [of _ _ "bindE (eval_f f)"])
next
  case (7 ss d ds)
  then show ?case using factor_number by blast
next
  case (8 e)
  have "after_expr (CHR '')'' # r)" "length (show_e e @ CHR '')'' # r) < m" using "8.prems" by auto
  then have "expr m (getchar (show_e e @ CHR '')'' # r)) = bindE (eval_e e) (\<lambda>v. Inr (v, getchar (CHR '')'' # r)))"
    by (rule "8.IH")
  then show ?case by (simp add: factor_def match_def)
qed

text \<open>
  C4: On every expression of the grammar in the comment, the calculator computes the value: written down with
  or without a sign at each number, and with any leading zeros, an expression gives its value from left to
  right with C's truncating division, \<open>*\<close> and \<open>/\<close> binding tighter than \<open>+\<close> and \<open>-\<close>, or stops at the first
  overflow or division by zero on the way. The grammar also allows several signs in front of a number; there the
  code departs from it, and the outcome is \<open>NoNumber\<close>: \<open>scanf\<close> converts nothing and the value is not set.
\<close>

theorem calc_correct: "calc_main (show_e e) = eval_e e"
  using parse_show(1) [of "[]" e "Suc (length (show_e e))"] by (simp add: calc_main_def del: expr.simps)

text \<open>Two signs in front of a number are in the grammar, but not read.\<close>

lemma calc_two_signs:
  "calc_main (sign_char s1 # sign_char s2 # digit_char d # cs) = Inl NoNumber"
proof -
  have "scan_int (sign_char s1 # sign_char s2 # digit_char d # cs) = None"
    by (cases s1; cases s2) (simp_all add: scan_int_def)
  moreover have "sign_char s1 \<in> {CHR ''+'', CHR ''-''}" by (cases s1) auto
  ultimately show ?thesis by (auto simp: calc_main_def term_c_def factor_def)
qed

text \<open>
  The calculator gives the value of the longest prefix that is an expression and ignores the rest of the
  line: \<open>1 2\<close> is \<open>1\<close>, \<open>2)+3\<close> is \<open>2\<close>.
\<close>

lemma calc_ignores_rest:
  assumes "after_expr r"
  shows "calc_main (show_e e @ r) = eval_e e"
  using parse_show(1) [OF assms, of e "Suc (length (show_e e @ r))"] by (simp add: calc_main_def del: expr.simps)

end
