(* ===== verification/Fb3_Calc.thy ===== *)
theory Fb3_Calc
  imports Prelude
begin

text \<open>
  The syntax trees of the calculator \<open>flex_and_bison/code/calc_2/fb3-1.c\<close>, in memory: the constructors
  \<open>newast\<close> and \<open>newnum\<close>, the evaluator and \<open>treefree\<close>. The heap maps the address of each live node to its
  fields; \<open>malloc\<close> and the arithmetic of \<open>double\<close> are arguments. Reading through \<open>NULL\<close> or a freed node
  is a fault; \<open>None\<close> stands for a recursion that does not end.
\<close>

section \<open>Nodes\<close>

datatype 'v node = Ast char "nat option" "nat option" | Numval 'v

type_synonym 'v nodes = "nat \<Rightarrow> 'v node option"

datatype ast_error = Fault fault | OutOfSpace | BadNode char

record 'v arith =
  r_add :: "'v \<Rightarrow> 'v \<Rightarrow> 'v"
  r_sub :: "'v \<Rightarrow> 'v \<Rightarrow> 'v"
  r_mul :: "'v \<Rightarrow> 'v \<Rightarrow> 'v"
  r_div :: "'v \<Rightarrow> 'v \<Rightarrow> 'v"
  r_neg :: "'v \<Rightarrow> 'v"
  r_lt0 :: "'v \<Rightarrow> bool"

definition newast :: "('v nodes \<Rightarrow> nat option) \<Rightarrow> char \<Rightarrow> nat option \<Rightarrow> nat option \<Rightarrow> 'v nodes \<Rightarrow> ast_error + nat \<times> 'v nodes" where
  "newast malloc nodetype l r h =
     (case malloc h of None \<Rightarrow> Inl OutOfSpace | Some a \<Rightarrow> Inr (a, h(a \<mapsto> Ast nodetype l r)))"

definition newnum :: "('v nodes \<Rightarrow> nat option) \<Rightarrow> 'v \<Rightarrow> 'v nodes \<Rightarrow> ast_error + nat \<times> 'v nodes" where
  "newnum malloc d h = (case malloc h of None \<Rightarrow> Inl OutOfSpace | Some a \<Rightarrow> Inr (a, h(a \<mapsto> Numval d)))"

definition node_at :: "'v nodes \<Rightarrow> nat option \<Rightarrow> ast_error + 'v node" where
  "node_at h p = (case p of None \<Rightarrow> Inl (Fault NullDeref)
     | Some a \<Rightarrow> (case h a of None \<Rightarrow> Inl (Fault OutOfBounds) | Some n \<Rightarrow> Inr n))"

section \<open>eval\<close>

definition binary :: "'v arith \<Rightarrow> char \<Rightarrow> ('v \<Rightarrow> 'v \<Rightarrow> 'v) option" where
  "binary ar t = (if t = CHR ''+'' then Some (r_add ar) else if t = CHR ''-'' then Some (r_sub ar)
     else if t = CHR ''*'' then Some (r_mul ar) else if t = CHR ''/'' then Some (r_div ar) else None)"

definition unary :: "'v arith \<Rightarrow> char \<Rightarrow> ('v \<Rightarrow> 'v) option" where
  "unary ar t = (if t = CHR ''|'' then Some (\<lambda>v. if r_lt0 ar v then r_neg ar v else v)
     else if t = CHR ''M'' then Some (r_neg ar) else None)"

partial_function (option) eval :: "'v arith \<Rightarrow> 'v nodes \<Rightarrow> nat option \<Rightarrow> (ast_error + 'v) option" where
  "eval ar h a =
     (case node_at h a of
        Inl e \<Rightarrow> Some (Inl e)
      | Inr (Numval v) \<Rightarrow> Some (Inr v)
      | Inr (Ast t l r) \<Rightarrow>
          (case binary ar t of
             Some f \<Rightarrow>
               Option.bind (eval ar h l) (\<lambda>x. case x of Inl e \<Rightarrow> Some (Inl e) | Inr v \<Rightarrow>
               Option.bind (eval ar h r) (\<lambda>y. case y of Inl e \<Rightarrow> Some (Inl e) | Inr w \<Rightarrow> Some (Inr (f v w))))
           | None \<Rightarrow>
               (case unary ar t of
                  Some f \<Rightarrow> Option.bind (eval ar h l) (\<lambda>x. case x of Inl e \<Rightarrow> Some (Inl e) | Inr v \<Rightarrow> Some (Inr (f v)))
                | None \<Rightarrow> Some (Inl (BadNode t)))))"

section \<open>treefree\<close>

text \<open>The cases of the switch fall through: first the right child, then the left one, then the node.\<close>

definition has_right :: "char \<Rightarrow> bool" where
  "has_right t = (t = CHR ''+'' \<or> t = CHR ''-'' \<or> t = CHR ''*'' \<or> t = CHR ''/'')"

definition has_left :: "char \<Rightarrow> bool" where
  "has_left t = (has_right t \<or> t = CHR ''|'' \<or> t = CHR ''M'')"

partial_function (option) treefree :: "nat option \<Rightarrow> 'v nodes \<Rightarrow> (ast_error + 'v nodes) option" where
  "treefree a h =
     (case node_at h a of
        Inl e \<Rightarrow> Some (Inl e)
      | Inr (Numval v) \<Rightarrow> Some (Inr (h(the a := None)))
      | Inr (Ast t l r) \<Rightarrow>
          if \<not> has_left t then Some (Inl (BadNode t))
          else Option.bind (if has_right t then treefree r h else Some (Inr h)) (\<lambda>x. case x of Inl e \<Rightarrow> Some (Inl e) | Inr h \<Rightarrow>
               Option.bind (treefree l h) (\<lambda>y. case y of Inl e \<Rightarrow> Some (Inl e) | Inr h \<Rightarrow>
               Some (Inr (h(the a := None))))))"

section \<open>Trees\<close>

text \<open>
  The expressions of \<open>fb3-1.y\<close>, with operators of their own, and their values; the characters by which the
  actions of the grammar name the operators. (No rule of the grammar builds an absolute value, which \<open>eval\<close>
  and \<open>treefree\<close> know.)
\<close>

datatype binop = Sum | Difference | Product | Quotient

datatype unop = Absolute | Negative

datatype 'v tree = K 'v | Binary binop "'v tree" "'v tree" | Unary unop "'v tree"

fun binop_value :: "'v arith \<Rightarrow> binop \<Rightarrow> 'v \<Rightarrow> 'v \<Rightarrow> 'v" where
  "binop_value ar Sum v w = r_add ar v w"
| "binop_value ar Difference v w = r_sub ar v w"
| "binop_value ar Product v w = r_mul ar v w"
| "binop_value ar Quotient v w = r_div ar v w"

fun unop_value :: "'v arith \<Rightarrow> unop \<Rightarrow> 'v \<Rightarrow> 'v" where
  "unop_value ar Absolute v = (if r_lt0 ar v then r_neg ar v else v)"
| "unop_value ar Negative v = r_neg ar v"

fun tree_value :: "'v arith \<Rightarrow> 'v tree \<Rightarrow> 'v" where
  "tree_value ar (K v) = v"
| "tree_value ar (Binary b x y) = binop_value ar b (tree_value ar x) (tree_value ar y)"
| "tree_value ar (Unary u x) = unop_value ar u (tree_value ar x)"

fun binop_char :: "binop \<Rightarrow> char" where
  "binop_char Sum = CHR ''+''"
| "binop_char Difference = CHR ''-''"
| "binop_char Product = CHR ''*''"
| "binop_char Quotient = CHR ''/''"

fun unop_char :: "unop \<Rightarrow> char" where
  "unop_char Absolute = CHR ''|''"
| "unop_char Negative = CHR ''M''"

text \<open>The tree stands in the heap at an address, on a set of nodes that are its own.\<close>

fun stands :: "'v nodes \<Rightarrow> nat \<Rightarrow> 'v tree \<Rightarrow> nat set \<Rightarrow> bool" where
  "stands h a (K v) S = (h a = Some (Numval v) \<and> S = {a})"
| "stands h a (Binary b x y) S = (\<exists>l r L R. h a = Some (Ast (binop_char b) (Some l) (Some r)) \<and> stands h l x L \<and> stands h r y R
     \<and> L \<inter> R = {} \<and> a \<notin> L \<union> R \<and> S = insert a (L \<union> R))"
| "stands h a (Unary u x) S = (\<exists>l r L. h a = Some (Ast (unop_char u) (Some l) r) \<and> stands h l x L \<and> a \<notin> L \<and> S = insert a L)"

lemma stands_BinaryI:
  "h a = Some (Ast (binop_char b) (Some l) (Some r)) \<Longrightarrow> stands h l x L \<Longrightarrow> stands h r y R \<Longrightarrow> L \<inter> R = {} \<Longrightarrow> a \<notin> L \<union> R \<Longrightarrow>
   stands h a (Binary b x y) (insert a (L \<union> R))"
  unfolding stands.simps by blast

lemma stands_UnaryI:
  "h a = Some (Ast (unop_char u) (Some l) r) \<Longrightarrow> stands h l x L \<Longrightarrow> a \<notin> L \<Longrightarrow> stands h a (Unary u x) (insert a L)"
  unfolding stands.simps by blast

lemma stands_frame: "stands h a t S \<Longrightarrow> (\<And>b. b \<in> S \<Longrightarrow> h' b = h b) \<Longrightarrow> stands h' a t S"
proof (induction t arbitrary: a S)
  case (Binary c x y)
  from Binary.prems(1) obtain l r L R where n: "h a = Some (Ast (binop_char c) (Some l) (Some r))" "stands h l x L" "stands h r y R"
    "L \<inter> R = {}" "a \<notin> L \<union> R" "S = insert a (L \<union> R)" by auto
  have "h' a = Some (Ast (binop_char c) (Some l) (Some r))" using n(1,6) Binary.prems(2) [of a] by simp
  moreover have "stands h' l x L" by (rule Binary.IH(1) [OF n(2)]) (simp add: Binary.prems(2) n(6))
  moreover have "stands h' r y R" by (rule Binary.IH(2) [OF n(3)]) (simp add: Binary.prems(2) n(6))
  ultimately show ?case unfolding n(6) using n(4,5) by (rule stands_BinaryI)
next
  case (Unary c x)
  from Unary.prems(1) obtain l r L where n: "h a = Some (Ast (unop_char c) (Some l) r)" "stands h l x L" "a \<notin> L" "S = insert a L" by auto
  have "h' a = Some (Ast (unop_char c) (Some l) r)" using n(1,4) Unary.prems(2) [of a] by simp
  moreover have "stands h' l x L" by (rule Unary.IH [OF n(2)]) (simp add: Unary.prems(2) n(4))
  ultimately show ?case unfolding n(4) using n(3) by (rule stands_UnaryI)
qed auto

lemma binary_of_binop [simp]: "binary ar (binop_char b) = Some (binop_value ar b)"
  by (cases b) (simp_all add: binary_def fun_eq_iff)

lemma unary_of_unop [simp]: "binary ar (unop_char u) = None" "unary ar (unop_char u) = Some (unop_value ar u)"
  by (cases u; simp add: binary_def unary_def fun_eq_iff)+

lemma children_of_ops [simp]: "has_right (binop_char b)" "has_left (binop_char b)" "\<not> has_right (unop_char u)" "has_left (unop_char u)"
  by (cases b; simp add: has_right_def has_left_def) (cases b; cases u; simp add: has_right_def has_left_def)+

lemma eval_stands: "stands h a t S \<Longrightarrow> eval ar h (Some a) = Some (Inr (tree_value ar t))"
proof (induction t arbitrary: a S)
  case (K v)
  then show ?case by (subst eval.simps) (simp add: node_at_def)
next
  case (Binary c x y)
  then obtain l r L R where "h a = Some (Ast (binop_char c) (Some l) (Some r))" "stands h l x L" "stands h r y R" by auto
  then show ?case using Binary.IH by (subst eval.simps) (simp add: node_at_def)
next
  case (Unary c x)
  then obtain l r L where "h a = Some (Ast (unop_char c) (Some l) r)" "stands h l x L" by auto
  then show ?case using Unary.IH by (subst eval.simps) (simp add: node_at_def)
qed

definition free_all :: "'v nodes \<Rightarrow> nat set \<Rightarrow> 'v nodes" where
  "free_all h S = (\<lambda>b. if b \<in> S then None else h b)"

lemma treefree_stands: "stands h a t S \<Longrightarrow> treefree (Some a) h = Some (Inr (free_all h S))"
proof (induction t arbitrary: a S h)
  case (K v)
  then show ?case by (subst treefree.simps) (simp add: node_at_def free_all_def fun_upd_def)
next
  case (Binary c x y)
  then obtain l r L R where n: "h a = Some (Ast (binop_char c) (Some l) (Some r))" "stands h l x L" "stands h r y R" "L \<inter> R = {}" "a \<notin> L \<union> R"
    "S = insert a (L \<union> R)" by auto
  have "treefree (Some r) h = Some (Inr (free_all h R))" using Binary n by simp
  moreover have "stands (free_all h R) l x L" using n(2) by (rule stands_frame) (use n(4) in \<open>auto simp: free_all_def\<close>)
  then have "treefree (Some l) (free_all h R) = Some (Inr (free_all (free_all h R) L))" using Binary by simp
  moreover have "(free_all (free_all h R) L)(a := None) = free_all h S" by (auto simp: free_all_def n(6))
  ultimately show ?case using n(1) by (subst treefree.simps) (simp add: node_at_def)
next
  case (Unary c x)
  then obtain l r L where n: "h a = Some (Ast (unop_char c) (Some l) r)" "stands h l x L" "a \<notin> L" "S = insert a L" by auto
  then have "treefree (Some l) h = Some (Inr (free_all h L))" using Unary by simp
  moreover have "(free_all h L)(a := None) = free_all h S" by (auto simp: free_all_def n(4))
  ultimately show ?case using n(1) by (subst treefree.simps) (simp add: node_at_def)
qed

section \<open>Building a tree\<close>

text \<open>The actions of the grammar build a tree from the leaves up.\<close>

fun build :: "('v nodes \<Rightarrow> nat option) \<Rightarrow> 'v tree \<Rightarrow> 'v nodes \<Rightarrow> ast_error + nat \<times> 'v nodes" where
  "build malloc (K v) h = newnum malloc v h"
| "build malloc (Binary c x y) h =
     bindE (build malloc x h) (\<lambda>(l, h). bindE (build malloc y h) (\<lambda>(r, h). newast malloc (binop_char c) (Some l) (Some r) h))"
| "build malloc (Unary c x) h = bindE (build malloc x h) (\<lambda>(l, h). newast malloc (unop_char c) (Some l) None h)"

text \<open>\<open>malloc\<close> returns memory that is not in use.\<close>

definition fresh_malloc :: "('v nodes \<Rightarrow> nat option) \<Rightarrow> bool" where
  "fresh_malloc malloc \<longleftrightarrow> (\<forall>h a. malloc h = Some a \<longrightarrow> h a = None)"

lemma stands_dom: "stands h a t S \<Longrightarrow> a \<in> S \<and> (\<forall>b\<in>S. h b \<noteq> None)"
proof (induction t arbitrary: a S)
  case (Binary c x y)
  then obtain l r L R where "h a = Some (Ast (binop_char c) (Some l) (Some r))" "stands h l x L" "stands h r y R" "S = insert a (L \<union> R)" by auto
  then show ?case using Binary.IH by auto
next
  case (Unary c x)
  then obtain l r L where "h a = Some (Ast (unop_char c) (Some l) r)" "stands h l x L" "S = insert a L" by auto
  then show ?case using Unary.IH by auto
qed simp

lemma build_stands:
  assumes "fresh_malloc malloc"
  shows "build malloc t h = Inr (a, h') \<Longrightarrow>
    \<exists>S. stands h' a t S \<and> free_all h' S = h \<and> (\<forall>b\<in>S. h b = None)"
proof (induction t arbitrary: h a h')
  case (K v)
  then have a: "malloc h = Some a" "h' = h(a \<mapsto> Numval v)" by (auto simp: newnum_def split: option.splits)
  then have "h a = None" using assms by (simp add: fresh_malloc_def)
  moreover from this have "free_all h' {a} = h" using a by (auto simp: free_all_def)
  moreover have "stands h' a (K v) {a}" using a by simp
  ultimately show ?case by blast
next
  case (Binary c x y)
  then obtain l h1 r h2 where b: "build malloc x h = Inr (l, h1)" "build malloc y h1 = Inr (r, h2)" "malloc h2 = Some a"
    "h' = h2(a \<mapsto> Ast (binop_char c) (Some l) (Some r))"
    by (cases "build malloc x h"; cases "build malloc y (snd (projr (build malloc x h)))") (auto simp: newast_def split: option.splits)
  obtain L where L: "stands h1 l x L" "free_all h1 L = h" "\<forall>b\<in>L. h b = None" using Binary.IH(1) [OF b(1)] by blast
  obtain R where R: "stands h2 r y R" "free_all h2 R = h1" "\<forall>b\<in>R. h1 b = None" using Binary.IH(2) [OF b(2)] by blast
  have live: "\<forall>b\<in>L. h1 b \<noteq> None" "\<forall>b\<in>R. h2 b \<noteq> None" using stands_dom L(1) R(1) by blast+
  have h2: "h2 b = h1 b" if "b \<notin> R" for b using that by (simp add: R(2) [symmetric] free_all_def)
  have fresh: "h2 a = None" using assms b(3) by (simp add: fresh_malloc_def)
  have LR: "L \<inter> R = {}" using live(1) R(3) by auto
  then have a: "a \<notin> L \<union> R" using fresh live h2 by force
  have "stands h2 l x L" using L(1) by (rule stands_frame) (use LR h2 in auto)
  then have "stands h' l x L" by (rule stands_frame) (use a b(4) in auto)
  moreover have "stands h' r y R" using R(1) by (rule stands_frame) (use a b(4) in auto)
  moreover have "h' a = Some (Ast (binop_char c) (Some l) (Some r))" using b(4) by simp
  ultimately have "stands h' a (Binary c x y) (insert a (L \<union> R))" using LR a stands_BinaryI by blast
  moreover have "free_all h' (insert a (L \<union> R)) = h"
  proof
    fix b show "free_all h' (insert a (L \<union> R)) b = h b"
      using L(3) R(3) fresh a h2 [of a] h2 [of b] by (auto simp: free_all_def b(4) L(2) [symmetric])
  qed
  moreover have "\<forall>b\<in>insert a (L \<union> R). h b = None"
    using L(3) R(3) fresh a h2 [of a] by (auto simp: L(2) [symmetric] free_all_def)
  ultimately show ?case by blast
next
  case (Unary c x)
  then obtain l h1 where b: "build malloc x h = Inr (l, h1)" "malloc h1 = Some a" "h' = h1(a \<mapsto> Ast (unop_char c) (Some l) None)"
    by (cases "build malloc x h") (auto simp: newast_def split: option.splits)
  obtain L where L: "stands h1 l x L" "free_all h1 L = h" "\<forall>b\<in>L. h b = None" using Unary.IH [OF b(1)] by blast
  have fresh: "h1 a = None" using assms b(2) by (simp add: fresh_malloc_def)
  then have a: "a \<notin> L" using stands_dom [OF L(1)] by auto
  have "stands h' l x L" using L(1) by (rule stands_frame) (use a b(3) in auto)
  then have "stands h' a (Unary c x) (insert a L)" by (rule stands_UnaryI [rotated]) (use a b(3) in auto)
  moreover have "free_all h' (insert a L) = h"
  proof
    fix b show "free_all h' (insert a L) b = h b"
      using L(3) fresh a by (auto simp: free_all_def b(3) L(2) [symmetric])
  qed
  moreover have "\<forall>b\<in>insert a L. h b = None" using L(3) fresh a by (auto simp: L(2) [symmetric] free_all_def)
  ultimately show ?case by blast
qed

text \<open>
  C23: What the calculator does with a line: the tree the actions of the grammar build for an expression
  evaluates to the value of the expression, each operator with its own arithmetic, and \<open>treefree\<close> frees each of its nodes once and nothing else, so that after the line the
  heap is the one before it.
\<close>

theorem ast_line:
  assumes "fresh_malloc malloc" and "build malloc t h = Inr (a, h')"
  shows "eval ar h' (Some a) = Some (Inr (tree_value ar t)) \<and> treefree (Some a) h' = Some (Inr h)"
proof -
  obtain S where "stands h' a t S" "free_all h' S = h" using build_stands [OF assms] by blast
  then show ?thesis using eval_stands treefree_stands by metis
qed

definition int_arith :: "int arith" where
  "int_arith = \<lparr>r_add = (+), r_sub = (-), r_mul = (*), r_div = (div), r_neg = uminus, r_lt0 = (\<lambda>v. v < 0)\<rparr>"

definition small_malloc :: "'v nodes \<Rightarrow> nat option" where
  "small_malloc h = List.find (\<lambda>a. h a = None) [0..<8]"

lemma small_malloc_fresh: "fresh_malloc small_malloc"
  by (auto simp: fresh_malloc_def small_malloc_def find_Some_iff)

theorem ast_line_witness:
  "\<exists>a h'. build small_malloc (Binary Product (K 6) (Unary Negative (K 7))) (\<lambda>_. None) = Inr (a, h')
     \<and> eval int_arith h' (Some a) = Some (Inr (- 42)) \<and> treefree (Some a) h' = Some (Inr (\<lambda>_. None))"
proof -
  let ?t = "Binary Product (K 6) (Unary Negative (K (7 :: int)))"
  have "\<exists>a h'. build small_malloc ?t (\<lambda>_. None) = Inr (a, h')"
    by (simp add: newnum_def newast_def small_malloc_def upt_rec)
  then obtain a h' where b: "build small_malloc ?t (\<lambda>_. None) = Inr (a, h')" by blast
  from ast_line [OF small_malloc_fresh b, of int_arith] b show ?thesis by (auto simp: int_arith_def)
qed

end
