(* ===== verification/Calc_LL1.thy ===== *)
theory Calc_LL1
  imports Complex_Main Calc_LL Fb3_Calc
begin

text \<open>
  The LL(1) calculator \<open>programming_language_pragmatics/code/calc_ll_1/main.c\<close>. It reads characters like the
  one of \<^emph>\<open>Calc_LL\<close>, but computes with \<open>double\<close>, whose arithmetic is an argument, like the conversion
  \<open>scanf("%lf")\<close>. In \<open>factor() * factor_tail()\<close> C leaves open which call comes first; the model takes the
  left one first, on which the program relies.
\<close>

section \<open>The functions of the program\<close>

record 'v arith1 = "'v arith" +
  r_one :: 'v
  r_zero :: 'v

type_synonym 'v scanner = "string \<Rightarrow> ('v \<times> string) option"

type_synonym 'v parser1 = "input \<Rightarrow> calc_error + 'v \<times> input"

definition END_TOKEN :: char where "END_TOKEN = CHR 0x0A"

definition factor1 :: "'v scanner \<Rightarrow> 'v parser1 \<Rightarrow> 'v parser1" where
  "factor1 scan ex inp =
     (case fst inp of
        None \<Rightarrow> Inl (Error ''bad factor'')
      | Some c \<Rightarrow>
          if c = CHR ''(''
          then bindE (match CHR ''('' inp) (\<lambda>inp.
               bindE (ex inp) (\<lambda>(value, inp).
               bindE (match CHR '')'' inp) (\<lambda>inp. Inr (value, inp))))
          else if isdigit c \<or> c = CHR ''+'' \<or> c = CHR ''-''
          then (case scan (c # snd inp) of None \<Rightarrow> Inl NoNumber | Some (value, rest) \<Rightarrow> Inr (value, getchar rest))
          else Inl (Error ''bad factor''))"

primrec factor_tail :: "nat \<Rightarrow> 'v arith1 \<Rightarrow> 'v scanner \<Rightarrow> 'v parser1 \<Rightarrow> 'v parser1" where
  "factor_tail 0 ar scan ex inp = Inl NoFuel"
| "factor_tail (Suc n) ar scan ex inp =
     (if fst inp = Some CHR ''*''
      then bindE (match CHR ''*'' inp) (\<lambda>inp.
           bindE (factor1 scan ex inp) (\<lambda>(v, inp).
           bindE (factor_tail n ar scan ex inp) (\<lambda>(w, inp). Inr (r_mul ar v w, inp))))
      else if fst inp = Some CHR ''/''
      then bindE (match CHR ''/'' inp) (\<lambda>inp.
           bindE (factor1 scan ex inp) (\<lambda>(v, inp).
           bindE (factor_tail n ar scan ex inp) (\<lambda>(w, inp). Inr (r_mul ar (r_div ar (r_one ar) v) w, inp))))
      else if fst inp \<in> {Some CHR ''+'', Some CHR ''-'', Some END_TOKEN} then Inr (r_one ar, inp)
      else Inl (Error ''bad factor_tail''))"

definition term1 :: "nat \<Rightarrow> 'v arith1 \<Rightarrow> 'v scanner \<Rightarrow> 'v parser1 \<Rightarrow> 'v parser1" where
  "term1 n ar scan ex inp =
     bindE (factor1 scan ex inp) (\<lambda>(v, inp).
     bindE (factor_tail n ar scan ex inp) (\<lambda>(w, inp). Inr (r_mul ar v w, inp)))"

primrec term_tail :: "nat \<Rightarrow> nat \<Rightarrow> 'v arith1 \<Rightarrow> 'v scanner \<Rightarrow> 'v parser1 \<Rightarrow> 'v parser1" where
  "term_tail 0 m ar scan ex inp = Inl NoFuel"
| "term_tail (Suc n) m ar scan ex inp =
     (if fst inp = Some CHR ''+''
      then bindE (match CHR ''+'' inp) (\<lambda>inp.
           bindE (term1 m ar scan ex inp) (\<lambda>(v, inp).
           bindE (term_tail n m ar scan ex inp) (\<lambda>(w, inp). Inr (r_add ar v w, inp))))
      else if fst inp = Some CHR ''-''
      then bindE (match CHR ''-'' inp) (\<lambda>inp.
           bindE (term1 m ar scan ex inp) (\<lambda>(v, inp).
           bindE (term_tail n m ar scan ex inp) (\<lambda>(w, inp). Inr (r_add ar (r_neg ar v) w, inp))))
      else if fst inp = Some END_TOKEN then Inr (r_zero ar, inp)
      else Inl (Error ''bad term_tail''))"

primrec expr1 :: "nat \<Rightarrow> 'v arith1 \<Rightarrow> 'v scanner \<Rightarrow> 'v parser1" where
  "expr1 0 ar scan inp = Inl NoFuel"
| "expr1 (Suc n) ar scan inp =
     bindE (term1 n ar scan (expr1 n ar scan) inp) (\<lambda>(v, inp).
     bindE (term_tail n n ar scan (expr1 n ar scan) inp) (\<lambda>(w, inp). Inr (r_add ar v w, inp)))"

definition calc1_main :: "'v arith1 \<Rightarrow> 'v scanner \<Rightarrow> string \<Rightarrow> calc_error + 'v" where
  "calc1_main ar scan stdin = bindE (expr1 (Suc (length stdin)) ar scan (getchar stdin)) (\<lambda>(result, inp). Inr result)"

section \<open>Parentheses\<close>

text \<open>An expression ends only at the end of the line.\<close>

lemma term_tail_END: "term_tail n m ar scan ex inp = Inr (v, inp') \<Longrightarrow> fst inp' = Some END_TOKEN"
proof (induction n arbitrary: inp v)
  case (Suc n)
  then show ?case by (fastforce split: if_splits elim!: bindE_InrE)
qed simp

lemma expr1_END: "expr1 n ar scan inp = Inr (v, inp') \<Longrightarrow> fst inp' = Some END_TOKEN"
  by (cases n) (auto elim!: bindE_InrE dest: term_tail_END)

lemma factor1_paren: "factor1 scan (expr1 n ar scan) (Some CHR ''('', cs) \<noteq> Inr y"
proof
  assume "factor1 scan (expr1 n ar scan) (Some CHR ''('', cs) = Inr y"
  then obtain inp v inp' where "expr1 n ar scan inp = Inr (v, inp')" "match CHR '')'' inp' \<noteq> Inl (Expected CHR '')'')"
    by (auto simp: factor1_def elim!: bindE_InrE)
  then show False using expr1_END by (fastforce simp: match_def END_TOKEN_def)
qed

text \<open>
  The grammar has \<open>'(' expr ')'\<close>, but no line that begins with a parenthesis is ever accepted:
  \<open>factor_tail\<close> and \<open>term_tail\<close> take only the end of the line for the end of an expression, so that a
  closing parenthesis is an error and a missing one is too.
\<close>

theorem ll1_rejects_parentheses: "calc1_main ar scan (CHR ''('' # cs) \<noteq> Inr v"
proof
  assume "calc1_main ar scan (CHR ''('' # cs) = Inr v"
  then obtain n y where "factor1 scan (expr1 n ar scan) (Some CHR ''('', cs) = Inr y"
    by (auto simp: calc1_main_def term1_def elim!: bindE_InrE)
  then show False using factor1_paren by metis
qed

section \<open>Expressions without parentheses and with at most one sign at a number\<close>

fun plain_f :: "fac \<Rightarrow> bool" where
  "plain_f (Number ss d ds) = (length ss \<le> 1)"
| "plain_f (Paren e) = False"

fun plain_t :: "trm \<Rightarrow> bool" where
  "plain_t (Term f fs) = (plain_f f \<and> list_all (\<lambda>(_, f). plain_f f) fs)"

fun plain :: "expression \<Rightarrow> bool" where
  "plain (Expr t ts) = (plain_t t \<and> list_all (\<lambda>(_, t). plain_t t) ts)"

text \<open>The value, from left to right, over the real numbers.\<close>

fun real_f :: "fac \<Rightarrow> real" where
  "real_f (Number ss d ds) = of_int (number_value ss d ds)"
| "real_f (Paren e) = 0"

fun real_t :: "trm \<Rightarrow> real" where
  "real_t (Term f fs) = foldl (\<lambda>v (mul, f). if mul then v * real_f f else v / real_f f) (real_f f) fs"

fun real_e :: "expression \<Rightarrow> real" where
  "real_e (Expr t ts) = foldl (\<lambda>v (pls, t). if pls then v + real_t t else v - real_t t) (real_t t) ts"

definition real_arith :: "real arith1" where
  "real_arith = \<lparr>r_add = (+), r_sub = (-), r_mul = (*), r_div = (/), r_neg = uminus, r_lt0 = (\<lambda>v. v < 0), r_one = 1, r_zero = 0\<rparr>"

text \<open>\<open>scanf\<close> converts a numeral with at most one sign in front of an operator or the end of the line.\<close>

definition reads_numbers :: "real scanner \<Rightarrow> bool" where
  "reads_numbers scan \<longleftrightarrow> (\<forall>ss d ds c r. length ss \<le> 1 \<and> c \<in> {CHR ''*'', CHR ''/'', CHR ''+'', CHR ''-'', END_TOKEN} \<longrightarrow>
     scan (show_f (Number ss d ds) @ c # r) = Some (real_f (Number ss d ds), c # r))"

lemma factor1_number:
  assumes "reads_numbers scan" and "plain_f f" and "c \<in> {CHR ''*'', CHR ''/'', CHR ''+'', CHR ''-'', END_TOKEN}"
  shows "factor1 scan ex (getchar (show_f f @ c # r)) = Inr (real_f f, getchar (c # r))"
proof -
  obtain ss d ds where f: "f = Number ss d ds" "length ss \<le> 1" using assms(2) by (cases f) auto
  have "scan (show_f f @ c # r) = Some (real_f f, c # r)"
    unfolding f(1) using assms(1,3) f(2) unfolding reads_numbers_def by blast
  moreover obtain x xs where "show_f f @ c # r = x # xs" "x \<noteq> CHR ''(''" "isdigit x \<or> x = CHR ''+'' \<or> x = CHR ''-''"
    using number_head [of ss d ds "c # r"] unfolding f(1) by blast
  ultimately show ?thesis by (auto simp: factor1_def)
qed

definition tail_product :: "(bool \<times> fac) list \<Rightarrow> real" where
  "tail_product fs = foldr (\<lambda>(mul, f) w. (if mul then real_f f else 1 / real_f f) * w) fs 1"

lemma product_left: "foldl (\<lambda>v (mul, f). if mul then v * real_f f else v / real_f f) v fs = v * tail_product fs"
  by (induction fs arbitrary: v) (auto simp: tail_product_def)

definition tail_sum :: "(bool \<times> trm) list \<Rightarrow> real" where
  "tail_sum ts = foldr (\<lambda>(pls, t) w. (if pls then real_t t else - real_t t) + w) ts 0"

lemma sum_left: "foldl (\<lambda>v (pls, t). if pls then v + real_t t else v - real_t t) v ts = v + tail_sum ts"
  by (induction ts arbitrary: v) (auto simp: tail_sum_def)

abbreviation (input) ends_term :: "char \<Rightarrow> bool" where
  "ends_term c \<equiv> c \<in> {CHR ''+'', CHR ''-'', END_TOKEN}"

lemma factor_tail_plain:
  assumes "reads_numbers scan" and "ends_term c"
  shows "list_all (\<lambda>(_, f). plain_f f) fs \<Longrightarrow> length fs < n \<Longrightarrow>
    factor_tail n real_arith scan ex (getchar (show_fs fs @ c # r)) = Inr (tail_product fs, getchar (c # r))"
proof (induction fs arbitrary: n)
  case Nil
  then obtain n' where "n = Suc n'" by (cases n) auto
  then show ?case using assms(2) by (auto simp: tail_product_def real_arith_def END_TOKEN_def)
next
  case (Cons mf fs)
  obtain mul f where mf: "mf = (mul, f)" by (cases mf)
  obtain n' where n: "n = Suc n'" "length fs < n'" using Cons.prems by (cases n) auto
  obtain c' r' where cr: "show_fs fs @ c # r = c' # r'" "c' \<in> {CHR ''*'', CHR ''/'', CHR ''+'', CHR ''-'', END_TOKEN}"
    using assms(2) by (cases fs rule: show_fs.cases) auto
  have "factor1 scan ex (getchar (show_f f @ c' # r')) = Inr (real_f f, getchar (c' # r'))"
    using factor1_number [OF assms(1) _ cr(2)] Cons.prems mf by simp
  moreover have "factor_tail n' real_arith scan ex (getchar (c' # r')) = Inr (tail_product fs, getchar (c # r))"
    using Cons.IH [of n'] Cons.prems n(2) cr(1) by simp
  ultimately show ?case unfolding n(1) mf
    by (simp add: match_def cr(1)) (simp add: tail_product_def real_arith_def)
qed

lemma term1_plain:
  assumes "reads_numbers scan" and "ends_term c" and "plain_t t" and "length (show_t t) \<le> n"
  shows "term1 n real_arith scan ex (getchar (show_t t @ c # r)) = Inr (real_t t, getchar (c # r))"
proof -
  obtain f fs where t: "t = Term f fs" by (cases t)
  obtain c' r' where cr: "show_fs fs @ c # r = c' # r'" "c' \<in> {CHR ''*'', CHR ''/'', CHR ''+'', CHR ''-'', END_TOKEN}"
    using assms(2) by (cases fs rule: show_fs.cases) auto
  have "length fs \<le> length (show_fs fs)" by (induction fs) auto
  then have "length fs < n" using assms(4) show_nonempty_f [of f] unfolding t by simp
  then have "factor_tail n real_arith scan ex (getchar (c' # r')) = Inr (tail_product fs, getchar (c # r))"
    using factor_tail_plain [OF assms(1,2), of fs n ex r] assms(3) unfolding t cr(1) by simp
  moreover have "factor1 scan ex (getchar (show_f f @ c' # r')) = Inr (real_f f, getchar (c' # r'))"
    using factor1_number [OF assms(1) _ cr(2)] assms(3) t by simp
  ultimately show ?thesis by (simp add: t term1_def cr(1) product_left) (simp add: real_arith_def)
qed

lemma term_tail_plain:
  assumes "reads_numbers scan"
  shows "list_all (\<lambda>(_, t). plain_t t) ts \<Longrightarrow> length ts < n \<Longrightarrow> length (show_ts ts) \<le> m \<Longrightarrow>
    term_tail n m real_arith scan ex (getchar (show_ts ts @ [END_TOKEN])) = Inr (tail_sum ts, getchar [END_TOKEN])"
proof (induction ts arbitrary: n)
  case Nil
  then obtain n' where "n = Suc n'" by (cases n) auto
  then show ?case by (simp add: tail_sum_def real_arith_def END_TOKEN_def)
next
  case (Cons pt ts)
  obtain pls t where pt: "pt = (pls, t)" by (cases pt)
  obtain n' where n: "n = Suc n'" "length ts < n'" using Cons.prems by (cases n) auto
  obtain c' r' where cr: "show_ts ts @ [END_TOKEN] = c' # r'" "ends_term c'" by (cases ts rule: show_ts.cases) auto
  have "term1 m real_arith scan ex (getchar (show_t t @ c' # r')) = Inr (real_t t, getchar (c' # r'))"
    using term1_plain [OF assms cr(2)] Cons.prems pt by simp
  moreover have "term_tail n' m real_arith scan ex (getchar (c' # r')) = Inr (tail_sum ts, getchar [END_TOKEN])"
    using Cons.IH [of n'] Cons.prems n(2) cr(1) pt by simp
  ultimately show ?case unfolding n(1) pt
    by (simp add: match_def cr(1) del: getchar.simps(2)) (simp add: tail_sum_def real_arith_def END_TOKEN_def)
qed

text \<open>
  On a line without parentheses the program computes, in exact arithmetic, the usual value: its tails
  multiply and add from the right, by reciprocals and negated terms, which over the real numbers is
  the value from left to right.
\<close>

theorem ll1_correct:
  assumes "reads_numbers scan" and "plain e"
  shows "calc1_main real_arith scan (show_e e @ [END_TOKEN]) = Inr (real_e e)"
proof -
  obtain t ts where e: "e = Expr t ts" by (cases e)
  obtain c' r' where cr: "show_ts ts @ [END_TOKEN] = c' # r'" "ends_term c'" by (cases ts rule: show_ts.cases) auto
  define n where "n = length (show_e e @ [END_TOKEN])"
  have "length ts \<le> length (show_ts ts)" by (induction ts) auto
  then have n: "length ts < n" "length (show_ts ts) \<le> n" "length (show_t t) \<le> n" by (simp_all add: n_def e)
  have "term_tail n n real_arith scan (expr1 n real_arith scan) (getchar (c' # r')) = Inr (tail_sum ts, getchar [END_TOKEN])"
    using term_tail_plain [OF assms(1) _ n(1,2)] assms(2) unfolding e cr(1) by simp
  moreover have "term1 n real_arith scan (expr1 n real_arith scan) (getchar (show_t t @ c' # r')) = Inr (real_t t, getchar (c' # r'))"
    using term1_plain [OF assms(1) cr(2) _ n(3)] assms(2) e by simp
  ultimately have "expr1 (Suc n) real_arith scan (getchar (show_e e @ [END_TOKEN])) = Inr (real_e e, getchar [END_TOKEN])"
    by (simp add: e cr(1) sum_left del: getchar.simps(2)) (simp add: real_arith_def)
  then show ?thesis by (simp add: calc1_main_def n_def del: expr1.simps)
qed

definition int_scan :: "real scanner" where
  "int_scan cs = map_option (\<lambda>(v, r). (real_of_int v, r)) (scan_int cs)"

lemma int_scan_reads: "reads_numbers int_scan"
proof -
  have "int_scan (show_f (Number ss d ds) @ c # r) = Some (real_f (Number ss d ds), c # r)"
    if "length ss \<le> 1" "c \<in> {CHR ''*'', CHR ''/'', CHR ''+'', CHR ''-'', END_TOKEN}" for ss d ds c r
  proof -
    have "\<not> isdigit c" using that(2) by (auto simp: isdigit_def END_TOKEN_def)
    then show ?thesis using scan_int_number [of "c # r" ss d ds] that(1) by (simp add: int_scan_def del: show_f.simps)
  qed
  then show ?thesis by (simp add: reads_numbers_def)
qed

theorem ll1_correct_witness:
  "calc1_main real_arith int_scan (show_e (Expr (Term (Number [] D0 [D7]) [(False, Number [Plus_sign] D2 [])]) [(False, Term (Number [Minus_sign] D3 []) [])])
     @ [END_TOKEN]) = Inr (13 / 2)"
  using ll1_correct [OF int_scan_reads, of "Expr (Term (Number [] D0 [D7]) [(False, Number [Plus_sign] D2 [])]) [(False, Term (Number [Minus_sign] D3 []) [])]"]
  by (simp add: number_value_def decimal_value_def)

end
