(* ===== verification/Spec2Isabelle.thy ===== *)
theory Spec2Isabelle
  imports Scull_Module Scull_Proc Scull_Session Oranges_Stages Oranges_Prot_Stages Oranges_Keyboard MiniCRT_Stdio Timer_Server Thread_Pool
    Chat_Server Epoll_Servers Io_Multiplex Net_Programs Process_Pairs File_Programs Ipc_Programs Shared_Mutex Ostep_Concurrency Lock_Clients Wait_Notify Data_Race
    Rw_Lock Cpp_Tasks Cpp_Futures Calc_LL Calc_LL1
begin

text \<open>
  The repository collects the programs its author wrote while studying systems software. This development
  models those that have logic of their own and proves what makes them correct, or shows where they
  are not. Paths below are relative to \<open>src/\<close>.

  \<^bold>\<open>How code becomes definitions.\<close> A struct is a record, an enumeration a datatype, a function of
  the source a HOL function of the same name that takes the state it uses and returns it changed. Integers
  whose width matters are words, or \<open>int\<close> with the wrap-around written out (\<open>u32\<close>, \<open>s32\<close>, \<open>u64\<close>, \<open>s64\<close>
  of Prelude). A pointer that may be null is an option; where nodes are shared there is an explicit
  store. Everything that ends a run abnormally is a value: \<open>fault\<close> for the memory and the processor, the
  error numbers of the kernel as negative results, error datatypes of the calculators. What other
  software decides is an argument: the kernel allocator, system calls, user memory, wake-ups, the
  scheduler of threads, the C library's conversion of floating point numbers, the addresses a linker
  chooses. Critical sections are single steps, and an interleaving is a sequence of steps.

  \<^bold>\<open>Prelude.\<close> C integers, faults, the sequencing of fallible code, the allocator and the shared
  interfaces as locales: \<open>relation_inv\<close> and \<open>transition_inv\<close> (an invariant of one step holds in every
  state reached), \<open>queue\<close> (elements leave in the order in which they came) and \<open>fifo\<close> (a queue that never
  exceeds its capacity). They are interpreted on the interleaved opens of the single-open device, the
  sessions of pipe devices, the scull pipe, the uid device, the scan code buffer of the keyboard, the thread
  pool, the connections of the echo server, the pipe of the chat client,
  the racing threads, the callers of \<open>fetch_mult\<close>, the telephone book, the shared counter,
  the packaged tasks, the readers of a future and the users of a singleton. \<open>explored\<close> and \<open>finite_program\<close> are for programs with few
  states: the function \<open>explore\<close> enumerates what can be reached, and the locales turn a list closed under
  the steps into an invariant, and a list of which every state leads to an end into progress. Two
  more contracts stand where they are used: \<open>lock\<close> in Lock_Clients, interpreted on the spin lock, two kinds of
  semaphore and the mutex, and \<open>round_robin\<close> in Oranges_Stages, interpreted on four clock interrupts.

  \<^bold>\<open>The scull driver\<close>, \<open>linux_device_drivers/code/scull\<close>. Scull_Main translates the bare device of
  \<open>main.c\<close> (open, release, read, write, seek, trim), Scull_Ioctl its parameters, Scull_Pipe the pipe
  devices of \<open>pipe.c\<close>, Scull_Access the four policies of \<open>access.c\<close>, Scull_Module loading and
  unloading with the table of character devices, and Scull_Proc the \<open>/proc\<close> files. Scull_Content abstracts the list of quantum sets to a map from positions to bytes,
  Scull_Spec shows that every operation implements its effect on that map, and Scull_Theorems states
  what follows: writes are safe and lose no memory, reads return what was written. Scull_Session puts the
  operations together: along every sequence of calls on any number of open files the device stays well
  formed and owns what was allocated. The pipe is a
  bounded queue along every interleaving, \<open>poll\<close> tells the truth, the exclusive device admits one opener,
  a release wakes whoever can now open. The theories also show what goes wrong when a parameter is
  read before the mutex is taken, when a pipe is reopened with another buffer size and when a failed
  \<open>ioctl\<close> stores zero.

  \<^bold>\<open>The Orange'S kernel\<close>, \<open>oranges/code/io/cursor\<close>, the last stage of the kernel in the
  repository. Oranges_Hw: ports, the interrupt controller, text output. Oranges_Protect: descriptors and
  gates, \<open>init_prot\<close>, the exception screen. Oranges_Sched: process table, clock interrupt, scheduler and
  the start of the processes; \<open>schedule\<close> is partial, and it returns exactly when some process can run.
  Oranges_Stages: how the seven stages before it start their processes, and their clock interrupts, which share
  the processor in turn until priorities come in. Oranges_Prot_Stages: the descriptors, gates and interrupt controller that
  each of these stages sets up on its own.
  Oranges_Keymap and Oranges_Keyboard: the key table, the buffer between interrupt handler and task, the
  decoder and the terminal; typing text on a keyboard puts that text into video memory, as long as it fits there
  and the buffer does not overflow.

  \<^bold>\<open>MiniCRT\<close>, a C runtime library in the miniCRT directory. MiniCRT_Malloc has the heap at the level
  of bytes in memory, where block headers and payloads lie side by side: \<open>malloc\<close> is a first-fit
  allocator and \<open>free\<close> joins neighbours, as long as the backward pointers are right, which splitting does
  not ensure. MiniCRT_Stdio has strings, files, \<open>fprintf\<close> and the entry point, over a kernel that is an
  argument.

  \<^bold>\<open>Servers\<close>, \<open>high_perf_linux_server_prog/code\<close>. Timer_List and Timer_Server: the sorted list of
  connection timers on an explicit store, and the event loop that closes idle connections. Thread_Pool:
  tasks run in the order they were added, and no thread sleeps through work. Chat_Server: the \<open>poll\<close>
  loop of the chat demo, over memory that \<open>new\<close> leaves indeterminate: never out of range, at most five
  clients, a message to everybody else while nobody interferes, and what happens when a client leaves too early.
  Epoll_Servers: the echo server, which hands back what came in, of which the kernel may take less than all, and
  the server that takes its signals from a pipe. Io_Multiplex: the servers with \<open>select\<close>, \<open>poll\<close> and \<open>epoll\<close>,
  which do the same as long as nothing fails, up to urgent data at the end of the stream, the one with \<open>SIGURG\<close>, connecting with a time limit, and the client of the chat server.
  Sys_Calls: a program as a tree of system calls, each continued with what the kernel answers, and the conversion of
  addresses from and to text. Server_Setup: with it, how all the servers above get from the command line to their loops, and what they
  close at the end. Net_Programs: the smaller servers and clients of the collection in full, and which of them leave
  descriptors open. Udp_Pair: the datagram server and client of \<open>operating_systems_three_easy_pieces/code/udp\<close>, which print and answer what
  leaves room for a final zero.

  \<^bold>\<open>Threads and processes.\<close> Ostep_Concurrency: the sloppy counter and the producer with its
  consumers of \<open>operating_systems_three_easy_pieces/code\<close>, which is right until a consumer comes out of its
  wait to an empty buffer. Shared_Mutex: a mutex in shared memory, from
  the mutex_process directory. Lock_Clients: the programs of several collections whose threads take a lock,
  work and give it back, for any number of threads; and \<open>dead_lock\<close>, which stops exactly when each thread
  holds what the other wants. Wait_Notify: programs with condition variables and an atomic flag, statement by
  statement and with wake-ups for no reason. Data_Race: the counter without a lock, the multiplication by
  compare-and-exchange, and two stores with two loads. Rw_Lock: a telephone book and a counter under a lock for
  readers and writers. Cpp_Tasks: a generator that owns a coroutine, and tasks that sum parts of a range in threads. Cpp_Futures: promises
  with one or many readers, instances made once, a task used again. Process_Pairs: a parent and a child over a pipe, a pair of
  sockets, a file that is handed over and a semaphore. File_Programs: descriptors that are copied, inherited and
  redirected, and files that are mapped. Ipc_Programs: a message queue and shared memory that earlier runs may have left.

  \<^bold>\<open>Calculators.\<close> Calc_LL: the recursive descent calculator of
  \<open>programming_language_pragmatics/code/calc_ll\<close>, which terminates on every input and computes the value
  of every expression of its grammar, up to numbers with several signs, of which \<open>scanf\<close> reads none. Calc_LL1: its LL(1) variant \<open>calc_ll_1\<close>. Fb3_Calc: the syntax trees of
  \<open>flex_and_bison/code/calc_2/fb3-1.c\<close>, on a heap, for the expressions of its grammar.

  \<^bold>\<open>Bounds and fuel.\<close> Only the two calculators use fuel, one more than the length of the input; it is
  shown to suffice (\<open>calc_terminates\<close>, \<open>ll1_correct\<close>). \<open>explore\<close> is bounded by a number of rounds; that the list it
  gives is closed under the steps, so that the bound was enough, is proved for every program it is used on. The receiving
  loop of \<open>socket/opt\<close> and the loop of the \<open>nonblock_connect\<close> server, which only the kernel ends, run for a number of rounds, and the theorem
  holds for every number. The
  walk through a \<open>seq_file\<close> is bounded by the number of devices it can show. Loops that may run for ever (the scheduler, the
  search of \<open>malloc\<close>, walks along linked lists) are partial functions into \<open>option\<close>, and the theorems say
  when they return. All other loops are total functions.

  \<^bold>\<open>Not modelled.\<close> The assembly of the Orange'S boot sector, loader and interrupt entry, which runs
  before or around the C code; of the earlier stages of that kernel the files that a later stage has unchanged;
  \<open>cond_var\<close> of the C++ collection, whose three waiters
  are the protocol of \<open>cv_norm\<close> with more states; and the many programs of the repository that
  make one system call or show one feature of the C++ library and print the result.
\<close>

end
